(* ===== verification/Prelude.thy ===== *)
theory Prelude
  imports Main "HOL-Library.Word" "HOL-Library.Monad_Syntax" "HOL-Library.Sublist"
begin

unbundle bit_operations_syntax

section \<open>Shared types, memory access and automation\<close>

text \<open>
  This theory fixes what every component of the model of \<^verbatim>\<open>pdnsd\<close> shares:
  \<^item> bytes and the machine integers of an LP64 target (\<^verbatim>\<open>unsigned char\<close>, \<^verbatim>\<open>unsigned short\<close>,
    \<^verbatim>\<open>unsigned int\<close>, \<^verbatim>\<open>unsigned long\<close>) as words;
  \<^item> reads and writes of C arrays as option-valued functions: \<^term>\<open>None\<close> stands for an access
    outside the object (undefined behaviour), so a theorem that a routine returns
    \<^term>\<open>Some x\<close> includes its memory safety;
  \<^item> ASCII case mapping as done by \<^verbatim>\<open>tolower\<close> and \<^verbatim>\<open>toupper\<close> in the C locale;
  \<^item> the collections of rewrite rules used by the component proofs.
\<close>

named_theorems mem_simps \<open>reads and writes of arrays\<close>
named_theorems flag_simps \<open>tests and updates of flag words\<close>

type_synonym byte = "8 word"
type_synonym u16 = "16 word"
type_synonym u32 = "32 word"
type_synonym u64 = "64 word"
type_synonym time_t = int

subsection \<open>Arrays\<close>

definition rd :: "'a list \<Rightarrow> nat \<Rightarrow> 'a option" where
  "rd buf i = (if i < length buf then Some (buf ! i) else None)"

definition wr :: "'a list \<Rightarrow> nat \<Rightarrow> 'a \<Rightarrow> 'a list option" where
  "wr buf i v = (if i < length buf then Some (buf[i := v]) else None)"

lemma rd_Some [mem_simps]: "i < length buf \<Longrightarrow> rd buf i = Some (buf ! i)"
  by (simp add: rd_def)

lemma rd_SomeD: "rd buf i = Some v \<Longrightarrow> i < length buf \<and> v = buf ! i"
  by (auto simp: rd_def split: if_splits)

lemma wr_Some [mem_simps]: "i < length buf \<Longrightarrow> wr buf i v = Some (buf[i := v])"
  by (simp add: wr_def)

lemma wr_length: "wr buf i v = Some buf' \<Longrightarrow> length buf' = length buf"
  by (auto simp: wr_def split: if_splits)

text \<open>A block copy (\<^verbatim>\<open>memcpy\<close>) of \<^verbatim>\<open>n\<close> bytes from the start of \<^verbatim>\<open>src\<close> to position \<^verbatim>\<open>i\<close>.\<close>

definition memcpy_at :: "'a list \<Rightarrow> nat \<Rightarrow> 'a list \<Rightarrow> nat \<Rightarrow> 'a list option" where
  "memcpy_at dst i src n =
     (if n \<le> length src \<and> i + n \<le> length dst
      then Some (take i dst @ take n src @ drop (i + n) dst) else None)"

lemma memcpy_at_length: "memcpy_at dst i src n = Some dst' \<Longrightarrow> length dst' = length dst"
  by (auto simp: memcpy_at_def split: if_splits)

lemma memcpy_at_Some [mem_simps]:
  "n \<le> length src \<Longrightarrow> i + n \<le> length dst \<Longrightarrow>
   memcpy_at dst i src n = Some (take i dst @ take n src @ drop (i + n) dst)"
  by (simp add: memcpy_at_def)

lemma take_update_Suc: "i < length xs \<Longrightarrow> take (Suc i) (xs[i := v]) = take i xs @ [v]"
  by (simp add: take_Suc_conv_app_nth take_update_cancel)

lemma split_first_eq:
  "xs @ x # ys = xs' @ x # ys' \<Longrightarrow> x \<notin> set xs \<Longrightarrow> x \<notin> set xs' \<Longrightarrow> xs = xs' \<and> ys = ys'"
proof (induction xs arbitrary: xs')
  case Nil
  then show ?case by (cases xs') auto
next
  case (Cons a xs)
  then show ?case by (cases xs') auto
qed

lemma drop_app_eq: "drop j xs = ys @ zs \<Longrightarrow> drop (j + length ys) xs = zs"
  by (metis add.commute append_eq_conv_conj drop_drop)

lemma drop_ConsD:
  assumes "drop j xs = y # ys"
  shows "rd xs j = Some y" "drop (Suc j) xs = ys" "j < length xs" "xs ! j = y"
proof -
  show j: "j < length xs" using assms by (metis drop_all linorder_not_le list.distinct(1))
  show "xs ! j = y" using assms j by (metis nth_via_drop)
  then show "rd xs j = Some y" using j by (simp add: rd_def)
  show "drop (Suc j) xs = ys" using assms by (metis drop_Suc list.sel(3) tl_drop)
qed

lemma drop_two: "Suc n < length xs \<Longrightarrow> drop n xs = xs ! n # xs ! Suc n # drop (n + 2) xs"
  by (simp add: Cons_nth_drop_Suc)

lemma nth_drop_Cons: "i < length xs \<Longrightarrow> drop i xs = xs ! i # drop (Suc i) xs"
  by (simp add: Cons_nth_drop_Suc)

subsection \<open>Bytes and characters\<close>

definition chr :: "char \<Rightarrow> byte" where
  "chr c = of_nat (of_char c)"

definition cstr :: "string \<Rightarrow> byte list" where
  "cstr s = map chr s"

lemma length_cstr [simp]: "length (cstr s) = length s"
  by (simp add: cstr_def)

lemma cstr_append [simp]: "cstr (s @ t) = cstr s @ cstr t"
  by (simp add: cstr_def)

lemma unat_byte_less [simp]: "unat (b :: byte) < 256"
  using unsigned_less [of b] by simp

lemma unat_byte_le [simp]: "unat (b :: byte) \<le> 255"
  using unat_byte_less [of b] by linarith

lemma unat_of_nat_byte [simp]: "n < 256 \<Longrightarrow> unat (of_nat n :: byte) = n"
  by (simp add: unat_of_nat)

lemma of_nat_byte_eq_0: "n < 256 \<Longrightarrow> (of_nat n :: byte) = 0 \<longleftrightarrow> n = 0"
  using unat_of_nat_byte [of n] unat_eq_zero [of "of_nat n :: byte"] by fastforce

lemma unat_eq_0_byte: "unat (b :: byte) = 0 \<longleftrightarrow> b = 0"
  by (simp add: unat_eq_zero)

text \<open>\<^verbatim>\<open>tolower\<close> and \<^verbatim>\<open>toupper\<close> of the C locale: only the 26 ASCII letters are mapped.\<close>

definition tolower :: "byte \<Rightarrow> byte" where
  "tolower c = (if 65 \<le> unat c \<and> unat c \<le> 90 then c + 32 else c)"

definition toupper :: "byte \<Rightarrow> byte" where
  "toupper c = (if 97 \<le> unat c \<and> unat c \<le> 122 then c - 32 else c)"

lemma unat_tolower: "unat (tolower c) = (if 65 \<le> unat c \<and> unat c \<le> 90 then unat c + 32 else unat c)"
  by (simp add: tolower_def unat_word_ariths)

lemma unat_toupper: "unat (toupper c) = (if 97 \<le> unat c \<and> unat c \<le> 122 then unat c - 32 else unat c)"
proof -
  have "97 \<le> unat c \<Longrightarrow> unat (c - 32) = unat c - 32"
    by (subst unat_sub) (simp_all add: word_le_nat_alt)
  then show ?thesis by (simp add: toupper_def)
qed

lemma tolower_eq_iff_toupper_eq: "tolower a = tolower b \<longleftrightarrow> toupper a = toupper b"
proof -
  have "(unat (tolower a) = unat (tolower b)) = (unat (toupper a) = unat (toupper b))"
    unfolding unat_tolower unat_toupper by auto
  then show ?thesis by (simp only: word_unat_eq_iff)
qed

lemma tolower_idem [simp]: "tolower (tolower c) = tolower c"
proof -
  have "unat (tolower (tolower c)) = unat (tolower c)"
    by (auto simp: unat_tolower)
  then show ?thesis by (simp only: word_unat_eq_iff)
qed

lemma tolower_0_iff [simp]: "tolower c = 0 \<longleftrightarrow> c = 0"
proof -
  have "unat (tolower c) = 0 \<longleftrightarrow> unat c = 0"
    by (auto simp: unat_tolower)
  then show ?thesis by (simp add: unat_eq_zero)
qed

text \<open>Equality of byte strings up to ASCII case.\<close>

definition ci_eq :: "byte list \<Rightarrow> byte list \<Rightarrow> bool" where
  "ci_eq a b \<longleftrightarrow> map tolower a = map tolower b"

lemma ci_eq_refl [simp, intro!]: "ci_eq a a"
  by (simp add: ci_eq_def)

lemma ci_eq_sym: "ci_eq a b \<Longrightarrow> ci_eq b a"
  by (simp add: ci_eq_def)

lemma ci_eq_trans [trans]: "ci_eq a b \<Longrightarrow> ci_eq b c \<Longrightarrow> ci_eq a c"
  by (simp add: ci_eq_def)

lemma ci_eq_length: "ci_eq a b \<Longrightarrow> length a = length b"
  unfolding ci_eq_def by (metis length_map)

lemma ci_eq_Nil [simp]: "ci_eq [] b \<longleftrightarrow> b = []" "ci_eq a [] \<longleftrightarrow> a = []"
  by (auto simp: ci_eq_def)

lemma ci_eq_Cons [simp]: "ci_eq (x # a) (y # b) \<longleftrightarrow> tolower x = tolower y \<and> ci_eq a b"
  by (simp add: ci_eq_def)

lemma ci_eq_append: "length a = length b \<Longrightarrow> ci_eq (a @ c) (b @ d) \<longleftrightarrow> ci_eq a b \<and> ci_eq c d"
  by (simp add: ci_eq_def)

subsection \<open>Flag words\<close>

text \<open>\<open>fset f m\<close> is the C test \<^verbatim>\<open>f & m\<close>.\<close>

definition fset :: "u16 \<Rightarrow> u16 \<Rightarrow> bool" where
  "fset f m \<longleftrightarrow> f AND m \<noteq> 0"

lemma fset_bit:
  assumes "n < 16"
  shows "fset f (push_bit n 1) \<longleftrightarrow> bit f n"
proof -
  have "f AND push_bit n 1 = (if bit f n then push_bit n 1 else 0)"
    using assms by (intro bit_word_eqI) (auto simp: bit_simps)
  moreover have "push_bit n (1 :: u16) \<noteq> 0"
    using assms by simp
  ultimately have "f AND push_bit n 1 = 0 \<longleftrightarrow> \<not> bit f n" by simp
  then show ?thesis by (simp add: fset_def)
qed

subsection \<open>Masks and two-byte integers\<close>

lemma mask_consts: "(0x3f :: u32) = mask 6" "(0xff :: u32) = mask 8" "(0x3f00 :: u32) = push_bit 8 (mask 6)"
  by (simp_all add: mask_eq_exp_minus_1)

lemma unat_take_bit: "unat (take_bit n (x :: 'a::len word)) = take_bit n (unat x)"
  by (rule unsigned_take_bit_eq)

lemma and_63_mod: "unat ((x :: u32) AND 0x3f) = unat x mod 64"
  unfolding mask_consts take_bit_eq_mask [symmetric] unat_take_bit by (simp add: take_bit_eq_mod)

lemma and_255_mod: "unat ((x :: u32) AND 0xff) = unat x mod 256"
  unfolding mask_consts take_bit_eq_mask [symmetric] unat_take_bit by (simp add: take_bit_eq_mod)

lemma hi_bits: "drop_bit 8 ((x :: u32) AND 0x3f00) = take_bit 6 (drop_bit 8 x)"
  unfolding mask_consts
  by (rule bit_word_eqI) (auto simp: bit_simps ac_simps)

lemma unat_ucast_byte: "unat (ucast (b :: byte) :: u32) = unat b"
  by (simp add: unsigned_ucast_eq take_bit_eq_mod less_trans [OF unsigned_less])

lemma unat_ucast_to_byte: "unat (ucast (x :: u32) :: byte) = unat x mod 256"
  by (simp add: unsigned_ucast_eq take_bit_eq_mod)

lemma or_shift: 
  assumes "unat b < 2 ^ n"
  shows "(push_bit n x :: u32) OR b = push_bit n x + b"
proof -
  have "b = take_bit n b" using assms
    by (metis unat_take_bit take_bit_nat_eq_self word_unat_eq_iff)
  then have "push_bit n x AND b = 0"
    by (metis (no_types, opaque_lifting) bit_and_iff bit_eqI bit_push_bit_iff bit_take_bit_iff bit_0_eq bot_apply bot_bool_def linorder_not_le zero_and_eq)
  then show ?thesis by (simp add: disjunctive_add_eq_or)
qed

lemma or_byte: "unat (push_bit 8 (x AND 0x3f) OR ucast b :: u32) = (unat x mod 64) * 256 + unat (b :: byte)"
proof -
  have "unat (ucast b :: u32) < 2 ^ 8" using unsigned_less [of b] by (simp add: unat_ucast_byte)
  from or_shift [OF this] have eq: "push_bit 8 (x AND 0x3f) OR (ucast b :: u32) = push_bit 8 (x AND 0x3f) + ucast b" .
  have "unat (push_bit 8 (x AND 0x3f) :: u32) = take_bit 32 (push_bit 8 (unat (x AND 0x3f)))"
    by (simp only: unsigned_push_bit_eq) simp
  moreover have "push_bit 8 (unat (x AND 0x3f)) = (unat x mod 64) * 256"
    unfolding and_63_mod by (simp add: push_bit_eq_mult)
  moreover have "take_bit 32 (unat x mod 64 * 256) = unat x mod 64 * 256"
    by (rule take_bit_nat_eq_self) simp
  ultimately have p: "unat (push_bit 8 (x AND 0x3f) :: u32) = (unat x mod 64) * 256" by metis
  have b: "unat b < 256" using unsigned_less [of b] by simp
  have "unat x mod 64 \<le> 63" by simp
  then have "(unat x mod 64) * 256 + unat b < 4294967296" using b by linarith
  then show ?thesis unfolding eq unat_word_ariths p unat_ucast_byte by simp
qed

lemma or_c0: "unat (0xc0 OR drop_bit 8 ((x :: u32) AND 0x3f00)) = 192 + unat x div 256 mod 64"
proof -
  have "unat x mod 4294967296 = unat x" 
    by (rule mod_less) (rule order_less_le_trans [OF unsigned_less], simp)
  then have d: "unat (take_bit 6 (drop_bit 8 x)) = unat x div 256 mod 64"
    unfolding unat_take_bit unsigned_drop_bit_eq by (simp add: take_bit_eq_mod drop_bit_eq_div)
  then have "unat (take_bit 6 (drop_bit 8 x)) < 2 ^ 6" by simp
  from or_shift [OF this, of "mask 2"] have "push_bit 6 (mask 2) OR take_bit 6 (drop_bit 8 x) = push_bit 6 (mask 2) + take_bit 6 (drop_bit 8 x)" .
  moreover have "(0xc0 :: u32) = push_bit 6 (mask 2)" by (simp add: mask_eq_exp_minus_1)
  ultimately have "0xc0 OR drop_bit 8 (x AND 0x3f00) = 0xc0 + take_bit 6 (drop_bit 8 x)"
    unfolding hi_bits by metis
  moreover have "unat x div 256 mod 64 \<le> 63" by simp
  ultimately show ?thesis by (simp add: unat_word_ariths d)
qed

subsection \<open>Sequencing of steps that may fail\<close>

text \<open>
  The bodies below are written with the option monad. The congruence rule lets the
  termination proofs of loops use what the steps before the recursive call returned.
\<close>

declare Option.bind_cong [fundef_cong]

lemma bind_eq_SomeE:
  assumes "Option.bind m f = Some y"
  obtains x where "m = Some x" and "f x = Some y"
  using assms by (cases m) auto

text \<open>
  A failed \<^verbatim>\<open>PDNSD_ASSERT\<close> logs a message and ends the process
  (\<^verbatim>\<open>pdnsd_exit\<close>): the step has no result.
\<close>

definition pdnsd_assert :: "bool \<Rightarrow> unit option" where
  "pdnsd_assert c = (if c then Some () else None)"

lemma pdnsd_assert_True [simp]: "pdnsd_assert True = Some ()"
  by (simp add: pdnsd_assert_def)

lemma pdnsd_assert_holds [simp]: "c \<Longrightarrow> pdnsd_assert c = Some ()"
  by simp

lemma pdnsd_assert_eq_Some [simp]: "pdnsd_assert c = Some u \<longleftrightarrow> c"
  by (simp add: pdnsd_assert_def)

subsection \<open>Formatted output into a buffer\<close>

text \<open>
  \<^verbatim>\<open>snprintf(buf+j, rem, ...)\<close> where the formatted text is \<^verbatim>\<open>t\<close>: at most \<open>rem - 1\<close>
  characters and a terminating null byte are stored, and the length of the full text is
  returned.
\<close>

definition snprintf_at :: "byte list \<Rightarrow> nat \<Rightarrow> nat \<Rightarrow> byte list \<Rightarrow> (nat \<times> byte list) option" where
  "snprintf_at buf j rem t =
     (if rem = 0 then Some (length t, buf)
      else do { buf' \<leftarrow> memcpy_at buf j (take (rem - 1) t @ [0]) (min (rem - 1) (length t) + 1);
                Some (length t, buf') })"

lemma snprintf_at_fits:
  assumes "length t < rem" and "j + rem \<le> length buf"
  shows "snprintf_at buf j rem t = Some (length t, take j buf @ t @ 0 # drop (j + length t + 1) buf)"
proof -
  have "min (rem - 1) (length t) = length t" "rem \<noteq> 0" "take (rem - 1) t = t"
    using assms(1) by auto
  then show ?thesis using assms by (simp add: snprintf_at_def memcpy_at_def)
qed

lemma snprintf_at_defined:
  assumes "j + rem \<le> length buf"
  shows "\<exists>buf'. snprintf_at buf j rem t = Some (length t, buf') \<and> length buf' = length buf"
  using assms by (auto simp: snprintf_at_def memcpy_at_def min_def)

end
