(* ===== verification/Cache_Lock.thy ===== *)
theory Cache_Lock
  imports Prelude
begin

section \<open>The read/write lock of the cache (cache.c)\<close>

text \<open>
  The lock variables, the operations on them between taking and releasing \<^verbatim>\<open>lock_mutex\<close>, and the
  threads that use them as a step relation. A step is one passage through the mutex, so the steps
  are atomic; a thread that waits on a condition variable is asleep until it is signalled, times
  out or wakes up spuriously, and then evaluates the condition of its loop again.
\<close>

subsection \<open>The operations\<close>

record lk =
  use_cache_lock :: bool
  cache_w_lock :: bool
  cache_r_lock :: int
  r_pend :: int
  rw_pend :: int
  r_susp :: bool

definition SUSP_THRESH :: "int \<Rightarrow> int" where
  "SUSP_THRESH rp = rp div 2 + 2"

text \<open>What is done with the condition variables at the end of an operation.\<close>

datatype wake = NoWake | SignalRW | BroadcastR

text \<open>
  The condition of the loop in \<^verbatim>\<open>lock_cache_r\<close>, which may set \<^verbatim>\<open>r_susp\<close>, and one passage through
  that loop: \<^term>\<open>False\<close> means that the thread waits on \<^verbatim>\<open>r_cond\<close>.
\<close>

definition r_blocked :: "lk \<Rightarrow> bool \<times> lk" where
  "r_blocked s =
     (let s = (if rw_pend s > SUSP_THRESH (r_pend s) then s\<lparr>r_susp := True\<rparr> else s)
      in (r_susp s \<or> cache_w_lock s, s))"

definition lock_cache_r_turn :: "lk \<Rightarrow> bool \<times> lk" where
  "lock_cache_r_turn s =
     (let (blocked, s) = r_blocked s
      in if blocked then (False, s)
         else (True, s\<lparr>cache_r_lock := cache_r_lock s + 1, r_pend := r_pend s - 1\<rparr>))"

definition lock_cache_r :: "lk \<Rightarrow> bool \<times> lk" where
  "lock_cache_r s =
     (if \<not> use_cache_lock s then (True, s) else lock_cache_r_turn (s\<lparr>r_pend := r_pend s + 1\<rparr>))"

definition unlock_cache_r :: "lk \<Rightarrow> lk \<times> wake" where
  "unlock_cache_r s =
     (if \<not> use_cache_lock s then (s, NoWake)
      else let s = (if cache_r_lock s > 0 then s\<lparr>cache_r_lock := cache_r_lock s - 1\<rparr> else s)
           in (s, if cache_r_lock s = 0 then SignalRW else NoWake))"

text \<open>The loop of \<^verbatim>\<open>lock_cache_rw\<close>, \<^verbatim>\<open>timedlock_cache_rw\<close> and \<^verbatim>\<open>yield_lock_cache_rw\<close>.\<close>

definition lock_cache_rw_turn :: "lk \<Rightarrow> bool \<times> lk" where
  "lock_cache_rw_turn s =
     (if cache_w_lock s \<or> cache_r_lock s \<noteq> 0 then (False, s)
      else (True, s\<lparr>cache_w_lock := True, rw_pend := rw_pend s - 1\<rparr>))"

definition lock_cache_rw :: "lk \<Rightarrow> bool \<times> lk" where
  "lock_cache_rw s =
     (if \<not> use_cache_lock s then (True, s) else lock_cache_rw_turn (s\<lparr>rw_pend := rw_pend s + 1\<rparr>))"

text \<open>
  \<^verbatim>\<open>timedlock_cache_rw\<close> up to its first wait; \<^term>\<open>None\<close>: it returns 0 because there is no lock.
  After a time-out only the clean-up is done.
\<close>

definition timedlock_cache_rw :: "lk \<Rightarrow> bool option \<times> lk" where
  "timedlock_cache_rw s =
     (if \<not> use_cache_lock s then (None, s)
      else let (ok, s) = lock_cache_rw_turn (s\<lparr>rw_pend := rw_pend s + 1\<rparr>) in (Some ok, s))"

definition timedlock_cleanup :: "lk \<Rightarrow> lk" where
  "timedlock_cleanup s = s\<lparr>rw_pend := rw_pend s - 1\<rparr>"

definition release_rw :: "lk \<Rightarrow> lk \<times> wake" where
  "release_rw s =
     (let s = s\<lparr>cache_w_lock := False, r_susp := False\<rparr>
      in (s, if r_pend s = 0 \<or> rw_pend s > SUSP_THRESH (r_pend s) then SignalRW else BroadcastR))"

definition unlock_cache_rw :: "lk \<Rightarrow> lk \<times> wake" where
  "unlock_cache_rw s = (if \<not> use_cache_lock s then (s, NoWake) else release_rw s)"

text \<open>
  \<^verbatim>\<open>yield_lock_cache_rw\<close> has three parts: the test without the mutex, giving the lock up, and taking
  it again after the pause.
\<close>

definition yield_wanted :: "lk \<Rightarrow> bool" where
  "yield_wanted s \<longleftrightarrow> \<not> (\<not> use_cache_lock s \<or> (r_pend s = 0 \<and> rw_pend s = 0))"

definition yield_relock :: "lk \<Rightarrow> bool \<times> lk" where
  "yield_relock s = lock_cache_rw_turn (s\<lparr>rw_pend := rw_pend s + 1\<rparr>)"

text \<open>
  The soft locks try at most \<^verbatim>\<open>SOFTLOCK_MAXTRIES\<close> times. The list holds what the thread meets at
  its trials: \<^term>\<open>None\<close> when \<^verbatim>\<open>softlock_mutex\<close> does not get the mutex, otherwise the lock
  variables at that moment. The result is the return value and, where it changes them, the variables.
\<close>

definition SOFTLOCK_MAXTRIES :: nat where "SOFTLOCK_MAXTRIES = 1000"

fun softlock_mutex :: "nat \<Rightarrow> bool list \<Rightarrow> bool" where
  \<comment> \<open>the outcomes of \<^verbatim>\<open>pthread_mutex_trylock\<close>, true for success\<close>
  "softlock_mutex tr [] = False"
| "softlock_mutex tr (ok # oks) =
     (if ok then True
      else if tr + 1 \<ge> SOFTLOCK_MAXTRIES then False
      else softlock_mutex (tr + 1) oks)"

fun softlock_loop :: "(lk \<Rightarrow> lk option) \<Rightarrow> nat \<Rightarrow> lk option list \<Rightarrow> (bool \<times> lk option)" where
  "softlock_loop get tr [] = (False, None)"
| "softlock_loop get tr (None # obs) = (False, None)"
| "softlock_loop get tr (Some s # obs) =
     (case get s of
        Some s' \<Rightarrow> (True, Some s')
      | None \<Rightarrow> if tr + 1 \<ge> SOFTLOCK_MAXTRIES then (False, None) else softlock_loop get (tr + 1) obs)"

definition soft_get_r :: "lk \<Rightarrow> lk option" where
  "soft_get_r s = (if \<not> cache_w_lock s then Some (s\<lparr>cache_r_lock := cache_r_lock s + 1\<rparr>) else None)"

definition softlock_cache_r :: "bool \<Rightarrow> lk option list \<Rightarrow> bool \<times> lk option" where
  "softlock_cache_r use obs = (if \<not> use then (False, None) else softlock_loop soft_get_r 0 obs)"

definition softunlock_cache_r :: "lk \<Rightarrow> bool \<Rightarrow> bool \<times> lk" where
  "softunlock_cache_r s mutex =
     (if \<not> use_cache_lock s then (False, s)
      else if \<not> mutex then (False, s)
      else (True, if cache_r_lock s > 0 then s\<lparr>cache_r_lock := cache_r_lock s - 1\<rparr> else s))"

definition soft_get_rw :: "lk \<Rightarrow> lk option" where
  "soft_get_rw s =
     (if \<not> (cache_w_lock s \<or> cache_r_lock s \<noteq> 0) then Some (s\<lparr>cache_w_lock := True\<rparr>) else None)"

definition softlock_cache_rw :: "bool \<Rightarrow> lk option list \<Rightarrow> bool \<times> lk option" where
  "softlock_cache_rw use obs = (if \<not> use then (False, None) else softlock_loop soft_get_rw 0 obs)"

definition softunlock_cache_rw :: "lk \<Rightarrow> bool \<Rightarrow> bool \<times> lk" where
  "softunlock_cache_rw s mutex =
     (if \<not> use_cache_lock s then (False, s)
      else if \<not> mutex then (False, s)
      else (True, s\<lparr>cache_w_lock := False\<rparr>))"

subsection \<open>The threads\<close>

text \<open>
  Where a thread is: asleep on a condition variable, awake and about to take the mutex, holding the
  lock, or in one of the stages of \<^verbatim>\<open>yield_lock_cache_rw\<close>. The flag of a waiting writer says that it
  came through \<^verbatim>\<open>timedlock_cache_rw\<close>.
\<close>

datatype phase = Idle | RAsleep | RAwake | Reading | WAsleep bool | WAwake bool | WExpired | Writing
  | YieldGo | YieldSleep

record lock_sys =
  lv :: lk
  thr :: "phase list"

text \<open>
  Only the status thread, number 0, empties the cache and so uses the timed lock.
\<close>

definition status_thread :: nat where "status_thread = 0"

fun wake_r :: "phase \<Rightarrow> phase" where
  "wake_r RAsleep = RAwake"
| "wake_r p = p"

text \<open>The effect of \<^verbatim>\<open>pthread_cond_signal\<close> and \<^verbatim>\<open>pthread_cond_broadcast\<close> on the threads.\<close>

inductive woken :: "wake \<Rightarrow> phase list \<Rightarrow> phase list \<Rightarrow> bool" where
  nobody: "woken NoWake t t"
| no_sleeper: "(\<And>b. WAsleep b \<notin> set t) \<Longrightarrow> woken SignalRW t t"
| one: "i < length t \<Longrightarrow> t ! i = WAsleep b \<Longrightarrow> woken SignalRW t (t[i := WAwake b])"
| everyone: "woken BroadcastR t (map wake_r t)"

inductive lock_step :: "lock_sys \<Rightarrow> lock_sys \<Rightarrow> bool" where
  rlock: "i < length (thr s) \<Longrightarrow> thr s ! i = Idle \<Longrightarrow> lock_cache_r (lv s) = (ok, l) \<Longrightarrow>
    lock_step s \<lparr>lv = l, thr = (thr s)[i := if ok then Reading else RAsleep]\<rparr>"
| rlock_again: "i < length (thr s) \<Longrightarrow> thr s ! i = RAwake \<Longrightarrow> lock_cache_r_turn (lv s) = (ok, l) \<Longrightarrow>
    lock_step s \<lparr>lv = l, thr = (thr s)[i := if ok then Reading else RAsleep]\<rparr>"
| runlock: "i < length (thr s) \<Longrightarrow> thr s ! i = Reading \<Longrightarrow> unlock_cache_r (lv s) = (l, w) \<Longrightarrow>
    woken w ((thr s)[i := Idle]) t \<Longrightarrow> lock_step s \<lparr>lv = l, thr = t\<rparr>"
| wlock: "i < length (thr s) \<Longrightarrow> thr s ! i = Idle \<Longrightarrow> lock_cache_rw (lv s) = (ok, l) \<Longrightarrow>
    lock_step s \<lparr>lv = l, thr = (thr s)[i := if ok then Writing else WAsleep False]\<rparr>"
| wlock_timed: "status_thread < length (thr s) \<Longrightarrow> thr s ! status_thread = Idle \<Longrightarrow>
    timedlock_cache_rw (lv s) = (Some ok, l) \<Longrightarrow>
    lock_step s \<lparr>lv = l, thr = (thr s)[status_thread := if ok then Writing else WAsleep True]\<rparr>"
| wlock_again: "i < length (thr s) \<Longrightarrow> thr s ! i = WAwake b \<Longrightarrow> lock_cache_rw_turn (lv s) = (ok, l) \<Longrightarrow>
    lock_step s \<lparr>lv = l, thr = (thr s)[i := if ok then Writing else WAsleep b]\<rparr>"
| expire: "i < length (thr s) \<Longrightarrow> thr s ! i = WAsleep True \<Longrightarrow>
    lock_step s \<lparr>lv = lv s, thr = (thr s)[i := WExpired]\<rparr>"
| give_up: "i < length (thr s) \<Longrightarrow> thr s ! i = WExpired \<Longrightarrow>
    lock_step s \<lparr>lv = timedlock_cleanup (lv s), thr = (thr s)[i := Idle]\<rparr>"
| wunlock: "i < length (thr s) \<Longrightarrow> thr s ! i = Writing \<Longrightarrow> unlock_cache_rw (lv s) = (l, w) \<Longrightarrow>
    woken w ((thr s)[i := Idle]) t \<Longrightarrow> lock_step s \<lparr>lv = l, thr = t\<rparr>"
| yield_test: "i < length (thr s) \<Longrightarrow> thr s ! i = Writing \<Longrightarrow> yield_wanted (lv s) \<Longrightarrow>
    lock_step s \<lparr>lv = lv s, thr = (thr s)[i := YieldGo]\<rparr>"
| yield_release: "i < length (thr s) \<Longrightarrow> thr s ! i = YieldGo \<Longrightarrow> release_rw (lv s) = (l, w) \<Longrightarrow>
    woken w ((thr s)[i := YieldSleep]) t \<Longrightarrow> lock_step s \<lparr>lv = l, thr = t\<rparr>"
| yield_again: "i < length (thr s) \<Longrightarrow> thr s ! i = YieldSleep \<Longrightarrow> yield_relock (lv s) = (ok, l) \<Longrightarrow>
    lock_step s \<lparr>lv = l, thr = (thr s)[i := if ok then Writing else WAsleep False]\<rparr>"
| spurious_r: "i < length (thr s) \<Longrightarrow> thr s ! i = RAsleep \<Longrightarrow>
    lock_step s \<lparr>lv = lv s, thr = (thr s)[i := RAwake]\<rparr>"
| spurious_rw: "i < length (thr s) \<Longrightarrow> thr s ! i = WAsleep b \<Longrightarrow>
    lock_step s \<lparr>lv = lv s, thr = (thr s)[i := WAwake b]\<rparr>"

text \<open>The steps through the soft locks, taken when pdnsd exits.\<close>

inductive soft_step :: "lock_sys \<Rightarrow> lock_sys \<Rightarrow> bool" where
  soft_read: "i < length (thr s) \<Longrightarrow> thr s ! i = Idle \<Longrightarrow> softlock_cache_r True [Some (lv s)] = (True, Some l) \<Longrightarrow>
    soft_step s \<lparr>lv = l, thr = (thr s)[i := Reading]\<rparr>"
| soft_unread: "i < length (thr s) \<Longrightarrow> thr s ! i = Reading \<Longrightarrow> softunlock_cache_r (lv s) True = (True, l) \<Longrightarrow>
    soft_step s \<lparr>lv = l, thr = (thr s)[i := Idle]\<rparr>"
| soft_write: "i < length (thr s) \<Longrightarrow> thr s ! i = Idle \<Longrightarrow> softlock_cache_rw True [Some (lv s)] = (True, Some l) \<Longrightarrow>
    soft_step s \<lparr>lv = l, thr = (thr s)[i := Writing]\<rparr>"
| soft_unwrite: "i < length (thr s) \<Longrightarrow> thr s ! i = Writing \<Longrightarrow> softunlock_cache_rw (lv s) True = (True, l) \<Longrightarrow>
    soft_step s \<lparr>lv = l, thr = (thr s)[i := Idle]\<rparr>"

definition init_lk :: lk where
  "init_lk = \<lparr>use_cache_lock = True, cache_w_lock = False, cache_r_lock = 0, r_pend = 0, rw_pend = 0,
     r_susp = False\<rparr>"

definition init_sys :: "nat \<Rightarrow> lock_sys" where
  "init_sys n = \<lparr>lv = init_lk, thr = replicate n Idle\<rparr>"

inductive_cases woken_NoWakeE [elim!]: "woken NoWake t t'"
inductive_cases woken_SignalRWE: "woken SignalRW t t'"
inductive_cases woken_BroadcastRE [elim!]: "woken BroadcastR t t'"
inductive_simps woken_NoWake [simp]: "woken NoWake t t'"
inductive_simps woken_BroadcastR [simp]: "woken BroadcastR t t'"

subsection \<open>Counting threads\<close>

definition cnt :: "(phase \<Rightarrow> bool) \<Rightarrow> phase list \<Rightarrow> int" where
  "cnt P t = int (length (filter P t))"

lemma cnt_Nil [simp]: "cnt P [] = 0"
  and cnt_Cons [simp]: "cnt P (p # t) = of_bool (P p) + cnt P t"
  by (simp_all add: cnt_def)

lemma cnt_nonneg [simp]: "0 \<le> cnt P t"
  by (simp add: cnt_def)

lemma cnt_update: "i < length t \<Longrightarrow> cnt P (t[i := p]) = cnt P t + of_bool (P p) - of_bool (P (t ! i))"
  by (induction t arbitrary: i) (auto split: nat.splits)

lemma cnt_pos: "0 < cnt P t \<longleftrightarrow> (\<exists>i<length t. P (t ! i))"
  by (simp add: cnt_def filter_empty_conv) (metis in_set_conv_nth)

lemma cnt_at: "i < length t \<Longrightarrow> P (t ! i) \<Longrightarrow> 1 \<le> cnt P t"
  using cnt_pos [of P t] by auto

lemma cnt_two:
  "i < length t \<Longrightarrow> j < length t \<Longrightarrow> i \<noteq> j \<Longrightarrow> P (t ! i) \<Longrightarrow> P (t ! j) \<Longrightarrow> 2 \<le> cnt P t"
proof (induction t arbitrary: i j)
  case (Cons p t)
  then show ?case
    using cnt_at [of "i - 1" t P] cnt_at [of "j - 1" t P] by (cases i; cases j) auto
qed simp

lemma cnt_le: "(\<And>p. P p \<Longrightarrow> Q p) \<Longrightarrow> cnt P t \<le> cnt Q t"
  by (induction t) auto

lemma cnt_split: "(\<And>p. of_bool (P p) = (of_bool (Q p) + of_bool (R p) :: int)) \<Longrightarrow> cnt P t = cnt Q t + cnt R t"
  by (induction t) auto

lemma cnt_map: "cnt P (map f t) = cnt (\<lambda>p. P (f p)) t"
  by (induction t) auto

fun is_r_pending :: "phase \<Rightarrow> bool" where
  "is_r_pending RAsleep = True" | "is_r_pending RAwake = True" | "is_r_pending _ = False"

fun w_asleep :: "phase \<Rightarrow> bool" where
  "w_asleep (WAsleep b) = True" | "w_asleep _ = False"

fun w_awake :: "phase \<Rightarrow> bool" where
  "w_awake (WAwake b) = True" | "w_awake _ = False"

fun w_untimed :: "phase \<Rightarrow> bool" where
  "w_untimed (WAsleep b) = (\<not> b)" | "w_untimed (WAwake b) = (\<not> b)" | "w_untimed _ = False"

fun w_timed :: "phase \<Rightarrow> bool" where
  "w_timed (WAsleep b) = b" | "w_timed (WAwake b) = b" | "w_timed WExpired = True" | "w_timed _ = False"

definition is_rw_pending :: "phase \<Rightarrow> bool" where
  "is_rw_pending p \<longleftrightarrow> w_untimed p \<or> w_timed p"

fun is_writing :: "phase \<Rightarrow> bool" where
  "is_writing Writing = True" | "is_writing YieldGo = True" | "is_writing _ = False"

lemma woken_cnt:
  assumes "woken w t t'" "\<And>b. P (WAwake b) = P (WAsleep b)" "P RAwake = P RAsleep"
  shows "cnt P t' = cnt P t"
  using assms(1)
proof cases
  case everyone
  have "P (wake_r p) = P p" for p using assms(3) by (cases p) auto
  then show ?thesis by (simp add: everyone cnt_map)
qed (auto simp: cnt_update assms(2))

lemma woken_length: "woken w t t' \<Longrightarrow> length t' = length t"
  by (cases rule: woken.cases) auto

lemma woken_SignalRW_cnt:
  assumes "woken SignalRW t t'"
  shows "0 < cnt w_asleep t \<Longrightarrow> 0 < cnt w_awake t'" "cnt ((=) RAsleep) t' = cnt ((=) RAsleep) t"
    "cnt ((=) RAwake) t' = cnt ((=) RAwake) t" "cnt w_asleep t' \<le> cnt w_asleep t"
  using assms
  by (auto elim!: woken_SignalRWE simp: cnt_update cnt_pos in_set_conv_nth add_nonneg_pos elim: w_asleep.elims)

subsection \<open>Mutual exclusion\<close>

definition lock_inv :: "lock_sys \<Rightarrow> bool" where
  "lock_inv s \<longleftrightarrow>
     use_cache_lock (lv s) \<and>
     cache_r_lock (lv s) = cnt ((=) Reading) (thr s) \<and>
     of_bool (cache_w_lock (lv s)) = cnt is_writing (thr s) \<and>
     (cache_w_lock (lv s) \<longrightarrow> cache_r_lock (lv s) = 0) \<and>
     r_pend (lv s) = cnt is_r_pending (thr s) \<and>
     rw_pend (lv s) = cnt is_rw_pending (thr s)"

lemmas lock_ops = lock_cache_r_def lock_cache_r_turn_def r_blocked_def unlock_cache_r_def lock_cache_rw_def
  lock_cache_rw_turn_def timedlock_cache_rw_def timedlock_cleanup_def release_rw_def unlock_cache_rw_def
  yield_relock_def softlock_cache_r_def softlock_cache_rw_def soft_get_r_def soft_get_rw_def
  softunlock_cache_r_def softunlock_cache_rw_def Let_def

lemma lock_inv_init: "lock_inv (init_sys n)"
  by (simp add: lock_inv_def init_sys_def init_lk_def cnt_def is_rw_pending_def)

lemma lock_inv_woken:
  assumes "woken w t t'" shows "lock_inv \<lparr>lv = l, thr = t'\<rparr> \<longleftrightarrow> lock_inv \<lparr>lv = l, thr = t\<rparr>"
  using woken_cnt [OF assms, of "(=) Reading"] woken_cnt [OF assms, of is_writing]
    woken_cnt [OF assms, of is_r_pending] woken_cnt [OF assms, of is_rw_pending]
  by (simp add: lock_inv_def is_rw_pending_def)

text \<open>
  Moving one thread from a phase that does not wait to another: what the invariant asks of the
  new variables, given it held of the old ones.
\<close>

lemma lock_inv_move:
  assumes "lock_inv s" "i < length (thr s)" "use_cache_lock l"
    "cache_r_lock l = cache_r_lock (lv s) + of_bool (p = Reading) - of_bool (thr s ! i = Reading)"
    "of_bool (cache_w_lock l) = of_bool (cache_w_lock (lv s)) + of_bool (is_writing p) - (of_bool (is_writing (thr s ! i)) :: int)"
    "cache_w_lock l \<longrightarrow> cache_r_lock l = 0"
    "r_pend l = r_pend (lv s) + of_bool (is_r_pending p) - of_bool (is_r_pending (thr s ! i))"
    "rw_pend l = rw_pend (lv s) + of_bool (is_rw_pending p) - of_bool (is_rw_pending (thr s ! i))"
  shows "lock_inv \<lparr>lv = l, thr = (thr s)[i := p]\<rparr>"
  using assms by (auto simp: lock_inv_def cnt_update eq_commute [of Reading])

lemma reader_excludes:
  assumes "lock_inv s" "i < length (thr s)" "thr s ! i = Reading"
  shows "1 \<le> cache_r_lock (lv s)" "\<not> cache_w_lock (lv s)"
  using assms cnt_at [of i "thr s" "(=) Reading"] by (auto simp: lock_inv_def)

lemma writer_excludes:
  assumes "lock_inv s" "i < length (thr s)" "is_writing (thr s ! i)"
  shows "cache_w_lock (lv s)" "cache_r_lock (lv s) = 0"
  using assms cnt_at [of i "thr s" is_writing] by (cases "cache_w_lock (lv s)"; auto simp: lock_inv_def)+

lemma lock_inv_step: "lock_step s s' \<Longrightarrow> lock_inv s \<Longrightarrow> lock_inv s'"
proof (induction rule: lock_step.induct)
  case (runlock i s l w t)
  note reader_excludes [OF runlock(5,1,2)]
  with runlock show ?case
    by (subst lock_inv_woken [OF runlock(4)], intro lock_inv_move)
      (auto simp: lock_inv_def lock_ops is_rw_pending_def split: if_splits)
next
  case (wunlock i s l w t)
  with writer_excludes [OF wunlock(5,1)] show ?case
    by (subst lock_inv_woken [OF wunlock(4)], intro lock_inv_move)
      (auto simp: lock_inv_def lock_ops is_rw_pending_def split: if_splits)
next
  case (yield_release i s l w t)
  with writer_excludes [OF yield_release(5,1)] show ?case
    by (subst lock_inv_woken [OF yield_release(4)], intro lock_inv_move)
      (auto simp: lock_inv_def lock_ops is_rw_pending_def split: if_splits)
next
  case (yield_test i s)
  with writer_excludes [OF yield_test(4,1)] show ?case
    by (intro lock_inv_move) (auto simp: lock_inv_def is_rw_pending_def)
qed ((intro lock_inv_move; (assumption | (auto simp: lock_inv_def lock_ops is_rw_pending_def split: if_splits; fail)))+)

lemma soft_inv_step: "soft_step s s' \<Longrightarrow> lock_inv s \<Longrightarrow> lock_inv s'"
proof (induction rule: soft_step.induct)
  case (soft_unread i s l)
  note reader_excludes [OF soft_unread(4,1,2)]
  with soft_unread show ?case
    by (intro lock_inv_move) (auto simp: lock_inv_def lock_ops is_rw_pending_def split: if_splits)
next
  case (soft_unwrite i s l)
  with writer_excludes [OF soft_unwrite(4,1)] show ?case
    by (intro lock_inv_move) (auto simp: lock_inv_def lock_ops is_rw_pending_def split: if_splits)
qed ((intro lock_inv_move; (assumption | (auto simp: lock_inv_def lock_ops is_rw_pending_def split: if_splits; fail)))+)

definition any_step :: "lock_sys \<Rightarrow> lock_sys \<Rightarrow> bool" where
  "any_step s s' \<longleftrightarrow> lock_step s s' \<or> soft_step s s'"

lemma any_step_inv: "any_step\<^sup>*\<^sup>* (init_sys n) s \<Longrightarrow> lock_inv s"
  by (induction rule: rtranclp_induct) (auto simp: any_step_def lock_inv_init intro: lock_inv_step soft_inv_step)

text \<open>
  C34: the cache lock excludes: in every state that any number of threads can reach by locking,
  unlocking, yielding, timing out, waking up spuriously and soft locking, a thread that holds the lock for
  writing is the only one that holds it; the reader count is the number of threads that read, and
  the two numbers of pending threads are the numbers of threads that wait.
\<close>

theorem cache_lock_excludes:
  assumes "any_step\<^sup>*\<^sup>* (init_sys n) s"
  shows "(\<forall>i j. i < length (thr s) \<and> j < length (thr s) \<and> i \<noteq> j \<and> is_writing (thr s ! i) \<longrightarrow>
       \<not> is_writing (thr s ! j) \<and> thr s ! j \<noteq> Reading) \<and>
     cache_r_lock (lv s) = cnt ((=) Reading) (thr s) \<and> r_pend (lv s) = cnt is_r_pending (thr s) \<and>
     rw_pend (lv s) = cnt is_rw_pending (thr s)"
proof -
  from any_step_inv [OF assms] have inv: "lock_inv s" .
  then have w: "cnt is_writing (thr s) \<le> 1" by (cases "cache_w_lock (lv s)") (auto simp: lock_inv_def)
  have "\<not> is_writing (thr s ! j) \<and> thr s ! j \<noteq> Reading"
    if "i < length (thr s) \<and> j < length (thr s) \<and> i \<noteq> j \<and> is_writing (thr s ! i)" for i j
    using that w cnt_two [of i "thr s" j is_writing] writer_excludes [OF inv, of i] reader_excludes [OF inv, of j]
    by auto
  then show ?thesis using inv unfolding lock_inv_def by blast
qed

text \<open>Two threads: one reads, then the other waits to write.\<close>

definition example_sys :: lock_sys where
  "example_sys = \<lparr>lv = init_lk\<lparr>cache_r_lock := 1, rw_pend := 1\<rparr>, thr = [Reading, WAsleep False]\<rparr>"

lemma example_sys_reachable: "lock_step\<^sup>*\<^sup>* (init_sys 2) example_sys"
proof -
  let ?s = "\<lparr>lv = init_lk\<lparr>cache_r_lock := 1\<rparr>, thr = [Reading, Idle]\<rparr>"
  have "lock_step (init_sys 2) ?s"
    using rlock [of 0 "init_sys 2" True "init_lk\<lparr>cache_r_lock := 1\<rparr>"]
    by (simp add: init_sys_def init_lk_def lock_ops SUSP_THRESH_def eval_nat_numeral)
  moreover have "lock_step ?s example_sys"
    using wlock [of 1 ?s False "init_lk\<lparr>cache_r_lock := 1, rw_pend := 1\<rparr>"]
    by (simp add: init_sys_def init_lk_def lock_ops example_sys_def)
  ultimately show ?thesis by simp
qed

theorem cache_lock_excludes_witness:
  "cache_r_lock (lv example_sys) = 1 \<and> rw_pend (lv example_sys) = 1"
proof -
  from example_sys_reachable have "any_step\<^sup>*\<^sup>* (init_sys 2) example_sys"
    by (rule rtranclp_mono [THEN predicate2D, rotated]) (auto simp: any_step_def)
  from cache_lock_excludes [OF this] show ?thesis
    by (simp add: example_sys_def is_rw_pending_def)
qed

subsection \<open>Progress\<close>

text \<open>Only the status thread waits with a time-out, so all but one pending writer stay until they get the lock.\<close>

definition timed_ok :: "lock_sys \<Rightarrow> bool" where
  "timed_ok s \<longleftrightarrow> (\<forall>i<length (thr s). w_timed (thr s ! i) \<longrightarrow> i = status_thread)"

definition readers_ok :: "lock_sys \<Rightarrow> bool" where
  "readers_ok s \<longleftrightarrow>
     (r_susp (lv s) \<or> 0 < cnt ((=) RAsleep) (thr s) \<longrightarrow> cache_w_lock (lv s) \<or> 1 \<le> cnt w_untimed (thr s))"

definition writers_ok :: "lock_sys \<Rightarrow> bool" where
  "writers_ok s \<longleftrightarrow>
     (\<not> cache_w_lock (lv s) \<and> cache_r_lock (lv s) = 0 \<and> 0 < cnt w_asleep (thr s) \<longrightarrow>
        0 < cnt w_awake (thr s) \<or>
        (0 < cnt ((=) RAwake) (thr s) \<and> \<not> r_susp (lv s) \<and> rw_pend (lv s) \<le> SUSP_THRESH (r_pend (lv s))))"

lemma cnt_at_most_one:
  assumes "\<And>i j. i < length t \<Longrightarrow> j < length t \<Longrightarrow> P (t ! i) \<Longrightarrow> P (t ! j) \<Longrightarrow> i = j"
  shows "cnt P t \<le> 1"
  using assms
proof (induction t)
  case (Cons p t)
  have "cnt P t \<le> 1"
  proof (rule Cons.IH)
    fix i j assume "i < length t" "j < length t" "P (t ! i)" "P (t ! j)"
    then show "i = j" using Cons.prems [of "Suc i" "Suc j"] by simp
  qed
  moreover have "cnt P t = 0" if "P p"
  proof (rule ccontr)
    assume "cnt P t \<noteq> 0"
    then have "0 < cnt P t" using cnt_nonneg [of P t] by linarith
    then obtain i where "i < length t" "P (t ! i)" by (auto simp: cnt_pos)
    with that Cons.prems [of 0 "Suc i"] show False by simp
  qed
  ultimately show ?case by auto
qed simp

lemma live_untimed:
  assumes "lock_inv s" "timed_ok s"
  shows "rw_pend (lv s) \<le> cnt w_untimed (thr s) + 1"
proof -
  have "of_bool (is_rw_pending p) = (of_bool (w_untimed p) + of_bool (w_timed p) :: int)" for p
    by (cases p) (auto simp: is_rw_pending_def)
  then have "cnt is_rw_pending (thr s) = cnt w_untimed (thr s) + cnt w_timed (thr s)"
    by (rule cnt_split)
  moreover have "cnt w_timed (thr s) \<le> 1" by (rule cnt_at_most_one) (use assms(2) in \<open>auto simp: timed_ok_def\<close>)
  ultimately show ?thesis using assms(1) by (simp add: lock_inv_def)
qed

lemma thresh_ge: "lock_inv s \<Longrightarrow> 2 \<le> SUSP_THRESH (r_pend (lv s))"
  by (simp add: lock_inv_def SUSP_THRESH_def)

lemma thresh_mono: "a \<le> b \<Longrightarrow> SUSP_THRESH a \<le> SUSP_THRESH b"
  by (simp add: SUSP_THRESH_def zdiv_mono1)

lemma suspension_has_writer:
  assumes "lock_inv s" "timed_ok s" "rw_pend (lv s) > SUSP_THRESH (r_pend (lv s) + k)" "0 \<le> k"
  shows "1 \<le> cnt w_untimed (thr s)"
  using live_untimed [OF assms(1,2)] thresh_ge [OF assms(1)] assms(3)
    thresh_mono [of "r_pend (lv s)" "r_pend (lv s) + k"] assms(4) by linarith

lemma woken_nth:
  assumes "woken w t t'" "i < length t" shows "w_timed (t' ! i) = w_timed (t ! i)"
  using assms
proof cases
  case everyone
  then show ?thesis using assms(2) by (cases "t ! i") auto
qed (auto simp: nth_list_update)

lemma timed_ok_move:
  "timed_ok s \<Longrightarrow> i < length (thr s) \<Longrightarrow> w_timed p \<longrightarrow> i = status_thread \<Longrightarrow> timed_ok \<lparr>lv = l, thr = (thr s)[i := p]\<rparr>"
  by (auto simp: timed_ok_def nth_list_update split: if_splits)

lemma timed_ok_woken: "woken w t t' \<Longrightarrow> timed_ok \<lparr>lv = l, thr = t\<rparr> \<Longrightarrow> timed_ok \<lparr>lv = l, thr = t'\<rparr>"
  by (auto simp: timed_ok_def woken_nth woken_length)

lemma timed_ok_step: "lock_step s s' \<Longrightarrow> timed_ok s \<Longrightarrow> timed_ok s'"
proof (induction rule: lock_step.induct)
  case (wlock_again i s b ok l)
  then show ?case by (intro timed_ok_move) (auto simp: timed_ok_def)
next
  case (spurious_rw i s b)
  then show ?case by (intro timed_ok_move) (auto simp: timed_ok_def)
next
  case (expire i s)
  then show ?case by (intro timed_ok_move) (auto simp: timed_ok_def)
qed (auto intro!: timed_ok_move intro: timed_ok_woken)

lemma cnt_broadcast:
  "cnt ((=) RAsleep) (map wake_r t) = 0" "cnt ((=) RAwake) (map wake_r t) = cnt is_r_pending t"
proof -
  have "(RAsleep = wake_r p) = False" "(RAwake = wake_r p) = is_r_pending p" for p by (cases p; simp)+
  then show "cnt ((=) RAsleep) (map wake_r t) = 0" "cnt ((=) RAwake) (map wake_r t) = cnt is_r_pending t"
    by (auto simp: cnt_map) (simp add: cnt_def)
qed

lemma cnt_asleep_pending: "cnt ((=) RAsleep) t \<le> cnt is_r_pending t"
  by (rule cnt_le) auto

text \<open>Giving the write lock up wakes whoever may go on.\<close>

lemma release_ok:
  assumes inv: "lock_inv s" "timed_ok s" and i: "i < length (thr s)" "is_writing (thr s ! i)"
    and p: "p = Idle \<or> p = YieldSleep"
    and rel: "release_rw (lv s) = (l, w)" and wk: "woken w ((thr s)[i := p]) t"
  shows "readers_ok \<lparr>lv = l, thr = t\<rparr> \<and> writers_ok \<lparr>lv = l, thr = t\<rparr>"
proof -
  let ?t = "(thr s)[i := p]"
  from i(2) have same: "cnt is_r_pending ?t = cnt is_r_pending (thr s)" "cnt w_untimed ?t = cnt w_untimed (thr s)"
    using p by (cases "thr s ! i"; auto simp: cnt_update i(1))+
  have U: "cnt w_untimed t = cnt w_untimed (thr s)" using woken_cnt [OF wk, of w_untimed] same by simp
  have l: "l = (lv s)\<lparr>cache_w_lock := False, r_susp := False\<rparr>" using rel by (simp add: release_rw_def Let_def)
  consider "w = SignalRW" "r_pend (lv s) = 0 \<or> rw_pend (lv s) > SUSP_THRESH (r_pend (lv s))"
    | "w = BroadcastR" "r_pend (lv s) \<noteq> 0" "rw_pend (lv s) \<le> SUSP_THRESH (r_pend (lv s))"
    using rel by (auto simp: release_rw_def Let_def split: if_splits)
  then show ?thesis
  proof cases
    case 1
    note sig = woken_SignalRW_cnt [OF wk [unfolded 1(1)]]
    have "0 < cnt ((=) RAsleep) t \<Longrightarrow> 1 \<le> cnt w_untimed t"
      using 1(2) sig(2) suspension_has_writer [OF inv, of 0] cnt_asleep_pending [of ?t] same U inv(1)
      by (auto simp: lock_inv_def)
    then show ?thesis using sig(1,4) by (auto simp: readers_ok_def writers_ok_def l)
  next
    case 2
    from wk 2(1) have "t = map wake_r ?t" by auto
    with cnt_broadcast [of ?t] same(1) 2(2,3) inv(1) cnt_nonneg [of is_r_pending "thr s"] show ?thesis
      by (auto simp: readers_ok_def writers_ok_def l lock_inv_def order.order_iff_strict)
  qed
qed

lemma readers_ok_move:
  assumes "readers_ok s" "i < length (thr s)" "r_susp l \<longrightarrow> r_susp (lv s)"
    "cache_w_lock l \<or> \<not> cache_w_lock (lv s) \<and> (w_untimed (thr s ! i) \<longrightarrow> w_untimed p)" "p \<noteq> RAsleep"
  shows "readers_ok \<lparr>lv = l, thr = (thr s)[i := p]\<rparr>"
  using assms by (auto simp: readers_ok_def cnt_update split: if_splits)

lemma readers_ok_woken:
  assumes "woken w t t'" "w \<noteq> BroadcastR" "readers_ok \<lparr>lv = l, thr = t\<rparr>" shows "readers_ok \<lparr>lv = l, thr = t'\<rparr>"
proof -
  have "cnt ((=) RAsleep) t' = cnt ((=) RAsleep) t" 
  proof (cases w)
    case SignalRW
    with assms(1) woken_SignalRW_cnt(2) [of t t'] show ?thesis by simp
  qed (use assms in auto)
  with assms(3) woken_cnt [OF assms(1), of w_untimed] show ?thesis by (simp add: readers_ok_def)
qed

lemma readers_ok_step: "lock_step s s' \<Longrightarrow> lock_inv s \<Longrightarrow> timed_ok s \<Longrightarrow> readers_ok s \<Longrightarrow> readers_ok s'"
proof (induction rule: lock_step.induct)
  case (rlock i s ok l)
  then show ?case using suspension_has_writer [of s 1]
    by (auto simp: readers_ok_def lock_ops cnt_update lock_inv_def split: if_splits)
next
  case (rlock_again i s ok l)
  then show ?case using suspension_has_writer [of s 0]
    by (auto simp: readers_ok_def lock_ops cnt_update lock_inv_def split: if_splits)
next
  case (runlock i s l w t)
  have "readers_ok \<lparr>lv = l, thr = (thr s)[i := Idle]\<rparr>"
    using runlock by (intro readers_ok_move) (auto simp: lock_ops split: if_splits)
  with runlock(3,4) show ?case by (auto intro: readers_ok_woken simp: lock_ops split: if_splits)
next
  case (wunlock i s l w t)
  have "use_cache_lock (lv s)" using wunlock(5) by (simp add: lock_inv_def)
  with release_ok [OF wunlock(5,6,1) _ _ _ wunlock(4)] wunlock(2,3) show ?case by (simp add: unlock_cache_rw_def)
next
  case (yield_release i s l w t)
  with release_ok [OF yield_release(5,6,1) _ _ _ yield_release(4)] show ?case by simp
next
  case (yield_test i s)
  with writer_excludes [OF yield_test(4,1)] show ?case by (intro readers_ok_move) auto
qed (intro readers_ok_move; (assumption | (auto simp: lock_ops split: if_splits; fail)))+

lemma writers_ok_held: "cache_w_lock l \<or> 0 < cache_r_lock l \<Longrightarrow> writers_ok \<lparr>lv = l, thr = t\<rparr>"
  by (auto simp: writers_ok_def)

lemma rw_turn_held:
  "lock_cache_rw_turn s = (ok, l) \<Longrightarrow> 0 \<le> cache_r_lock s \<Longrightarrow> cache_w_lock l \<or> 0 < cache_r_lock l"
  by (auto simp: lock_cache_rw_turn_def split: if_splits)

lemma writers_ok_step: "lock_step s s' \<Longrightarrow> lock_inv s \<Longrightarrow> timed_ok s \<Longrightarrow> writers_ok s \<Longrightarrow> writers_ok s'"
proof (induction rule: lock_step.induct)
  case (rlock i s ok l)
  show ?case
  proof (cases ok)
    case True
    with rlock show ?thesis by (intro writers_ok_held) (auto simp: lock_ops lock_inv_def split: if_splits)
  next
    case False
    with rlock thresh_mono [of "r_pend (lv s)" "r_pend (lv s) + 1"] show ?thesis
      by (auto simp: writers_ok_def lock_ops cnt_update split: if_splits)
  qed
next
  case (rlock_again i s ok l)
  show ?case
  proof (cases ok)
    case True
    with rlock_again show ?thesis by (intro writers_ok_held) (auto simp: lock_ops lock_inv_def split: if_splits)
  next
    case False
    with rlock_again show ?thesis by (auto simp: writers_ok_def lock_ops cnt_update split: if_splits)
  qed
next
  case (runlock i s l w t)
  note ex = reader_excludes [OF runlock(5,1,2)]
  show ?case
  proof (cases "cache_r_lock l = 0")
    case True
    with runlock(3,5) ex have "w = SignalRW" by (auto simp: lock_ops lock_inv_def split: if_splits)
    with runlock(4) woken_SignalRW_cnt(1,4) [of "(thr s)[i := Idle]" t] show ?thesis
      by (auto simp: writers_ok_def)
  next
    case False
    with runlock(3) ex show ?thesis by (intro writers_ok_held) (auto simp: lock_ops split: if_splits)
  qed
next
  case (wunlock i s l w t)
  have "use_cache_lock (lv s)" using wunlock(5) by (simp add: lock_inv_def)
  with release_ok [OF wunlock(5,6,1) _ _ _ wunlock(4)] wunlock(2,3) show ?case by (simp add: unlock_cache_rw_def)
next
  case (yield_release i s l w t)
  with release_ok [OF yield_release(5,6,1) _ _ _ yield_release(4)] show ?case by simp
next
  case (yield_test i s)
  with writer_excludes [OF yield_test(4,1)] show ?case by (intro writers_ok_held) auto
next
  case (expire i s)
  then show ?case by (auto simp: writers_ok_def cnt_update)
next
  case (give_up i s)
  then show ?case by (auto simp: writers_ok_def cnt_update lock_ops)
next
  case (spurious_r i s)
  then show ?case by (auto simp: writers_ok_def cnt_update)
next
  case (spurious_rw i s b)
  then show ?case by (auto simp: writers_ok_def cnt_update add_nonneg_pos)
next
  case (wlock i s ok l)
  then have "lock_cache_rw_turn (lv s\<lparr>rw_pend := rw_pend (lv s) + 1\<rparr>) = (ok, l)"
    by (simp add: lock_cache_rw_def lock_inv_def)
  from rw_turn_held [OF this] wlock(4) show ?case by (intro writers_ok_held) (simp add: lock_inv_def)
next
  case (wlock_timed s ok l)
  then have "lock_cache_rw_turn (lv s\<lparr>rw_pend := rw_pend (lv s) + 1\<rparr>) = (ok, l)"
    by (simp add: timedlock_cache_rw_def lock_inv_def split: prod.splits)
  from rw_turn_held [OF this] wlock_timed(4) show ?case by (intro writers_ok_held) (simp add: lock_inv_def)
next
  case (wlock_again i s b ok l)
  from rw_turn_held [OF this(3)] wlock_again(4) show ?case by (intro writers_ok_held) (simp add: lock_inv_def)
next
  case (yield_again i s ok l)
  from rw_turn_held [OF this(3) [unfolded yield_relock_def]] yield_again(4) show ?case
    by (intro writers_ok_held) (simp add: lock_inv_def)
qed

lemma lock_step_live: "lock_step\<^sup>*\<^sup>* (init_sys n) s \<Longrightarrow> lock_inv s \<and> timed_ok s \<and> readers_ok s \<and> writers_ok s"
proof (induction rule: rtranclp_induct)
  case base
  have "cnt P (replicate n Idle) = 0" if "\<not> P Idle" for P using that by (induction n) auto
  then show ?case
    by (simp add: lock_inv_init timed_ok_def readers_ok_def writers_ok_def)
      (simp add: init_sys_def init_lk_def)
next
  case (step s s')
  then show ?case using lock_inv_step timed_ok_step readers_ok_step writers_ok_step by blast
qed



text \<open>A reader leaves while two writers sleep; one of them is woken.\<close>

definition example_lk :: "int \<Rightarrow> int \<Rightarrow> lk" where
  "example_lk r w = init_lk\<lparr>cache_r_lock := r, rw_pend := w\<rparr>"

lemma example_reader_left:
  "lock_step\<^sup>*\<^sup>* (init_sys 3) \<lparr>lv = example_lk 0 2, thr = [Idle, WAwake False, WAsleep False]\<rparr>"
proof -
  note ops = init_sys_def init_lk_def example_lk_def lock_ops SUSP_THRESH_def
  have s1: "lock_step (init_sys 3) \<lparr>lv = example_lk 1 0, thr = [Reading, Idle, Idle]\<rparr>"
    using rlock [of 0 "init_sys 3" True "example_lk 1 0"] by (simp add: ops eval_nat_numeral)
  have s2: "lock_step \<lparr>lv = example_lk 1 0, thr = [Reading, Idle, Idle]\<rparr>
      \<lparr>lv = example_lk 1 1, thr = [Reading, WAsleep False, Idle]\<rparr>"
    using wlock [of 1 "\<lparr>lv = example_lk 1 0, thr = [Reading, Idle, Idle]\<rparr>" False "example_lk 1 1"] by (simp add: ops)
  have s3: "lock_step \<lparr>lv = example_lk 1 1, thr = [Reading, WAsleep False, Idle]\<rparr>
      \<lparr>lv = example_lk 1 2, thr = [Reading, WAsleep False, WAsleep False]\<rparr>"
    using wlock [of 2 "\<lparr>lv = example_lk 1 1, thr = [Reading, WAsleep False, Idle]\<rparr>" False "example_lk 1 2"]
    by (simp add: ops)
  have s4: "lock_step \<lparr>lv = example_lk 1 2, thr = [Reading, WAsleep False, WAsleep False]\<rparr>
      \<lparr>lv = example_lk 0 2, thr = [Idle, WAwake False, WAsleep False]\<rparr>"
    using runlock [of 0 "\<lparr>lv = example_lk 1 2, thr = [Reading, WAsleep False, WAsleep False]\<rparr>"
        "example_lk 0 2" SignalRW "[Idle, WAwake False, WAsleep False]"]
      one [of 1 "[Idle, WAsleep False, WAsleep False]" False]
    by (simp add: ops)
  show ?thesis
    by (rule converse_rtranclp_into_rtranclp, rule s1, rule converse_rtranclp_into_rtranclp, rule s2,
      rule converse_rtranclp_into_rtranclp, rule s3, rule r_into_rtranclp, rule s4)
qed


subsection \<open>The soft locks\<close>

lemma softlock_mutex_gives_up: "softlock_mutex 0 (replicate SOFTLOCK_MAXTRIES False @ oks) = False"
proof -
  have "tr + n = SOFTLOCK_MAXTRIES \<Longrightarrow> softlock_mutex tr (replicate n False @ oks) = False \<or> n = 0" for n tr
    by (induction n arbitrary: tr) (auto split: if_splits)
  from this [of 0 SOFTLOCK_MAXTRIES] show ?thesis by (auto simp: SOFTLOCK_MAXTRIES_def)
qed

end
