(* ===== verification/Names.thy ===== *)
theory Names
  imports Prelude
begin

section \<open>Domain names in length-byte format (helpers.c, helpers.h)\<close>

text \<open>
  \<^verbatim>\<open>pdnsd\<close> keeps every domain name in the transport format of RFC 1035: each label
  preceded by its length byte, a zero byte at the end. A pointer into a name is modelled by the
  bytes from that position to the end of the object it points into, so reading past the
  object is reading from the empty list and gives \<^term>\<open>None\<close>. Positions in output
  buffers are indices, with \<^const>\<open>rd\<close> and \<^const>\<open>wr\<close>.
  The abstract view of a name is its list of labels; \<open>wire\<close> is the format.
\<close>

definition DNSNAMEBUFSIZE :: nat where
  "DNSNAMEBUFSIZE = 256"

subsection \<open>The abstract name and its format\<close>

type_synonym label = "byte list"

definition wire_label :: "label \<Rightarrow> byte list" where
  "wire_label l = of_nat (length l) # l"

definition wire_body :: "label list \<Rightarrow> byte list" where
  "wire_body ls = concat (map wire_label ls)"

definition wire :: "label list \<Rightarrow> byte list" where
  "wire ls = wire_body ls @ [0]"

definition wf_label :: "label \<Rightarrow> bool" where
  "wf_label l \<longleftrightarrow> l \<noteq> [] \<and> length l \<le> 63"

definition wf_name :: "label list \<Rightarrow> bool" where
  "wf_name ls \<longleftrightarrow> list_all wf_label ls \<and> length (wire ls) \<le> DNSNAMEBUFSIZE"

lemma wire_body_simps [simp]:
  "wire_body [] = []"
  "wire_body (l # ls) = of_nat (length l) # l @ wire_body ls"
  "wire_body (ls @ ms) = wire_body ls @ wire_body ms"
  by (simp_all add: wire_body_def wire_label_def)

lemma wire_simps [simp]:
  "wire [] = [0]"
  "wire (l # ls) = of_nat (length l) # l @ wire ls"
  by (simp_all add: wire_def)

lemma wire_append: "wire (ls @ ms) = wire_body ls @ wire ms"
  by (simp add: wire_def)

lemma length_wire: "length (wire ls) = Suc (length (wire_body ls))"
  by (simp add: wire_def)

lemma wf_label_length_byte:
  assumes "wf_label l"
  shows "unat (of_nat (length l) :: byte) = length l" "(of_nat (length l) :: byte) \<noteq> 0"
  using assms of_nat_byte_eq_0 [of "length l"] by (auto simp: wf_label_def)

lemma length_wire_body_ge: "list_all wf_label ls \<Longrightarrow> 2 * length ls \<le> length (wire_body ls)"
proof (induction ls)
  case (Cons l ls)
  then have "1 \<le> length l" by (auto simp: wf_label_def Suc_le_eq)
  moreover have "2 * length ls \<le> length (wire_body ls)" using Cons by simp
  ultimately show ?case by simp
qed simp

lemma wf_name_segcnt: "wf_name ls \<Longrightarrow> length ls < 128"
  using length_wire_body_ge [of ls] by (auto simp: wf_name_def length_wire DNSNAMEBUFSIZE_def)

lemma wf_name_tl: "wf_name (l # ls) \<Longrightarrow> wf_name ls"
  by (auto simp: wf_name_def)

lemma wf_name_suffix: "wf_name (ls @ ms) \<Longrightarrow> wf_name ms"
  by (auto simp: wf_name_def wire_append)

lemma wf_name_Nil [simp, intro!]: "wf_name []"
  by (simp add: wf_name_def DNSNAMEBUFSIZE_def)

lemma wf_nameD: "wf_name ls \<Longrightarrow> list_all wf_label ls"
  by (simp add: wf_name_def)

subsection \<open>Walking a name\<close>

text \<open>\<^verbatim>\<open>rhnlen\<close>: the number of bytes of the name, the final zero byte included.\<close>

fun rhnlen :: "byte list \<Rightarrow> nat option" where
  "rhnlen [] = None"
| "rhnlen (lb # p) =
     (if lb = 0 then Some 1
      else map_option (\<lambda>i. i + unat lb + 1) (rhnlen (drop (unat lb) p)))"

text \<open>\<^verbatim>\<open>skipsegs\<close>: skip at most \<open>k\<close> segments, stopping at the end of the name.\<close>

fun skipsegs :: "byte list \<Rightarrow> nat \<Rightarrow> byte list option" where
  "skipsegs nm 0 = Some nm"
| "skipsegs [] (Suc k) = None"
| "skipsegs (lb # p) (Suc k) =
     (if lb = 0 then Some (lb # p) else skipsegs (drop (unat lb) p) k)"

text \<open>\<^verbatim>\<open>skiprhn\<close>: the position right after the terminating zero byte.\<close>

fun skiprhn :: "byte list \<Rightarrow> byte list option" where
  "skiprhn [] = None"
| "skiprhn (lb # p) = (if lb = 0 then Some p else skiprhn (drop (unat lb) p))"

fun rhnsegcnt :: "byte list \<Rightarrow> nat option" where
  "rhnsegcnt [] = None"
| "rhnsegcnt (lb # p) =
     (if lb = 0 then Some 0 else map_option Suc (rhnsegcnt (drop (unat lb) p)))"

text \<open>\<^verbatim>\<open>rhncpy\<close>: copies the name and returns its length; longer names trip an assertion.\<close>

definition rhncpy :: "byte list \<Rightarrow> byte list \<Rightarrow> (nat \<times> byte list) option" where
  "rhncpy dst src = do {
     len \<leftarrow> rhnlen src;
     pdnsd_assert (len \<le> DNSNAMEBUFSIZE);
     dst' \<leftarrow> memcpy_at dst 0 src (if len > DNSNAMEBUFSIZE then DNSNAMEBUFSIZE else len);
     Some (len, dst') }"

text \<open>
  \<^verbatim>\<open>isnormalencdomname\<close>: a name that is not compressed, has no extended labels and ends
  within \<open>maxlen\<close> bytes.
\<close>

function isnormalenc_loop :: "byte list \<Rightarrow> nat \<Rightarrow> nat \<Rightarrow> bool option" where
  "isnormalenc_loop rhn maxlen i =
     (if i \<ge> maxlen then Some False
      else do {
        lb \<leftarrow> rd rhn i;
        if lb = 0 then Some True
        else if unat lb > 63 then Some False
        else isnormalenc_loop rhn maxlen (i + 1 + unat lb) })"
  by pat_completeness auto
termination
  by (relation "measure (\<lambda>(rhn, maxlen, i). maxlen - i)") auto

declare isnormalenc_loop.simps [simp del]

definition isnormalencdomname :: "byte list \<Rightarrow> nat \<Rightarrow> bool option" where
  "isnormalencdomname rhn maxlen =
     isnormalenc_loop rhn (if maxlen > DNSNAMEBUFSIZE then DNSNAMEBUFSIZE else maxlen) 0"

text \<open>\<^verbatim>\<open>rhnicmp\<close>: equality of names up to case; the length bytes are compared exactly.\<close>

fun rhnicmp_label :: "nat \<Rightarrow> byte list \<Rightarrow> byte list \<Rightarrow> (byte list \<times> byte list) option option" where
  "rhnicmp_label 0 a b = Some (Some (a, b))"
| "rhnicmp_label (Suc lb) (x # a) (y # b) =
     (if tolower x \<noteq> tolower y then Some None else rhnicmp_label lb a b)"
| "rhnicmp_label (Suc lb) a b = None"

lemma rhnicmp_label_length:
  "rhnicmp_label lb a b = Some (Some (a', b')) \<Longrightarrow> length a' \<le> length a"
  by (induction lb a b rule: rhnicmp_label.induct) (auto split: if_splits)

function rhnicmp :: "byte list \<Rightarrow> byte list \<Rightarrow> bool option" where
  "rhnicmp [] b = None"
| "rhnicmp (lb # a) [] = None"
| "rhnicmp (lb # a) (lb' # b) =
     (if lb \<noteq> lb' then Some False
      else if lb = 0 then Some True
      else do {
        r \<leftarrow> rhnicmp_label (unat lb) a b;
        (case r of None \<Rightarrow> Some False | Some (a', b') \<Rightarrow> rhnicmp a' b') })"
  by pat_completeness auto
termination
  by (relation "measure (\<lambda>(a, b). length a)")
    (auto dest: rhnicmp_label_length simp: less_Suc_eq_le)

lemma rhnlen_wire: "list_all wf_label ls \<Longrightarrow> rhnlen (wire ls @ r) = Some (length (wire ls))"
  by (induction ls) (auto simp: wf_label_length_byte)

lemma skiprhn_wire: "list_all wf_label ls \<Longrightarrow> skiprhn (wire ls @ r) = Some r"
  by (induction ls) (auto simp: wf_label_length_byte)

lemma rhnsegcnt_wire: "list_all wf_label ls \<Longrightarrow> rhnsegcnt (wire ls @ r) = Some (length ls)"
  by (induction ls) (auto simp: wf_label_length_byte)

lemma skipsegs_wire:
  "list_all wf_label ls \<Longrightarrow> skipsegs (wire ls @ r) k = Some (wire (drop k ls) @ r)"
proof (induction ls arbitrary: k)
  case Nil
  then show ?case by (cases k) auto
next
  case (Cons l ls)
  then show ?case by (cases k) (auto simp: wf_label_length_byte)
qed

lemma rhnicmp_label_append:
  "length a = n \<Longrightarrow> length b = n \<Longrightarrow>
   rhnicmp_label n (a @ p) (b @ q) = Some (if ci_eq a b then Some (p, q) else None)"
proof (induction n arbitrary: a b)
  case (Suc n)
  then obtain x a' y b' where "a = x # a'" "b = y # b'"
    by (metis length_Suc_conv)
  with Suc show ?case by auto
qed simp

text \<open>Equality of names: the same label structure, labels equal up to case.\<close>

definition name_eq :: "label list \<Rightarrow> label list \<Rightarrow> bool" where
  "name_eq ls ms \<longleftrightarrow> list_all2 ci_eq ls ms"

lemma name_eq_refl [simp, intro!]: "name_eq ls ls"
  by (simp add: name_eq_def list_all2_refl)

lemma name_eq_sym: "name_eq ls ms \<Longrightarrow> name_eq ms ls"
  unfolding name_eq_def by (metis (mono_tags) ci_eq_sym list_all2_conv_all_nth)

lemma name_eq_trans: "name_eq ls ms \<Longrightarrow> name_eq ms ns \<Longrightarrow> name_eq ls ns"
  unfolding name_eq_def by (rule list_all2_trans [of ci_eq ci_eq ci_eq]) (auto elim: ci_eq_trans)

lemma name_eq_simps [simp]:
  "name_eq [] ms \<longleftrightarrow> ms = []" "name_eq ls [] \<longleftrightarrow> ls = []"
  "name_eq (l # ls) (m # ms) \<longleftrightarrow> ci_eq l m \<and> name_eq ls ms"
  by (auto simp: name_eq_def)

lemma rhnicmp_wire:
  "list_all wf_label ls \<Longrightarrow> list_all wf_label ms \<Longrightarrow>
   rhnicmp (wire ls @ p) (wire ms @ q) = Some (name_eq ls ms)"
proof (induction ls arbitrary: ms)
  case Nil
  then show ?case by (cases ms) (auto dest: wf_label_length_byte)
next
  case (Cons l ls)
  show ?case
  proof (cases ms)
    case Nil
    with Cons.prems show ?thesis by (auto dest: wf_label_length_byte)
  next
    case (Cons m ms')
    from Cons Cons.prems have wf: "wf_label l" "wf_label m" by auto
    have "(of_nat (length l) :: byte) = of_nat (length m) \<longleftrightarrow> length l = length m"
      using wf by (metis wf_label_length_byte(1))
    then show ?thesis
      using wf Cons.prems Cons.IH [of ms'] Cons
      by (auto simp: wf_label_length_byte rhnicmp_label_append dest: ci_eq_length)
  qed
qed

end
