(* ===== verification/Name_Text.thy ===== *)
theory Name_Text
  imports Names
begin

section \<open>Names as text (helpers.c)\<close>

text \<open>
  \<^verbatim>\<open>str2rhn\<close>, \<^verbatim>\<open>parsestr2rhn\<close> and \<^verbatim>\<open>rhn2str\<close>: conversions between dotted text and the
  length-byte format. The output buffers are byte lists of fixed length, written at indices.
\<close>

definition dot :: byte where
  "dot = 46"

subsection \<open>str2rhn\<close>

text \<open>
  The inner loop copies one label. The result holds whether the loop ended at a dot or at the
  end of the string (\<^term>\<open>False\<close>: \<^verbatim>\<open>return 0\<close>), the index \<open>j\<close> and the buffer.
\<close>

function str2rhn_label :: "byte list \<Rightarrow> nat \<Rightarrow> nat \<Rightarrow> byte list \<Rightarrow> (bool \<times> nat \<times> byte list) option" where
  "str2rhn_label str jlim j rhn = do {
     c \<leftarrow> rd str j;
     if c \<noteq> 0 \<and> c \<noteq> dot
     then if j \<ge> jlim then Some (False, j, rhn)
          else do { rhn' \<leftarrow> wr rhn (j + 1) c; str2rhn_label str jlim (j + 1) rhn' }
     else Some (True, j, rhn) }"
  by pat_completeness auto
termination
  by (relation "measure (\<lambda>(str, jlim, j, rhn). length str - j)") (auto dest: rd_SomeD)

declare str2rhn_label.simps [simp del]

definition label_limit :: "nat \<Rightarrow> nat" where
  \<comment> \<open>two bytes below the buffer size, because the terminating 0 has to follow\<close>
  "label_limit i = (if i + 63 > DNSNAMEBUFSIZE - 2 then DNSNAMEBUFSIZE - 2 else i + 63)"

function str2rhn_loop :: "byte list \<Rightarrow> nat \<Rightarrow> byte list \<Rightarrow> (nat \<times> byte list) option" where
  "str2rhn_loop str i rhn =
     (let jlim = label_limit i
      in do {
        (ok, j, rhn) \<leftarrow> str2rhn_label str jlim i rhn;
        if \<not> ok then Some (0, rhn)
        else do {
          c \<leftarrow> rd str j;
          if c = 0
          then do { rhn \<leftarrow> wr rhn i 0; Some (if j > i \<or> i = 0 then 0 else 1, rhn) }
          else if j \<le> i then Some (0, rhn)
          else do { rhn \<leftarrow> wr rhn i (of_nat (j - i)); str2rhn_loop str (j + 1) rhn } } })"
  by pat_completeness auto
termination
  by (relation "measure (\<lambda>(str, i, rhn). length str - i)") (auto dest: rd_SomeD)

declare str2rhn_loop.simps [simp del]

definition str2rhn :: "byte list \<Rightarrow> byte list \<Rightarrow> (nat \<times> byte list) option" where
  "str2rhn str rhn = do {
     c \<leftarrow> rd str 0;
     root \<leftarrow> (if c = dot then do { c1 \<leftarrow> rd str 1; Some (c1 = 0) } else Some False);
     if root then do { rhn' \<leftarrow> wr rhn 0 0; Some (1, rhn') }
     else str2rhn_loop str 0 rhn }"

subsection \<open>parsestr2rhn\<close>

text \<open>
  The variant for configuration text: it reads at most \<open>len\<close> bytes, accepts names without
  the final dot and returns a message (\<^term>\<open>None\<close> is the null pointer, success).
\<close>

function parse_label :: "byte list \<Rightarrow> nat \<Rightarrow> nat \<Rightarrow> nat \<Rightarrow> byte list \<Rightarrow> (bool \<times> nat \<times> byte list) option" where
  "parse_label str len jlim j rhn =
     (if j < len
      then do {
        c \<leftarrow> rd str j;
        if c \<noteq> 0 \<and> c \<noteq> dot
        then if j \<ge> jlim then Some (False, j, rhn)
             else do { rhn' \<leftarrow> wr rhn (j + 1) c; parse_label str len jlim (j + 1) rhn' }
        else Some (True, j, rhn) }
      else Some (True, j, rhn))"
  by pat_completeness auto
termination
  by (relation "measure (\<lambda>(str, len, jlim, j, rhn). len - j)") auto

declare parse_label.simps [simp del]

definition parse_end :: "nat \<Rightarrow> byte list \<Rightarrow> (string option \<times> byte list) option" where
  "parse_end i rhn = do {
     rhn' \<leftarrow> wr rhn i 0;
     Some (if i = 0 then Some ''Empty domain name not allowed'' else None, rhn') }"

definition more_text :: "byte list \<Rightarrow> nat \<Rightarrow> nat \<Rightarrow> bool option" where
  "more_text str len j = (if j < len then map_option (\<lambda>c. c \<noteq> 0) (rd str j) else Some False)"

function parse_loop :: "byte list \<Rightarrow> nat \<Rightarrow> nat \<Rightarrow> byte list \<Rightarrow> (string option \<times> byte list) option" where
  "parse_loop str len i rhn = do {
     (ok, j, rhn) \<leftarrow> parse_label str len (label_limit i) i rhn;
     if \<not> ok then Some (Some ''Domain name element too long'', rhn)
     else do {
       more \<leftarrow> more_text str len j;
       if j \<le> i
       then if more then Some (Some ''Empty name element in domain name'', rhn)
            else parse_end i rhn
       else do {
         rhn \<leftarrow> wr rhn i (of_nat (j - i));
         if more then parse_loop str len (j + 1) rhn else parse_end (j + 1) rhn } } }"
  by pat_completeness auto
termination
  by (relation "measure (\<lambda>(str, len, i, rhn). len - i)") (auto simp: more_text_def split: if_splits)

declare parse_loop.simps [simp del]

definition parsestr2rhn :: "byte list \<Rightarrow> nat \<Rightarrow> byte list \<Rightarrow> (string option \<times> byte list) option" where
  "parsestr2rhn str len rhn = do {
     root \<leftarrow> (if len > 0
        then do {
          c \<leftarrow> rd str 0;
          if c = dot
          then if len = 1 then Some True else map_option (\<lambda>c. c = 0) (rd str 1)
          else Some False }
        else Some False);
     if root then do { rhn' \<leftarrow> wr rhn 0 0; Some (None, rhn') }
     else parse_loop str len 0 rhn }"

subsection \<open>rhn2str\<close>

text \<open>
  Printing a name for diagnostics. \<^verbatim>\<open>isgraph\<close> in the C locale is the range 33 to 126.
  The label loop returns \<^term>\<open>False\<close> for \<^verbatim>\<open>goto overflow\<close>.
\<close>

definition isgraph :: "byte \<Rightarrow> bool" where
  "isgraph c \<longleftrightarrow> 33 \<le> unat c \<and> unat c \<le> 126"

definition octal_digit :: "nat \<Rightarrow> byte" where
  "octal_digit n = of_nat (48 + n mod 8)"

definition octal_escape :: "byte \<Rightarrow> byte list" where
  \<comment> \<open>the text of the format backslash, \<^verbatim>\<open>%03o\<close>\<close>
  "octal_escape c = [92, octal_digit (unat c div 64), octal_digit (unat c div 8), octal_digit (unat c)]"

lemma length_octal_escape [simp]: "length (octal_escape c) = 4"
  by (simp add: octal_escape_def)

fun rhn2str_label ::
  "byte list \<Rightarrow> nat \<Rightarrow> nat \<Rightarrow> nat \<Rightarrow> byte list \<Rightarrow> nat \<Rightarrow> (bool \<times> nat \<times> nat \<times> byte list) option" where
  "rhn2str_label rhn 0 i j str sz = Some (True, i, j, str)"
| "rhn2str_label rhn (Suc lb) i j str sz =
     (if j + 2 \<ge> sz then Some (False, i, j, str)
      else do {
        c \<leftarrow> rd rhn i;
        if isgraph c then
          if c = dot \<or> c = 92 \<or> c = 34 then do {
            str \<leftarrow> wr str j 92;
            if j + 1 + 2 \<ge> sz then Some (False, i + 1, j + 1, str)
            else do { str \<leftarrow> wr str (j + 1) c; rhn2str_label rhn lb (i + 1) (j + 2) str sz } }
          else do { str \<leftarrow> wr str j c; rhn2str_label rhn lb (i + 1) (j + 1) str sz }
        else do {
          (n, str) \<leftarrow> snprintf_at str j (sz - 1 - j) (octal_escape c);
          if n \<ge> sz - 1 - j
          then do { str \<leftarrow> wr str j dot; Some (False, i + 1, j + 1, str) }
          else rhn2str_label rhn lb (i + 1) (j + n) str sz } })"

lemma rhn2str_label_pos:
  "rhn2str_label rhn lb i j str sz = Some (True, i', j', str') \<Longrightarrow> i' = i + lb \<and> (lb > 0 \<longrightarrow> i' \<le> length rhn)"
proof (induction lb arbitrary: i j str)
  case (Suc lb)
  then obtain c j1 str1 where "rd rhn i = Some c"
    and rec: "rhn2str_label rhn lb (i + 1) j1 str1 sz = Some (True, i', j', str')"
    by (auto split: if_splits prod.splits elim!: bind_eq_SomeE)
  then have "i < length rhn" by (auto dest: rd_SomeD)
  with Suc.IH [OF rec] show ?case by (cases lb) auto
qed simp

text \<open>\<^verbatim>\<open>overflow:\<close> the truncated text ends in up to three dots.\<close>

definition rhn2str_overflow :: "byte list \<Rightarrow> nat \<Rightarrow> byte list option" where
  "rhn2str_overflow str sz = do {
     str \<leftarrow> wr str (sz - 1) 0;
     if sz - 1 > 0 then do {
       str \<leftarrow> wr str (sz - 2) dot;
       if sz - 2 > 0 then do {
         str \<leftarrow> wr str (sz - 3) dot;
         if sz - 3 > 0 then wr str (sz - 4) dot else Some str }
       else Some str }
     else Some str }"

function rhn2str_loop :: "byte list \<Rightarrow> nat \<Rightarrow> nat \<Rightarrow> nat \<Rightarrow> byte list \<Rightarrow> nat \<Rightarrow> byte list option" where
  "rhn2str_loop rhn lb i j str sz = do {
     (ok, i, j, str) \<leftarrow> rhn2str_label rhn lb i j str sz;
     if \<not> ok then rhn2str_overflow str sz
     else do {
       str \<leftarrow> wr str j dot;
       lb \<leftarrow> rd rhn i;
       if lb = 0 then wr str (j + 1) 0
       else rhn2str_loop rhn (unat lb) (i + 1) (j + 1) str sz } }"
  by pat_completeness auto
termination
  by (relation "measure (\<lambda>(rhn, lb, i, j, str, sz). length rhn - i)")
    (auto dest!: rhn2str_label_pos rd_SomeD)

declare rhn2str_loop.simps [simp del]

text \<open>The outer option is memory safety, the inner one the null pointer returned for sz 0.\<close>

definition rhn2str :: "byte list \<Rightarrow> byte list \<Rightarrow> nat \<Rightarrow> byte list option option" where
  "rhn2str rhn str sz =
     (if sz = 0 then Some None
      else do {
        lb \<leftarrow> rd rhn 0;
        str \<leftarrow> (if lb = 0
          then if sz \<ge> 2 then do { str \<leftarrow> wr str 0 dot; wr str 1 0 } else wr str 0 0
          else rhn2str_loop rhn (unat lb) 1 0 str sz);
        Some (Some str) })"

subsection \<open>Dotted text\<close>

definition text_label :: "label \<Rightarrow> bool" where
  "text_label l \<longleftrightarrow> wf_label l \<and> 0 \<notin> set l \<and> dot \<notin> set l"

definition dotted :: "label list \<Rightarrow> byte list" where
  "dotted ls = concat (map (\<lambda>l. l @ [dot]) ls)"

lemma dotted_simps [simp]:
  "dotted [] = []" "dotted (l # ls) = l @ dot # dotted ls" "dotted (ls @ ms) = dotted ls @ dotted ms"
  by (simp_all add: dotted_def)

lemma length_dotted: "length (dotted ls) = length (wire_body ls)"
  by (induction ls) simp_all

lemma dot_ne_0 [simp]: "dot \<noteq> 0" "0 \<noteq> dot"
  by (simp_all add: dot_def)

lemma str2rhn_label_eq:
  assumes "drop j str = l @ c # r" and "0 \<notin> set l" "dot \<notin> set l" and "c = 0 \<or> c = dot"
    and "jlim < length rhn"
  shows "if l = [] \<or> j + length l \<le> jlim
         then str2rhn_label str jlim j rhn =
                Some (True, j + length l, take (j + 1) rhn @ l @ drop (j + 1 + length l) rhn)
         else \<exists>j' rhn'. str2rhn_label str jlim j rhn = Some (False, j', rhn') \<and> length rhn' = length rhn"
  using assms
proof (induction l arbitrary: j rhn)
  case Nil
  then have "rd str j = Some c" by (auto dest: drop_ConsD)
  with Nil show ?case by (auto simp: str2rhn_label.simps [of str jlim j])
next
  case (Cons x l)
  then have x: "rd str j = Some x" "drop (Suc j) str = l @ c # r" "x \<noteq> 0" "x \<noteq> dot"
    by (auto dest: drop_ConsD)
  show ?case
  proof (cases "j \<ge> jlim")
    case True
    with x show ?thesis by (auto simp: str2rhn_label.simps [of str jlim j])
  next
    case False
    then have j: "j + 1 < length rhn" using Cons.prems(5) by simp
    have eq: "str2rhn_label str jlim j rhn = str2rhn_label str jlim (Suc j) (rhn[Suc j := x])"
      using x False j by (simp add: str2rhn_label.simps [of str jlim j] mem_simps)
    have tk: "take (Suc (Suc j)) (rhn[Suc j := x]) = take (Suc j) rhn @ [x]"
      using j by (simp add: take_update_Suc)
    show ?thesis
    proof (cases "l = []")
      case True
      with x False j Cons.prems eq tk Cons.IH [of "Suc j" "rhn[Suc j := x]"] show ?thesis
        by simp
    next
      case False
      with x j Cons.prems eq tk Cons.IH [of "Suc j" "rhn[Suc j := x]"] show ?thesis
        by (auto split: if_splits)
    qed
  qed
qed

text \<open>
  The outer loop, from position \<open>i\<close> where the labels \<open>done\<close> have been converted:
  it ends with 1 exactly when the rest of the string is a sequence of dotted labels that fits.
\<close>

definition dotted_rest :: "nat \<Rightarrow> byte list \<Rightarrow> label list \<Rightarrow> bool" where
  "dotted_rest i cs ls \<longleftrightarrow> cs = dotted ls \<and> list_all text_label ls \<and> i + length cs \<le> 255 \<and> (i = 0 \<longrightarrow> ls \<noteq> [])"

definition str2rhn_post :: "nat \<Rightarrow> byte list \<Rightarrow> label list \<Rightarrow> (nat \<times> byte list) option \<Rightarrow> bool" where
  "str2rhn_post i cs don res \<longleftrightarrow> (\<exists>r rhn'. res = Some (r, rhn') \<and> length rhn' = 256 \<and>
     (r = 1 \<and> (\<exists>ls. dotted_rest i cs ls \<and> take (length (wire (don @ ls))) rhn' = wire (don @ ls)) \<or>
      r = 0 \<and> (\<nexists>ls. dotted_rest i cs ls)))"

lemma dotted_no_dot: "dot \<notin> set cs \<Longrightarrow> cs = dotted ls \<longleftrightarrow> cs = [] \<and> ls = []"
  by (cases ls) auto

lemma dotted_split:
  assumes "dot \<notin> set l" "l @ dot # cs = dotted ls" "list_all text_label ls"
  obtains ls' where "ls = l # ls'" "cs = dotted ls'"
proof (cases ls)
  case Nil
  with assms show ?thesis by simp
next
  case (Cons m ms)
  with assms have "dot \<notin> set m" by (auto simp: text_label_def)
  with assms Cons have "l = m \<and> cs = dotted ms"
    using split_first_eq [of l dot cs m "dotted ms"] by simp
  with Cons that show ?thesis by blast
qed

lemma dotted_inj:
  "list_all text_label ls \<Longrightarrow> list_all text_label ms \<Longrightarrow> dotted ls = dotted ms \<Longrightarrow> ls = ms"
proof (induction ls arbitrary: ms)
  case Nil
  then show ?case by (cases ms) auto
next
  case (Cons l ls)
  have wl: "text_label l" and ms: "list_all text_label ms" and eq: "l @ dot # dotted ls = dotted ms"
    using Cons.prems by simp_all
  have "dot \<notin> set l" using wl by (simp add: text_label_def)
  from this eq ms obtain ms' where "ms = l # ms'" "dotted ls = dotted ms'"
    by (rule dotted_split)
  with Cons show ?case by simp
qed

lemma dotted_rest_Nil: "dotted_rest i [] ls \<longleftrightarrow> ls = [] \<and> 0 < i \<and> i \<le> 255"
  by (cases ls) (auto simp: dotted_rest_def)

lemma dotted_rest_step:
  assumes "dot \<notin> set l" "0 \<notin> set l"
  shows "dotted_rest i (l @ dot # cs) ls \<longleftrightarrow>
    wf_label l \<and> (\<exists>ls'. ls = l # ls' \<and> dotted_rest (i + length l + 1) cs ls')"
proof
  assume h: "dotted_rest i (l @ dot # cs) ls"
  then obtain ls' where "ls = l # ls'" "cs = dotted ls'"
    using dotted_split [of l cs ls] assms by (auto simp: dotted_rest_def)
  with h show "wf_label l \<and> (\<exists>ls'. ls = l # ls' \<and> dotted_rest (i + length l + 1) cs ls')"
    by (auto simp: dotted_rest_def text_label_def)
next
  assume "wf_label l \<and> (\<exists>ls'. ls = l # ls' \<and> dotted_rest (i + length l + 1) cs ls')"
  with assms show "dotted_rest i (l @ dot # cs) ls"
    by (auto simp: dotted_rest_def text_label_def)
qed

lemma dotted_rest_too_long:
  assumes "dot \<notin> set l" "l \<noteq> []" "\<not> i + length l \<le> label_limit i"
  shows "\<not> dotted_rest i (l @ dot # cs) ls"
proof
  assume h: "dotted_rest i (l @ dot # cs) ls"
  then obtain ls' where "ls = l # ls'"
    using dotted_split [of l cs ls] assms by (auto simp: dotted_rest_def)
  with h assms show False
    by (auto simp: dotted_rest_def text_label_def wf_label_def label_limit_def DNSNAMEBUFSIZE_def
        split: if_splits)
qed

lemma label_limit_le: "label_limit i \<le> 254"
  by (simp add: label_limit_def DNSNAMEBUFSIZE_def)

lemma label_limit_less: "label_limit i < 256"
  using label_limit_le [of i] by linarith

lemma str2rhn_loop_post:
  assumes "drop i str = cs @ 0 # r" "0 \<notin> set cs" "length rhn = 256"
    and "i = length (wire_body don)" "take i rhn = wire_body don" "i \<le> 255"
  shows "str2rhn_post i cs don (str2rhn_loop str i rhn)"
  using assms
proof (induction "length cs" arbitrary: i cs rhn don rule: less_induct)
  case less
  have jlim: "label_limit i < length rhn" using less.prems label_limit_less by simp
  show ?case
  proof (cases "dot \<in> set cs")
    case False
    note lab = str2rhn_label_eq [of i str cs 0 r "label_limit i" rhn, OF less.prems(1,2) False _ jlim]
    show ?thesis
    proof (cases "cs = []")
      case True
      then have d: "rd str i = Some 0" using less.prems by (auto dest: drop_ConsD)
      have "str2rhn_loop str i rhn = Some (if i = 0 then 0 else 1, rhn[i := 0])"
        using lab True d less.prems
        by (subst str2rhn_loop.simps) (simp add: Let_def mem_simps)
      moreover have "take (Suc i) (rhn[i := 0]) = wire_body don @ [0]"
        using less.prems by (simp add: take_update_Suc)
      ultimately show ?thesis
        using True less.prems
        by (auto simp: str2rhn_post_def dotted_rest_Nil length_wire wire_def)
    next
      case ne: False
      have no: "\<not> dotted_rest i cs ls" for ls
        using ne dotted_no_dot [OF False] by (auto simp: dotted_rest_def)
      have "\<exists>rhn'. str2rhn_loop str i rhn = Some (0, rhn') \<and> length rhn' = 256"
      proof (cases "i + length cs \<le> label_limit i")
        case True
        have "rd str (i + length cs) = Some 0"
          using less.prems(1) by (auto dest: drop_app_eq drop_ConsD)
        with True lab ne less.prems label_limit_le [of i] show ?thesis
          by (subst str2rhn_loop.simps)
            (auto simp: Let_def wr_def)
      next
        case False
        with lab ne less.prems show ?thesis
          by (subst str2rhn_loop.simps) (auto simp: Let_def)
      qed
      with no show ?thesis by (auto simp: str2rhn_post_def)
    qed
  next
    case True
    then obtain l cs' where cs: "cs = l @ dot # cs'" and l: "dot \<notin> set l"
      by (metis split_list_first)
    have l0: "0 \<notin> set l" using cs less.prems by simp
    have dr: "drop i str = l @ dot # cs' @ 0 # r" using less.prems cs by simp
    note lab = str2rhn_label_eq [OF dr l0 l _ jlim]
    have c: "rd str (i + length l) = Some dot" using dr by (auto dest: drop_app_eq drop_ConsD)
    show ?thesis
    proof (cases "l = []")
      case True
      have "str2rhn_loop str i rhn = Some (0, rhn)"
        using lab c True less.prems
        by (subst str2rhn_loop.simps) (simp add: Let_def)
      moreover have "\<not> dotted_rest i cs ls" for ls
        using cs True dotted_rest_step [of "[]" i cs' ls] by (simp add: wf_label_def)
      ultimately show ?thesis using less.prems by (simp add: str2rhn_post_def)
    next
      case ne: False
      show ?thesis
      proof (cases "i + length l \<le> label_limit i")
        case False
        then have "\<exists>rhn'. str2rhn_loop str i rhn = Some (0, rhn') \<and> length rhn' = 256"
          using lab ne less.prems
          by (subst str2rhn_loop.simps) (auto simp: Let_def)
        moreover have "\<not> dotted_rest i cs ls" for ls
          using dotted_rest_too_long [OF l ne] False cs by simp
        ultimately show ?thesis by (auto simp: str2rhn_post_def)
      next
        case True
        let ?rhn1 = "take (i + 1) rhn @ l @ drop (i + 1 + length l) rhn"
        let ?rhn = "?rhn1[i := of_nat (length l)]"
        have len: "length l \<le> 63" "i + length l \<le> 254"
          using True by (auto simp: label_limit_def DNSNAMEBUFSIZE_def split: if_splits)
        then have wl: "wf_label l" using ne by (simp add: wf_label_def)
        have step: "str2rhn_loop str i rhn = str2rhn_loop str (i + length l + 1) ?rhn"
          using lab ne True c less.prems len
          by (subst str2rhn_loop.simps) (simp add: Let_def mem_simps)
        have len1: "length ?rhn1 = 256" using less.prems len by simp
        have tk1: "take i ?rhn1 = wire_body don" using less.prems by simp
        have "take (Suc i) ?rhn = take i ?rhn1 @ [of_nat (length l)]"
          by (rule take_update_Suc) (use len1 len in simp)
        with tk1 have tkS: "take (Suc i) ?rhn = wire_body don @ [of_nat (length l)]" by simp
        have "drop (Suc i) ?rhn = drop (Suc i) ?rhn1" by simp
        also have "\<dots> = l @ drop (i + 1 + length l) rhn" using less.prems by simp
        finally have "take (length l) (drop (Suc i) ?rhn) = l" by simp
        with tkS have tk: "take (Suc i + length l) ?rhn = wire_body (don @ [l])"
          by (simp only: take_add) simp
        have "drop (i + length l) str = dot # cs' @ 0 # r" using dr by (rule drop_app_eq)
        then have dr': "drop (i + length l + 1) str = cs' @ 0 # r" by (auto dest: drop_ConsD)
        have post: "str2rhn_post (i + length l + 1) cs' (don @ [l]) (str2rhn_loop str (i + length l + 1) ?rhn)"
          by (rule less.hyps [OF _ dr']) (use cs less.prems len tk len1 in \<open>simp_all add: add.commute\<close>)
        have eq: "dotted_rest i cs ls \<longleftrightarrow> (\<exists>ls'. ls = l # ls' \<and> dotted_rest (i + length l + 1) cs' ls')" for ls
          using dotted_rest_step [OF l l0] wl cs by simp
        show ?thesis
          using post unfolding step str2rhn_post_def eq
          by (force simp: wire_append)
      qed
    qed
  qed
qed

lemma str2rhn_root: "str2rhn (dot # 0 # r) (b # buf) = Some (1, 0 # buf)"
  by (simp add: str2rhn_def rd_def wr_def)

lemma str2rhn_text:
  assumes "0 \<notin> set cs" "length rhn = 256" "cs \<noteq> [dot]"
  shows "str2rhn (cs @ 0 # r) rhn = str2rhn_loop (cs @ 0 # r) 0 rhn"
proof (cases cs)
  case Nil
  then show ?thesis by (simp add: str2rhn_def rd_def)
next
  case (Cons c cs')
  with assms show ?thesis
    by (cases cs') (auto simp: str2rhn_def rd_def)
qed

subsection \<open>Correctness of str2rhn\<close>

text \<open>
  C5: \<^verbatim>\<open>str2rhn\<close> accepts exactly the text forms of domain names (a single dot for the root,
  otherwise non-empty labels of at most 63 bytes, each followed by a dot, at most 255 bytes in
  all). On acceptance the buffer starts with the length-byte form of the labels; in every case
  all accesses stay inside the two buffers.
\<close>

theorem str2rhn_correct:
  assumes "0 \<notin> set cs" and "length rhn = DNSNAMEBUFSIZE"
  shows "\<exists>r rhn'. str2rhn (cs @ 0 # rest) rhn = Some (r, rhn') \<and> length rhn' = DNSNAMEBUFSIZE \<and>
    (r = 1 \<and> (\<exists>ls. (cs = [dot] \<and> ls = [] \<or> cs = dotted ls \<and> ls \<noteq> []) \<and> list_all text_label ls \<and>
               length cs \<le> 255 \<and> take (length (wire ls)) rhn' = wire ls) \<or>
     r = 0 \<and> cs \<noteq> [dot] \<and> (\<nexists>ls. cs = dotted ls \<and> ls \<noteq> [] \<and> list_all text_label ls \<and> length cs \<le> 255))"
proof (cases "cs = [dot]")
  case True
  obtain b buf where "rhn = b # buf" using assms(2) by (cases rhn) (auto simp: DNSNAMEBUFSIZE_def)
  with True assms str2rhn_root [of rest b buf] show ?thesis
    by (auto simp: DNSNAMEBUFSIZE_def)
next
  case False
  have len: "length rhn = 256" using assms(2) by (simp add: DNSNAMEBUFSIZE_def)
  have "str2rhn_post 0 cs [] (str2rhn_loop (cs @ 0 # rest) 0 rhn)"
    by (rule str2rhn_loop_post) (use assms(1) len in simp_all)
  with False str2rhn_text [OF assms(1) len False, of rest] show ?thesis
    by (auto simp: str2rhn_post_def dotted_rest_def DNSNAMEBUFSIZE_def)
qed

theorem str2rhn_correct_witness:
  "\<exists>rhn'. str2rhn (cstr ''a.bc.'' @ 0 # []) (replicate 256 0) = Some (1, rhn') \<and>
     take (length (wire [cstr ''a'', cstr ''bc''])) rhn' = wire [cstr ''a'', cstr ''bc'']"
proof -
  let ?cs = "cstr ''a.bc.''" and ?ls = "[cstr ''a'', cstr ''bc'']"
  have c: "?cs = dotted ?ls" "?cs \<noteq> [dot]" "length ?cs \<le> 255"
    by (simp_all add: cstr_def chr_def dot_def dotted_def)
  have t: "list_all text_label ?ls"
    by (simp add: text_label_def wf_label_def cstr_def chr_def dot_def)
  have h: "0 \<notin> set ?cs" "length (replicate 256 (0 :: byte)) = DNSNAMEBUFSIZE"
    by (simp_all add: cstr_def chr_def DNSNAMEBUFSIZE_def)
  have "?ls \<noteq> []" by simp
  with c t have "\<exists>ls. ?cs = dotted ls \<and> ls \<noteq> [] \<and> list_all text_label ls \<and> length ?cs \<le> 255"
    by blast
  with str2rhn_correct [OF h, of "[]"] c(2) obtain rhn' ls
    where e: "str2rhn (?cs @ 0 # []) (replicate 256 0) = Some (1, rhn')"
      and r: "?cs = dotted ls" "list_all text_label ls" "take (length (wire ls)) rhn' = wire ls"
    by blast
  have "ls = ?ls"
    by (rule dotted_inj [OF r(2) t]) (use r(1) c(1) in \<open>simp only:\<close>)
  with e r(3) show ?thesis by blast
qed

subsection \<open>Correctness of rhn2str\<close>

lemma snprintf_at_length: "snprintf_at buf j rem t = Some (n, buf') \<Longrightarrow> n = length t \<and> length buf' = length buf"
  by (auto simp: snprintf_at_def memcpy_at_length split: if_splits elim!: bind_eq_SomeE)

lemma rhn2str_label_safe:
  assumes "drop i rhn = l @ rest" and "sz \<le> length str" and "l = [] \<longrightarrow> j + 2 \<le> sz"
  shows "\<exists>ok i' j' str'. rhn2str_label rhn (length l) i j str sz = Some (ok, i', j', str') \<and>
    length str' = length str \<and> (ok \<longrightarrow> j' + 2 \<le> sz \<and> i' = i + length l)"
  using assms
proof (induction l arbitrary: i j str)
  case (Cons c l)
  then have c: "rd rhn i = Some c" "drop (Suc i) rhn = l @ rest" by (auto dest: drop_ConsD)
  show ?case
  proof (cases "j + 2 \<ge> sz")
    case False
    then have j: "j + 2 < sz" by simp
    have IH: "\<exists>ok i' j'' str''. rhn2str_label rhn (length l) (Suc i) j' str' sz = Some (ok, i', j'', str'') \<and>
        length str'' = length str \<and> (ok \<longrightarrow> j'' + 2 \<le> sz \<and> i' = Suc i + length l)"
      if "length str' = length str" "j' + 2 \<le> sz" for j' str'
      using Cons.IH [OF c(2), of str' j'] Cons.prems that by simp
    have "j + (sz - 1 - j) \<le> length str" using Cons.prems j by simp
    from snprintf_at_defined [OF this, of "octal_escape c"] obtain str1
      where sn: "snprintf_at str j (sz - 1 - j) (octal_escape c) = Some (4, str1)" "length str1 = length str"
      by auto
    show ?thesis
    proof (cases "isgraph c")
      case True
      show ?thesis
        using True c(1) j Cons.prems IH [of "str[j := 92, Suc j := c]" "j + 2"] IH [of "str[j := c]" "j + 1"]
        by (auto simp: mem_simps)
    next
      case False
      with c(1) j Cons.prems sn IH [of str1 "j + 4"] show ?thesis
        by (auto simp: mem_simps)
    qed
  qed auto
qed auto

lemma rhn2str_overflow_safe:
  assumes "0 < sz" "sz \<le> length str"
  shows "\<exists>str'. rhn2str_overflow str sz = Some str' \<and> length str' = length str \<and> str' ! (sz - 1) = 0"
proof -
  have "0 < length str" using assms by linarith
  with assms show ?thesis by (auto simp: rhn2str_overflow_def mem_simps nth_list_update)
qed

lemma zero_in_take:
  assumes "s ! n = 0" "n < sz" "sz \<le> length (s :: byte list)"
  shows "0 \<in> set (take sz s)"
  using assms by (metis in_set_conv_nth length_take min.absorb2 nth_take)

lemma rhn2str_loop_safe:
  assumes "drop i rhn = l @ wire ls @ r" and "list_all wf_label (l # ls)"
    and "0 < sz" "sz \<le> length str"
  shows "\<exists>str'. rhn2str_loop rhn (length l) i j str sz = Some str' \<and> length str' = length str \<and>
    0 \<in> set (take sz str')"
  using assms
proof (induction ls arbitrary: l i j str)
  note fin = zero_in_take
  {
    case Nil
    then obtain ok i' j' str' where lab: "rhn2str_label rhn (length l) i j str sz = Some (ok, i', j', str')"
        "length str' = length str" "ok \<longrightarrow> j' + 2 \<le> sz \<and> i' = i + length l"
      using rhn2str_label_safe [of i rhn l _ sz str j] by (auto simp: wf_label_def)
    have z: "rd rhn (i + length l) = Some 0"
      using Nil.prems(1) by (auto dest: drop_app_eq drop_ConsD)
    show ?case
    proof (cases ok)
      case True
      with lab z Nil.prems fin [of "str'[j' := dot, Suc j' := 0]" "Suc j'"] show ?thesis
        by (subst rhn2str_loop.simps) (auto simp: mem_simps)
    next
      case False
      with lab Nil.prems rhn2str_overflow_safe [of sz str'] fin show ?thesis
        by (subst rhn2str_loop.simps) (fastforce simp: mem_simps)
    qed
  next
    case (Cons m ls)
    then obtain ok i' j' str' where lab: "rhn2str_label rhn (length l) i j str sz = Some (ok, i', j', str')"
        "length str' = length str" "ok \<longrightarrow> j' + 2 \<le> sz \<and> i' = i + length l"
      using rhn2str_label_safe [of i rhn l _ sz str j] by (auto simp: wf_label_def)
    have z: "rd rhn (i + length l) = Some (of_nat (length m))"
        "drop (Suc (i + length l)) rhn = m @ wire ls @ r"
      using Cons.prems(1) by (auto dest: drop_app_eq drop_ConsD)
    show ?case
    proof (cases ok)
      case True
      with lab z Cons.prems Cons.IH [OF z(2), of "str'[j' := dot]" "Suc j'"] show ?thesis
        by (subst rhn2str_loop.simps) (auto simp: mem_simps wf_label_length_byte)
    next
      case False
      with lab Cons.prems rhn2str_overflow_safe [of sz str'] fin show ?thesis
        by (subst rhn2str_loop.simps) (fastforce simp: mem_simps)
    qed
  }
qed

text \<open>
  C6: \<^verbatim>\<open>rhn2str\<close> is memory safe for every buffer: printing any well-formed name, however
  many of its bytes need escapes, reads only the name, writes only the first \<open>sz\<close> bytes of the
  buffer (none beyond its end) and leaves a null-terminated string there.
\<close>

theorem rhn2str_safe:
  assumes "list_all wf_label ls" and "0 < sz" and "sz \<le> length str"
  shows "\<exists>str'. rhn2str (wire ls @ r) str sz = Some (Some str') \<and> length str' = length str \<and>
    0 \<in> set (take sz str')"
proof (cases ls)
  case Nil
  have len: "0 < length str" using assms by linarith
  show ?thesis
  proof (cases "2 \<le> sz")
    case True
    then have "Suc 0 < length str" using assms by linarith
    then have "wr str 0 dot = Some (str[0 := dot])" "wr (str[0 := dot]) 1 0 = Some (str[0 := dot, 1 := 0])"
      and "0 \<in> set (take sz (str[0 := dot, 1 := 0]))"
      using zero_in_take [of "str[0 := dot, 1 := 0]" 1 sz] True assms by (auto simp: wr_def)
    with True Nil show ?thesis
      by (simp add: rhn2str_def rd_def)
  next
    case False
    then have "wr str 0 0 = Some (str[0 := 0])" and "0 \<in> set (take sz (str[0 := 0]))"
      using zero_in_take [of "str[0 := 0]" 0 sz] len assms by (auto simp: wr_def)
    with False Nil assms show ?thesis
      by (simp add: rhn2str_def rd_def)
  qed
next
  case (Cons l ls')
  have d: "drop 1 (wire ls @ r) = l @ wire ls' @ r" using Cons by simp
  have "rd (wire ls @ r) 0 = Some (of_nat (length l))" using Cons by (simp add: rd_def)
  with rhn2str_loop_safe [OF d, of sz str 0] assms Cons show ?thesis
    by (auto simp: rhn2str_def wf_label_length_byte)
qed

theorem rhn2str_safe_witness:
  "\<exists>str'. rhn2str (wire [[7, 46]] @ []) (replicate 5 1) 5 = Some (Some str') \<and>
    length str' = 5 \<and> 0 \<in> set (take 5 str')"
  using rhn2str_safe [of "[[7, 46]]" 5 "replicate 5 1" "[]"] by (simp add: wf_label_def)

text \<open>Names whose bytes are all printable and not special are printed literally.\<close>

definition plain_char :: "byte \<Rightarrow> bool" where
  "plain_char c \<longleftrightarrow> isgraph c \<and> c \<noteq> dot \<and> c \<noteq> 92 \<and> c \<noteq> 34"

definition plain_label :: "label \<Rightarrow> bool" where
  "plain_label l \<longleftrightarrow> wf_label l \<and> list_all plain_char l"

lemma plain_label_text: "plain_label l \<Longrightarrow> text_label l"
  by (auto simp: plain_label_def text_label_def plain_char_def isgraph_def list_all_iff)

lemma rhn2str_label_plain:
  assumes "drop i rhn = l @ rest" and "list_all plain_char l" and "j + length l + 1 < sz" "sz \<le> length str"
  shows "rhn2str_label rhn (length l) i j str sz =
    Some (True, i + length l, j + length l, take j str @ l @ drop (j + length l) str)"
  using assms
proof (induction l arbitrary: i j str)
  case (Cons c l)
  then have c: "rd rhn i = Some c" "drop (Suc i) rhn = l @ rest" by (auto dest: drop_ConsD)
  have j: "j < length str" "j + 2 < sz" using Cons.prems by simp_all
  have tk: "take (Suc j) (str[j := c]) = take j str @ [c]" using j by (simp add: take_update_Suc)
  from c j Cons.prems Cons.IH [OF c(2), of "Suc j" "str[j := c]"] tk show ?case
    by (simp add: plain_char_def mem_simps)
qed simp

lemma rhn2str_loop_plain:
  assumes "drop i rhn = l @ wire ls @ r" and "list_all plain_label (l # ls)"
    and "j + length (dotted (l # ls)) + 1 \<le> sz" "sz \<le> length str"
  shows "\<exists>tl. rhn2str_loop rhn (length l) i j str sz = Some (take j str @ dotted (l # ls) @ 0 # tl)"
  using assms
proof (induction ls arbitrary: l i j str)
  case Nil
  let ?s = "take j str @ l @ drop (j + length l) str"
  have lab: "rhn2str_label rhn (length l) i j str sz = Some (True, i + length l, j + length l, ?s)"
    using rhn2str_label_plain [of i rhn l "wire [] @ r" j sz str] Nil.prems by (simp add: plain_label_def)
  have z: "rd rhn (i + length l) = Some 0" using Nil.prems(1) by (auto dest: drop_app_eq drop_ConsD)
  have len: "Suc (j + length l) < length ?s" using Nil.prems by simp
  have "Suc (j + length l) < length str" using Nil.prems by simp
  from drop_two [OF this] have "?s[j + length l := dot, Suc (j + length l) := 0]
      = take j str @ l @ dot # 0 # drop (j + length l + 2) str"
    using Nil.prems by (simp add: list_update_append min_def)
  with lab z len show ?case
    by (subst rhn2str_loop.simps) (simp add: mem_simps)
next
  case (Cons m ls)
  let ?s = "take j str @ l @ drop (j + length l) str"
  have lab: "rhn2str_label rhn (length l) i j str sz = Some (True, i + length l, j + length l, ?s)"
    using rhn2str_label_plain [of i rhn l "wire (m # ls) @ r" j sz str] Cons.prems by (simp add: plain_label_def)
  have z: "rd rhn (i + length l) = Some (of_nat (length m))"
      "drop (Suc (i + length l)) rhn = m @ wire ls @ r"
    using Cons.prems(1) by (auto dest: drop_app_eq drop_ConsD)
  have wf: "wf_label m" using Cons.prems(2) by (simp add: plain_label_def)
  have len: "j + length l < length ?s" using Cons.prems by simp
  then have tk: "take (Suc (j + length l)) (?s[j + length l := dot]) = take j str @ l @ [dot]"
    using Cons.prems by (simp add: take_update_Suc)
  from Cons.IH [OF z(2), of "Suc (j + length l)" "?s[j + length l := dot]"] Cons.prems len tk
  obtain tl where "rhn2str_loop rhn (length m) (Suc (i + length l)) (Suc (j + length l)) (?s[j + length l := dot]) sz
      = Some ((take j str @ l @ [dot]) @ dotted (m # ls) @ 0 # tl)"
    by auto
  with lab z len wf show ?case
    by (subst rhn2str_loop.simps) (simp add: mem_simps wf_label_length_byte)
qed

lemma rhn2str_plain:
  assumes "list_all plain_label ls" "ls \<noteq> []" "length (dotted ls) + 1 \<le> sz" "sz \<le> length str"
  shows "\<exists>tl. rhn2str (wire ls @ r) str sz = Some (Some (dotted ls @ 0 # tl))"
proof -
  from assms(2) obtain l ls' where ls: "ls = l # ls'" by (cases ls) auto
  have d: "drop 1 (wire ls @ r) = l @ wire ls' @ r" using ls by simp
  have "rd (wire ls @ r) 0 = Some (of_nat (length l))" using ls by (simp add: rd_def)
  with rhn2str_loop_plain [OF d, of 0 sz str] assms ls show ?thesis
    by (auto simp: rhn2str_def plain_label_def wf_label_length_byte)
qed

text \<open>
  C7: printing a well-formed name of plain characters into a buffer of \<^verbatim>\<open>DNSNAMEBUFSIZE\<close> bytes
  and reading the text back with \<^verbatim>\<open>str2rhn\<close> gives the same name.
\<close>

theorem rhn2str_str2rhn_roundtrip:
  assumes "wf_name ls" and "list_all plain_label ls"
    and "length str = DNSNAMEBUFSIZE" and "length buf = DNSNAMEBUFSIZE"
  shows "\<exists>s buf'. rhn2str (wire ls @ r) str DNSNAMEBUFSIZE = Some (Some s) \<and>
    str2rhn s buf = Some (1, buf') \<and> take (length (wire ls)) buf' = wire ls"
proof (cases "ls = []")
  case True
  obtain x xs where x: "str = x # xs" using assms(3) by (cases str) (auto simp: DNSNAMEBUFSIZE_def)
  then obtain y str' where "xs = y # str'" using assms(3) by (cases xs) (auto simp: DNSNAMEBUFSIZE_def)
  with x have "str = x # y # str'" by simp
  moreover obtain b buf0 where "buf = b # buf0" using assms(4) by (cases buf) (auto simp: DNSNAMEBUFSIZE_def)
  ultimately show ?thesis
    using True str2rhn_root [of str' b buf0] by (simp add: rhn2str_def rd_def wr_def DNSNAMEBUFSIZE_def)
next
  case False
  have len: "length (dotted ls) \<le> 255"
    using assms(1) by (simp add: wf_name_def length_wire length_dotted DNSNAMEBUFSIZE_def)
  then obtain tl where s: "rhn2str (wire ls @ r) str DNSNAMEBUFSIZE = Some (Some (dotted ls @ 0 # tl))"
    using rhn2str_plain [OF assms(2) False, of DNSNAMEBUFSIZE str r] assms(3)
    by (auto simp: DNSNAMEBUFSIZE_def)
  have tx: "list_all text_label ls" using assms(2) by (auto simp: list_all_iff plain_label_text)
  have n0: "0 \<notin> set (dotted ls)" using tx by (auto simp: dotted_def list_all_iff text_label_def)
  have ne: "dotted ls \<noteq> [dot]"
    using False tx by (cases ls) (auto simp: text_label_def wf_label_def append_eq_Cons_conv)
  have len4: "length buf = 256" using assms(4) by (simp add: DNSNAMEBUFSIZE_def)
  have "str2rhn_post 0 (dotted ls) [] (str2rhn (dotted ls @ 0 # tl) buf)"
    unfolding str2rhn_text [OF n0 len4 ne]
    by (rule str2rhn_loop_post) (use n0 len4 in simp_all)
  moreover have "ms = ls" if "dotted_rest 0 (dotted ls) ms" for ms
    by (rule dotted_inj [OF _ tx]) (use that in \<open>simp_all only: dotted_rest_def\<close>)
  moreover have "dotted_rest 0 (dotted ls) ls"
    unfolding dotted_rest_def using tx len False by simp
  ultimately show ?thesis using s unfolding str2rhn_post_def append_Nil by metis
qed

theorem rhn2str_str2rhn_roundtrip_witness:
  "\<exists>s buf'. rhn2str (wire [[97, 98], [99]] @ []) (replicate 256 0) DNSNAMEBUFSIZE = Some (Some s) \<and>
    str2rhn s (replicate 256 7) = Some (1, buf') \<and>
    take (length (wire [[97, 98], [99]])) buf' = wire [[97, 98], [99]]"
  by (rule rhn2str_str2rhn_roundtrip)
    (simp_all add: wf_name_def wf_label_def plain_label_def plain_char_def isgraph_def dot_def DNSNAMEBUFSIZE_def)

end
