(* ===== verification/Rr_Types.thy ===== *)
theory Rr_Types
  imports Prelude
begin

section \<open>Record types (rr_types.h, rr_types.c)\<close>

text \<open>
  The table of resource record types: type values, the internal indices of the types that are
  cached, their names and the relation of mutual exclusion used by conflict resolution.
\<close>

subsection \<open>Type values and indices\<close>

abbreviation (input) T_MIN :: int where "T_MIN \<equiv> 1"
abbreviation (input) T_A :: int where "T_A \<equiv> 1"
abbreviation (input) T_NS :: int where "T_NS \<equiv> 2"
abbreviation (input) T_MD :: int where "T_MD \<equiv> 3"
abbreviation (input) T_MF :: int where "T_MF \<equiv> 4"
abbreviation (input) T_CNAME :: int where "T_CNAME \<equiv> 5"
abbreviation (input) T_SOA :: int where "T_SOA \<equiv> 6"
abbreviation (input) T_MB :: int where "T_MB \<equiv> 7"
abbreviation (input) T_MG :: int where "T_MG \<equiv> 8"
abbreviation (input) T_MR :: int where "T_MR \<equiv> 9"
abbreviation (input) T_PTR :: int where "T_PTR \<equiv> 12"
abbreviation (input) T_HINFO :: int where "T_HINFO \<equiv> 13"
abbreviation (input) T_MINFO :: int where "T_MINFO \<equiv> 14"
abbreviation (input) T_MX :: int where "T_MX \<equiv> 15"
abbreviation (input) T_TXT :: int where "T_TXT \<equiv> 16"
abbreviation (input) T_RP :: int where "T_RP \<equiv> 17"
abbreviation (input) T_AFSDB :: int where "T_AFSDB \<equiv> 18"
abbreviation (input) T_RT :: int where "T_RT \<equiv> 21"
abbreviation (input) T_PX :: int where "T_PX \<equiv> 26"
abbreviation (input) T_AAAA :: int where "T_AAAA \<equiv> 28"
abbreviation (input) T_LOC :: int where "T_LOC \<equiv> 29"
abbreviation (input) T_NXT :: int where "T_NXT \<equiv> 30"
abbreviation (input) T_SRV :: int where "T_SRV \<equiv> 33"
abbreviation (input) T_NAPTR :: int where "T_NAPTR \<equiv> 35"
abbreviation (input) T_KX :: int where "T_KX \<equiv> 36"
abbreviation (input) T_MAX :: int where "T_MAX \<equiv> 51"

definition T_NUM :: nat where "T_NUM = 51"
definition NRRMU :: nat where "NRRMU = 8"
definition NRREXT :: nat where "NRREXT = 39"
definition NRRTOT :: nat where "NRRTOT = 47"

lemmas nrr_defs = T_NUM_def NRRMU_def NRREXT_def NRRTOT_def

text \<open>\<^verbatim>\<open>rrlkuptab\<close>: the index of each type, from 47 on for the types that are not cached.\<close>

definition rrlkuptab :: "nat list" where
  "rrlkuptab = [
     0, 1, 8, 9, 2, 3, 10, 11, 12, 13, 14, 4, 15,
     16, 5, 6, 17, 18, 19, 20, 21, 22, 23, 24, 25, 26,
     27, 7, 28, 29, 30, 31, 32, 33, 34, 35, 36, 47, 48,
     49, 50, 37, 38, 39, 40, 41, 42, 43, 44, 45, 46]"

definition rrmuiterlist :: "int list" where
  "rrmuiterlist = [1, 2, 5, 6, 12, 15, 16, 28]"

definition rrcachiterlist :: "int list" where
  "rrcachiterlist = [
     1, 2, 3, 4, 5, 6, 7, 8, 9, 10, 11, 12, 13, 14, 15, 16,
     17, 18, 19, 20, 21, 22, 23, 24, 25, 26, 27, 28, 29, 30, 31, 32,
     33, 34, 35, 36, 37, 42, 43, 44, 45, 46, 47, 48, 49, 50, 51]"

definition rrnames :: "string list" where
  "rrnames = [
     ''A'', ''NS'', ''MD'', ''MF'', ''CNAME'', ''SOA'', ''MB'', ''MG'', ''MR'',
     ''NULL'', ''WKS'', ''PTR'', ''HINFO'', ''MINFO'', ''MX'', ''TXT'', ''RP'', ''AFSDB'',
     ''X25'', ''ISDN'', ''RT'', ''NSAP'', ''NSAP_PTR'', ''SIG'', ''KEY'', ''PX'', ''GPOS'',
     ''AAAA'', ''LOC'', ''NXT'', ''EID'', ''NIMLOC'', ''SRV'', ''ATMA'', ''NAPTR'', ''KX'',
     ''CERT'', ''A6'', ''DNAME'', ''SINK'', ''OPT'', ''APL'', ''DS'', ''SSHFP'', ''IPSECKEY'',
     ''RRSIG'', ''NSEC'', ''DNSKEY'', ''DHCID'', ''NSEC3'', ''NSEC3PARAM'']"

subsection \<open>Mutual exclusion\<close>

definition RRCL_ALIAS :: u16 where "RRCL_ALIAS = 1"
definition RRCL_RECORD :: u16 where "RRCL_RECORD = 2"
definition RRCL_IDEM :: u16 where "RRCL_IDEM = 4"
definition RRCL_PTR :: u16 where "RRCL_PTR = 8"

definition RRX_ALIAS :: u16 where "RRX_ALIAS = RRCL_RECORD OR RRCL_PTR"
definition RRX_RECORD :: u16 where "RRX_RECORD = RRCL_ALIAS OR RRCL_PTR"
definition RRX_IDEM :: u16 where "RRX_IDEM = 0"
definition RRX_PTR :: u16 where "RRX_PTR = RRCL_ALIAS OR RRCL_RECORD"

lemmas rrcl_defs = RRCL_ALIAS_def RRCL_RECORD_def RRCL_IDEM_def RRCL_PTR_def
  RRX_ALIAS_def RRX_RECORD_def RRX_IDEM_def RRX_PTR_def

record rr_infos =
  rri_class :: u16
  rri_excludes :: u16

abbreviation info_record :: rr_infos where "info_record \<equiv> \<lparr>rri_class = RRCL_RECORD, rri_excludes = RRX_RECORD\<rparr>"
abbreviation info_alias :: rr_infos where "info_alias \<equiv> \<lparr>rri_class = RRCL_ALIAS, rri_excludes = RRX_ALIAS\<rparr>"
abbreviation info_idem :: rr_infos where "info_idem \<equiv> \<lparr>rri_class = RRCL_IDEM, rri_excludes = RRX_IDEM\<rparr>"
abbreviation info_ptr :: rr_infos where "info_ptr \<equiv> \<lparr>rri_class = RRCL_PTR, rri_excludes = RRX_PTR\<rparr>"

definition rr_info :: "rr_infos list" where
  "rr_info = [
     info_record, info_idem, info_alias, info_idem, info_ptr, info_idem, info_idem,
     info_record, info_idem, info_idem, info_idem, info_idem, info_idem, info_idem,
     info_record, info_record, info_idem, info_record, info_record, info_record, info_record,
     info_record, info_record, info_ptr, info_idem, info_idem, info_idem, info_record,
     info_record, info_idem, info_record, info_record, info_record, info_record, info_record,
     info_record, info_record, info_idem, info_idem, info_idem, info_idem, info_idem,
     info_idem, info_idem, info_idem, info_idem, info_idem]"

text \<open>The test of \<^verbatim>\<open>cr_check_add\<close> for two indices.\<close>

definition rr_conflict :: "nat \<Rightarrow> nat \<Rightarrow> bool" where
  "rr_conflict i j \<longleftrightarrow>
     rri_class (rr_info ! i) AND rri_excludes (rr_info ! j) \<noteq> 0 \<or>
     rri_excludes (rr_info ! i) AND rri_class (rr_info ! j) \<noteq> 0"

subsection \<open>Lookup by name and by value\<close>

text \<open>The name is a C string without its terminating null byte; -1 is returned for no name.\<close>

fun rr_tp_loop :: "string list \<Rightarrow> int \<Rightarrow> string \<Rightarrow> int" where
  "rr_tp_loop [] i name = -1"
| "rr_tp_loop (n # ns) i name = (if name = n then i + T_MIN else rr_tp_loop ns (i + 1) name)"

definition rr_tp_byname :: "string \<Rightarrow> int" where
  "rr_tp_byname name = rr_tp_loop rrnames 0 name"

text \<open>\<^verbatim>\<open>PDNSD_NOT_CACHED_TYPE\<close>\<close>

definition not_cached_type :: "int \<Rightarrow> bool" where
  "not_cached_type tp \<longleftrightarrow> tp < T_MIN \<or> tp > T_MAX \<or> rrlkuptab ! nat (tp - T_MIN) \<ge> NRRTOT"

subsection \<open>Consistency of the tables\<close>

lemma table_lengths [simp]:
  "length rrlkuptab = T_NUM" "length rrmuiterlist = NRRMU" "length rrcachiterlist = NRRTOT"
  "length rrnames = T_NUM" "length rr_info = NRRTOT"
  by (simp_all add: rrlkuptab_def rrmuiterlist_def rrcachiterlist_def rrnames_def rr_info_def nrr_defs)

lemma rr_conflict_sym: "rr_conflict i j \<longleftrightarrow> rr_conflict j i"
  unfolding rr_conflict_def by (auto simp: ac_simps)

lemma rr_info_cases: "i < NRRTOT \<Longrightarrow> rr_info ! i \<in> {info_record, info_alias, info_idem, info_ptr}"
proof -
  have "set rr_info \<subseteq> {info_record, info_alias, info_idem, info_ptr}"
    unfolding rr_info_def by (simp only: list.set insert_subset insert_iff simp_thms empty_subsetI)
  moreover assume "i < NRRTOT"
  then have "rr_info ! i \<in> set rr_info" by simp
  ultimately show ?thesis by blast
qed

end
