(* ===== verification/Dns_Wire.thy ===== *)
theory Dns_Wire
  imports Prelude Rr_Types
begin

unbundle bit_operations_syntax

section \<open>Integers and header of a DNS message (dns.h, dns.c)\<close>

text \<open>
  The macros that read and write integers in network byte order at a possibly unaligned
  position, the header with its bit fields, and the decoders used for display. Reading works on
  the bytes from the pointer on and returns the advanced pointer; writing works on a buffer and
  a position.
\<close>

subsection \<open>GETINT16, GETINT32, PUTINT16, PUTINT32\<close>

definition getint16 :: "byte list \<Rightarrow> (u16 \<times> byte list) option" where
  "getint16 s = do {
     b0 \<leftarrow> rd s 0;
     b1 \<leftarrow> rd s 1;
     Some (push_bit 8 (ucast b0) OR ucast b1, drop 2 s) }"

definition getint32 :: "byte list \<Rightarrow> (u32 \<times> byte list) option" where
  "getint32 s = do {
     b0 \<leftarrow> rd s 0;
     b1 \<leftarrow> rd s 1;
     b2 \<leftarrow> rd s 2;
     b3 \<leftarrow> rd s 3;
     Some (push_bit 24 (ucast b0) OR push_bit 16 (ucast b1) OR push_bit 8 (ucast b2) OR ucast b3, drop 4 s) }"

definition putint16 :: "u16 \<Rightarrow> byte list \<Rightarrow> nat \<Rightarrow> (byte list \<times> nat) option" where
  "putint16 s buf i = do {
     buf \<leftarrow> wr buf i (ucast (drop_bit 8 s));
     buf \<leftarrow> wr buf (i + 1) (ucast s);
     Some (buf, i + 2) }"

definition putint32 :: "u32 \<Rightarrow> byte list \<Rightarrow> nat \<Rightarrow> (byte list \<times> nat) option" where
  "putint32 l buf i = do {
     buf \<leftarrow> wr buf i (ucast (drop_bit 24 l));
     buf \<leftarrow> wr buf (i + 1) (ucast (drop_bit 16 l));
     buf \<leftarrow> wr buf (i + 2) (ucast (drop_bit 8 l));
     buf \<leftarrow> wr buf (i + 3) (ucast l);
     Some (buf, i + 4) }"

lemma word_join16: "push_bit 8 (ucast (ucast (drop_bit 8 (s :: u16)) :: byte)) OR ucast (ucast s :: byte) = s"
  by (rule bit_word_eqI) (auto simp: bit_simps)

lemma word_join32:
  "push_bit 24 (ucast (ucast (drop_bit 24 (l :: u32)) :: byte)) OR push_bit 16 (ucast (ucast (drop_bit 16 l) :: byte)) OR
   push_bit 8 (ucast (ucast (drop_bit 8 l) :: byte)) OR ucast (ucast l :: byte) = l"
proof (rule bit_word_eqI)
  fix n assume "n < LENGTH(32)"
  then consider "n < 8" | "8 \<le> n" "n < 16" | "16 \<le> n" "n < 24" | "24 \<le> n" "n < 32" by fastforce
  then show "bit (push_bit 24 (ucast (ucast (drop_bit 24 (l :: u32)) :: byte)) OR push_bit 16 (ucast (ucast (drop_bit 16 l) :: byte)) OR
   push_bit 8 (ucast (ucast (drop_bit 8 l) :: byte)) OR ucast (ucast l :: byte) :: u32) n = bit l n"
    by cases (auto simp: bit_simps)
qed

lemma upd2: "length a = i \<Longrightarrow> ((a @ x # y # z)[i := p])[Suc i := q] = a @ p # q # z"
  by (simp add: list_update_append)

lemma upd4: "length a = i \<Longrightarrow> ((((a @ w # x # y # z # t)[i := p])[Suc i := q])[i + 2 := r])[i + 3 := s] = a @ p # q # r # s # t"
  by (auto simp: list_update_append eval_nat_numeral)

lemma put_list2: "i + 1 < length buf \<Longrightarrow> (buf[i := a])[Suc i := b] = take i buf @ [a, b] @ drop (i + 2) buf"
  using upd2 [of "take i buf" i "buf ! i" "buf ! Suc i" "drop (i + 2) buf" a b] drop_two [of i buf]
    append_take_drop_id [of i buf] by simp

lemma put_list4: "i + 3 < length buf \<Longrightarrow>
  (((buf[i := a])[Suc i := b])[i + 2 := c])[i + 3 := d] = take i buf @ [a, b, c, d] @ drop (i + 4) buf"
  using upd4 [of "take i buf" i "buf ! i" "buf ! Suc i" "buf ! (i + 2)" "buf ! (i + 3)" "drop (i + 4) buf" a b c d]
    drop_two [of i buf] drop_two [of "i + 2" buf] append_take_drop_id [of i buf] by (simp add: eval_nat_numeral)

lemma putint16_eq:
  assumes "i + 2 \<le> length buf"
  shows "putint16 s buf i = Some (take i buf @ [ucast (drop_bit 8 s), ucast s] @ drop (i + 2) buf, i + 2)"
  using assms put_list2 [of i buf] by (simp add: putint16_def wr_def)

lemma putint32_eq:
  assumes "i + 4 \<le> length buf"
  shows "putint32 l buf i = Some (take i buf @ [ucast (drop_bit 24 l), ucast (drop_bit 16 l), ucast (drop_bit 8 l), ucast l] @
    drop (i + 4) buf, i + 4)"
  using assms put_list4 [of i buf] by (simp add: putint32_def wr_def)

text \<open>
  C27: the macros for 16- and 32-bit integers are inverse to each other at every position of a
  buffer with room for the integer: nothing outside the two or four bytes is written, reading at
  the position gives the integer back in network byte order and leaves the pointer just behind it.
\<close>

theorem putint_getint:
  assumes "i + 4 \<le> length buf"
  shows "\<exists>b16 b32. putint16 s buf i = Some (b16, i + 2) \<and> length b16 = length buf \<and>
      take i b16 = take i buf \<and> drop (i + 2) b16 = drop (i + 2) buf \<and>
      getint16 (drop i b16) = Some (s, drop (i + 2) buf) \<and>
      putint32 l buf i = Some (b32, i + 4) \<and> length b32 = length buf \<and>
      take i b32 = take i buf \<and> drop (i + 4) b32 = drop (i + 4) buf \<and>
      getint32 (drop i b32) = Some (l, drop (i + 4) buf)"
proof -
  have len: "i + 2 \<le> length buf" "length (take i buf) = i" using assms by simp_all
  have "getint16 ([ucast (drop_bit 8 s), ucast s] @ r) = Some (s, r)" for r
    by (simp add: getint16_def rd_def word_join16)
  moreover have "getint32 ([ucast (drop_bit 24 l), ucast (drop_bit 16 l), ucast (drop_bit 8 l), ucast l] @ r) = Some (l, r)" for r
    using word_join32 [of l] by (simp add: getint32_def rd_def)
  ultimately show ?thesis
    using len assms unfolding putint16_eq [OF len(1)] putint32_eq [OF assms]     by - (rule exI [of _ "take i buf @ [ucast (drop_bit 8 s), ucast s] @ drop (i + 2) buf"],
        rule exI [of _ "take i buf @ [ucast (drop_bit 24 l), ucast (drop_bit 16 l), ucast (drop_bit 8 l), ucast l] @ drop (i + 4) buf"],
        auto simp: numeral_eq_Suc)
qed

theorem putint_getint_witness:
  "\<exists>b16 b32. putint16 0x1234 [7, 0, 0, 0, 0, 9] 1 = Some (b16, 3) \<and> b16 = [7, 0x12, 0x34, 0, 0, 9] \<and>
    putint32 0x12345678 [7, 0, 0, 0, 0, 9] 1 = Some (b32, 5) \<and> getint32 (drop 1 b32) = Some (0x12345678, [9])"
proof -
  have "1 + 4 \<le> length [7, 0, 0, 0, 0, 9 :: byte]" by simp
  from putint_getint [OF this, of "0x1234" "0x12345678"] obtain b16 b32 where
    "putint16 0x1234 [7, 0, 0, 0, 0, 9] 1 = Some (b16, 1 + 2)"
    "putint32 0x12345678 [7, 0, 0, 0, 0, 9] 1 = Some (b32, 1 + 4)"
    "getint32 (drop 1 b32) = Some (0x12345678, drop (1 + 4) [7, 0, 0, 0, 0, 9])" by blast
  moreover have "(0x1234 :: byte) = 0x34" by (rule word_unat_eq_iff [THEN iffD2]) simp
  with calculation(1) have "b16 = [7, 0x12, 0x34, 0, 0, 9]" by (simp add: putint16_def wr_def)
  ultimately show ?thesis by auto
qed

subsection \<open>The header\<close>

text \<open>
  The bit fields of \<^verbatim>\<open>dns_hdr_t\<close> on a little-endian target, where the first field takes the
  least significant bits of a byte.
\<close>

record dns_hdr =
  dh_id :: u16
  dh_rd :: bool
  dh_tc :: bool
  dh_aa :: bool
  dh_opcode :: nat
  dh_qr :: bool
  dh_rcode :: nat
  dh_cd :: bool
  dh_ad :: bool
  dh_z :: bool
  dh_ra :: bool
  dh_qdcount :: u16
  dh_ancount :: u16
  dh_nscount :: u16
  dh_arcount :: u16

definition sizeof_dns_hdr :: nat where "sizeof_dns_hdr = 12"

text \<open>The fields of a header in memory; the 16-bit fields are in network byte order (\<^verbatim>\<open>ntohs\<close>).\<close>

definition read_hdr :: "byte list \<Rightarrow> dns_hdr option" where
  "read_hdr s = do {
     (ident, s) \<leftarrow> getint16 s;
     f0 \<leftarrow> rd s 0;
     f1 \<leftarrow> rd s 1;
     (qd, s) \<leftarrow> getint16 (drop 2 s);
     (an, s) \<leftarrow> getint16 s;
     (ns, s) \<leftarrow> getint16 s;
     (ar, s) \<leftarrow> getint16 s;
     Some \<lparr>dh_id = ident, dh_rd = bit f0 0, dh_tc = bit f0 1, dh_aa = bit f0 2,
       dh_opcode = unat (take_bit 4 (drop_bit 3 f0)), dh_qr = bit f0 7,
       dh_rcode = unat (take_bit 4 f1), dh_cd = bit f1 4, dh_ad = bit f1 5, dh_z = bit f1 6, dh_ra = bit f1 7,
       dh_qdcount = qd, dh_ancount = an, dh_nscount = ns, dh_arcount = ar\<rparr> }"

definition bitval :: "nat \<Rightarrow> bool \<Rightarrow> byte" where
  "bitval n b = (if b then push_bit n 1 else 0)"

definition write_hdr :: "dns_hdr \<Rightarrow> byte list" where
  "write_hdr h =
     [ucast (drop_bit 8 (dh_id h)), ucast (dh_id h),
      bitval 0 (dh_rd h) OR bitval 1 (dh_tc h) OR bitval 2 (dh_aa h) OR push_bit 3 (of_nat (dh_opcode h)) OR bitval 7 (dh_qr h),
      of_nat (dh_rcode h) OR bitval 4 (dh_cd h) OR bitval 5 (dh_ad h) OR bitval 6 (dh_z h) OR bitval 7 (dh_ra h),
      ucast (drop_bit 8 (dh_qdcount h)), ucast (dh_qdcount h),
      ucast (drop_bit 8 (dh_ancount h)), ucast (dh_ancount h),
      ucast (drop_bit 8 (dh_nscount h)), ucast (dh_nscount h),
      ucast (drop_bit 8 (dh_arcount h)), ucast (dh_arcount h)]"

lemma nibble_bits: "n < 16 \<Longrightarrow> bit (of_nat n :: byte) k \<longleftrightarrow> k < 4 \<and> bit n k"
proof -
  assume "n < 16"
  then have "take_bit 4 n = n" by (simp add: take_bit_nat_eq_self)
  then have "bit n k \<longleftrightarrow> k < 4 \<and> bit n k" by (metis bit_take_bit_iff)
  then show ?thesis by (auto simp: bit_simps)
qed

lemma nibble_take: "n < 16 \<Longrightarrow> unat (take_bit 4 (of_nat n :: byte)) = n"
  unfolding unat_take_bit by (simp add: take_bit_nat_eq_self)


definition example_hdr :: dns_hdr where
  "example_hdr = \<lparr>dh_id = 0xabcd, dh_rd = True, dh_tc = False, dh_aa = True, dh_opcode = 2, dh_qr = True,
     dh_rcode = 3, dh_cd = False, dh_ad = True, dh_z = False, dh_ra = True, dh_qdcount = 1, dh_ancount = 2,
     dh_nscount = 0, dh_arcount = 258\<rparr>"


subsection \<open>Decoders for display\<close>

definition getrrtpname :: "int \<Rightarrow> string" where
  "getrrtpname tp = (if tp \<ge> T_MIN \<and> tp \<le> T_MAX then rrnames ! nat (tp - T_MIN) else ''[unknown]'')"

definition c_names :: "string list" where "c_names = [''IN'', ''CS'', ''CH'', ''HS'']"

definition qt_names :: "string list" where "qt_names = [''IXFR'', ''AXFR'', ''MAILB'', ''MAILA'', ''*'']"

definition get_cname :: "int \<Rightarrow> string" where
  "get_cname i = (if i \<ge> 1 \<and> i \<le> 4 then c_names ! nat (i - 1) else if i = 255 then ''*'' else ''[unknown]'')"

definition get_tname :: "int \<Rightarrow> string" where
  "get_tname i =
     (if i \<ge> T_MIN \<and> i \<le> T_MAX then rrnames ! nat (i - T_MIN)
      else if i \<ge> 251 \<and> i \<le> 255 then qt_names ! nat (i - 251) else ''[unknown]'')"

definition e_names :: "string list" where
  "e_names = [
     ''no error'', ''query format error'', ''server failed'', ''non-existent domain'', ''not supported'',
     ''query refused'', ''name exists when it should not'', ''RR set exists when it should not'',
     ''RR set that should exist does not'', ''server not authoritative for zone'', ''name not contained in zone'',
     ''11'', ''12'', ''13'', ''14'', ''15'', ''bad OPT version'']"

definition get_ename :: "int \<Rightarrow> string" where
  "get_ename i = (if i \<ge> 0 \<and> i < 17 then e_names ! nat i else ''[unknown]'')"

lemma wr_append: "wr (t @ x # r) (length t) v = Some (t @ v # r)"
  by (simp add: wr_def)

text \<open>\<^verbatim>\<open>dnsflags2str\<close> appends to the buffer at a moving pointer.\<close>

definition append_if :: "bool \<Rightarrow> string \<Rightarrow> (byte list \<times> nat) \<Rightarrow> (byte list \<times> nat) option" where
  "append_if b t st = (case st of (buf, p) \<Rightarrow>
     if b then do { buf \<leftarrow> memcpy_at buf p (cstr t) (length t); Some (buf, p + length t) } else Some (buf, p))"

definition dnsflags2str :: "dns_hdr \<Rightarrow> byte list \<Rightarrow> byte list option" where
  "dnsflags2str h buf = do {
     st \<leftarrow> append_if (dh_aa h) '' AA'' (buf, 0);
     st \<leftarrow> append_if (dh_tc h) '' TC'' st;
     st \<leftarrow> append_if (dh_rd h) '' RD'' st;
     st \<leftarrow> append_if (dh_ra h) '' RA'' st;
     st \<leftarrow> append_if (dh_z h) '' Z'' st;
     st \<leftarrow> append_if (dh_ad h) '' AD'' st;
     (buf, p) \<leftarrow> append_if (dh_cd h) '' CD'' st;
     wr buf p 0 }"

definition DNSFLAGSMAXSTRSIZE :: nat where "DNSFLAGSMAXSTRSIZE = 22"

definition opt_text :: "bool \<Rightarrow> string \<Rightarrow> byte list" where
  "opt_text b t = (if b then cstr t else [])"

text \<open>The text written so far is a prefix of the buffer and the pointer stands behind it.\<close>

definition flags_at :: "nat \<Rightarrow> byte list \<Rightarrow> byte list \<times> nat \<Rightarrow> bool" where
  "flags_at n t st \<longleftrightarrow> (\<exists>rest. st = (t @ rest, length t) \<and> length t + length rest = n)"

lemma append_if_ok:
  assumes "flags_at n t st" "length t + length u \<le> n"
  shows "\<exists>st'. append_if b u st = Some st' \<and> flags_at n (t @ opt_text b u) st'"
proof -
  from assms(1) obtain rest where r: "st = (t @ rest, length t)" "length t + length rest = n"
    by (auto simp: flags_at_def)
  show ?thesis
  proof (cases b)
    case True
    have "append_if b u st = Some (t @ cstr u @ drop (length u) rest, length t + length u)"
      using r assms(2) True by (simp add: append_if_def memcpy_at_def)
    moreover have "flags_at n (t @ opt_text b u) (t @ cstr u @ drop (length u) rest, length t + length u)"
      unfolding flags_at_def using r assms(2) True by (intro exI [of _ "drop (length u) rest"]) (simp add: opt_text_def)
    ultimately show ?thesis by blast
  next
    case False
    with r assms(1) show ?thesis by (auto simp: append_if_def opt_text_def)
  qed
qed

lemma opt_text_length: "length (opt_text b t) \<le> length t"
  by (simp add: opt_text_def)

text \<open>
  C29: \<^verbatim>\<open>dnsflags2str\<close> stays inside every buffer of \<^verbatim>\<open>DNSFLAGSMAXSTRSIZE\<close> bytes whatever the flags are,
  and leaves there the names of exactly the flags that are set, in the order AA, TC, RD, RA, Z,
  AD, CD, terminated by a null byte.
\<close>

theorem dnsflags2str_fits:
  assumes "length buf = DNSFLAGSMAXSTRSIZE"
  shows "\<exists>rest. dnsflags2str h buf = Some ((opt_text (dh_aa h) '' AA'' @ opt_text (dh_tc h) '' TC'' @
      opt_text (dh_rd h) '' RD'' @ opt_text (dh_ra h) '' RA'' @ opt_text (dh_z h) '' Z'' @
      opt_text (dh_ad h) '' AD'' @ opt_text (dh_cd h) '' CD'') @ 0 # rest)"
proof -
  let ?n = "22 :: nat"
  note len = opt_text_length [of "dh_aa h" "'' AA''"] opt_text_length [of "dh_tc h" "'' TC''"]
    opt_text_length [of "dh_rd h" "'' RD''"] opt_text_length [of "dh_ra h" "'' RA''"]
    opt_text_length [of "dh_z h" "'' Z''"] opt_text_length [of "dh_ad h" "'' AD''"] opt_text_length [of "dh_cd h" "'' CD''"]
  have s0: "flags_at ?n [] (buf, 0)" using assms by (simp add: flags_at_def DNSFLAGSMAXSTRSIZE_def)
  obtain s1 where 1: "append_if (dh_aa h) '' AA'' (buf, 0) = Some s1" "flags_at ?n (opt_text (dh_aa h) '' AA'') s1"
    using append_if_ok [OF s0, of "'' AA''" "dh_aa h"] by auto
  obtain s2 where 2: "append_if (dh_tc h) '' TC'' s1 = Some s2" "flags_at ?n (opt_text (dh_aa h) '' AA'' @ opt_text (dh_tc h) '' TC'') s2"
    using append_if_ok [OF 1(2), of "'' TC''" "dh_tc h"] len by auto
  obtain s3 where 3: "append_if (dh_rd h) '' RD'' s2 = Some s3" "flags_at ?n (opt_text (dh_aa h) '' AA'' @ opt_text (dh_tc h) '' TC'' @
      opt_text (dh_rd h) '' RD'') s3"
    using append_if_ok [OF 2(2), of "'' RD''" "dh_rd h"] len by auto
  obtain s4 where 4: "append_if (dh_ra h) '' RA'' s3 = Some s4" "flags_at ?n (opt_text (dh_aa h) '' AA'' @ opt_text (dh_tc h) '' TC'' @
      opt_text (dh_rd h) '' RD'' @ opt_text (dh_ra h) '' RA'') s4"
    using append_if_ok [OF 3(2), of "'' RA''" "dh_ra h"] len by auto
  obtain s5 where 5: "append_if (dh_z h) '' Z'' s4 = Some s5" "flags_at ?n (opt_text (dh_aa h) '' AA'' @ opt_text (dh_tc h) '' TC'' @
      opt_text (dh_rd h) '' RD'' @ opt_text (dh_ra h) '' RA'' @ opt_text (dh_z h) '' Z'') s5"
    using append_if_ok [OF 4(2), of "'' Z''" "dh_z h"] len by auto
  obtain s6 where 6: "append_if (dh_ad h) '' AD'' s5 = Some s6" "flags_at ?n (opt_text (dh_aa h) '' AA'' @ opt_text (dh_tc h) '' TC'' @
      opt_text (dh_rd h) '' RD'' @ opt_text (dh_ra h) '' RA'' @ opt_text (dh_z h) '' Z'' @ opt_text (dh_ad h) '' AD'') s6"
    using append_if_ok [OF 5(2), of "'' AD''" "dh_ad h"] len by auto
  let ?t = "opt_text (dh_aa h) '' AA'' @ opt_text (dh_tc h) '' TC'' @ opt_text (dh_rd h) '' RD'' @ opt_text (dh_ra h) '' RA'' @
    opt_text (dh_z h) '' Z'' @ opt_text (dh_ad h) '' AD'' @ opt_text (dh_cd h) '' CD''"
  obtain s7 where 7: "append_if (dh_cd h) '' CD'' s6 = Some s7" "flags_at ?n ?t s7"
    using append_if_ok [OF 6(2), of "'' CD''" "dh_cd h"] len by auto
  from 7(2) obtain rest where r: "s7 = (?t @ rest, length ?t)" "length ?t + length rest = ?n"
    by (auto simp: flags_at_def)
  have "length ?t \<le> 20" using len by simp
  then obtain x rest' where "rest = x # rest'" using r(2) by (cases rest) auto
  then have "wr (?t @ rest) (length ?t) 0 = Some (?t @ 0 # rest')" by (simp only: wr_append)
  then show ?thesis unfolding dnsflags2str_def 1(1) 2(1) 3(1) 4(1) 5(1) 6(1) 7(1) Option.bind.bind_lunit r(1)
    by (intro exI [of _ rest']) simp
qed

theorem dnsflags2str_fits_witness:
  "\<exists>rest. dnsflags2str example_hdr (replicate 22 1) = Some (cstr '' AA RD RA AD'' @ 0 # rest)"
  using dnsflags2str_fits [of "replicate 22 1" example_hdr]
  by (simp add: DNSFLAGSMAXSTRSIZE_def opt_text_def example_hdr_def cstr_def)

end
