(* ===== verification/Loc_Text.thy ===== *)
theory Loc_Text
  imports Dns_Wire "HOL-Library.Signed_Division"
begin

unbundle bit_operations_syntax

section \<open>Location records as text (rr_types.c)\<close>

text \<open>
  \<^verbatim>\<open>loc2str\<close> prints the data of a LOC record. The unsigned 32-bit values are words; the signed
  ones are integers, and the one operation on them that can overflow, the negation of the
  smallest value, is undefined behaviour (\<^term>\<open>None\<close>). Division and remainder truncate.
\<close>

subsection \<open>Decimal output\<close>

fun decimal :: "nat \<Rightarrow> byte list" where
  "decimal n = (if n < 10 then [of_nat (48 + n)] else decimal (n div 10) @ [of_nat (48 + n mod 10)])"

declare decimal.simps [simp del]

text \<open>The conversions \<^verbatim>\<open>%.nu\<close> and \<^verbatim>\<open>%.nd\<close> (\<^verbatim>\<open>%u\<close> and \<^verbatim>\<open>%d\<close> for \<open>n = 1\<close>).\<close>

definition fmt_u :: "nat \<Rightarrow> nat \<Rightarrow> byte list" where
  "fmt_u n v = replicate (n - length (decimal v)) 48 @ decimal v"

definition fmt_d :: "nat \<Rightarrow> int \<Rightarrow> byte list" where
  "fmt_d n v = (if v < 0 then 45 # fmt_u n (nat (- v)) else fmt_u n (nat v))"

lemma decimal_nonempty [simp]: "decimal n \<noteq> []"
  by (subst decimal.simps) simp

lemma decimal_length:
  assumes "n < 10 ^ k" "0 < k"
  shows "length (decimal n) \<le> k"
  using assms
proof (induction k arbitrary: n)
  case (Suc k)
  show ?case
  proof (cases "n < 10")
    case True
    then show ?thesis by (simp add: decimal.simps)
  next
    case False
    then have "k \<noteq> 0" using Suc.prems by (auto intro: ccontr)
    moreover have "n div 10 < 10 ^ k" using Suc.prems(1) by (simp add: less_mult_imp_div_less)
    ultimately have "length (decimal (n div 10)) \<le> k" using Suc.IH by simp
    then show ?thesis using False by (subst decimal.simps) simp
  qed
qed simp

lemma fmt_u_length: "v < 10 ^ k \<Longrightarrow> 0 < k \<Longrightarrow> n \<le> k \<Longrightarrow> length (fmt_u n v) \<le> k"
  using decimal_length [of v k] by (simp add: fmt_u_def)

subsection \<open>precsize_ntoa\<close>

definition poweroften :: "nat list" where
  "poweroften = [1, 10, 100, 1000, 10000, 100000, 1000000, 10000000]"

definition NPRECSIZE :: nat where "NPRECSIZE = 9"

text \<open>A \<^verbatim>\<open>sprintf\<close> to the start of a buffer; \<^verbatim>\<open>snprintf\<close> is \<^const>\<open>snprintf_at\<close>.\<close>

definition sprintf :: "byte list \<Rightarrow> byte list \<Rightarrow> byte list option" where
  "sprintf buf t = memcpy_at buf 0 (t @ [0]) (length t + 1)"

text \<open>The inner option is the null pointer.\<close>

definition precsize_ntoa :: "byte \<Rightarrow> byte list \<Rightarrow> byte list option option" where
  "precsize_ntoa prec retbuf =
     (let mantissa = unat (drop_bit 4 prec); exponent = unat (prec AND 0x0f)
      in if mantissa \<ge> 10 \<or> exponent \<ge> 10 then Some None
         else if exponent \<ge> 2
         then do { p \<leftarrow> rd poweroften (exponent - 2);
                   map_option Some (sprintf retbuf (fmt_u 1 (mantissa * p))) }
         else do { p \<leftarrow> rd poweroften exponent;
                   map_option Some (sprintf retbuf (cstr ''0.'' @ fmt_u 2 (mantissa * p))) })"

subsection \<open>loc2str\<close>

text \<open>Negation of a 32-bit signed integer.\<close>

definition neg32 :: "int \<Rightarrow> int option" where
  "neg32 v = (if v = - (2 ^ 31) then None else Some (- v))"

text \<open>One coordinate: degrees, minutes, seconds, thousandths and whether it is negative.\<close>

definition loc_angle :: "u32 \<Rightarrow> (int \<times> int \<times> int \<times> int \<times> bool) option" where
  "loc_angle templ = do {
     let v = sint (templ - push_bit 31 1);
     let neg = v < 0;
     v \<leftarrow> (if neg then neg32 v else Some v);
     let secfrac = v smod 1000;
     let v = v sdiv 1000;
     let sec = v smod 60;
     let v = v sdiv 60;
     let minutes = v smod 60;
     let v = v sdiv 60;
     Some (v, minutes, sec, secfrac, neg) }"

definition referencealt :: u32 where "referencealt = 100000 * 100"

definition angle_text :: "int \<Rightarrow> int \<Rightarrow> int \<Rightarrow> int \<Rightarrow> byte \<Rightarrow> byte list" where
  \<comment> \<open>\<^verbatim>\<open>%d %.2d %.2d.%.3d %c \<close>\<close>
  "angle_text deg minutes sec secfrac c =
     fmt_d 1 deg @ cstr '' '' @ fmt_d 2 minutes @ cstr '' '' @ fmt_d 2 sec @ cstr ''.'' @ fmt_d 3 secfrac @
     cstr '' '' @ [c] @ cstr '' ''"

definition loc2str :: "byte list \<Rightarrow> byte list \<Rightarrow> nat \<Rightarrow> byte list option option" where
  "loc2str binary ascii asclen = do {
     versionval \<leftarrow> rd binary 0;
     if versionval \<noteq> 0 then Some None
     else do {
       sizeval \<leftarrow> rd binary 1;
       hpval \<leftarrow> rd binary 2;
       vpval \<leftarrow> rd binary 3;
       (templ, cp) \<leftarrow> getint32 (drop 4 binary);
       (templ', cp) \<leftarrow> getint32 cp;
       (talt, cp) \<leftarrow> getint32 cp;
       let (altval, altsign) =
         (if talt < referencealt then (sint (referencealt - talt), cstr ''-'') else (sint (talt - referencealt), []));
       (latdeg, latmin, latsec, latsecfrac, south) \<leftarrow> loc_angle templ;
       (longdeg, longmin, longsec, longsecfrac, west) \<leftarrow> loc_angle templ';
       let altfrac = altval smod 100;
       let altmeters = altval sdiv 100;
       sz \<leftarrow> precsize_ntoa sizeval (replicate NPRECSIZE 0);
       hp \<leftarrow> precsize_ntoa hpval (replicate NPRECSIZE 0);
       vp \<leftarrow> precsize_ntoa vpval (replicate NPRECSIZE 0);
       (case (sz, hp, vp) of
          (Some sz, Some hp, Some vp) \<Rightarrow> do {
            let str = takeWhile (\<lambda>c. c \<noteq> 0);
            (n, ascii) \<leftarrow> snprintf_at ascii 0 asclen
              (angle_text latdeg latmin latsec latsecfrac (if south then chr CHR ''S'' else chr CHR ''N'') @
               angle_text longdeg longmin longsec longsecfrac (if west then chr CHR ''W'' else chr CHR ''E'') @
               altsign @ fmt_d 1 altmeters @ cstr ''.'' @ fmt_d 2 altfrac @ cstr ''m '' @
               str sz @ cstr ''m '' @ str hp @ cstr ''m '' @ str vp @ cstr ''m'');
            if n \<ge> asclen then Some None else Some (Some ascii) }
        | _ \<Rightarrow> Some None) } }"

text \<open>\<open>replicate NPRECSIZE 0\<close> stands for the uninitialised local buffers.\<close>

subsection \<open>The text of a record\<close>

lemma sdiv_smod_nonneg: "0 \<le> (a :: int) \<Longrightarrow> 0 < b \<Longrightarrow> a sdiv b = a div b \<and> a smod b = a mod b"
  by (cases "a = 0") (simp_all add: signed_divide_int_def signed_modulo_int_def)

lemma sint_minus_half: "sint (w - push_bit 31 1 :: u32) = int (unat w) - 2 ^ 31"
proof -
  have u: "uint (w - push_bit 31 1) = (uint w - 2 ^ 31) mod 2 ^ 32"
    by (simp add: uint_word_ariths push_bit_eq_mult)
  have "sint (w - push_bit 31 1) = take_bit 32 (uint (w - push_bit 31 1) + 2 ^ 31) - 2 ^ 31"
    by (simp add: sint_uint signed_take_bit_eq_take_bit_shift)
  also have "take_bit 32 (uint (w - push_bit 31 1) + 2 ^ 31) = uint w mod 2 ^ 32"
    unfolding u take_bit_eq_mod by (simp add: mod_simps)
  also have "\<dots> = uint w" using uint_bounded [of w] by (intro mod_pos_pos_trivial) simp_all
  finally show ?thesis by simp
qed

text \<open>Degrees, minutes, seconds and thousandths of an angle given in thousandths of a second.\<close>

definition dms :: "int \<Rightarrow> int \<times> int \<times> int \<times> int" where
  "dms v = (v div 3600000, v div 60000 mod 60, v div 1000 mod 60, v mod 1000)"

lemma dms_value:
  assumes "dms v = (d, m, s, f)"
  shows "v = ((d * 60 + m) * 60 + s) * 1000 + f" "0 \<le> m \<and> m < 60" "0 \<le> s \<and> s < 60" "0 \<le> f \<and> f < 1000"
proof -
  let ?q = "v div 1000"
  have e: "v div 60000 = ?q div 60" "v div 3600000 = ?q div 60 div 60"
    using zdiv_zmult2_eq [of 60 v 1000] zdiv_zmult2_eq [of 60 v 60000] by simp_all
  have dms: "d = v div 3600000" "m = v div 60000 mod 60" "s = ?q mod 60" "f = v mod 1000"
    using assms by (simp_all add: dms_def)
  have gen: "v = 1000 * q + f \<Longrightarrow> q = 60 * r + s \<Longrightarrow> r = 60 * d + m \<Longrightarrow> v = ((d * 60 + m) * 60 + s) * 1000 + f"
    for q r :: int by simp
  show "v = ((d * 60 + m) * 60 + s) * 1000 + f"
  proof (rule gen)
    show "v = 1000 * ?q + f" unfolding dms(4) by (rule mult_div_mod_eq [symmetric])
    show "?q = 60 * (?q div 60) + s" unfolding dms(3) by (rule mult_div_mod_eq [symmetric])
    show "?q div 60 = 60 * d + m" unfolding dms(1,2) e by (rule mult_div_mod_eq [symmetric])
  qed
  show "0 \<le> m \<and> m < 60" "0 \<le> s \<and> s < 60" "0 \<le> f \<and> f < 1000" unfolding dms by simp_all
qed


definition loc_value :: "u32 \<Rightarrow> int" where
  "loc_value w = int (unat w) - 2 ^ 31"

lemma loc_angle_eq:
  assumes "w \<noteq> 0"
  shows "loc_angle w = Some (case dms \<bar>loc_value w\<bar> of (d, m, s, f) \<Rightarrow> (d, m, s, f, loc_value w < 0))"
proof -
  have "loc_value w \<noteq> - (2 ^ 31)" using assms by (simp add: loc_value_def unsigned_eq_0_iff)
  then have n: "(if loc_value w < 0 then neg32 (loc_value w) else Some (loc_value w)) = Some \<bar>loc_value w\<bar>"
    by (simp add: neg32_def)
  have div: "\<bar>loc_value w\<bar> sdiv 1000 = \<bar>loc_value w\<bar> div 1000" "\<bar>loc_value w\<bar> smod 1000 = \<bar>loc_value w\<bar> mod 1000"
    "\<And>x. 0 \<le> x \<Longrightarrow> (x :: int) sdiv 60 = x div 60" "\<And>x. 0 \<le> x \<Longrightarrow> (x :: int) smod 60 = x mod 60"
    using sdiv_smod_nonneg by simp_all
  have q: "0 \<le> \<bar>loc_value w\<bar> div 1000" "0 \<le> \<bar>loc_value w\<bar> div 1000 div 60" by simp_all
  have e: "\<bar>loc_value w\<bar> div 60000 = \<bar>loc_value w\<bar> div 1000 div 60"
    "\<bar>loc_value w\<bar> div 3600000 = \<bar>loc_value w\<bar> div 1000 div 60 div 60"
    by (simp_all add: zdiv_zmult2_eq [symmetric])
  show ?thesis
    unfolding loc_angle_def sint_minus_half loc_value_def [symmetric] Let_def n Option.bind.bind_lunit dms_def
    by (simp only: div q e prod.case)
qed

definition prec_text :: "byte \<Rightarrow> byte list" where
  "prec_text p = (if unat p mod 16 \<ge> 2 then decimal (unat p div 16 * 10 ^ (unat p mod 16 - 2))
     else cstr ''0.'' @ fmt_u 2 (unat p div 16 * 10 ^ (unat p mod 16)))"

definition prec_ok :: "byte \<Rightarrow> bool" where
  "prec_ok p \<longleftrightarrow> unat p div 16 < 10 \<and> unat p mod 16 < 10"

lemma decimal_no_nul: "0 \<notin> set (decimal n)"
proof (induction n rule: decimal.induct)
  case (1 n)
  have "(of_nat (48 + k) :: byte) \<noteq> 0" if "k < 10" for k
    using of_nat_byte_eq_0 [of "48 + k"] that by simp
  with 1 show ?case by (subst decimal.simps) (simp del: of_nat_add)
qed

lemma fmt_u_no_nul: "0 \<notin> set (fmt_u n v)"
  using decimal_no_nul by (simp add: fmt_u_def)

lemma prec_text_no_nul: "0 \<notin> set (prec_text p)"
  using decimal_no_nul fmt_u_no_nul by (auto simp: prec_text_def cstr_def chr_def)

lemma poweroften_map: "poweroften = map (\<lambda>k. 10 ^ k) [0..<8]"
  by (simp add: poweroften_def upt_rec)

lemma poweroften_nth: "k < 8 \<Longrightarrow> rd poweroften k = Some (10 ^ k)"
  unfolding poweroften_map by (simp add: rd_def)

lemma prec_text_length:
  assumes "prec_ok p"
  shows "length (prec_text p) < NPRECSIZE"
proof (cases "unat p mod 16 \<ge> 2")
  case True
  then have "unat p div 16 * 10 ^ (unat p mod 16 - 2) \<le> 9 * 10 ^ 7"
    using assms by (intro mult_mono power_increasing) (auto simp: prec_ok_def)
  then have "length (decimal (unat p div 16 * 10 ^ (unat p mod 16 - 2))) \<le> 8" by (intro decimal_length) simp_all
  with True show ?thesis by (simp add: prec_text_def NPRECSIZE_def)
next
  case False
  then have "unat p div 16 * 10 ^ (unat p mod 16) \<le> 9 * 10 ^ 1"
    using assms by (intro mult_mono power_increasing) (auto simp: prec_ok_def)
  then have "length (fmt_u 2 (unat p div 16 * 10 ^ (unat p mod 16))) \<le> 2" by (intro fmt_u_length) simp_all
  with False show ?thesis by (simp add: prec_text_def NPRECSIZE_def)
qed

lemma precsize_ntoa_eq:
  "precsize_ntoa p (replicate NPRECSIZE 0) =
     Some (if prec_ok p then Some (prec_text p @ 0 # replicate (NPRECSIZE - length (prec_text p) - 1) 0) else None)"
proof -
  have d: "unat (drop_bit 4 p) = unat p div 16"
    unfolding unsigned_drop_bit_eq by (simp add: drop_bit_eq_div take_bit_nat_eq_self)
  have "(0x0f :: byte) = mask 4" by (simp add: mask_eq_exp_minus_1)
  then have m: "unat (p AND 0x0f) = unat p mod 16"
    by (simp only: take_bit_eq_mask [symmetric] unat_take_bit) (simp add: take_bit_eq_mod)
  have u1: "fmt_u 1 v = decimal v" for v
    using decimal_nonempty [of v] by (cases "decimal v") (simp_all add: fmt_u_def)
  have sp: "sprintf (replicate NPRECSIZE 0) t = Some (t @ 0 # replicate (NPRECSIZE - length t - 1) 0)"
    if "length t < NPRECSIZE" for t
    using that by (simp add: sprintf_def memcpy_at_def)
  show ?thesis
  proof (cases "prec_ok p")
    case False
    then show ?thesis unfolding precsize_ntoa_def d m by (auto simp: prec_ok_def)
  next
    case True
    note sp' = sp [OF prec_text_length [OF True]]
    show ?thesis
    proof (cases "unat p mod 16 \<ge> 2")
      case e: True
      have "rd poweroften (unat p mod 16 - 2) = Some (10 ^ (unat p mod 16 - 2))"
        by (rule poweroften_nth) (use True in \<open>auto simp: prec_ok_def\<close>)
      with True e sp' show ?thesis unfolding precsize_ntoa_def d m Let_def u1 by (simp add: prec_ok_def prec_text_def)
    next
      case e: False
      then have "rd poweroften (unat p mod 16) = Some (10 ^ (unat p mod 16))" by (intro poweroften_nth) simp
      with True e sp' show ?thesis unfolding precsize_ntoa_def d m Let_def by (simp add: prec_ok_def prec_text_def)
    qed
  qed
qed

lemma takeWhile_no_nul: "0 \<notin> set t \<Longrightarrow> takeWhile (\<lambda>c. c \<noteq> 0) (t @ 0 # r) = t"
  by (induction t) auto

text \<open>The altitude in centimetres above the reference spheroid.\<close>

definition alt_value :: "u32 \<Rightarrow> int" where
  "alt_value w = int (unat w) - 10000000"

lemma sint_small:
  assumes "unat (x :: u32) < 2 ^ 31"
  shows "sint x = int (unat x)"
proof -
  have "int (unat x) < int (2 ^ 31)" using assms by (simp only: of_nat_less_iff)
  then have "uint x < 2 ^ 31" by simp
  moreover have "- (2 ^ 31) \<le> uint x" by (rule order_trans [OF _ uint_ge_0]) simp
  ultimately have "signed_take_bit 31 (uint x) = uint x" by (rule signed_take_bit_int_eq_self [rotated])
  then show ?thesis by (simp add: sint_uint)
qed

lemma unat_diff: "(b :: u32) \<le> a \<Longrightarrow> unat (a - b) = unat a - unat b"
  by (rule unat_sub)

lemma referencealt_unat: "unat referencealt = 10000000"
  by (simp add: referencealt_def)

lemma alt_abs:
  assumes "alt_value w < 2 ^ 31"
  shows "(if w < referencealt then (sint (referencealt - w), cstr ''-'') else (sint (w - referencealt), [])) =
    (\<bar>alt_value w\<bar>, if alt_value w < 0 then cstr ''-'' else [])"
proof (cases "w < referencealt")
  case True
  then have l: "unat w < 10000000" by (simp only: word_less_nat_alt referencealt_unat)
  then have l': "int (unat w) < int 10000000" by (simp only: of_nat_less_iff)
  have "unat (referencealt - w) = 10000000 - unat w"
    using unat_diff [of w referencealt] True referencealt_unat by simp
  then have "sint (referencealt - w) = 10000000 - int (unat w)" using sint_small [of "referencealt - w"] l by simp
  with True l' show ?thesis by (simp add: alt_value_def)
next
  case False
  then have l: "10000000 \<le> unat w" by (simp only: word_less_nat_alt referencealt_unat not_less)
  then have l': "int 10000000 \<le> int (unat w)" by (simp only: of_nat_le_iff)
  have u: "unat (w - referencealt) = unat w - 10000000"
    using unat_diff [of referencealt w] False referencealt_unat by simp
  have "int (unat w) < int (2 ^ 31 + 10000000)" using assms by (simp add: alt_value_def)
  then have "unat w - 10000000 < 2 ^ 31" using l by (simp only: of_nat_less_iff)
  then have "sint (w - referencealt) = int (unat w) - 10000000" using sint_small [of "w - referencealt"] u l by simp
  with False l' show ?thesis by (simp add: alt_value_def)
qed

definition angle_of :: "u32 \<Rightarrow> char \<Rightarrow> char \<Rightarrow> byte list" where
  "angle_of w pos neg = (case dms \<bar>loc_value w\<bar> of (d, m, s, f) \<Rightarrow>
     angle_text d m s f (if loc_value w < 0 then chr neg else chr pos))"

definition loc_text :: "u32 \<Rightarrow> u32 \<Rightarrow> u32 \<Rightarrow> byte \<Rightarrow> byte \<Rightarrow> byte \<Rightarrow> byte list" where
  "loc_text lat lon alt sz hp vp =
     angle_of lat CHR ''N'' CHR ''S'' @ angle_of lon CHR ''E'' CHR ''W'' @
     (if alt_value alt < 0 then cstr ''-'' else []) @ fmt_d 1 (\<bar>alt_value alt\<bar> div 100) @ cstr ''.'' @
     fmt_d 2 (\<bar>alt_value alt\<bar> mod 100) @ cstr ''m '' @ prec_text sz @ cstr ''m '' @ prec_text hp @ cstr ''m '' @
     prec_text vp @ cstr ''m''"

lemma snprintf_at_rest:
  assumes "snprintf_at buf 0 rem t = Some (n, buf')" "rem \<le> length buf"
  shows "drop rem buf' = drop rem buf"
proof (cases "rem = 0")
  case False
  define src where "src = take (rem - 1) t @ [0 :: byte]"
  define k where "k = min (rem - 1) (length t) + 1"
  have len: "length src = k" "k \<le> rem" using False by (auto simp: src_def k_def min_def)
  have "snprintf_at buf 0 rem t = do { buf' \<leftarrow> memcpy_at buf 0 src k; Some (length t, buf') }"
    using False by (simp add: snprintf_at_def src_def k_def)
  moreover have "memcpy_at buf 0 src k = Some (src @ drop k buf)" using len assms(2) by (simp add: memcpy_at_def)
  ultimately have "buf' = src @ drop k buf" using assms(1) by simp
  then show ?thesis using len by simp
qed (use assms in \<open>simp add: snprintf_at_def\<close>)

text \<open>
  C30: \<^verbatim>\<open>loc2str\<close> reads only the 16 bytes of a LOC record and writes only inside the buffer it is
  given. A record of version 0 with decimal digits in its three precision bytes is printed as
  degrees, minutes and seconds of both angles (with the hemisphere for the sign), the signed
  altitude in metres and the three precisions; it returns null exactly if the text with its
  terminator does not fit, the version is unknown or a precision is not decimal. The two angles
  whose negation overflows and altitudes of \<open>2 ^ 31\<close> centimetres and more above the reference are
  excluded.
\<close>

theorem loc2str_correct:
  assumes "binary = [version, sz, hp, vp] @ rest" and "length rest = 12"
    and "getint32 rest = Some (lat, cp)" "getint32 cp = Some (lon, cp')" "getint32 cp' = Some (alt, cp'')"
    and "lat \<noteq> 0" and "lon \<noteq> 0" and "alt_value alt < 2 ^ 31" and "asclen \<le> length ascii" and "0 < asclen"
  shows "\<exists>ascii'. length ascii' = length ascii \<and> drop asclen ascii' = drop asclen ascii \<and>
    loc2str binary ascii asclen = Some (
      if version \<noteq> 0 \<or> \<not> prec_ok sz \<or> \<not> prec_ok hp \<or> \<not> prec_ok vp \<or> length (loc_text lat lon alt sz hp vp) \<ge> asclen
      then None else Some ascii') \<and>
    (length (loc_text lat lon alt sz hp vp) < asclen \<longrightarrow>
      ascii' = loc_text lat lon alt sz hp vp @ 0 # drop (length (loc_text lat lon alt sz hp vp) + 1) ascii)"
proof -
  let ?t = "loc_text lat lon alt sz hp vp"
  have rds: "rd binary 0 = Some version" "rd binary (Suc 0) = Some sz" "rd binary 2 = Some hp" "rd binary 3 = Some vp" "drop 4 binary = rest"
    using assms(1) by (simp_all add: rd_def)
  obtain d m s f where lat: "dms \<bar>loc_value lat\<bar> = (d, m, s, f)" by (cases "dms \<bar>loc_value lat\<bar>")
  obtain d' m' s' f' where lon: "dms \<bar>loc_value lon\<bar> = (d', m', s', f')" by (cases "dms \<bar>loc_value lon\<bar>")
  have al: "loc_angle lat = Some (d, m, s, f, loc_value lat < 0)" using loc_angle_eq [OF assms(6)] lat by simp
  have ao: "loc_angle lon = Some (d', m', s', f', loc_value lon < 0)" using loc_angle_eq [OF assms(7)] lon by simp
  have av: "\<bar>alt_value alt\<bar> smod 100 = \<bar>alt_value alt\<bar> mod 100" "\<bar>alt_value alt\<bar> sdiv 100 = \<bar>alt_value alt\<bar> div 100"
    using sdiv_smod_nonneg [of "\<bar>alt_value alt\<bar>" 100] by simp_all
  have tw: "takeWhile (\<lambda>c. c \<noteq> 0) (prec_text p @ 0 # r) = prec_text p" for p r
    by (rule takeWhile_no_nul) (rule prec_text_no_nul)
  have angs: "angle_text d m s f (if loc_value lat < 0 then chr CHR ''S'' else chr CHR ''N'') = angle_of lat CHR ''N'' CHR ''S''"
    "angle_text d' m' s' f' (if loc_value lon < 0 then chr CHR ''W'' else chr CHR ''E'') = angle_of lon CHR ''E'' CHR ''W''"
    by (simp_all add: angle_of_def lat lon)
  obtain out where out: "snprintf_at ascii 0 asclen ?t = Some (length ?t, out)" "length out = length ascii"
    using snprintf_at_defined [of 0 asclen ascii ?t] assms(9) by auto
  have rest: "drop asclen out = drop asclen ascii"
    using snprintf_at_rest [OF out(1)] assms(9) by simp
  have eq: "loc2str binary ascii asclen = Some (if version \<noteq> 0 \<or> \<not> prec_ok sz \<or> \<not> prec_ok hp \<or> \<not> prec_ok vp \<or> length ?t \<ge> asclen
      then None else Some out)"
    unfolding loc2str_def using rds assms(3-5) alt_abs [OF assms(8)] al ao av out(1)
    by (simp add: precsize_ntoa_eq tw angs loc_text_def)
  have "out = ?t @ 0 # drop (length ?t + 1) ascii" if "length ?t < asclen"
    using out(1) snprintf_at_fits [of ?t asclen 0 ascii] that assms(9) by simp
  then show ?thesis using eq rest out(2) by blast
qed

theorem loc2str_correct_witness:
  "loc2str [0, 0x12, 0x16, 0x13, 0x8b, 0x0d, 0x2c, 0x8c, 0x7f, 0xf8, 0xfc, 0xa5, 0, 0x98, 0x96, 0x80] (replicate 60 0) 60 =
   Some (Some (cstr ''51 30 12.748 N 0 07 39.611 W 0.00m 1m 10000m 10m'' @ replicate 12 0))"
proof -
  let ?rest = "[0x8b, 0x0d, 0x2c, 0x8c, 0x7f, 0xf8, 0xfc, 0xa5, 0, 0x98, 0x96, 0x80] :: byte list"
  let ?t = "loc_text 0x8b0d2c8c 0x7ff8fca5 0x989680 0x12 0x16 0x13"
  have t: "?t = cstr ''51 30 12.748 N 0 07 39.611 W 0.00m 1m 10000m 10m''"
    by (simp add: loc_text_def angle_of_def dms_def loc_value_def alt_value_def angle_text_def prec_text_def
        fmt_d_def fmt_u_def decimal.simps cstr_def chr_def)
  have "\<exists>ascii'. length ascii' = length (replicate 60 (0 :: byte)) \<and> drop 60 ascii' = drop 60 (replicate 60 0) \<and>
    loc2str ([0, 0x12, 0x16, 0x13] @ ?rest) (replicate 60 0) 60 = Some (
      if (0 :: byte) \<noteq> 0 \<or> \<not> prec_ok 0x12 \<or> \<not> prec_ok 0x16 \<or> \<not> prec_ok 0x13 \<or> length ?t \<ge> 60
      then None else Some ascii') \<and>
    (length ?t < 60 \<longrightarrow> ascii' = ?t @ 0 # drop (length ?t + 1) (replicate 60 0))"
    by (rule loc2str_correct [of _ _ _ _ _ ?rest _ "drop 4 ?rest" _ "drop 8 ?rest" _ "[]"])
      (simp_all add: getint32_def rd_def alt_value_def)
  moreover have "replicate 12 (0 :: byte) = 0 # replicate 11 0" by (simp add: numeral_eq_Suc)
  ultimately show ?thesis unfolding t by (simp add: prec_ok_def)
qed

end
