(* ===== verification/Text_Out.thy ===== *)
theory Text_Out
  imports Name_Text Loc_Text
begin

section \<open>Text for people and writing it (helpers.c, helpers.h)\<close>

text \<open>
  \<^verbatim>\<open>hexdump\<close>, \<^verbatim>\<open>escapestr\<close>, \<^verbatim>\<open>strncp\<close>, \<^verbatim>\<open>write_all\<close>, the comparison and printing of addresses, and
  \<^verbatim>\<open>run_as\<close>. The address functions are those of a build with IPv4 only; an address is the word
  \<^verbatim>\<open>s_addr\<close>. System calls are given by what they return.
\<close>

subsection \<open>The functions\<close>

definition hex_digit :: "nat \<Rightarrow> byte" where
  "hex_digit n = of_nat (if n < 10 then 48 + n else 87 + n)"

text \<open>\<^verbatim>\<open>%02x\<close>, with a space before it except at the start\<close>

definition hex_item :: "nat \<Rightarrow> byte \<Rightarrow> byte list" where
  "hex_item i b = (if i = 0 then [] else [32]) @ [hex_digit (unat b div 16), hex_digit (unat b mod 16)]"

fun hexdump_loop :: "byte list \<Rightarrow> nat \<Rightarrow> nat \<Rightarrow> nat \<Rightarrow> byte list \<Rightarrow> nat \<Rightarrow> (bool \<times> nat \<times> byte list) option" where
  "hexdump_loop p 0 i j buf buflen = Some (True, j, buf)"
| "hexdump_loop p (Suc k) i j buf buflen = do {
     c \<leftarrow> rd p i;
     (n, buf) \<leftarrow> snprintf_at buf j (buflen - j) (hex_item i c);
     if n \<ge> buflen - j then Some (False, j, buf)
     else hexdump_loop p k (i + 1) (j + n) buf buflen }"

fun put_dots :: "nat \<Rightarrow> nat \<Rightarrow> byte list \<Rightarrow> (nat \<times> byte list) option" where
  "put_dots 0 j buf = Some (j, buf)"
| "put_dots (Suc n) j buf = do { buf \<leftarrow> wr buf j 46; put_dots n (j + 1) buf }"

definition hexdump_truncated :: "nat \<Rightarrow> byte list \<Rightarrow> nat \<Rightarrow> (nat \<times> byte list) option" where
  "hexdump_truncated j buf buflen =
     (if j \<ge> 6
      then do {
        let j = j - 3;
        let j = (if j + 4 \<ge> buflen then j - 3 else j);
        buf \<leftarrow> wr buf j 32;
        put_dots 3 (j + 1) buf }
      else put_dots (min (buflen - 1) 3) 0 buf)"

definition hexdump :: "byte list \<Rightarrow> nat \<Rightarrow> byte list \<Rightarrow> nat \<Rightarrow> byte list option" where
  "hexdump data dlen buf buflen = do {
     (ok, j, buf) \<leftarrow> hexdump_loop data dlen 0 0 buf buflen;
     (j, buf) \<leftarrow> (if ok then Some (j, buf) else hexdump_truncated j buf buflen);
     wr buf j 0 }"

definition isprint :: "byte \<Rightarrow> bool" where
  "isprint c \<longleftrightarrow> 32 \<le> unat c \<and> unat c \<le> 126"

fun escapestr_loop :: "byte list \<Rightarrow> nat \<Rightarrow> nat \<Rightarrow> nat \<Rightarrow> byte list \<Rightarrow> nat \<Rightarrow> (bool \<times> nat \<times> byte list) option" where
  "escapestr_loop inn 0 i j str sz = Some (True, j, str)"
| "escapestr_loop inn (Suc k) i j str sz =
     (if j + 1 \<ge> sz then Some (False, j, str)
      else do {
        c \<leftarrow> rd inn i;
        if \<not> isprint c then do {
          (n, str) \<leftarrow> snprintf_at str j (sz - j) (octal_escape c);
          if n \<ge> sz - j then Some (False, j, str)
          else escapestr_loop inn k (i + 1) (j + n) str sz }
        else if c = 92 \<or> c = 34 then do {
          str \<leftarrow> wr str j 92;
          if j + 1 + 1 \<ge> sz then Some (False, j + 1, str)
          else do { str \<leftarrow> wr str (j + 1) c; escapestr_loop inn k (i + 1) (j + 2) str sz } }
        else do { str \<leftarrow> wr str j c; escapestr_loop inn k (i + 1) (j + 1) str sz } })"

definition escapestr :: "byte list \<Rightarrow> nat \<Rightarrow> byte list \<Rightarrow> nat \<Rightarrow> (int \<times> byte list) option" where
  "escapestr inn ilen str sz = do {
     (ok, j, str) \<leftarrow> escapestr_loop inn ilen 0 0 str sz;
     if \<not> ok then Some (- 1, str)
     else do { str \<leftarrow> wr str j 0; Some (int j, str) } }"

text \<open>The library's \<^verbatim>\<open>strlen\<close> and \<^verbatim>\<open>strncpy\<close>, and \<^verbatim>\<open>strncp\<close> in a build without \<^verbatim>\<open>strlcpy\<close> and \<^verbatim>\<open>stpncpy\<close>.\<close>

fun strlen :: "byte list \<Rightarrow> nat option" where
  "strlen [] = None"
| "strlen (c # s) = (if c = 0 then Some 0 else map_option Suc (strlen s))"

fun strncpy_at :: "byte list \<Rightarrow> nat \<Rightarrow> byte list \<Rightarrow> nat \<Rightarrow> byte list option" where
  "strncpy_at dst i src 0 = Some dst"
| "strncpy_at dst i [] (Suc n) = None"
| "strncpy_at dst i (c # src) (Suc n) = do {
     dst \<leftarrow> wr dst i c;
     if c = 0 then memcpy_at dst (i + 1) (replicate n 0) n
     else strncpy_at dst (i + 1) src n }"

definition strncp :: "byte list \<Rightarrow> byte list \<Rightarrow> nat \<Rightarrow> (bool \<times> byte list) option" where
  "strncp dst src dstsz = do {
     dst \<leftarrow> strncpy_at dst 0 src dstsz;
     l \<leftarrow> strlen src;
     if l < dstsz then Some (True, dst)
     else do { dst \<leftarrow> wr dst (dstsz - 1) 0; Some (False, dst) } }"

text \<open>
  \<^verbatim>\<open>write_all\<close> with the values \<open>ms\<close> that successive calls of \<^verbatim>\<open>write\<close> return; the result is the
  return value and what has gone out. A \<^verbatim>\<open>write\<close> never returns more than it was given.
\<close>

fun write_all :: "byte list \<Rightarrow> nat \<Rightarrow> int list \<Rightarrow> nat \<Rightarrow> (int \<times> byte list) option" where
  "write_all buf n ms written =
     (if written < n
      then (case ms of
          [] \<Rightarrow> None
        | m # ms \<Rightarrow>
            if m < 0 then Some (m, take written buf)
            else if nat m \<le> n - written then write_all buf n ms (written + nat m) else None)
      else Some (int written, take written buf))"

declare write_all.simps [simp del]

definition INADDR_ANY :: u32 where "INADDR_ANY = 0"

definition is_inaddr_any :: "u32 \<Rightarrow> bool" where "is_inaddr_any a \<longleftrightarrow> a = INADDR_ANY"
definition same_inaddr :: "u32 \<Rightarrow> u32 \<Rightarrow> bool" where "same_inaddr a b \<longleftrightarrow> a = b"
definition same_inaddr2 :: "u32 \<Rightarrow> u32 \<Rightarrow> bool" where "same_inaddr2 a b \<longleftrightarrow> a = b"
definition equiv_inaddr2 :: "u32 \<Rightarrow> u32 \<Rightarrow> bool" where "equiv_inaddr2 a b \<longleftrightarrow> a = b"

text \<open>
  The replacement \<^verbatim>\<open>inet_ntop\<close> for an IPv4 address, whose bytes in memory are \<open>src\<close>, and
  \<^verbatim>\<open>pdnsd_a2str\<close> on top of it. \<^term>\<open>None\<close> in the inner option is the null pointer.
\<close>

definition dotted_quad :: "byte list \<Rightarrow> byte list" where
  "dotted_quad p = decimal (unat (p ! 0)) @ [46] @ decimal (unat (p ! 1)) @ [46] @
     decimal (unat (p ! 2)) @ [46] @ decimal (unat (p ! 3))"

definition inet_ntop :: "byte list \<Rightarrow> byte list \<Rightarrow> nat \<Rightarrow> byte list option option" where
  "inet_ntop src dst sz =
     (if sz > 0 then do {
        pdnsd_assert (4 \<le> length src);
        (n, dst) \<leftarrow> snprintf_at dst 0 sz (dotted_quad src);
        Some (if n < sz then Some dst else None) }
      else Some None)"

definition pdnsd_a2str :: "byte list \<Rightarrow> byte list \<Rightarrow> nat \<Rightarrow> byte list option" where
  "pdnsd_a2str a buf maxlen = do {
     res \<leftarrow> inet_ntop a buf maxlen;
     Some (case res of None \<Rightarrow> cstr ''?.?.?.?'' @ [0] | Some s \<Rightarrow> s) }"

text \<open>
  \<^verbatim>\<open>run_as\<close> in a build without \<^verbatim>\<open>getpwnam_r\<close>: \<open>pw\<close> is the password database, \<open>works\<close> tells whether a
  system call succeeds. The result is the return value and the calls made.
\<close>

datatype priv_call = Setgid nat | Initgroups string nat | Setuid nat

definition run_as :: "(string \<Rightarrow> (nat \<times> nat) option) \<Rightarrow> bool \<Rightarrow> (priv_call \<Rightarrow> bool) \<Rightarrow> string \<Rightarrow> bool \<times> priv_call list" where
  "run_as pw use_nss works user =
     (if user = [] then (True, [])
      else case pw user of
        None \<Rightarrow> (False, [])
      | Some (uid, gid) \<Rightarrow>
          if \<not> works (Setgid gid) then (False, [Setgid gid])
          else let calls = [Setgid gid] @ (if use_nss then [Initgroups user gid] else [])
               in if use_nss \<and> \<not> works (Initgroups user gid) then (False, calls)
                  else (works (Setuid uid), calls @ [Setuid uid]))"

subsection \<open>hexdump\<close>

definition hex_text :: "byte list \<Rightarrow> byte list" where
  "hex_text d = concat (map (\<lambda>i. hex_item i (d ! i)) [0..<length d])"

lemma hex_text_Nil [simp]: "hex_text [] = []"
  by (simp add: hex_text_def)

lemma hex_text_snoc: "hex_text (d @ [b]) = hex_text d @ hex_item (length d) b"
proof -
  have "map (\<lambda>j. hex_item j ((d @ [b]) ! j)) [0..<length d] = map (\<lambda>j. hex_item j (d ! j)) [0..<length d]"
    by (intro map_cong) (auto simp: nth_append)
  moreover have "hex_text (d @ [b]) =
      concat (map (\<lambda>j. hex_item j ((d @ [b]) ! j)) [0..<length d]) @ hex_item (length d) b"
    by (simp add: hex_text_def)
  ultimately show ?thesis by (simp only: hex_text_def)
qed

lemma hex_text_take_Suc: "i < length d \<Longrightarrow> hex_text (take (Suc i) d) = hex_text (take i d) @ hex_item i (d ! i)"
  by (simp add: take_Suc_conv_app_nth hex_text_snoc)

lemma length_hex_item: "length (hex_item i b) = (if i = 0 then 2 else 3)"
  by (simp add: hex_item_def)

definition hexlen :: "nat \<Rightarrow> nat" where "hexlen n = 3 * n - 1"

lemma hexlen_Suc: "hexlen i + length (hex_item i b) = hexlen (Suc i)"
  by (simp add: hexlen_def length_hex_item)

lemma length_hex_text: "length (hex_text d) = hexlen (length d)"
proof (induction d rule: rev_induct)
  case (snoc b d)
  then show ?case by (simp add: hex_text_snoc hexlen_Suc)
qed (simp add: hexlen_def)

lemma snprintf_at_effect:
  assumes "j + rem \<le> length buf" "0 < rem"
  shows "\<exists>buf'. snprintf_at buf j rem t = Some (length t, buf') \<and> length buf' = length buf \<and>
    take j buf' = take j buf \<and> drop (j + rem) buf' = drop (j + rem) buf \<and>
    (length t < rem \<longrightarrow> take (j + length t) buf' = take j buf @ t)"
proof -
  obtain r where r: "rem = Suc r" using assms(2) by (cases rem) auto
  have "min r (length t) + 1 \<le> Suc r" by simp
  with assms(1) show ?thesis unfolding r
    by (auto simp: snprintf_at_def memcpy_at_def min_def drop_Cons' add.commute)
qed

definition dumped :: "nat \<Rightarrow> nat \<Rightarrow> nat" where
  "dumped n buflen = (if hexlen n < buflen then n else buflen div 3)"

lemma hexdump_loop_correct:
  assumes "i + k = n" "n \<le> length p" "hexlen i < buflen" "buflen \<le> length buf"
    "take (hexlen i) buf = hex_text (take i p)"
  shows "\<exists>buf'. hexdump_loop p k i (hexlen i) buf buflen =
      Some (hexlen n < buflen, hexlen (dumped n buflen), buf') \<and>
    length buf' = length buf \<and> drop buflen buf' = drop buflen buf \<and>
    take (hexlen (dumped n buflen)) buf' = hex_text (take (dumped n buflen) p)"
  using assms
proof (induction k arbitrary: i buf)
  case (Suc k)
  let ?j = "hexlen i" and ?t = "hex_item i (p ! i)"
  have i: "i < length p" using Suc.prems(1,2) by simp
  from snprintf_at_effect [of ?j "buflen - ?j" buf ?t] Suc.prems obtain b where
    b: "snprintf_at buf ?j (buflen - ?j) ?t = Some (length ?t, b)" "length b = length buf"
      "take ?j b = take ?j buf" "drop buflen b = drop buflen buf"
      "length ?t < buflen - ?j \<longrightarrow> take (?j + length ?t) b = take ?j buf @ ?t" by auto
  show ?case
  proof (cases "length ?t < buflen - ?j")
    case True
    then have "hexlen (Suc i) < buflen" using hexlen_Suc [of i "p ! i"] by simp
    moreover have "take (hexlen (Suc i)) b = hex_text (take (Suc i) p)"
      using b(5) True Suc.prems(5) i by (simp add: hex_text_take_Suc hexlen_Suc)
    ultimately obtain b' where "hexdump_loop p k (Suc i) (hexlen (Suc i)) b buflen =
        Some (hexlen n < buflen, hexlen (dumped n buflen), b')" "length b' = length b"
      "drop buflen b' = drop buflen b" "take (hexlen (dumped n buflen)) b' = hex_text (take (dumped n buflen) p)"
      using Suc.IH [of "Suc i" b] Suc.prems(1,2,4) b(2) by auto
    then show ?thesis using b True i by (simp add: rd_def hexlen_Suc)
  next
    case False
    then have full: "\<not> hexlen (Suc i) < buflen" using Suc.prems(3) hexlen_Suc [of i "p ! i"] by simp
    then have "\<not> hexlen n < buflen" "buflen div 3 = i" using Suc.prems(1,3) by (auto simp: hexlen_def)
    with False b Suc.prems(5) i show ?thesis by (simp add: rd_def dumped_def)
  qed
qed (simp add: dumped_def)

lemma put_dots_effect:
  "j + n \<le> length buf \<Longrightarrow> put_dots n j buf = Some (j + n, take j buf @ replicate n 46 @ drop (j + n) buf)"
proof (induction n arbitrary: j buf)
  case (Suc n)
  from Suc.prems have "take (Suc j) (buf[j := 46]) = take j buf @ [46]" by (simp add: take_update_Suc)
  with Suc show ?case by (simp add: wr_Some)
qed simp

definition hexdump_text :: "byte list \<Rightarrow> nat \<Rightarrow> byte list" where
  "hexdump_text d buflen =
     (if hexlen (length d) < buflen then hex_text d
      else if buflen < 9 then replicate (min (buflen - 1) 3) 46
      else hex_text (take ((buflen - 4) div 3) d) @ [32, 46, 46, 46])"

lemma hexdump_text_length: "0 < buflen \<Longrightarrow> length (hexdump_text d buflen) < buflen"
  by (auto simp: hexdump_text_def length_hex_text hexlen_def min_def)

lemma wr_take:
  assumes "take n b = t" "n < length b" shows "\<exists>b'. wr b n v = Some b' \<and> take (Suc n) b' = t @ [v] \<and>
    length b' = length b \<and> drop (Suc n) b' = drop (Suc n) b"
  using assms by (auto simp: wr_def take_update_Suc)

lemma put_dots_take:
  assumes "take j b = t" "j + n \<le> length b"
  shows "\<exists>b'. put_dots n j b = Some (j + n, b') \<and> take (j + n) b' = t @ replicate n 46 \<and>
    length b' = length b \<and> drop (j + n) b' = drop (j + n) b"
proof -
  have "length t = j" using assms by auto
  with assms show ?thesis by (simp add: put_dots_effect)
qed

lemma take_hex_text:
  assumes "i \<le> m" "m \<le> length p" "take (hexlen m) b = hex_text (take m p)"
  shows "take (hexlen i) b = hex_text (take i p)"
proof -
  have "take (hexlen i) (hex_text (take m p)) = hex_text (take i p)"
    using assms(1,2)
  proof (induction m)
    case (Suc m)
    show ?case
    proof (cases "i = Suc m")
      case False
      with Suc show ?thesis by (simp add: hex_text_take_Suc length_hex_text hexlen_def)
    qed (use Suc.prems in \<open>simp add: length_hex_text\<close>)
  qed (simp add: hexlen_def)
  moreover have "hexlen i \<le> hexlen m" using assms(1) by (simp add: hexlen_def)
  ultimately show ?thesis using assms(3) by (metis min.absorb1 take_take)
qed

lemma drop_beyond: "drop n b = drop n c \<Longrightarrow> n \<le> m \<Longrightarrow> drop m b = drop m c"
  by (metis drop_drop le_add_diff_inverse2)

lemma dots_room:
  assumes "9 \<le> buflen"
  shows "6 \<le> hexlen (buflen div 3)"
    "(if hexlen (buflen div 3) - 3 + 4 \<ge> buflen then hexlen (buflen div 3) - 3 - 3 else hexlen (buflen div 3) - 3) =
      hexlen ((buflen - 4) div 3)"
    "(buflen - 4) div 3 \<le> buflen div 3" "hexlen ((buflen - 4) div 3) + 4 < buflen"
proof -
  define q r where "q = (buflen - 9) div 3" and "r = (buflen - 9) mod 3"
  have b: "buflen = 3 * q + 9 + r" "r < 3"
    using mult_div_mod_eq [of 3 "buflen - 9"] assms unfolding q_def r_def by linarith+
  then consider "r = 0" | "r = 1" | "r = 2" by linarith
  then have m: "(buflen - 4) div 3 = (if r = 0 then q + 1 else q + 2)" unfolding b(1) by cases auto
  have q: "buflen div 3 = q + 3" using b by simp
  show "6 \<le> hexlen (buflen div 3)" "(buflen - 4) div 3 \<le> buflen div 3" unfolding m unfolding q hexlen_def by auto
  show "hexlen ((buflen - 4) div 3) + 4 < buflen" unfolding m using b unfolding hexlen_def by auto
  show "(if hexlen (buflen div 3) - 3 + 4 \<ge> buflen then hexlen (buflen div 3) - 3 - 3 else hexlen (buflen div 3) - 3) =
      hexlen ((buflen - 4) div 3)"
    unfolding m unfolding q using b by (auto simp: hexlen_def)
qed

lemma hexdump_truncated_correct:
  assumes "j = hexlen (buflen div 3)" "take j b = hex_text (take (buflen div 3) p)" "0 < buflen"
    "buflen \<le> length b" "buflen div 3 \<le> length p" "\<not> hexlen (length p) < buflen"
  shows "\<exists>b'. hexdump_truncated j b buflen = Some (length (hexdump_text p buflen), b') \<and>
    take (length (hexdump_text p buflen)) b' = hexdump_text p buflen \<and> length b' = length b \<and>
    drop buflen b' = drop buflen b"
proof (cases "buflen < 9")
  case True
  then have "buflen div 3 < 3" by (intro less_mult_imp_div_less) linarith
  then have j: "\<not> j \<ge> 6" unfolding assms(1) hexlen_def by linarith
  define d where "d = min (buflen - 1) 3"
  then have d: "0 + d \<le> length b" "d \<le> buflen" using assms(4) by linarith+
  from put_dots_take [OF _ d(1), of "[]"] obtain b' where
    b': "put_dots d 0 b = Some (d, b')" "take d b' = replicate d 46" "length b' = length b" "drop d b' = drop d b"
    by auto
  have "hexdump_text p buflen = replicate d 46" using True assms(6) by (simp add: hexdump_text_def d_def)
  moreover have "hexdump_truncated j b buflen = Some (d, b')"
    using j b'(1) unfolding hexdump_truncated_def d_def by simp
  ultimately show ?thesis using b' drop_beyond [of d b' b buflen] d(2) by simp
next
  case False
  let ?m = "(buflen - 4) div 3"
  from False have "9 \<le> buflen" by simp
  note j = dots_room [OF this, folded assms(1)]
  have "take (hexlen ?m) b = hex_text (take ?m p)"
    using take_hex_text [OF j(3) assms(5)] assms(1,2) by simp
  from wr_take [OF this, of 32] j(4) assms(4) obtain b1 where
    b1: "wr b (hexlen ?m) 32 = Some b1" "take (Suc (hexlen ?m)) b1 = hex_text (take ?m p) @ [32]"
      "length b1 = length b" "drop (Suc (hexlen ?m)) b1 = drop (Suc (hexlen ?m)) b" by auto
  have "Suc (hexlen ?m) + 3 \<le> length b1" using b1(3) j(4) assms(4) by linarith
  from put_dots_take [OF b1(2) this] obtain b2 where
    b2: "put_dots 3 (Suc (hexlen ?m)) b1 = Some (Suc (hexlen ?m) + 3, b2)"
      "take (Suc (hexlen ?m) + 3) b2 = hex_text (take ?m p) @ [32] @ replicate 3 46" "length b2 = length b"
      "drop (Suc (hexlen ?m) + 3) b2 = drop (Suc (hexlen ?m) + 3) b1" using b1(3) by auto
  have r3: "replicate 3 (46 :: byte) = [46, 46, 46]" by (simp add: numeral_3_eq_3)
  have "?m \<le> length p" using j(3) assms(5) by linarith
  then have "length (hexdump_text p buflen) = Suc (hexlen ?m) + 3"
    using False assms(6) by (simp add: hexdump_text_def length_hex_text min_absorb2)
  moreover have "hexdump_text p buflen = hex_text (take ?m p) @ [32] @ replicate 3 46"
    using False assms(6) r3 by (simp add: hexdump_text_def)
  moreover have "drop buflen b2 = drop buflen b"
    using drop_beyond [OF b2(4), of buflen] drop_beyond [OF b1(4), of buflen] j(4) by simp
  moreover have "hexdump_truncated j b buflen = Some (Suc (hexlen ?m) + 3, b2)"
    unfolding hexdump_truncated_def Let_def j(2) using j(1) b1(1) b2(1) by simp
  ultimately show ?thesis using b2(2,3) by (simp add: add.commute)
qed

text \<open>
  C36: \<^verbatim>\<open>hexdump\<close> stays inside the buffer and its text is the whole dump when that fits; otherwise it
  is the dump of as many bytes as leave room for a space and three dots, or only dots when the buffer
  is shorter than nine bytes.
\<close>

theorem hexdump_correct:
  assumes "dlen \<le> length data" "0 < buflen" "buflen \<le> length buf"
  shows "\<exists>rest. hexdump data dlen buf buflen =
       Some (hexdump_text (take dlen data) buflen @ 0 # rest @ drop buflen buf) \<and>
     length (hexdump_text (take dlen data) buflen) + 1 + length rest = buflen"
proof -
  let ?t = "hexdump_text (take dlen data) buflen" and ?m = "dumped dlen buflen"
  from hexdump_loop_correct [of 0 dlen dlen data buflen buf] assms obtain b where
    b: "hexdump_loop data dlen 0 0 buf buflen = Some (hexlen dlen < buflen, hexlen ?m, b)"
      "length b = length buf" "drop buflen b = drop buflen buf"
      "take (hexlen ?m) b = hex_text (take ?m data)" by (auto simp: hexlen_def)
  have "\<exists>b'. (if hexlen dlen < buflen then Some (hexlen ?m, b) else hexdump_truncated (hexlen ?m) b buflen) =
      Some (length ?t, b') \<and> take (length ?t) b' = ?t \<and> length b' = length buf \<and> drop buflen b' = drop buflen buf"
  proof (cases "hexlen dlen < buflen")
    case True
    with b assms(1) show ?thesis by (simp add: hexdump_text_def dumped_def length_hex_text)
  next
    case False
    then have m: "?m = buflen div 3" "buflen div 3 \<le> dlen" using assms(2) by (auto simp: dumped_def hexlen_def)
    from hexdump_truncated_correct [of "hexlen ?m" buflen b "take dlen data"] m False b assms
    show ?thesis by simp
  qed
  then obtain b' where b': "(if hexlen dlen < buflen then Some (hexlen ?m, b)
      else hexdump_truncated (hexlen ?m) b buflen) = Some (length ?t, b')"
    "take (length ?t) b' = ?t" "length b' = length buf" "drop buflen b' = drop buflen buf" by blast
  have tl: "length ?t < buflen" using assms(2) by (rule hexdump_text_length)
  with b'(3) assms(3) have "b' [length ?t := 0] = take (length ?t) b' @ 0 # drop (Suc (length ?t)) b'"
    by (simp add: upd_conv_take_nth_drop)
  also have "drop (Suc (length ?t)) b' = take (buflen - Suc (length ?t)) (drop (Suc (length ?t)) b') @ drop buflen b'"
    using tl by (metis Suc_leI append_take_drop_id drop_drop le_add_diff_inverse2)
  finally have "wr b' (length ?t) 0 =
      Some (?t @ 0 # take (buflen - Suc (length ?t)) (drop (Suc (length ?t)) b') @ drop buflen buf)"
    using tl b'(2-4) assms(3) by (simp add: wr_def)
  moreover have "length (take (buflen - Suc (length ?t)) (drop (Suc (length ?t)) b')) = buflen - Suc (length ?t)"
    using b'(3) assms(3) tl by simp
  moreover have "hexdump data dlen buf buflen = wr b' (length ?t) 0"
    using b(1) b'(1) by (auto simp: hexdump_def split: if_splits)
  ultimately show ?thesis using tl by auto
qed

theorem hexdump_correct_witness:
  "\<exists>rest. hexdump [0x0a, 0xff, 1] 3 (replicate 8 7) 8 = Some (cstr ''...'' @ 0 # rest)"
  using hexdump_correct [of 3 "[0x0a, 0xff, 1]" 8 "replicate 8 7"]
  by (auto simp: hexdump_text_def hexlen_def cstr_def chr_def eval_nat_numeral)

subsection \<open>escapestr\<close>

definition esc_char :: "byte \<Rightarrow> byte list" where
  "esc_char c = (if \<not> isprint c then octal_escape c else if c = 92 \<or> c = 34 then [92, c] else [c])"

definition escaped :: "byte list \<Rightarrow> byte list" where
  "escaped s = concat (map esc_char s)"

text \<open>What a reader of the text makes of it.\<close>

definition octal_val :: "byte \<Rightarrow> byte \<Rightarrow> byte \<Rightarrow> byte" where
  "octal_val d e f = of_nat ((unat d - 48) * 64 + (unat e - 48) * 8 + (unat f - 48))"

fun unescape :: "byte list \<Rightarrow> byte list option" where
  "unescape [] = Some []"
| "unescape (c # s) =
     (if c \<noteq> 92 then map_option ((#) c) (unescape s)
      else case s of
          [] \<Rightarrow> None
        | d # s' \<Rightarrow>
            if d = 92 \<or> d = 34 then map_option ((#) d) (unescape s')
            else (case s' of
                e # f # s'' \<Rightarrow> map_option ((#) (octal_val d e f)) (unescape s'')
              | _ \<Rightarrow> None))"

lemma octal_digit_val: "unat (octal_digit n) = 48 + n mod 8"
proof -
  have "48 + n mod 8 < 256" by simp
  then show ?thesis unfolding octal_digit_def by (rule unat_of_nat_byte)
qed

lemma octal_escape_val:
  "octal_val (octal_digit (unat c div 64)) (octal_digit (unat c div 8)) (octal_digit (unat c)) = c"
proof -
  define n where "n = unat c"
  have "n div 64 < 8" using unat_byte_less [of c] unfolding n_def by (intro less_mult_imp_div_less) linarith
  then have "n div 64 mod 8 = n div 8 div 8" by (simp flip: div_mult2_eq)
  moreover have "n div 8 div 8 * 8 + n div 8 mod 8 = n div 8" "n div 8 * 8 + n mod 8 = n" by simp_all
  ultimately have "n div 64 mod 8 * 64 + n div 8 mod 8 * 8 + n mod 8 = n" by linarith
  then have "(48 + n div 64 mod 8 - 48) * 64 + (48 + n div 8 mod 8 - 48) * 8 + (48 + n mod 8 - 48) = n"
    by (simp only: diff_add_inverse)
  then have "octal_val (octal_digit (n div 64)) (octal_digit (n div 8)) (octal_digit n) = of_nat n"
    unfolding octal_val_def octal_digit_val by (rule arg_cong)
  then show ?thesis by (simp add: n_def)
qed

lemma octal_digit_neq: "octal_digit n \<noteq> 92" "octal_digit n \<noteq> 34"
  using octal_digit_val [of n] by auto

lemma unescape_escaped: "unescape (escaped s @ t) = map_option ((@) s) (unescape t)"
proof (induction s)
  case (Cons c s)
  have "unescape (esc_char c @ u) = map_option ((#) c) (unescape u)" for u
    by (auto simp: esc_char_def octal_escape_def octal_digit_neq octal_escape_val)
  from this [of "escaped s @ t"] Cons show ?case by (simp add: escaped_def option.map_comp comp_def)
qed (simp add: escaped_def option.map_ident)

lemma esc_char_length: "1 \<le> length (esc_char c)"
  by (simp add: esc_char_def)

lemma escapestr_loop_correct:
  assumes "i + k \<le> length inn" "j < sz" "sz \<le> length str" "take j str = u"
  defines "e \<equiv> escaped (take k (drop i inn))"
  shows "\<exists>j' str'. escapestr_loop inn k i j str sz = Some (j + length e < sz, j', str') \<and>
    length str' = length str \<and> drop sz str' = drop sz str \<and>
    (j + length e < sz \<longrightarrow> j' = j + length e \<and> take j' str' = u @ e)"
  using assms(1-4) unfolding e_def
proof (induction k arbitrary: i j str u)
  case (Suc k)
  let ?c = "inn ! i" and ?e = "escaped (take k (drop (Suc i) inn))"
  have i: "i < length inn" using Suc.prems(1) by simp
  then have e: "escaped (take (Suc k) (drop i inn)) = esc_char ?c @ ?e"
    by (simp add: escaped_def Cons_nth_drop_Suc [symmetric])
  have rc: "rd inn i = Some ?c" using i by (simp add: rd_def)
  have step: "\<exists>j' str'. escapestr_loop inn k (i + 1) (j + length (esc_char ?c)) b sz =
        Some (j + length (esc_char ?c @ ?e) < sz, j', str') \<and>
      length str' = length str \<and> drop sz str' = drop sz str \<and>
      (j + length (esc_char ?c @ ?e) < sz \<longrightarrow>
        j' = j + length (esc_char ?c @ ?e) \<and> take j' str' = u @ esc_char ?c @ ?e)"
    if "j + length (esc_char ?c) < sz" "length b = length str" "drop sz b = drop sz str"
      "take (j + length (esc_char ?c)) b = u @ esc_char ?c" for b
    using Suc.IH [of "i + 1" "j + length (esc_char ?c)" b "u @ esc_char ?c"] Suc.prems(1,3) that
    by (simp add: add.assoc)
  consider (full) "j + 1 \<ge> sz" | (octal) "j + 1 < sz" "\<not> isprint ?c" | (quote) "j + 1 < sz" "isprint ?c" "?c = 92 \<or> ?c = 34"
    | (plain) "j + 1 < sz" "isprint ?c" "\<not> (?c = 92 \<or> ?c = 34)" by linarith
  then show ?case
  proof cases
    case full
    then show ?thesis using esc_char_length [of ?c] unfolding e by simp
  next
    case octal
    then have ec: "esc_char ?c = octal_escape ?c" by (simp add: esc_char_def)
    from snprintf_at_effect [of j "sz - j" str "octal_escape ?c"] Suc.prems obtain b where
      b: "snprintf_at str j (sz - j) (octal_escape ?c) = Some (4, b)" "length b = length str" "drop sz b = drop sz str"
        "4 < sz - j \<longrightarrow> take (j + 4) b = u @ octal_escape ?c" by auto
    show ?thesis
    proof (cases "4 < sz - j")
      case True
      with step [of b] b ec have "\<exists>j' str'. escapestr_loop inn k (i + 1) (j + 4) b sz =
          Some (j + length (esc_char ?c @ ?e) < sz, j', str') \<and> length str' = length str \<and> drop sz str' = drop sz str \<and>
          (j + length (esc_char ?c @ ?e) < sz \<longrightarrow> j' = j + length (esc_char ?c @ ?e) \<and> take j' str' = u @ esc_char ?c @ ?e)"
        by simp
      with True octal b(1) rc show ?thesis unfolding e by simp
    next
      case False
      with octal b rc show ?thesis unfolding e ec by simp
    qed
  next
    case quote
    then have ec: "esc_char ?c = [92, ?c]" by (simp add: esc_char_def)
    from wr_take [OF Suc.prems(4), of 92] Suc.prems(2,3) obtain b where
      b: "wr str j 92 = Some b" "take (Suc j) b = u @ [92]" "length b = length str" "drop (Suc j) b = drop (Suc j) str"
      by auto
    show ?thesis
    proof (cases "j + 2 < sz")
      case True
      from wr_take [OF b(2), of ?c] b(3) True Suc.prems(3) obtain b2 where
        b2: "wr b (Suc j) ?c = Some b2" "take (Suc (Suc j)) b2 = u @ [92, ?c]" "length b2 = length b"
          "drop (Suc (Suc j)) b2 = drop (Suc (Suc j)) b" by auto
      have "drop sz b2 = drop sz str"
        using drop_beyond [OF b2(4), of sz] drop_beyond [OF b(4), of sz] True by simp
      with step [of b2] b2 b(3) ec True have "\<exists>j' str'. escapestr_loop inn k (i + 1) (j + 2) b2 sz =
          Some (j + length (esc_char ?c @ ?e) < sz, j', str') \<and> length str' = length str \<and> drop sz str' = drop sz str \<and>
          (j + length (esc_char ?c @ ?e) < sz \<longrightarrow> j' = j + length (esc_char ?c @ ?e) \<and> take j' str' = u @ esc_char ?c @ ?e)"
        by simp
      with True quote b(1) b2(1) rc show ?thesis unfolding e by simp
    next
      case False
      with quote b rc drop_beyond [OF b(4), of sz] show ?thesis unfolding e ec by simp
    qed
  next
    case plain
    then have ec: "esc_char ?c = [?c]" by (simp add: esc_char_def)
    from wr_take [OF Suc.prems(4), of ?c] Suc.prems(2,3) obtain b where
      b: "wr str j ?c = Some b" "take (Suc j) b = u @ [?c]" "length b = length str" "drop (Suc j) b = drop (Suc j) str"
      by auto
    with step [of b] ec plain(1) drop_beyond [OF b(4), of sz] have
        "\<exists>j' str'. escapestr_loop inn k (i + 1) (j + 1) b sz =
          Some (j + length (esc_char ?c @ ?e) < sz, j', str') \<and> length str' = length str \<and> drop sz str' = drop sz str \<and>
          (j + length (esc_char ?c @ ?e) < sz \<longrightarrow> j' = j + length (esc_char ?c @ ?e) \<and> take j' str' = u @ esc_char ?c @ ?e)"
      by simp
    with plain b(1) rc show ?thesis unfolding e by simp
  qed
qed (simp add: escaped_def)



subsection \<open>The smaller functions\<close>

lemma strlen_cstr: "0 \<notin> set s \<Longrightarrow> strlen (s @ 0 # r) = Some (length s)"
  by (induction s) auto

lemma strncpy_at_correct:
  assumes "0 \<notin> set s" "i + n \<le> length dst"
  shows "strncpy_at dst i (s @ 0 # r) n =
    Some (take i dst @ take n s @ replicate (n - length s) 0 @ drop (i + n) dst)"
  using assms
proof (induction s arbitrary: i n dst)
  case Nil
  show ?case
  proof (cases n)
    case (Suc m)
    with Nil(2) show ?thesis
      by (simp add: wr_def memcpy_at_def take_update_Suc)
  qed simp
next
  case (Cons c s)
  show ?case
  proof (cases n)
    case (Suc m)
    with Cons.prems Cons.IH [of "Suc i" m "dst[i := c]"] show ?thesis
      by (simp add: wr_def take_update_Suc)
  qed simp
qed

text \<open>\<^verbatim>\<open>strncp\<close> always leaves a terminated string, the whole one exactly when it returns 1.\<close>

lemma strncp_correct:
  assumes "0 \<notin> set s" "0 < n" "n \<le> length dst"
  shows "\<exists>rest. strncp dst (s @ 0 # r) n = Some (length s < n, take (n - 1) s @ 0 # rest) \<and> length rest + length (take (n - 1) s) + 1 = length dst"
proof (cases "length s < n")
  case True
  then have "replicate (n - length s) (0 :: byte) = 0 # replicate (n - length s - 1) 0"
    by (metis Suc_diff_1 replicate_Suc zero_less_diff)
  with True assms strncpy_at_correct [of s 0 n dst r] show ?thesis
    by (simp add: strncp_def strlen_cstr)
next
  case False
  obtain m where m: "n = Suc m" using assms(2) by (cases n) auto
  with False have "take n s = take m s @ [s ! m]" by (simp add: take_Suc_conv_app_nth)
  moreover have "0 < length dst" using assms(2,3) by linarith
  ultimately show ?thesis using False assms strncpy_at_correct [of s 0 n dst r] m
    by (auto simp: strncp_def strlen_cstr wr_def list_update_append nth_append min_def)
qed

lemma write_all_correct:
  "write_all buf n ms written = Some (m, out) \<Longrightarrow> written \<le> n \<Longrightarrow>
   (m = int n \<and> out = take n buf) \<or> (m < 0 \<and> (\<exists>k<n. out = take k buf))"
proof (induction buf n ms written rule: write_all.induct)
  case (1 buf n ms written)
  then show ?case by (subst (asm) (2) write_all.simps) (auto split: if_splits list.splits)
qed

lemma run_as_order:
  "run_as pw use_nss works user = (True, calls) \<Longrightarrow> user \<noteq> [] \<Longrightarrow>
   \<exists>uid gid. pw user = Some (uid, gid) \<and> (\<forall>c\<in>set calls. works c) \<and> hd calls = Setgid gid \<and> last calls = Setuid uid"
  by (auto simp: run_as_def Let_def split: if_splits option.splits)

end
