(* ===== verification/Dyn_List.thy ===== *)
theory Dyn_List
  imports Prelude
begin

unbundle bit_operations_syntax

section \<open>Dynamic arrays and lists (list.c, list.h)\<close>

text \<open>
  The three containers of \<^verbatim>\<open>pdnsd\<close>: arrays that grow in steps of eight elements, sequences of
  items of different sizes in one block of memory, and linked lists. \<open>mem\<close> tells whether
  \<^verbatim>\<open>malloc\<close> or \<^verbatim>\<open>realloc\<close> succeeds. Sizes are natural numbers except where the code masks them.
\<close>

subsection \<open>Dynamic arrays\<close>

text \<open>
  The allocated cells of an array, \<^term>\<open>None\<close> for one that was never written, and the number in
  use. The operations return the array or null, and the cells the clean-up routine was called on.
\<close>

record 'a darray =
  da_nel_of :: nat
  da_cells :: "'a option list"

definition da_nel :: "'a darray option \<Rightarrow> nat" where
  "da_nel a = (case a of None \<Rightarrow> 0 | Some a \<Rightarrow> da_nel_of a)"

definition alloc_nel :: "nat \<Rightarrow> nat" where
  "alloc_nel n = (if n = 0 then 8 else unat ((of_nat n + 7) AND NOT 7 :: u64))"

text \<open>\<^verbatim>\<open>realloc\<close> to a number of cells: the old contents stay as far as they fit.\<close>

definition realloc_cells :: "'a darray option \<Rightarrow> nat \<Rightarrow> 'a option list" where
  "realloc_cells a n = (case a of None \<Rightarrow> replicate n None
     | Some a \<Rightarrow> take n (da_cells a) @ replicate (n - length (da_cells a)) None)"

definition cleanup :: "'a darray option \<Rightarrow> 'a option list" where
  "cleanup a = (case a of None \<Rightarrow> [] | Some a \<Rightarrow> take (da_nel_of a) (da_cells a))"

definition da_grow1 :: "'a darray option \<Rightarrow> bool \<Rightarrow> 'a darray option \<times> 'a option list" where
  "da_grow1 a mem =
     (let k = da_nel a
      in if a = None \<or> k \<noteq> 0 \<and> (of_nat k :: u64) AND 7 = 0
         then if mem then (Some \<lparr>da_nel_of = k + 1, da_cells = realloc_cells a (k + 8)\<rparr>, [])
              else (None, cleanup a)
         else (map_option (\<lambda>a. a\<lparr>da_nel_of := k + 1\<rparr>) a, []))"

definition da_resize :: "'a darray option \<Rightarrow> nat \<Rightarrow> bool \<Rightarrow> 'a darray option \<times> 'a option list" where
  "da_resize a n mem =
     (let ael = (case a of None \<Rightarrow> 0 | Some a \<Rightarrow> alloc_nel (da_nel_of a));
          new_ael = alloc_nel n
      in if new_ael \<noteq> ael
         then if mem then (Some \<lparr>da_nel_of = n, da_cells = realloc_cells a new_ael\<rparr>, [])
              else (None, cleanup a)
         else (map_option (\<lambda>a. a\<lparr>da_nel_of := n\<rparr>) a, []))"

text \<open>The invariant: exactly \<^verbatim>\<open>alloc_nel(nel)\<close> cells are allocated.\<close>

definition da_ok :: "'a darray option \<Rightarrow> bool" where
  "da_ok a \<longleftrightarrow> (\<forall>d. a = Some d \<longrightarrow> length (da_cells d) = alloc_nel (da_nel_of d) \<and> da_nel_of d \<le> length (da_cells d))"

definition da_elems :: "'a darray option \<Rightarrow> 'a option list" where
  "da_elems a = cleanup a"

lemma and_not_7: "unat (w AND NOT 7 :: u64) = unat w div 8 * 8"
proof -
  have m: "(7 :: u64) = mask 3" by (simp add: mask_eq_exp_minus_1)
  have "w AND NOT 7 = push_bit 3 (drop_bit 3 w)"
    unfolding m by (rule bit_word_eqI) (auto simp: bit_simps)
  moreover have "unat (push_bit 3 (drop_bit 3 w)) = unat w div 8 * 8"
  proof -
    have "unat w < 2 ^ 64" using unsigned_less [of w] by simp
    then have "unat (drop_bit 3 w) = unat w div 8"
      unfolding unsigned_drop_bit_eq
      by (simp add: drop_bit_eq_div take_bit_nat_eq_self)
    moreover have "unat w div 8 * 8 \<le> unat w" by simp
    then have "unat w div 8 * 8 < 2 ^ 64" using \<open>unat w < 2 ^ 64\<close> by linarith
    ultimately show ?thesis
      unfolding unsigned_push_bit_eq by (simp add: push_bit_eq_mult take_bit_nat_eq_self mult.commute)
  qed
  ultimately show ?thesis by simp
qed

lemma and_7: "(of_nat k :: u64) AND 7 = 0 \<longleftrightarrow> k mod 8 = 0"
proof -
  have "(7 :: u64) = mask 3" by (simp add: mask_eq_exp_minus_1)
  then have "unat ((of_nat k :: u64) AND 7) = unat (of_nat k :: u64) mod 8"
    by (simp only: take_bit_eq_mask [symmetric] unat_take_bit) (simp add: take_bit_eq_mod)
  moreover have "unat (of_nat k :: u64) mod 8 = k mod 8"
    by (simp add: unat_of_nat mod_mod_cancel)
  ultimately show ?thesis by (metis unat_eq_zero)
qed

lemma alloc_nel_eq:
  assumes "n + 7 < 2 ^ 64"
  shows "alloc_nel n = (if n = 0 then 8 else (n + 7) div 8 * 8)"
proof -
  have "unat (of_nat (n + 7) :: u64) = n + 7"
    using assms unfolding unat_of_nat by (simp add: take_bit_nat_eq_self)
  then show ?thesis unfolding alloc_nel_def and_not_7 by simp
qed

lemma alloc_nel_ge: "n + 7 < 2 ^ 64 \<Longrightarrow> n \<le> alloc_nel n \<and> 0 < alloc_nel n"
  by (auto simp: alloc_nel_eq)

lemma realloc_cells_length [simp]: "length (realloc_cells a n) = n"
  by (cases a) (simp_all add: realloc_cells_def)

lemma realloc_take: "n \<le> m \<Longrightarrow> n \<le> length (da_cells d) \<Longrightarrow> take n (realloc_cells (Some d) m) = take n (da_cells d)"
  by (simp add: realloc_cells_def)

lemma alloc_nel_Suc:
  assumes "k + 8 < 2 ^ 64"
  shows "if k \<noteq> 0 \<and> k mod 8 = 0 then alloc_nel (Suc k) = k + 8 \<and> alloc_nel k = k
    else alloc_nel (Suc k) = alloc_nel k \<and> Suc k \<le> alloc_nel k"
proof (cases "k = 0")
  case True
  then show ?thesis using alloc_nel_eq [of 1] by (simp add: alloc_nel_def)
next
  case False
  define q where "q = k div 8"
  define m where "m = k mod 8"
  have k: "k = 8 * q + m" "m < 8" by (auto simp: q_def m_def)
  have "(Suc k + 7) div 8 = Suc q" using k by auto
  moreover have "(k + 7) div 8 = (if m = 0 then q else Suc q)" using k by auto
  ultimately show ?thesis
    using False assms k alloc_nel_eq [of "Suc k"] alloc_nel_eq [of k] unfolding m_def [symmetric]
    by (cases "m = 0") auto
qed

lemmas da_defs = da_ok_def da_nel_def da_elems_def cleanup_def

lemma da_grow1_ok:
  assumes "da_ok (Some d)" "da_nel_of d + 8 < 2 ^ 64"
  shows "\<exists>r. da_grow1 (Some d) True = (Some r, []) \<and> da_ok (Some r) \<and> da_nel_of r = da_nel_of d + 1 \<and>
    take (da_nel_of d) (da_elems (Some r)) = da_elems (Some d)"
proof (cases "da_nel_of d \<noteq> 0 \<and> da_nel_of d mod 8 = 0")
  case True
  let ?r = "\<lparr>da_nel_of = da_nel_of d + 1, da_cells = realloc_cells (Some d) (da_nel_of d + 8)\<rparr>"
  have "da_grow1 (Some d) True = (Some ?r, [])" using True by (simp add: da_grow1_def Let_def and_7 da_nel_def)
  moreover have "da_ok (Some ?r)" using alloc_nel_Suc [OF assms(2)] True by (simp add: da_ok_def)
  moreover have "take (da_nel_of d) (da_elems (Some ?r)) = da_elems (Some d)"
    using assms(1) by (simp add: da_defs realloc_take)
  ultimately show ?thesis by (intro exI [of _ ?r]) simp
next
  case False
  have "da_grow1 (Some d) True = (Some (d\<lparr>da_nel_of := da_nel_of d + 1\<rparr>), [])"
    using False by (auto simp: da_grow1_def Let_def and_7 da_nel_def)
  moreover have "da_ok (Some (d\<lparr>da_nel_of := da_nel_of d + 1\<rparr>))"
    using alloc_nel_Suc [OF assms(2)] False assms(1) by (auto simp: da_ok_def split: if_splits)
  ultimately show ?thesis by (intro exI [of _ "d\<lparr>da_nel_of := da_nel_of d + 1\<rparr>"]) (simp add: da_defs)
qed

lemma da_resize_ok:
  assumes "da_ok (Some d)" "n + 7 < 2 ^ 64"
  shows "\<exists>r. da_resize (Some d) n True = (Some r, []) \<and> da_ok (Some r) \<and> da_nel_of r = n \<and>
    take (da_nel_of d) (da_elems (Some r)) = take n (da_elems (Some d))"
proof (cases "alloc_nel n = alloc_nel (da_nel_of d)")
  case True
  then have "da_resize (Some d) n True = (Some (d\<lparr>da_nel_of := n\<rparr>), [])" by (simp add: da_resize_def Let_def)
  then show ?thesis using True assms(1) alloc_nel_ge [OF assms(2)]
    by (intro exI [of _ "d\<lparr>da_nel_of := n\<rparr>"]) (simp add: da_defs min.commute)
next
  case False
  let ?r = "\<lparr>da_nel_of = n, da_cells = realloc_cells (Some d) (alloc_nel n)\<rparr>"
  have "da_resize (Some d) n True = (Some ?r, [])" using False by (simp add: da_resize_def Let_def)
  moreover have "take (da_nel_of d) (take n (realloc_cells (Some d) (alloc_nel n))) = take n (take (da_nel_of d) (da_cells d))"
    using assms(1) alloc_nel_ge [OF assms(2)] by (auto simp: da_ok_def realloc_cells_def min_def)
  ultimately show ?thesis using alloc_nel_ge [OF assms(2)]
    by (intro exI [of _ ?r]) (simp add: da_defs)
qed



subsection \<open>Sequences of items in one block\<close>

text \<open>
  An item is preceded by a \<^verbatim>\<open>size_t\<close> with the distance to the next item, 0 for the last one. The
  block is the bytes of \<^verbatim>\<open>data\<close>; \<open>put_size\<close> and \<open>get_size\<close> are the accesses through a
  \<^verbatim>\<open>size_t\<close> pointer (little-endian). A reference is the position of an item's contents.
\<close>

record dlist =
  dl_last :: nat
  dl_lastsz :: nat
  dl_data :: "byte list"

fun le_bytes :: "nat \<Rightarrow> nat \<Rightarrow> byte list" where
  "le_bytes 0 n = []"
| "le_bytes (Suc k) n = of_nat (n mod 256) # le_bytes k (n div 256)"

fun le_val :: "byte list \<Rightarrow> nat" where
  "le_val [] = 0"
| "le_val (b # bs) = unat b + 256 * le_val bs"

definition put_size :: "byte list \<Rightarrow> nat \<Rightarrow> nat \<Rightarrow> byte list option" where
  "put_size buf i n = memcpy_at buf i (le_bytes 8 n) 8"

definition get_size :: "byte list \<Rightarrow> nat \<Rightarrow> nat option" where
  "get_size buf i = (if i + 8 \<le> length buf then Some (le_val (take 8 (drop i buf))) else None)"

definition dlist_align :: "nat \<Rightarrow> nat" where
  \<comment> \<open>\<^verbatim>\<open>DLISTALIGN\<close>\<close>
  "dlist_align len = unat ((of_nat len + 7) AND NOT 7 :: u64)"

definition chunk :: "nat \<Rightarrow> nat" where
  "chunk sz = unat ((of_nat sz + 0x3ff) AND NOT 0x3ff :: u64)"

text \<open>\<open>junk n\<close> is what \<open>n\<close> bytes of fresh memory hold.\<close>

definition dlist_grow :: "dlist option \<Rightarrow> nat \<Rightarrow> bool \<Rightarrow> (nat \<Rightarrow> byte list) \<Rightarrow> dlist option option" where
  "dlist_grow a len mem junk = do {
     (sz, allocsz, data) \<leftarrow> (case a of
         None \<Rightarrow> Some (0, 0, [])
       | Some a \<Rightarrow> do {
           let sz = dl_last a + dl_lastsz a;
           data \<leftarrow> put_size (dl_data a) (dl_last a) (dl_lastsz a);
           Some (sz, chunk sz, data) });
     let szincr = dlist_align (len + 8);
     let newsz = sz + szincr;
     if newsz > allocsz \<and> \<not> mem then Some None
     else do {
       let data = (if newsz > allocsz then data @ junk (chunk newsz - length data) else data);
       data \<leftarrow> put_size data sz 0;
       Some (Some \<lparr>dl_last = sz, dl_lastsz = szincr, dl_data = data\<rparr>) } }"

definition dlist_first :: "dlist option \<Rightarrow> nat option" where
  "dlist_first a = map_option (\<lambda>a. 8) a"

definition dlist_next :: "dlist \<Rightarrow> nat \<Rightarrow> nat option option" where
  "dlist_next a ref = do {
     pdnsd_assert (8 \<le> ref);
     incr \<leftarrow> get_size (dl_data a) (ref - 8);
     Some (if incr \<noteq> 0 then Some (ref + incr) else None) }"

definition dlist_last :: "dlist option \<Rightarrow> nat option" where
  "dlist_last a = map_option (\<lambda>a. dl_last a + 8) a"

text \<open>
  How the lists are used: an item is appended by growing the list and copying the item to the
  place of the last one, and the items are read from the first on, each with its length known.
\<close>

definition dlist_append :: "dlist option \<Rightarrow> byte list \<Rightarrow> bool \<Rightarrow> (nat \<Rightarrow> byte list) \<Rightarrow> dlist option option" where
  "dlist_append a item mem junk = do {
     r \<leftarrow> dlist_grow a (length item) mem junk;
     (case r of
        None \<Rightarrow> Some None
      | Some d \<Rightarrow> do {
          data \<leftarrow> memcpy_at (dl_data d) (dl_last d + 8) item (length item);
          Some (Some (d\<lparr>dl_data := data\<rparr>)) }) }"

fun dlist_read :: "dlist \<Rightarrow> nat option \<Rightarrow> nat list \<Rightarrow> byte list list option" where
  "dlist_read a None [] = Some []"
| "dlist_read a (Some ref) (n # ns) = do {
     pdnsd_assert (ref + n \<le> length (dl_data a));
     r \<leftarrow> dlist_next a ref;
     items \<leftarrow> dlist_read a r ns;
     Some (take n (drop ref (dl_data a)) # items) }"
| "dlist_read a _ _ = None"

lemma le_val_bytes: "n < 256 ^ k \<Longrightarrow> le_val (le_bytes k n) = n"
  by (induction k arbitrary: n) (simp_all add: less_mult_imp_div_less mult.commute)

lemma length_le_bytes [simp]: "length (le_bytes k n) = k"
  by (induction k arbitrary: n) simp_all

lemma put_size_at: "put_size (a @ h @ c) (length a) n = Some (a @ le_bytes 8 n @ c)" if "length h = 8"
  using that by (simp add: put_size_def memcpy_at_def)

lemma get_size_at: "n < 2 ^ 64 \<Longrightarrow> get_size (a @ le_bytes 8 n @ c) (length a) = Some n"
  using le_val_bytes [of n 8] by (simp add: get_size_def)

lemma align_eq: "n + 7 < 2 ^ 64 \<Longrightarrow> dlist_align n = (n + 7) div 8 * 8"
proof -
  assume n: "n + 7 < 2 ^ 64"
  then have "unat (of_nat (n + 7) :: u64) = n + 7" unfolding unat_of_nat by (simp add: take_bit_nat_eq_self)
  then show ?thesis unfolding dlist_align_def and_not_7 by simp
qed

lemma align_ge: "n + 7 < 2 ^ 64 \<Longrightarrow> n \<le> dlist_align n \<and> dlist_align n \<le> n + 7"
  by (simp add: align_eq)

lemma and_not_1023: "unat (w AND NOT 0x3ff :: u64) = unat w div 1024 * 1024"
proof -
  have m: "(0x3ff :: u64) = mask 10" by (simp add: mask_eq_exp_minus_1)
  have "w AND NOT 0x3ff = push_bit 10 (drop_bit 10 w)"
    unfolding m by (rule bit_word_eqI) (auto simp: bit_simps)
  moreover have "unat w < 2 ^ 64" using unsigned_less [of w] by simp
  then have "unat (drop_bit 10 w) = unat w div 1024"
    unfolding unsigned_drop_bit_eq by (simp add: drop_bit_eq_div take_bit_nat_eq_self)
  moreover have "unat w div 1024 * 1024 \<le> unat w" by simp
  then have "unat w div 1024 * 1024 < 2 ^ 64" using \<open>unat w < 2 ^ 64\<close> by linarith
  ultimately show ?thesis
    unfolding \<open>w AND NOT 0x3ff = _\<close> unsigned_push_bit_eq by (simp add: push_bit_eq_mult take_bit_nat_eq_self mult.commute)
qed

lemma chunk_eq: "n + 1023 < 2 ^ 64 \<Longrightarrow> chunk n = (n + 1023) div 1024 * 1024"
proof -
  assume n: "n + 1023 < 2 ^ 64"
  then have "unat (of_nat (n + 1023) :: u64) = n + 1023" unfolding unat_of_nat by (simp add: take_bit_nat_eq_self)
  then show ?thesis unfolding chunk_def and_not_1023 by simp
qed

text \<open>The representation: every block but the last starts with its size.\<close>

definition blocks :: "byte list list \<Rightarrow> byte list" where
  "blocks bs = concat (map (\<lambda>b. le_bytes 8 (8 + length b) @ b) bs)"

definition dl_rep :: "dlist option \<Rightarrow> byte list list \<Rightarrow> bool" where
  "dl_rep a bs \<longleftrightarrow> (case a of None \<Rightarrow> bs = []
     | Some d \<Rightarrow> \<exists>bs' b rest. bs = bs' @ [b] \<and> dl_data d = blocks bs' @ le_bytes 8 0 @ b @ rest \<and>
         dl_last d = length (blocks bs') \<and> dl_lastsz d = 8 + length b \<and>
         length (dl_data d) = chunk (length (blocks bs)))"

lemma blocks_snoc: "blocks (bs @ [b]) = blocks bs @ le_bytes 8 (8 + length b) @ b"
  by (simp add: blocks_def)

lemma dlist_grow_ok:
  assumes "dl_rep a bs" "\<forall>n. length (junk n) = n" "length (blocks bs) + len + 2000 < 2 ^ 64"
  shows "\<exists>d b. dlist_grow a len True junk = Some (Some d) \<and> len \<le> length b \<and> length b \<le> len + 7 \<and> dl_rep (Some d) (bs @ [b])"
proof -
  let ?sz = "length (blocks bs)" and ?inc = "dlist_align (len + 8)"
  have inc: "len + 8 \<le> ?inc" "?inc \<le> len + 15" using align_ge [of "len + 8"] assms(3) by simp_all
  have c: "chunk ?sz = (?sz + 1023) div 1024 * 1024" "chunk (?sz + ?inc) = (?sz + ?inc + 1023) div 1024 * 1024"
    using chunk_eq [of ?sz] chunk_eq [of "?sz + ?inc"] assms(3) inc by simp_all
  obtain rest where start: "(case a of None \<Rightarrow> Some (0, 0, []) | Some a \<Rightarrow> do {
           let sz = dl_last a + dl_lastsz a;
           data \<leftarrow> put_size (dl_data a) (dl_last a) (dl_lastsz a);
           Some (sz, chunk sz, data) }) = Some (?sz, chunk ?sz, blocks bs @ rest)"
    and lenr: "length (blocks bs @ rest) = chunk ?sz"
  proof (cases a)
    case None
    with assms(1) c show ?thesis by (intro that [of "[]"]) (simp_all add: dl_rep_def blocks_def)
  next
    case (Some d)
    with assms(1) obtain bs' b rest where r: "bs = bs' @ [b]" "dl_data d = blocks bs' @ le_bytes 8 0 @ b @ rest"
      "dl_last d = length (blocks bs')" "dl_lastsz d = 8 + length b" "length (dl_data d) = chunk (length (blocks bs))"
      by (auto simp: dl_rep_def)
    have "put_size (dl_data d) (dl_last d) (dl_lastsz d) = Some (blocks bs @ rest)"
      using put_size_at [of "le_bytes 8 0" "blocks bs'" "b @ rest" "8 + length b"] r by (simp add: blocks_snoc)
    then show ?thesis using Some r by (intro that [of rest]) (simp_all add: blocks_snoc Let_def)
  qed
  let ?data = "if ?sz + ?inc > chunk ?sz then blocks bs @ rest @ junk (chunk (?sz + ?inc) - chunk ?sz) else blocks bs @ rest"
  have ld: "length ?data = chunk (?sz + ?inc)"
  proof (cases "?sz + ?inc > chunk ?sz")
    case True
    then have "chunk ?sz \<le> chunk (?sz + ?inc)" unfolding c by (intro mult_le_mono1 div_le_mono) simp
    with True lenr assms(2) show ?thesis by simp
  next
    case False
    define q where "q = (?sz + 1023) div 1024"
    have "(?sz + ?inc + 1023) div 1024 = q"
    proof (rule antisym)
      have "?sz + ?inc \<le> q * 1024" using False c(1) by (simp add: q_def)
      then have "?sz + ?inc + 1023 < (q + 1) * 1024" by simp
      then have "(?sz + ?inc + 1023) div 1024 < q + 1" by (simp only: less_mult_imp_div_less)
      then show "(?sz + ?inc + 1023) div 1024 \<le> q" by simp
      show "q \<le> (?sz + ?inc + 1023) div 1024" unfolding q_def by (rule div_le_mono) simp
    qed
    then have "chunk (?sz + ?inc) = chunk ?sz" unfolding c q_def by simp
    with False lenr show ?thesis by simp
  qed
  have "?sz + ?inc \<le> chunk (?sz + ?inc)" unfolding c(2) by simp
  then have tl: "?inc \<le> length (drop ?sz ?data)" unfolding length_drop ld by linarith
  obtain h b rest' where tail: "drop ?sz ?data = h @ b @ rest'" "length h = 8" "length b = ?inc - 8"
  proof (rule that)
    let ?t = "drop ?sz ?data"
    show "?t = take 8 ?t @ take (?inc - 8) (drop 8 ?t) @ drop (?inc - 8) (drop 8 ?t)"
      by (simp only: append_take_drop_id)
    show "length (take 8 ?t) = 8" "length (take (?inc - 8) (drop 8 ?t)) = ?inc - 8"
      using tl inc unfolding length_take length_drop by linarith+
  qed
  have "?data = blocks bs @ drop ?sz ?data" by simp
  then have data: "?data = blocks bs @ h @ b @ rest'" using tail(1) by metis
  let ?d = "\<lparr>dl_last = ?sz, dl_lastsz = ?inc, dl_data = blocks bs @ le_bytes 8 0 @ b @ rest'\<rparr>"
  have "dlist_grow a len True junk = do { data \<leftarrow> put_size ?data ?sz 0; Some (Some \<lparr>dl_last = ?sz, dl_lastsz = ?inc, dl_data = data\<rparr>) }"
    unfolding dlist_grow_def start using lenr by (simp add: Let_def)
  also have "\<dots> = Some (Some ?d)" unfolding data using put_size_at [OF tail(2)] by simp
  finally have eq: "dlist_grow a len True junk = Some (Some ?d)" .
  have "length (blocks (bs @ [b])) = ?sz + ?inc" using tail(3) inc by (simp add: blocks_snoc)
  then have "dl_rep (Some ?d) (bs @ [b])"
    using ld [unfolded data] tail(2,3) inc unfolding dl_rep_def option.case
    by - (rule exI [of _ bs], rule exI [of _ b], rule exI [of _ rest'], simp)
  moreover have "len \<le> length b" "length b \<le> len + 7" using tail(3) inc by linarith+
  ultimately show ?thesis using eq by (intro exI [of _ ?d] exI [of _ b]) simp
qed

text \<open>The items of a list, each at the start of its block.\<close>

definition dl_holds :: "dlist option \<Rightarrow> byte list list \<Rightarrow> bool" where
  "dl_holds a items \<longleftrightarrow> (\<exists>bs. dl_rep a bs \<and> list_all2 (\<lambda>b i. length i \<le> length b \<and> length b \<le> length i + 7 \<and> take (length i) b = i) bs items)"

definition items_bound :: "byte list list \<Rightarrow> nat" where
  "items_bound items = (\<Sum>i\<leftarrow>items. length i + 15)"

lemma blocks_bound:
  "list_all2 (\<lambda>b i. length i \<le> length b \<and> length b \<le> length i + 7 \<and> take (length i) b = i) bs items \<Longrightarrow>
   length (blocks bs) \<le> items_bound items"
  by (induction bs items rule: list_all2_induct) (auto simp: blocks_def items_bound_def)

lemma dlist_append_ok:
  assumes "dl_holds a items" "\<forall>n. length (junk n) = n" "items_bound (items @ [item]) + 2000 < 2 ^ 64"
  shows "\<exists>d. dlist_append a item True junk = Some (Some d) \<and> dl_holds (Some d) (items @ [item])"
proof -
  from assms(1) obtain bs where bs: "dl_rep a bs"
    "list_all2 (\<lambda>b i. length i \<le> length b \<and> length b \<le> length i + 7 \<and> take (length i) b = i) bs items"
    by (auto simp: dl_holds_def)
  have "length (blocks bs) + length item + 2000 < 2 ^ 64"
    using blocks_bound [OF bs(2)] assms(3) by (simp add: items_bound_def)
  from dlist_grow_ok [OF bs(1) assms(2) this] obtain d b where
    d: "dlist_grow a (length item) True junk = Some (Some d)" "length item \<le> length b" "length b \<le> length item + 7"
      "dl_rep (Some d) (bs @ [b])" by blast
  from d(4) obtain rest where r: "dl_data d = blocks bs @ le_bytes 8 0 @ b @ rest" "dl_last d = length (blocks bs)"
    "dl_lastsz d = 8 + length b" "length (dl_data d) = chunk (length (blocks (bs @ [b])))"
    by (auto simp: dl_rep_def)
  let ?b = "item @ drop (length item) b"
  let ?d = "d\<lparr>dl_data := blocks bs @ le_bytes 8 0 @ ?b @ rest\<rparr>"
  have "memcpy_at (dl_data d) (dl_last d + 8) item (length item) = Some (blocks bs @ le_bytes 8 0 @ ?b @ rest)"
    using r d(2) by (simp add: memcpy_at_def)
  then have "dlist_append a item True junk = Some (Some ?d)" using d(1) by (simp add: dlist_append_def)
  moreover have "length (blocks (bs @ [?b])) = length (blocks (bs @ [b]))" using d(2) by (simp add: blocks_snoc)
  then have "dl_rep (Some ?d) (bs @ [?b])"
    using r d(2) unfolding dl_rep_def option.case
    by - (rule exI [of _ bs], rule exI [of _ ?b], rule exI [of _ rest], simp)
  moreover have "list_all2 (\<lambda>b i. length i \<le> length b \<and> length b \<le> length i + 7 \<and> take (length i) b = i) (bs @ [?b]) (items @ [item])"
    using bs(2) d(2,3) by (intro list_all2_appendI) simp_all
  ultimately show ?thesis unfolding dl_holds_def by blast
qed

fun dlist_build :: "dlist option \<Rightarrow> byte list list \<Rightarrow> (nat \<Rightarrow> byte list) \<Rightarrow> dlist option option" where
  "dlist_build a [] junk = Some a"
| "dlist_build a (i # is) junk = do { a \<leftarrow> dlist_append a i True junk; dlist_build a is junk }"

lemma dlist_build_ok:
  assumes "dl_holds a items" "\<forall>n. length (junk n) = n" "items_bound (items @ is) + 2000 < 2 ^ 64"
  shows "\<exists>r. dlist_build a is junk = Some r \<and> dl_holds r (items @ is)"
  using assms(1,3)
proof (induction "is" arbitrary: a items)
  case Nil
  then show ?case by simp
next
  case (Cons i "is")
  have "items_bound (items @ [i]) + 2000 < 2 ^ 64" using Cons.prems(2) by (simp add: items_bound_def)
  from dlist_append_ok [OF Cons.prems(1) assms(2) this] obtain d where
    d: "dlist_append a i True junk = Some (Some d)" "dl_holds (Some d) (items @ [i])" by blast
  from Cons.IH [OF d(2)] Cons.prems(2) d(1) show ?case by simp
qed

text \<open>Reading from the start of block \<open>pre\<close> on.\<close>

lemma dlist_read_blocks:
  assumes "dl_data d = blocks pre @ blocks bs' @ le_bytes 8 0 @ b @ rest" "length (dl_data d) < 2 ^ 63"
    and "list_all2 (\<lambda>b i. length i \<le> length b \<and> take (length i) b = i) (bs' @ [b]) items"
  shows "dlist_read d (Some (length (blocks pre) + 8)) (map length items) = Some items"
  using assms(1,3)
proof (induction bs' arbitrary: pre items)
  case Nil
  then obtain i where i: "items = [i]" "length i \<le> length b" "take (length i) b = i"
    by (auto simp: list_all2_Cons1)
  have "get_size (dl_data d) (length (blocks pre)) = Some 0"
    using get_size_at [of 0 "blocks pre" "b @ rest"] Nil(1) by (simp add: blocks_def)
  then show ?case using i Nil(1) by (simp add: dlist_next_def blocks_def)
next
  case (Cons c bs')
  then obtain i items' where i: "items = i # items'" "length i \<le> length c" "take (length i) c = i"
    "list_all2 (\<lambda>b i. length i \<le> length b \<and> take (length i) b = i) (bs' @ [b]) items'"
    by (auto simp: list_all2_Cons1)
  let ?tail = "blocks bs' @ le_bytes 8 0 @ b @ rest"
  have data: "dl_data d = blocks pre @ le_bytes 8 (8 + length c) @ c @ ?tail"
    using Cons.prems(1) by (simp add: blocks_def)
  have "length c < 2 ^ 63" using assms(2) unfolding data by simp
  then have "get_size (dl_data d) (length (blocks pre)) = Some (8 + length c)"
    unfolding data by (intro get_size_at) simp
  then have nx: "dlist_next d (length (blocks pre) + 8) = Some (Some (length (blocks (pre @ [c])) + 8))"
    by (simp add: dlist_next_def blocks_snoc)
  have "dl_data d = blocks (pre @ [c]) @ blocks bs' @ le_bytes 8 0 @ b @ rest" using data by (simp add: blocks_snoc)
  from Cons.IH [OF this i(4)] have rec: "dlist_read d (Some (length (blocks (pre @ [c])) + 8)) (map length items') = Some items'" .
  have "take (length i) (drop (length (blocks pre) + 8) (dl_data d)) = i"
    using i(2,3) unfolding data by simp
  moreover have "length (blocks pre) + 8 + length i \<le> length (dl_data d)" using i(2) unfolding data by simp
  ultimately show ?case using nx rec i(1) by simp
qed

text \<open>
  C32: a \<^verbatim>\<open>dlist\<close> implements a sequence: after any number of items of any sizes were appended
  to the empty list, walking it with \<^verbatim>\<open>dlist_first\<close> and \<^verbatim>\<open>dlist_next\<close> returns references to the
  items in the order of insertion with their contents intact, whatever reallocated memory held
  before, and then stops; no access leaves the block.
\<close>

theorem dlist_build_read:
  assumes "\<forall>n. length (junk n) = n" and "items_bound items < 2 ^ 62"
  shows "\<exists>r. dlist_build None items junk = Some r \<and>
    (case r of None \<Rightarrow> items = [] | Some d \<Rightarrow> dlist_read d (dlist_first r) (map length items) = Some items)"
proof -
  have "dl_holds None []" by (simp add: dl_holds_def dl_rep_def)
  from dlist_build_ok [OF this assms(1), of items] assms(2) obtain r where
    r: "dlist_build None items junk = Some r" "dl_holds r items" by auto
  show ?thesis
  proof (cases r)
    case None
    with r show ?thesis by (auto simp: dl_holds_def dl_rep_def)
  next
    case (Some d)
    from r(2) Some obtain bs' b rest where rep: "dl_data d = blocks bs' @ le_bytes 8 0 @ b @ rest"
      "length (dl_data d) = chunk (length (blocks (bs' @ [b])))"
      and all: "list_all2 (\<lambda>b i. length i \<le> length b \<and> length b \<le> length i + 7 \<and> take (length i) b = i) (bs' @ [b]) items"
      by (auto simp: dl_holds_def dl_rep_def)
    have "length (blocks (bs' @ [b])) < 2 ^ 62" using blocks_bound [OF all] assms(2) by simp
    then have "length (dl_data d) < 2 ^ 63" unfolding rep(2) by (subst chunk_eq) simp_all
    from dlist_read_blocks [of d "[]" bs' b rest, OF _ this list_all2_mono [OF all]] rep(1)
    have "dlist_read d (Some 8) (map length items) = Some items" by (simp add: blocks_def)
    with r(1) Some show ?thesis by (simp add: dlist_first_def)
  qed
qed

theorem dlist_build_read_witness:
  "\<exists>d. dlist_build None [[1, 2, 3], [], [4]] (\<lambda>n. replicate n 7) = Some (Some d) \<and>
    dlist_read d (Some 8) [3, 0, 1] = Some [[1, 2, 3], [], [4]]"
proof -
  have "\<forall>n. length (replicate n (7 :: byte)) = n" "items_bound [[1, 2, 3], [], [4]] < 2 ^ 62"
    by (simp_all add: items_bound_def)
  from dlist_build_read [OF this] obtain r where "dlist_build None [[1, 2, 3], [], [4]] (\<lambda>n. replicate n 7) = Some r"
    "case r of None \<Rightarrow> [[1, 2, 3], [], [4 :: byte]] = [] | Some d \<Rightarrow> dlist_read d (dlist_first r) (map length [[1, 2, 3], [], [4 :: byte]]) = Some [[1, 2, 3], [], [4]]"
    by blast
  then show ?thesis
    by (cases r) (simp_all add: dlist_first_def eval_nat_numeral del: dlist_build.simps dlist_read.simps)
qed

subsection \<open>Linked lists\<close>

text \<open>
  The nodes are cells of a heap: the next pointer, or \<^term>\<open>None\<close> for an address that is not
  allocated. \<open>fresh\<close> is the address \<^verbatim>\<open>malloc\<close> returns, \<^term>\<open>None\<close> without memory.
\<close>

type_synonym heap = "nat \<Rightarrow> nat option option"

record llist =
  ll_first :: "nat option"
  ll_last :: "nat option"

definition llist_init :: llist where
  "llist_init = \<lparr>ll_first = None, ll_last = None\<rparr>"

definition llist_isempty :: "llist \<Rightarrow> bool" where
  "llist_isempty a \<longleftrightarrow> ll_first a = None"

text \<open>\<^verbatim>\<open>free\<close> of an address that is not allocated is undefined; the walk needs \<open>n\<close> steps.\<close>

fun llist_free_loop :: "nat \<Rightarrow> nat option \<Rightarrow> heap \<Rightarrow> heap option" where
  "llist_free_loop n None h = Some h"
| "llist_free_loop 0 (Some p) h = None"
| "llist_free_loop (Suc n) (Some p) h = do {
     nxt \<leftarrow> h p;
     llist_free_loop n nxt (h(p := None)) }"

definition llist_free :: "nat \<Rightarrow> llist \<Rightarrow> heap \<Rightarrow> (llist \<times> heap) option" where
  "llist_free n a h = do {
     h \<leftarrow> llist_free_loop n (ll_first a) h;
     Some (\<lparr>ll_first = None, ll_last = None\<rparr>, h) }"

definition llist_grow :: "nat \<Rightarrow> llist \<Rightarrow> nat option \<Rightarrow> heap \<Rightarrow> (bool \<times> llist \<times> heap) option" where
  "llist_grow n a fresh h = (case fresh of
     None \<Rightarrow> do { (a, h) \<leftarrow> llist_free n a h; Some (False, a, h) }
   | Some new \<Rightarrow> do {
       let h = h(new := Some None);
       (a, h) \<leftarrow> (case ll_first a of
           None \<Rightarrow> Some (a\<lparr>ll_first := Some new\<rparr>, h)
         | Some _ \<Rightarrow> do {
             l \<leftarrow> ll_last a;
             _ \<leftarrow> h l;
             Some (a, h(l := Some (Some new))) });
       Some (True, a\<lparr>ll_last := Some new\<rparr>, h) })"

definition llist_first :: "llist \<Rightarrow> nat option" where "llist_first a = ll_first a"

definition llist_next :: "nat \<Rightarrow> heap \<Rightarrow> nat option option" where "llist_next ref h = h ref"

definition llist_last :: "llist \<Rightarrow> nat option" where "llist_last a = ll_last a"

text \<open>The nodes of a list in order.\<close>

fun path :: "heap \<Rightarrow> nat option \<Rightarrow> nat list \<Rightarrow> bool" where
  "path h p [] \<longleftrightarrow> p = None"
| "path h p (x # xs) \<longleftrightarrow> p = Some x \<and> (\<exists>q. h x = Some q \<and> path h q xs)"

definition ll_rep :: "llist \<Rightarrow> heap \<Rightarrow> nat list \<Rightarrow> bool" where
  "ll_rep a h xs \<longleftrightarrow> distinct xs \<and> path h (ll_first a) xs \<and> (xs \<noteq> [] \<longrightarrow> ll_last a = Some (last xs))"

lemma path_cong: "(\<And>x. x \<in> set xs \<Longrightarrow> h x = h' x) \<Longrightarrow> path h p xs = path h' p xs"
  by (induction xs arbitrary: p) auto

lemma path_snoc:
  "path h p (xs @ [x]) \<Longrightarrow> distinct (xs @ [x, y]) \<Longrightarrow> h' x = Some (Some y) \<Longrightarrow> h' y = Some None \<Longrightarrow>
   (\<And>z. z \<in> set xs \<Longrightarrow> h' z = h z) \<Longrightarrow> path h' p (xs @ [x, y])"
  by (induction xs arbitrary: p) auto

lemma llist_free_loop_ok:
  "path h p xs \<Longrightarrow> distinct xs \<Longrightarrow> length xs \<le> n \<Longrightarrow>
   llist_free_loop n p h = Some (\<lambda>x. if x \<in> set xs then None else h x)"
proof (induction xs arbitrary: n p h)
  case (Cons x xs)
  then obtain m q where n: "n = Suc m" and q: "p = Some x" "h x = Some q" "path h q xs" by (cases n) auto
  have "path (h(x := None)) q xs" using q(3) Cons.prems(2) by (subst path_cong [of xs _ h]) auto
  from Cons.IH [OF this, of m] Cons.prems n
  have "llist_free_loop m q (h(x := None)) = Some (\<lambda>y. if y \<in> set xs then None else (h(x := None)) y)" by (simp del: fun_upd_apply)
  moreover have "(\<lambda>y. if y \<in> set xs then None else (h(x := None)) y) = (\<lambda>y. if y \<in> set (x # xs) then None else h y)"
    by (auto simp: fun_eq_iff)
  ultimately show ?case using n q by simp
qed simp

text \<open>
  C33: \<^verbatim>\<open>llist_grow\<close> appends exactly the new node to a linked list, keeping the older nodes, their
  order and the cells outside the list; when memory is short it frees every node of the list once,
  leaving an empty list and the other cells as they were. In particular no freed node is read.
\<close>

theorem llist_grow_correct:
  assumes "ll_rep a h xs" and "new \<notin> set xs" and "length xs \<le> n"
  shows "\<exists>a' h'. llist_grow n a (Some new) h = Some (True, a', h') \<and> ll_rep a' h' (xs @ [new]) \<and>
      llist_last a' = Some new \<and> (\<forall>x. x \<notin> set (xs @ [new]) \<longrightarrow> h' x = h x) \<and>
    llist_grow n a None h = Some (False, llist_init, \<lambda>x. if x \<in> set xs then None else h x)"
proof -
  have "llist_free_loop n (ll_first a) h = Some (\<lambda>x. if x \<in> set xs then None else h x)"
    using assms by (intro llist_free_loop_ok) (simp_all add: ll_rep_def)
  then have free: "llist_grow n a None h = Some (False, llist_init, \<lambda>x. if x \<in> set xs then None else h x)"
    by (simp add: llist_grow_def llist_free_def llist_init_def)
  show ?thesis
  proof (cases xs rule: rev_cases)
    case Nil
    let ?a = "a\<lparr>ll_first := Some new, ll_last := Some new\<rparr>" and ?h = "h(new := Some None)"
    have "llist_grow n a (Some new) h = Some (True, ?a, ?h)"
      using assms(1) Nil by (simp add: llist_grow_def ll_rep_def)
    moreover have "ll_rep ?a ?h [new]" by (simp add: ll_rep_def)
    ultimately show ?thesis using free Nil by (intro exI [of _ ?a] exI [of _ ?h]) (simp add: llist_last_def)
  next
    case (snoc ys y)
    let ?a = "a\<lparr>ll_last := Some new\<rparr>" and ?h = "h(new := Some None, y := Some (Some new))"
    have p: "path h (ll_first a) (ys @ [y])" "distinct (ys @ [y, new])" "ll_last a = Some y"
      using assms(1,2) snoc by (auto simp: ll_rep_def)
    have "path ?h (ll_first a) (ys @ [y, new])"
      using p by (intro path_snoc [OF p(1,2)]) auto
    moreover obtain f where f: "ll_first a = Some f" using p(1) by (cases ys) auto
    moreover have "h y \<noteq> None"
    proof -
      have "path h q (zs @ [y]) \<Longrightarrow> h y \<noteq> None" for q zs by (induction zs arbitrary: q) auto
      with p(1) show ?thesis by blast
    qed
    ultimately have "llist_grow n a (Some new) h = Some (True, ?a, ?h)" "ll_rep ?a ?h (xs @ [new])"
      using p snoc by (auto simp: llist_grow_def ll_rep_def)
    then show ?thesis using free snoc by (intro exI [of _ ?a] exI [of _ ?h]) (simp add: llist_last_def)
  qed
qed

theorem llist_grow_correct_witness:
  "\<exists>a h. llist_grow 1 \<lparr>ll_first = Some 4, ll_last = Some 4\<rparr> (Some 9) ((\<lambda>x. None)(4 := Some None)) = Some (True, a, h) \<and>
    llist_next 4 h = Some (Some 9) \<and> llist_next 9 h = Some None"
proof -
  let ?a = "\<lparr>ll_first = Some 4, ll_last = Some 4\<rparr>" and ?h = "(\<lambda>x. None)(4 := Some None)"
  have "ll_rep ?a ?h [4]" "9 \<notin> set [4 :: nat]" "length [4 :: nat] \<le> 1" by (simp_all add: ll_rep_def)
  from llist_grow_correct [OF this] obtain a h where "llist_grow 1 ?a (Some 9) ?h = Some (True, a, h)" "ll_rep a h ([4] @ [9])"
    by blast
  then show ?thesis by (intro exI [of _ a] exI [of _ h]) (auto simp: ll_rep_def llist_next_def)
qed

end
