(* ===== verification/Decompress.thy ===== *)
theory Decompress
  imports Names
begin

unbundle bit_operations_syntax

section \<open>Decompression of names in DNS messages (dns.c)\<close>

text \<open>
  \<^verbatim>\<open>decompress_name\<close>. A message is a byte list of \<^verbatim>\<open>msgsz\<close> bytes; pointers into it
  (\<^verbatim>\<open>*src\<close>, \<^verbatim>\<open>lptr\<close>) are offsets. The relation \<open>name_at\<close> says what a possibly
  compressed name at an offset of a message means (RFC 1035, 4.1.4); the lemmas show that
  \<^verbatim>\<open>decompress_name\<close> computes exactly that relation.
\<close>

subsection \<open>Return codes\<close>

definition RC_OK :: nat where "RC_OK = 0"
definition RC_FORMAT :: nat where "RC_FORMAT = 1"
definition RC_TRUNC :: nat where "RC_TRUNC = 0xfffe"

lemmas rc_defs = RC_OK_def RC_FORMAT_def RC_TRUNC_def

subsection \<open>Decompression\<close>

text \<open>The 14-bit offset of a compression pointer.\<close>

definition ptr_offs :: "byte \<Rightarrow> byte \<Rightarrow> nat" where
  "ptr_offs lb b = unat (push_bit 8 (ucast lb AND 0x3f) OR ucast b :: u32)"

datatype decomp =
    Done nat nat "byte list"            \<comment> \<open>remaining size, length written, target buffer\<close>
  | Jumped nat nat nat "byte list"      \<comment> \<open>new position, remaining size, length written, buffer\<close>
  | Fail nat "byte list"                \<comment> \<open>return code, buffer\<close>

text \<open>The first loop: up to the first compression pointer, counting down \<^verbatim>\<open>newsz\<close>.\<close>

function decompress_direct :: "byte list \<Rightarrow> nat \<Rightarrow> nat \<Rightarrow> byte list \<Rightarrow> nat \<Rightarrow> decomp option" where
  "decompress_direct msg lptr newsz tgt tpos = do {
     let newsz = newsz - 1;
     lb \<leftarrow> rd msg lptr;
     let lptr = lptr + 1;
     if unat lb > 0x3f
     then if unat lb < 0xc0 then Some (Fail RC_FORMAT tgt)
          else if newsz = 0 then Some (Fail RC_TRUNC tgt)
          else if lptr \<ge> length msg then Some (Fail RC_FORMAT tgt)
          else do {
            let newsz = newsz - 1;
            b \<leftarrow> rd msg lptr;
            let offs = ptr_offs lb b;
            if offs \<ge> length msg then Some (Fail RC_FORMAT tgt)
            else Some (Jumped offs newsz tpos tgt) }
     else do {
       tgt \<leftarrow> wr tgt tpos lb;
       let tpos = tpos + 1;
       if lb = 0 then Some (Done newsz tpos tgt)
       else if newsz \<le> unat lb then Some (Fail RC_TRUNC tgt)
       else if lptr + unat lb \<ge> length msg then Some (Fail RC_FORMAT tgt)
       else if tpos + unat lb > DNSNAMEBUFSIZE - 1 then Some (Fail RC_FORMAT tgt)
       else do {
         tgt \<leftarrow> memcpy_at tgt tpos (drop lptr msg) (unat lb);
         decompress_direct msg (lptr + unat lb) (newsz - unat lb) tgt (tpos + unat lb) } } }"
  by pat_completeness auto
termination
  by (relation "measure (\<lambda>(msg, lptr, newsz, tgt, tpos). length msg - lptr)") (auto dest: rd_SomeD)

declare decompress_direct.simps [simp del]

text \<open>
  The inner loop of the second part: follow pointers until a label or the end; at most 255
  hops in all. \<^term>\<open>None\<close> in the inner option is a format error.
\<close>

function follow_ptrs :: "byte list \<Rightarrow> nat \<Rightarrow> nat \<Rightarrow> (nat \<times> byte \<times> nat) option option" where
  "follow_ptrs msg lptr hops = do {
     lb \<leftarrow> rd msg lptr;
     let lptr = lptr + 1;
     if unat lb > 0x3f
     then if unat lb < 0xc0 then Some None
          else if lptr \<ge> length msg then Some None
          else if hops + 1 > 255 then Some None
          else do {
            b \<leftarrow> rd msg lptr;
            let offs = ptr_offs lb b;
            if offs \<ge> length msg then Some None else follow_ptrs msg offs (hops + 1) }
     else Some (Some (lptr, lb, hops)) }"
  by pat_completeness auto
termination
  by (relation "measure (\<lambda>(msg, lptr, hops). 255 - hops)") auto

declare follow_ptrs.simps [simp del]

function decompress_jumped :: "byte list \<Rightarrow> nat \<Rightarrow> nat \<Rightarrow> byte list \<Rightarrow> nat \<Rightarrow> nat \<Rightarrow> decomp option" where
  "decompress_jumped msg lptr hops tgt tpos newsz = do {
     r \<leftarrow> follow_ptrs msg lptr hops;
     (case r of
        None \<Rightarrow> Some (Fail RC_FORMAT tgt)
      | Some (lptr, lb, hops) \<Rightarrow> do {
          tgt \<leftarrow> wr tgt tpos lb;
          let tpos = tpos + 1;
          if lb = 0 then Some (Done newsz tpos tgt)
          else if lptr + unat lb \<ge> length msg then Some (Fail RC_FORMAT tgt)
          else if tpos + unat lb > DNSNAMEBUFSIZE - 1 then Some (Fail RC_FORMAT tgt)
          else do {
            tgt \<leftarrow> memcpy_at tgt tpos (drop lptr msg) (unat lb);
            decompress_jumped msg (lptr + unat lb) hops tgt (tpos + unat lb) newsz } }) }"
  by pat_completeness auto
termination
  by (relation "measure (\<lambda>(msg, lptr, hops, tgt, tpos, newsz). length tgt - tpos)")
    (auto dest!: memcpy_at_length simp: wr_def split: if_splits)

declare decompress_jumped.simps [simp del]

text \<open>
  The result: return code, new \<^verbatim>\<open>*src\<close>, new \<^verbatim>\<open>*sz\<close>, target buffer and \<^verbatim>\<open>*len\<close>
  (\<^term>\<open>None\<close>: left as it was).
\<close>

definition decompress_name ::
  "byte list \<Rightarrow> nat \<Rightarrow> nat \<Rightarrow> byte list \<Rightarrow> (nat \<times> nat \<times> nat \<times> byte list \<times> nat option) option" where
  "decompress_name msg src sz tgt =
     (if sz = 0 then Some (RC_TRUNC, src, sz, tgt, None)
      else if src \<ge> length msg then Some (RC_FORMAT, src, sz, tgt, None)
      else do {
        r \<leftarrow> decompress_direct msg src sz tgt 0;
        r \<leftarrow> (case r of
               Jumped lptr newsz tpos tgt \<Rightarrow> decompress_jumped msg lptr 1 tgt tpos newsz
             | _ \<Rightarrow> Some r);
        (case r of
           Done newsz tpos tgt \<Rightarrow> Some (RC_OK, src + (sz - newsz), newsz, tgt, Some tpos)
         | Fail rc tgt \<Rightarrow> Some (rc, src, sz, tgt, None)
         | Jumped _ _ _ _ \<Rightarrow> None) })"

subsection \<open>The meaning of a compressed name\<close>

text \<open>
  \<open>name_at msg off n h ls\<close>: at offset \<open>off\<close> of the message stands the name \<open>ls\<close>; it takes
  \<open>n\<close> bytes there and needs \<open>h\<close> compression pointers.
\<close>

inductive name_at :: "byte list \<Rightarrow> nat \<Rightarrow> nat \<Rightarrow> nat \<Rightarrow> label list \<Rightarrow> bool" for msg where
  name_end: "rd msg off = Some 0 \<Longrightarrow> name_at msg off 1 0 []"
| name_label: "drop off msg = of_nat (length l) # l @ rest \<Longrightarrow> wf_label l \<Longrightarrow>
    name_at msg (off + 1 + length l) n h ls \<Longrightarrow> name_at msg off (1 + length l + n) h (l # ls)"
| name_ptr: "rd msg off = Some lb \<Longrightarrow> 0xc0 \<le> unat lb \<Longrightarrow> rd msg (off + 1) = Some b \<Longrightarrow>
    name_at msg (ptr_offs lb b) n h ls \<Longrightarrow> name_at msg off 2 (Suc h) ls"

lemma name_at_less: "name_at msg off n h ls \<Longrightarrow> off < length msg"
  by (induction rule: name_at.induct) (auto dest: rd_SomeD drop_ConsD)

lemma name_at_extent: "name_at msg off n h ls \<Longrightarrow> 0 < n \<and> off + n \<le> length msg"
  by (induction rule: name_at.induct) (auto dest: rd_SomeD)

lemma rd_append: "rd msg i = Some x \<Longrightarrow> rd (msg @ ys) i = Some x"
  by (auto simp: rd_def nth_append split: if_splits)

lemma name_at_append: "name_at msg off n h ls \<Longrightarrow> name_at (msg @ ys) off n h ls"
proof (induction rule: name_at.induct)
  case (name_label off l rest n h ls)
  then have "drop off (msg @ ys) = of_nat (length l) # l @ rest @ ys"
    using drop_ConsD(3) [OF name_label.hyps(1)] by simp
  from name_at.name_label [OF this name_label.hyps(2) name_label.IH] show ?case .
next
  case (name_end off)
  show ?case by (rule name_at.name_end) (rule rd_append, fact)
next
  case (name_ptr off lb b n h ls)
  show ?case
    by (rule name_at.name_ptr [of _ _ lb b n]) (use name_ptr in \<open>auto intro: rd_append\<close>)
qed

lemma name_at_wf: "name_at msg off n h ls \<Longrightarrow> list_all wf_label ls"
  by (induction rule: name_at.induct) auto

subsection \<open>decompress_name computes the relation\<close>

text \<open>Facts about one label copied into the target buffer.\<close>

definition written :: "byte list \<Rightarrow> nat \<Rightarrow> label list \<Rightarrow> bool" where
  "written tgt tpos don \<longleftrightarrow> length tgt = DNSNAMEBUFSIZE \<and> tpos = length (wire_body don) \<and>
     tpos < DNSNAMEBUFSIZE \<and> take tpos tgt = wire_body don"

lemma written_end:
  assumes "written tgt tpos don"
  shows "\<exists>tgt'. wr tgt tpos 0 = Some tgt' \<and> length tgt' = DNSNAMEBUFSIZE \<and>
    take (length (wire don)) tgt' = wire don \<and> length (wire don) \<le> DNSNAMEBUFSIZE \<and> tpos + 1 = length (wire don)"
  using assms by (auto simp: written_def wr_def length_wire take_update_Suc wire_def)

lemma written_label:
  assumes "written tgt tpos don" and "drop lptr msg = l @ rest" "wf_label l"
    and "tpos + 1 + length l \<le> DNSNAMEBUFSIZE - 1"
  shows "\<exists>tgt1 tgt2. wr tgt tpos (of_nat (length l)) = Some tgt1 \<and>
    memcpy_at tgt1 (tpos + 1) (drop lptr msg) (length l) = Some tgt2 \<and> written tgt2 (tpos + 1 + length l) (don @ [l])"
proof -
  let ?t1 = "tgt[tpos := of_nat (length l)]"
  let ?t2 = "take (tpos + 1) ?t1 @ l @ drop (tpos + 1 + length l) ?t1"
  have 1: "wr tgt tpos (of_nat (length l)) = Some ?t1"
    using assms(1) by (simp add: written_def wr_def)
  have 2: "memcpy_at ?t1 (tpos + 1) (drop lptr msg) (length l) = Some ?t2"
    using assms by (simp add: written_def memcpy_at_def DNSNAMEBUFSIZE_def)
  have "take (tpos + 1) ?t1 = wire_body don @ [of_nat (length l)]"
    using assms(1) by (auto simp: written_def take_update_Suc)
  then have "written ?t2 (tpos + 1 + length l) (don @ [l])"
    using assms by (simp add: written_def DNSNAMEBUFSIZE_def)
  with 1 2 show ?thesis by blast
qed

text \<open>One label of a message, read off the length byte.\<close>

lemma label_at:
  assumes "rd msg off = Some lb" "lb \<noteq> 0" "unat lb \<le> 63" "off + 1 + unat lb < length msg"
  obtains l rest where "drop off msg = of_nat (length l) # l @ rest" "wf_label l" "length l = unat lb"
    "lb = of_nat (length l)" "drop (off + 1) msg = l @ rest"
proof -
  let ?l = "take (unat lb) (drop (Suc off) msg)"
  have off: "off < length msg" "msg ! off = lb" using assms(1) by (auto dest: rd_SomeD)
  have len: "length ?l = unat lb" using assms(4) by simp
  have d: "drop off msg = lb # drop (Suc off) msg" using off by (metis Cons_nth_drop_Suc)
  have "unat lb \<noteq> 0" using assms(2) unat_eq_0_byte by blast
  then have "wf_label ?l" using assms(3) len unfolding wf_label_def by force
  moreover have "lb = of_nat (length ?l)" using len by simp
  moreover have "drop (Suc off) msg = ?l @ drop (unat lb) (drop (Suc off) msg)"
    by (metis append_take_drop_id)
  ultimately show ?thesis using that [of ?l] d len by (metis add.commute plus_1_eq_Suc)
qed

definition direct_post :: "byte list \<Rightarrow> nat \<Rightarrow> nat \<Rightarrow> label list \<Rightarrow> decomp option \<Rightarrow> bool" where
  "direct_post msg off newsz don res \<longleftrightarrow> (case res of
     None \<Rightarrow> False
   | Some (Done newsz' tpos tgt) \<Rightarrow> (\<exists>ls n. name_at msg off n 0 ls \<and> n \<le> newsz \<and> newsz' = newsz - n \<and>
       tpos = length (wire (don @ ls)) \<and> tpos \<le> DNSNAMEBUFSIZE \<and> take tpos tgt = wire (don @ ls) \<and>
       length tgt = DNSNAMEBUFSIZE)
   | Some (Jumped p newsz' tpos tgt) \<Rightarrow> (\<exists>ls n. n \<le> newsz \<and> newsz' = newsz - n \<and> p < length msg \<and>
       written tgt tpos (don @ ls) \<and> (\<forall>m h ms. name_at msg p m h ms \<longrightarrow> name_at msg off n (Suc h) (ls @ ms)))
   | Some (Fail rc tgt) \<Rightarrow> (rc = RC_FORMAT \<or> rc = RC_TRUNC) \<and> length tgt = DNSNAMEBUFSIZE)"

lemma direct_post_label:
  assumes "direct_post msg (off + 1 + length l) (newsz - (1 + length l)) (don @ [l]) res"
    and "drop off msg = of_nat (length l) # l @ rest" "wf_label l" "1 + length l \<le> newsz"
  shows "direct_post msg off newsz don res"
proof (cases res)
  case (Some r)
  show ?thesis
  proof (cases r)
    case (Done newsz' tpos tgt)
    with assms(1) Some obtain ls n where
      "name_at msg (off + 1 + length l) n 0 ls" "n \<le> newsz - (1 + length l)"
      "newsz' = newsz - (1 + length l) - n" "tpos = length (wire (don @ l # ls))"
      "tpos \<le> DNSNAMEBUFSIZE" "take tpos tgt = wire (don @ l # ls)" "length tgt = DNSNAMEBUFSIZE"
      by (auto simp: direct_post_def)
    with Some Done assms name_label [OF assms(2,3)] show ?thesis
      unfolding direct_post_def
      by (auto intro!: exI [of _ "l # ls"] exI [of _ "1 + length l + n"])
  next
    case (Jumped p newsz' tpos tgt)
    with assms(1) Some obtain ls n where
      "n \<le> newsz - (1 + length l)" "newsz' = newsz - (1 + length l) - n" "p < length msg"
      "written tgt tpos (don @ l # ls)"
      "\<forall>m h ms. name_at msg p m h ms \<longrightarrow> name_at msg (off + 1 + length l) n (Suc h) (ls @ ms)"
      by (auto simp: direct_post_def)
    with Some Jumped assms name_label [OF assms(2,3)] show ?thesis
      unfolding direct_post_def
      by (auto intro!: exI [of _ "l # ls"] exI [of _ "1 + length l + n"])
  qed (use Some assms in \<open>simp add: direct_post_def\<close>)
qed (use assms in \<open>simp add: direct_post_def\<close>)

lemma decompress_direct_post:
  assumes "written tgt tpos don" and "0 < newsz" and "off < length msg"
  shows "direct_post msg off newsz don (decompress_direct msg off newsz tgt tpos)"
  using assms
proof (induction "length msg - off" arbitrary: off newsz tgt tpos don rule: less_induct)
  case less
  obtain lb where lb: "rd msg off = Some lb" using less.prems(3) by (simp add: rd_def)
  have len: "length tgt = DNSNAMEBUFSIZE" using less.prems(1) by (simp add: written_def)
  note unf = decompress_direct.simps [of msg off newsz tgt tpos]
  show ?case
  proof (cases "unat lb > 63")
    case True
    show ?thesis
    proof (cases "unat lb \<ge> 192 \<and> newsz - 1 \<noteq> 0 \<and> off + 1 < length msg")
      case ptr: True
      then obtain b where b: "rd msg (off + 1) = Some b" by (auto simp: rd_def)
      have "name_at msg off 2 (Suc h) ms" if "name_at msg (ptr_offs lb b) m h ms" for m h ms
        using name_ptr [OF lb _ b that] ptr by simp
      moreover have "decompress_direct msg off newsz tgt tpos =
          (if ptr_offs lb b \<ge> length msg then Some (Fail RC_FORMAT tgt)
           else Some (Jumped (ptr_offs lb b) (newsz - 2) tpos tgt))"
        using lb b ptr True by (subst unf) (simp add: Let_def numeral_2_eq_2)
      ultimately show ?thesis
        using len less.prems ptr by (auto simp: direct_post_def intro!: exI [of _ "[]"] exI [of _ 2])
    next
      case False
      then have "\<exists>rc. decompress_direct msg off newsz tgt tpos = Some (Fail rc tgt) \<and> (rc = RC_FORMAT \<or> rc = RC_TRUNC)"
        using lb True by (subst unf) (auto simp: Let_def)
      with len show ?thesis by (auto simp: direct_post_def)
    qed
  next
    case small: False
    show ?thesis
    proof (cases "lb = 0")
      case True
      from written_end [OF less.prems(1)] obtain tgt' where "wr tgt tpos 0 = Some tgt'"
        "length tgt' = DNSNAMEBUFSIZE" "take (length (wire don)) tgt' = wire don"
        "length (wire don) \<le> DNSNAMEBUFSIZE" "tpos + 1 = length (wire don)" by blast
      with True lb less.prems name_end [of msg off] show ?thesis
        by (subst unf) (auto simp: direct_post_def intro!: exI [of _ "[]"] exI [of _ 1])
    next
      case nz: False
      have w1: "wr tgt tpos lb = Some (tgt[tpos := lb])"
        using less.prems(1) by (simp add: written_def wr_def)
      show ?thesis
      proof (cases "newsz - 1 \<le> unat lb \<or> off + 1 + unat lb \<ge> length msg \<or> tpos + 1 + unat lb > DNSNAMEBUFSIZE - 1")
        case True
        then have "\<exists>rc. decompress_direct msg off newsz tgt tpos = Some (Fail rc (tgt[tpos := lb])) \<and>
            (rc = RC_FORMAT \<or> rc = RC_TRUNC)"
          using lb small nz w1 by (subst unf) (auto simp: Let_def)
        with len show ?thesis by (auto simp: direct_post_def)
      next
        case False
        then obtain l rest where l: "drop off msg = of_nat (length l) # l @ rest" "wf_label l"
          "length l = unat lb" "lb = of_nat (length l)" "drop (off + 1) msg = l @ rest"
          using label_at [OF lb nz] small by (metis linorder_not_le)
        from written_label [OF less.prems(1) l(5,2)] False l(3)
        obtain tgt1 tgt2 where t: "wr tgt tpos lb = Some tgt1"
          "memcpy_at tgt1 (tpos + 1) (drop (off + 1) msg) (unat lb) = Some tgt2"
          "written tgt2 (tpos + 1 + unat lb) (don @ [l])"
          using l(4) by (metis linorder_not_less not_less_iff_gr_or_eq)
        have eq: "decompress_direct msg off newsz tgt tpos =
            decompress_direct msg (off + 1 + unat lb) (newsz - 1 - unat lb) tgt2 (tpos + 1 + unat lb)"
          using lb small nz t False by (subst unf) (simp add: Let_def)
        have "direct_post msg (off + 1 + unat lb) (newsz - 1 - unat lb) (don @ [l])
            (decompress_direct msg (off + 1 + unat lb) (newsz - 1 - unat lb) tgt2 (tpos + 1 + unat lb))"
          by (rule less.hyps) (use less.prems t(3) False in auto)
        moreover have "1 + length l \<le> newsz" using False l(3) by auto
        ultimately show ?thesis
          using eq direct_post_label [OF _ l(1,2), of newsz don] l(3) by simp
      qed
    qed
  qed
qed

text \<open>The second part, from a position reached by a pointer.\<close>

lemma follow_ptrs_sound:
  assumes "off < length msg" and "follow_ptrs msg off hops = r"
  shows "r \<noteq> None \<and> (\<forall>p lb h'. r = Some (Some (p, lb, h')) \<longrightarrow>
    p = Suc (p - 1) \<and> rd msg (p - 1) = Some lb \<and> unat lb \<le> 63 \<and> hops \<le> h' \<and> (h' \<le> 255 \<or> h' = hops) \<and>
    (\<forall>n h ls. name_at msg (p - 1) n h ls \<longrightarrow> (\<exists>m. name_at msg off m (h + (h' - hops)) ls)))"
  using assms
proof (induction "255 - hops" arbitrary: off hops r rule: less_induct)
  case less
  obtain lb where lb: "rd msg off = Some lb" using less.prems(1) by (simp add: rd_def)
  note unf = follow_ptrs.simps [of msg off hops]
  show ?case
  proof (cases "unat lb > 63")
    case False
    then have "follow_ptrs msg off hops = Some (Some (off + 1, lb, hops))" using lb by (simp add: unf)
    with less.prems lb False show ?thesis by auto
  next
    case True
    show ?thesis
    proof (cases "unat lb \<ge> 192 \<and> off + 1 < length msg \<and> hops + 1 \<le> 255")
      case False
      then have "follow_ptrs msg off hops = Some None" using lb True by (auto simp: unf)
      with less.prems show ?thesis by auto
    next
      case ptr: True
      then obtain b where b: "rd msg (off + 1) = Some b" by (auto simp: rd_def)
      show ?thesis
      proof (cases "ptr_offs lb b < length msg")
        case False
        then have "follow_ptrs msg off hops = Some None" using lb b True ptr by (simp add: unf Let_def)
        with less.prems show ?thesis by auto
      next
        case inside: True
        have eq: "follow_ptrs msg off hops = follow_ptrs msg (ptr_offs lb b) (hops + 1)"
          using lb b True ptr inside by (subst unf) (simp add: Let_def)
        have step: "name_at msg off 2 (Suc h) ls" if "name_at msg (ptr_offs lb b) n h ls" for n h ls
          using name_ptr [OF lb _ b that] ptr by simp
        have IH: "r \<noteq> None \<and> (\<forall>p lb h'. r = Some (Some (p, lb, h')) \<longrightarrow>
            p = Suc (p - 1) \<and> rd msg (p - 1) = Some lb \<and> unat lb \<le> 63 \<and> hops + 1 \<le> h' \<and> (h' \<le> 255 \<or> h' = hops + 1) \<and>
            (\<forall>n h ls. name_at msg (p - 1) n h ls \<longrightarrow> (\<exists>m. name_at msg (ptr_offs lb' b) m (h + (h' - (hops + 1))) ls)))"
          if "lb' = lb" for lb'
          unfolding that by (rule less.hyps) (use ptr inside less.prems eq in auto)
        show ?thesis
        proof (intro conjI allI impI)
          show "r \<noteq> None" using IH by blast
        next
          fix p lb' h' assume r: "r = Some (Some (p, lb', h'))"
          with IH [OF refl] have h: "p = Suc (p - 1)" "rd msg (p - 1) = Some lb'" "unat lb' \<le> 63" "hops + 1 \<le> h'"
            "h' \<le> 255 \<or> h' = hops + 1" by blast+
          show "p = Suc (p - 1)" "rd msg (p - 1) = Some lb'" "unat lb' \<le> 63" by (fact h)+
          show "hops \<le> h'" using h(4) by simp
          show "h' \<le> 255 \<or> h' = hops" using h(5) ptr by auto
          fix n h ls assume "name_at msg (p - 1) n h ls"
          with IH [OF refl] r obtain m where "name_at msg (ptr_offs lb b) m (h + (h' - (hops + 1))) ls" by blast
          from step [OF this] h(4) show "\<exists>m. name_at msg off m (h + (h' - hops)) ls"
            by (metis Suc_diff_Suc Suc_eq_plus1 Suc_le_lessD add_Suc_right)
        qed
      qed
    qed
  qed
qed

definition jumped_post :: "byte list \<Rightarrow> nat \<Rightarrow> nat \<Rightarrow> nat \<Rightarrow> label list \<Rightarrow> decomp option \<Rightarrow> bool" where
  "jumped_post msg off hops newsz don res \<longleftrightarrow> (case res of
     None \<Rightarrow> False
   | Some (Done newsz' tpos tgt) \<Rightarrow> (\<exists>ls n h. name_at msg off n h ls \<and> hops + h \<le> 255 \<and> newsz' = newsz \<and>
       tpos = length (wire (don @ ls)) \<and> tpos \<le> DNSNAMEBUFSIZE \<and> take tpos tgt = wire (don @ ls) \<and>
       length tgt = DNSNAMEBUFSIZE)
   | Some (Fail rc tgt) \<Rightarrow> rc = RC_FORMAT \<and> length tgt = DNSNAMEBUFSIZE
   | Some (Jumped _ _ _ _) \<Rightarrow> False)"

lemma decompress_jumped_post:
  assumes "written tgt tpos don" and "off < length msg" and "hops \<le> 255"
  shows "jumped_post msg off hops newsz don (decompress_jumped msg off hops tgt tpos newsz)"
  using assms
proof (induction "length tgt - tpos" arbitrary: off hops tgt tpos don rule: less_induct)
  case less
  have len: "length tgt = DNSNAMEBUFSIZE" "tpos < length tgt" using less.prems(1) by (simp_all add: written_def)
  note unf = decompress_jumped.simps [of msg off hops tgt tpos newsz]
  obtain r where r: "follow_ptrs msg off hops = Some r"
    using follow_ptrs_sound [OF less.prems(2) refl, of hops] by blast
  show ?case
  proof (cases r)
    case None
    with r len show ?thesis by (simp add: unf jumped_post_def)
  next
    case (Some x)
    obtain p lb h' where x: "x = (p, lb, h')" by (cases x)
    from follow_ptrs_sound [OF less.prems(2) r] Some x
    have p: "p = Suc (p - 1)" "rd msg (p - 1) = Some lb" "unat lb \<le> 63" "hops \<le> h'" "h' \<le> 255"
      and chain: "\<And>n h ls. name_at msg (p - 1) n h ls \<Longrightarrow> \<exists>m. name_at msg off m (h + (h' - hops)) ls"
      using less.prems(3) by auto
    show ?thesis
    proof (cases "lb = 0")
      case True
      from written_end [OF less.prems(1)] obtain tgt' where w: "wr tgt tpos 0 = Some tgt'"
        "length tgt' = DNSNAMEBUFSIZE" "take (length (wire don)) tgt' = wire don"
        "length (wire don) \<le> DNSNAMEBUFSIZE" "tpos + 1 = length (wire don)" by blast
      have res: "decompress_jumped msg off hops tgt tpos newsz = Some (Done newsz (length (wire don)) tgt')"
        using r Some x True w by (simp add: unf)
      obtain m where "name_at msg off m (0 + (h' - hops)) []"
        using chain [OF name_end] p(2) True by blast
      then have "\<exists>ls n h. name_at msg off n h ls \<and> hops + h \<le> 255 \<and> wire don = wire (don @ ls)"
        using p(4,5) by (intro exI [of _ "[]"] exI [of _ m] exI [of _ "h' - hops"]) auto
      then show ?thesis
        using res w unfolding jumped_post_def by (auto, metis)
    next
      case nz: False
      have w1: "wr tgt tpos lb = Some (tgt[tpos := lb])"
        using less.prems(1) by (simp add: written_def wr_def)
      show ?thesis
      proof (cases "p + unat lb \<ge> length msg \<or> tpos + 1 + unat lb > DNSNAMEBUFSIZE - 1")
        case True
        with r Some x nz w1 len show ?thesis by (auto simp: unf jumped_post_def)
      next
        case False
        have "p - 1 + 1 + unat lb < length msg" using False p(1) by simp
        then obtain l rest where l: "drop (p - 1) msg = of_nat (length l) # l @ rest" "wf_label l"
          "length l = unat lb" "lb = of_nat (length l)" "drop (p - 1 + 1) msg = l @ rest"
          using label_at [OF p(2) nz p(3)] by metis
        have dp: "drop p msg = l @ rest" using l(5) p(1) by (metis Suc_eq_plus1)
        from written_label [OF less.prems(1) dp l(2)] False l(3)
        obtain tgt1 tgt2 where t: "wr tgt tpos lb = Some tgt1"
          "memcpy_at tgt1 (tpos + 1) (drop p msg) (unat lb) = Some tgt2"
          "written tgt2 (tpos + 1 + unat lb) (don @ [l])"
          using l(4) by (metis linorder_not_less not_less_iff_gr_or_eq)
        have eq: "decompress_jumped msg off hops tgt tpos newsz =
            decompress_jumped msg (p + unat lb) h' tgt2 (tpos + 1 + unat lb) newsz"
          using r Some x nz t False by (subst unf) (simp add: Let_def)
        have "length tgt2 = length tgt" using t(3) len by (simp add: written_def)
        then have IH: "jumped_post msg (p + unat lb) h' newsz (don @ [l])
            (decompress_jumped msg off hops tgt tpos newsz)"
          unfolding eq using len False p(5) t(3) by (intro less.hyps) auto
        have ext: "\<exists>m. name_at msg off m (h + (h' - hops)) (l # ls)" if "name_at msg (p + unat lb) n h ls" for n h ls
          using chain [OF name_label [OF l(1,2)]] that p(1) l(3) by (metis Suc_eq_plus1)
        show ?thesis
        proof (cases "decompress_jumped msg off hops tgt tpos newsz")
          case (Some d)
          show ?thesis
          proof (cases d)
            case (Done newsz' tpos' tgt')
            with IH Some obtain ls n h where "name_at msg (p + unat lb) n h ls" "h' + h \<le> 255" "newsz' = newsz"
              "tpos' = length (wire (don @ l # ls))" "tpos' \<le> DNSNAMEBUFSIZE" "take tpos' tgt' = wire (don @ l # ls)"
              "length tgt' = DNSNAMEBUFSIZE"
              by (auto simp: jumped_post_def)
            with ext [of n h ls] Done Some p(4) show ?thesis
              by (fastforce simp: jumped_post_def)
          qed (use IH Some in \<open>simp_all add: jumped_post_def\<close>)
        qed (use IH in \<open>simp add: jumped_post_def\<close>)
      qed
    qed
  qed
qed

text \<open>Conversely, every name the relation gives is found by the loops.\<close>

lemma follow_ptrs_label:
  assumes "rd msg off = Some lb" "unat lb \<le> 63"
  shows "follow_ptrs msg off hops = Some (Some (off + 1, lb, hops))"
  using assms by (subst follow_ptrs.simps) simp

lemma decompress_jumped_ptr:
  assumes "rd msg off = Some lb" "192 \<le> unat lb" "rd msg (off + 1) = Some b"
    and "ptr_offs lb b < length msg" "hops + 1 \<le> 255"
  shows "decompress_jumped msg off hops tgt tpos newsz =
    decompress_jumped msg (ptr_offs lb b) (hops + 1) tgt tpos newsz"
proof -
  have "follow_ptrs msg off hops = follow_ptrs msg (ptr_offs lb b) (hops + 1)"
    using assms by (subst follow_ptrs.simps) (auto simp: Let_def dest: rd_SomeD)
  then show ?thesis
    by (simp only: decompress_jumped.simps [of msg off] decompress_jumped.simps [of msg "ptr_offs lb b"])
qed

lemma label_byte:
  assumes "drop off msg = of_nat (length l) # l @ rest" "wf_label l"
  shows "rd msg off = Some (of_nat (length l))" "drop (off + 1) msg = l @ rest"
    "(of_nat (length l) :: byte) \<noteq> 0" "unat (of_nat (length l) :: byte) = length l" "length l \<le> 63"
  using assms drop_ConsD [OF assms(1)] wf_label_length_byte [OF assms(2)]
  by (auto simp: wf_label_def)

lemma decompress_jumped_complete:
  assumes "name_at msg off n h ls" and "written tgt tpos don" and "hops + h \<le> 255"
    and "length (wire (don @ ls)) \<le> DNSNAMEBUFSIZE"
  shows "\<exists>t. decompress_jumped msg off hops tgt tpos newsz = Some (Done newsz (length (wire (don @ ls))) t) \<and>
    take (length (wire (don @ ls))) t = wire (don @ ls) \<and> length t = DNSNAMEBUFSIZE"
  using assms
proof (induction arbitrary: tgt tpos don hops rule: name_at.induct)
  case (name_end off)
  from written_end [OF name_end.prems(1)] obtain tgt' where w: "wr tgt tpos 0 = Some tgt'"
    "length tgt' = DNSNAMEBUFSIZE" "take (length (wire don)) tgt' = wire don" "tpos + 1 = length (wire don)" by blast
  have "follow_ptrs msg off hops = Some (Some (off + 1, 0, hops))"
    by (rule follow_ptrs_label) (use name_end.hyps in simp_all)
  with w show ?case by (subst decompress_jumped.simps) simp
next
  case (name_label off l rest n h ls)
  note lb = label_byte [OF name_label.hyps(1,2)]
  have f: "follow_ptrs msg off hops = Some (Some (off + 1, of_nat (length l), hops))"
    by (rule follow_ptrs_label) (use lb in simp_all)
  have bound: "tpos + 1 + length l \<le> DNSNAMEBUFSIZE - 1"
    using name_label.prems(1,3) by (simp add: written_def length_wire)
  have inside: "off + 1 + length l < length msg"
    using name_at_less [OF name_label.hyps(3)] .
  from written_label [OF name_label.prems(1) lb(2) name_label.hyps(2) bound] obtain tgt1 tgt2 where
    t: "wr tgt tpos (of_nat (length l)) = Some tgt1"
    "memcpy_at tgt1 (tpos + 1) (drop (off + 1) msg) (length l) = Some tgt2"
    "written tgt2 (tpos + 1 + length l) (don @ [l])" by blast
  have "decompress_jumped msg off hops tgt tpos newsz =
      decompress_jumped msg (off + 1 + length l) hops tgt2 (tpos + 1 + length l) newsz"
    using f t lb inside bound by (subst decompress_jumped.simps) (simp add: Let_def)
  with name_label.IH [OF t(3) name_label.prems(2)] name_label.prems(3) show ?case by simp
next
  case (name_ptr off lb b n h ls)
  have "ptr_offs lb b < length msg" using name_at_less [OF name_ptr.hyps(4)] .
  with name_ptr.hyps name_ptr.prems(2)
  have "decompress_jumped msg off hops tgt tpos newsz =
      decompress_jumped msg (ptr_offs lb b) (hops + 1) tgt tpos newsz"
    by (intro decompress_jumped_ptr) auto
  with name_ptr.IH [OF name_ptr.prems(1), of "hops + 1"] name_ptr.prems show ?case by simp
qed

lemma decompress_direct_complete:
  assumes "name_at msg off n h ls" and "written tgt tpos don" and "n \<le> newsz" and "h \<le> 255"
    and "length (wire (don @ ls)) \<le> DNSNAMEBUFSIZE"
  shows "(\<exists>t. decompress_direct msg off newsz tgt tpos = Some (Done (newsz - n) (length (wire (don @ ls))) t) \<and>
      take (length (wire (don @ ls))) t = wire (don @ ls)) \<or>
    (\<exists>p tpos1 t1 t. decompress_direct msg off newsz tgt tpos = Some (Jumped p (newsz - n) tpos1 t1) \<and>
      decompress_jumped msg p 1 t1 tpos1 (newsz - n) = Some (Done (newsz - n) (length (wire (don @ ls))) t) \<and>
      take (length (wire (don @ ls))) t = wire (don @ ls))"
  using assms
proof (induction arbitrary: tgt tpos don newsz rule: name_at.induct)
  case (name_end off)
  from written_end [OF name_end.prems(1)] obtain tgt' where w: "wr tgt tpos 0 = Some tgt'"
    "take (length (wire don)) tgt' = wire don" "tpos + 1 = length (wire don)" by blast
  with name_end.hyps show ?case by (subst decompress_direct.simps) simp
next
  case (name_label off l rest n h ls)
  note lb = label_byte [OF name_label.hyps(1,2)]
  have bound: "tpos + 1 + length l \<le> DNSNAMEBUFSIZE - 1"
    using name_label.prems(1,4) by (simp add: written_def length_wire)
  have inside: "off + 1 + length l < length msg"
    using name_at_less [OF name_label.hyps(3)] .
  have n: "0 < n" using name_at_extent [OF name_label.hyps(3)] by simp
  from written_label [OF name_label.prems(1) lb(2) name_label.hyps(2) bound] obtain tgt1 tgt2 where
    t: "wr tgt tpos (of_nat (length l)) = Some tgt1"
    "memcpy_at tgt1 (tpos + 1) (drop (off + 1) msg) (length l) = Some tgt2"
    "written tgt2 (tpos + 1 + length l) (don @ [l])" by blast
  have "decompress_direct msg off newsz tgt tpos =
      decompress_direct msg (off + 1 + length l) (newsz - 1 - length l) tgt2 (tpos + 1 + length l)"
    using t lb inside bound name_label.prems(2) n by (subst decompress_direct.simps) (auto simp: Let_def)
  moreover have "newsz - (1 + length l + n) = newsz - 1 - length l - n" by simp
  ultimately show ?case
    using name_label.IH [OF t(3), of "newsz - 1 - length l"] name_label.prems by simp
next
  case (name_ptr off lb b n h ls)
  have inside: "ptr_offs lb b < length msg" using name_at_less [OF name_ptr.hyps(4)] .
  have "decompress_direct msg off newsz tgt tpos = Some (Jumped (ptr_offs lb b) (newsz - 2) tpos tgt)"
    using name_ptr inside by (subst decompress_direct.simps) (auto simp: Let_def numeral_2_eq_2 dest: rd_SomeD)
  moreover have "1 + h \<le> 255" using name_ptr.prems(3) by simp
  ultimately show ?case
    using decompress_jumped_complete [OF name_ptr.hyps(4) name_ptr.prems(1) _ name_ptr.prems(4), of 1] by blast
qed

lemma written_start: "length tgt = DNSNAMEBUFSIZE \<Longrightarrow> written tgt 0 []"
  by (simp add: written_def DNSNAMEBUFSIZE_def)

definition has_name :: "byte list \<Rightarrow> nat \<Rightarrow> nat \<Rightarrow> nat \<Rightarrow> label list \<Rightarrow> bool" where
  \<comment> \<open>a name of legal size stands at \<open>src\<close> within \<open>sz\<close> bytes, with at most 255 pointers\<close>
  "has_name msg src sz n ls \<longleftrightarrow> (\<exists>h. name_at msg src n h ls \<and> n \<le> sz \<and> h \<le> 255 \<and> wf_name ls)"

lemma decompress_name_complete:
  assumes "has_name msg src sz n ls" and "length tgt = DNSNAMEBUFSIZE"
  shows "\<exists>t. decompress_name msg src sz tgt =
      Some (RC_OK, src + n, sz - n, t, Some (length (wire ls))) \<and> take (length (wire ls)) t = wire ls"
proof -
  from assms(1) obtain h where h: "name_at msg src n h ls" "n \<le> sz" "h \<le> 255" "wf_name ls"
    by (auto simp: has_name_def)
  have n: "0 < n" "src < length msg" using name_at_extent [OF h(1)] name_at_less [OF h(1)] by auto
  have "length (wire ([] @ ls)) \<le> DNSNAMEBUFSIZE" using h(4) by (simp add: wf_name_def)
  from decompress_direct_complete [OF h(1) written_start [OF assms(2)] h(2,3) this] n h(2)
  show ?thesis by (auto simp: decompress_name_def)
qed

lemma decompress_name_sound:
  assumes "length tgt = DNSNAMEBUFSIZE"
  shows "\<exists>rc src' sz' t len. decompress_name msg src sz tgt = Some (rc, src', sz', t, len) \<and>
    (rc = RC_OK \<and> (\<exists>n ls. has_name msg src sz n ls \<and> src' = src + n \<and> sz' = sz - n \<and>
        len = Some (length (wire ls)) \<and> take (length (wire ls)) t = wire ls) \<or>
     (rc = RC_FORMAT \<or> rc = RC_TRUNC) \<and> src' = src \<and> sz' = sz \<and> len = None)"
proof (cases "sz = 0 \<or> src \<ge> length msg")
  case True
  then show ?thesis by (auto simp: decompress_name_def)
next
  case False
  then have post: "direct_post msg src sz [] (decompress_direct msg src sz tgt 0)"
    using decompress_direct_post [OF written_start [OF assms]] by simp
  show ?thesis
  proof (cases "decompress_direct msg src sz tgt 0")
    case (Some r)
    show ?thesis
    proof (cases r)
      case (Done newsz tpos t)
      with post Some obtain ls n where d: "name_at msg src n 0 ls" "n \<le> sz" "newsz = sz - n"
        "tpos = length (wire ls)" "tpos \<le> DNSNAMEBUFSIZE" "take tpos t = wire ls"
        by (auto simp: direct_post_def)
      then have "has_name msg src sz n ls"
        using name_at_wf [OF d(1)] unfolding has_name_def wf_name_def by blast
      with d Done Some False show ?thesis by (auto simp: decompress_name_def)
    next
      case (Jumped p newsz tpos t)
      with post Some obtain ls n where d: "n \<le> sz" "newsz = sz - n" "p < length msg" "written t tpos ls"
        "\<And>m h ms. name_at msg p m h ms \<Longrightarrow> name_at msg src n (Suc h) (ls @ ms)"
        by (auto simp: direct_post_def)
      have jp: "jumped_post msg p 1 newsz ls (decompress_jumped msg p 1 t tpos newsz)"
        by (rule decompress_jumped_post) (use d in simp_all)
      show ?thesis
      proof (cases "decompress_jumped msg p 1 t tpos newsz")
        case None
        with jp show ?thesis by (simp add: jumped_post_def)
      next
        case res: (Some r')
        show ?thesis
        proof (cases r')
          case (Done newsz' tpos' t')
          with jp res obtain ms m h where e: "name_at msg p m h ms" "1 + h \<le> 255" "newsz' = newsz"
            "tpos' = length (wire (ls @ ms))" "tpos' \<le> DNSNAMEBUFSIZE" "take tpos' t' = wire (ls @ ms)"
            by (auto simp: jumped_post_def)
          have at: "name_at msg src n (Suc h) (ls @ ms)" using d(5) [OF e(1)] .
          then have "has_name msg src sz n (ls @ ms)"
            using name_at_wf [OF at] e d(1) unfolding has_name_def wf_name_def by auto
          with d e Done res Some Jumped False show ?thesis by (auto simp: decompress_name_def)
        qed (use jp res Some Jumped False in \<open>auto simp: jumped_post_def decompress_name_def\<close>)
      qed
    next
      case (Fail rc t)
      with post Some False show ?thesis by (auto simp: direct_post_def decompress_name_def)
    qed
  qed (use post in \<open>simp add: direct_post_def\<close>)
qed

text \<open>
  C8: \<^verbatim>\<open>decompress_name\<close> never reads outside the message nor writes outside its 256-byte
  buffer, always terminates, and succeeds exactly when a well-formed (possibly compressed) name
  stands at the position; then the buffer holds its expanded form, the position and the
  remaining size are advanced by the bytes the name takes there, and \<^verbatim>\<open>*len\<close> is the length.
  On failure position and size are left as they were.
\<close>

theorem decompress_name_correct:
  assumes "length tgt = DNSNAMEBUFSIZE"
  shows "\<exists>rc src' sz' t len. decompress_name msg src sz tgt = Some (rc, src', sz', t, len) \<and>
    (rc = RC_OK \<longleftrightarrow> (\<exists>n ls. has_name msg src sz n ls)) \<and>
    (\<forall>n ls. has_name msg src sz n ls \<longrightarrow> src' = src + n \<and> sz' = sz - n \<and>
        len = Some (length (wire ls)) \<and> take (length (wire ls)) t = wire ls) \<and>
    (rc \<noteq> RC_OK \<longrightarrow> rc \<in> {RC_FORMAT, RC_TRUNC} \<and> src' = src \<and> sz' = sz \<and> len = None)"
proof -
  from decompress_name_sound [OF assms, of msg src sz] obtain rc src' sz' t len
    where s: "decompress_name msg src sz tgt = Some (rc, src', sz', t, len)"
      "rc = RC_OK \<and> (\<exists>n ls. has_name msg src sz n ls \<and> src' = src + n \<and> sz' = sz - n \<and>
        len = Some (length (wire ls)) \<and> take (length (wire ls)) t = wire ls) \<or>
       (rc = RC_FORMAT \<or> rc = RC_TRUNC) \<and> src' = src \<and> sz' = sz \<and> len = None" by blast
  have "rc = RC_OK \<and> src' = src + n \<and> sz' = sz - n \<and> len = Some (length (wire ls)) \<and>
      take (length (wire ls)) t = wire ls" if "has_name msg src sz n ls" for n ls
    using decompress_name_complete [OF that assms] s(1) by auto
  with s show ?thesis by (auto simp: rc_defs)
qed

theorem decompress_name_correct_witness:
  "\<exists>rc src' sz' t len. decompress_name [1, 97, 0, 1, 98, 192, 0] 3 4 (replicate 256 0) = Some (rc, src', sz', t, len) \<and>
    rc = RC_OK \<and> src' = 7 \<and> len = Some 5"
proof -
  let ?msg = "[1, 97, 0, 1, 98, 192, 0] :: byte list"
  have "name_at ?msg 2 1 0 []" by (rule name_end) (simp add: rd_def)
  then have "name_at ?msg 0 (1 + length [97 :: byte] + 1) 0 [[97]]"
    by (intro name_label) (simp_all add: wf_label_def numeral_2_eq_2)
  then have "name_at ?msg 5 2 (Suc 0) [[97]]"
    by (intro name_ptr [of _ _ 192 0]) (simp_all add: rd_def ptr_offs_def)
  then have "name_at ?msg 3 (1 + length [98 :: byte] + 2) (Suc 0) [[98], [97]]"
    by (intro name_label) (simp_all add: wf_label_def)
  then have "name_at ?msg 3 4 (Suc 0) [[98], [97]]" by (simp add: numeral_eq_Suc)
  then have "has_name ?msg 3 4 4 [[98], [97]]"
    by (auto simp: has_name_def wf_name_def wf_label_def DNSNAMEBUFSIZE_def intro!: exI [of _ "Suc 0"])
  moreover have "length (replicate 256 (0 :: byte)) = DNSNAMEBUFSIZE" by (simp add: DNSNAMEBUFSIZE_def)
  ultimately show ?thesis
    using decompress_name_correct [of "replicate 256 0" ?msg 3 4] by fastforce
qed

end
