(* ===== verification/Compress.thy ===== *)
theory Compress
  imports Decompress
begin

unbundle bit_operations_syntax

section \<open>Compression of names in DNS messages (dns.c)\<close>

text \<open>
  \<^verbatim>\<open>domain_match\<close> and \<^verbatim>\<open>compress_name\<close>: \<^verbatim>\<open>domain_match\<close> finds the longest common
  suffix of two names, and names written by \<^verbatim>\<open>compress_name\<close> are read back by
  \<^verbatim>\<open>decompress_name\<close>.
\<close>

subsection \<open>Comparing names from the end\<close>

text \<open>
  \<^verbatim>\<open>domain_match\<close> first collects the length bytes of a name in an array of 128 bytes
  (\<open>seg_lens\<close> also returns the index of the final zero byte), then compares labels backwards.
\<close>

function seg_lens :: "byte list \<Rightarrow> nat \<Rightarrow> nat list \<Rightarrow> (nat \<times> nat list) option" where
  "seg_lens nm i ls = do {
     lb \<leftarrow> rd nm i;
     if lb = 0 then Some (i, ls)
     else do {
       pdnsd_assert (length ls < 128);
       seg_lens nm (i + unat lb + 1) (ls @ [unat lb]) } }"
  by pat_completeness auto
termination
  by (relation "measure (\<lambda>(nm, i, ls). length nm - i)") (auto dest: rd_SomeD)

declare seg_lens.simps [simp del]

fun match_bytes :: "byte list \<Rightarrow> byte list \<Rightarrow> nat \<Rightarrow> nat \<Rightarrow> nat \<Rightarrow> (bool \<times> nat \<times> nat) option" where
  "match_bytes ms md i j 0 = Some (True, i, j)"
| "match_bytes ms md i j (Suc lb) =
     (if i = 0 \<or> j = 0 then None
      else do {
        a \<leftarrow> rd ms (i - 1);
        b \<leftarrow> rd md (j - 1);
        if tolower a \<noteq> tolower b then Some (False, i - 1, j - 1)
        else match_bytes ms md (i - 1) (j - 1) lb })"

text \<open>The loop over \<open>k\<close>; the result is \<open>k - 1\<close> and the offsets \<^verbatim>\<open>offs\<close>, \<^verbatim>\<open>offd\<close>.\<close>

function match_segs ::
  "byte list \<Rightarrow> byte list \<Rightarrow> nat list \<Rightarrow> nat list \<Rightarrow> nat \<Rightarrow> nat \<Rightarrow> nat \<Rightarrow> nat \<Rightarrow> (nat \<times> nat \<times> nat) option" where
  "match_segs ms md ls ld n k i j =
     (if k \<le> n then do {
        lb \<leftarrow> rd ls (length ls - k);
        lb' \<leftarrow> rd ld (length ld - k);
        if lb \<noteq> lb' then Some (k - 1, i, j)
        else do {
          (ok, i', j') \<leftarrow> match_bytes ms md i j lb;
          if \<not> ok then Some (k - 1, i, j)
          else if i' = 0 \<or> j' = 0 then None
          else match_segs ms md ls ld n (k + 1) (i' - 1) (j' - 1) } }
      else Some (k - 1, i, j))"
  by pat_completeness auto
termination
  by (relation "measure (\<lambda>(ms, md, ls, ld, n, k, i, j). Suc n - k)") auto

declare match_segs.simps [simp del]

text \<open>The result is the number of matching labels and the offsets of the match in both names.\<close>

definition domain_match :: "byte list \<Rightarrow> byte list \<Rightarrow> (nat \<times> nat \<times> nat) option" where
  "domain_match ms md = do {
     (i, ls) \<leftarrow> seg_lens ms 0 [];
     (j, ld) \<leftarrow> seg_lens md 0 [];
     match_segs ms md ls ld (if length ls > length ld then length ld else length ls) 1 i j }"

subsection \<open>Compression\<close>

text \<open>
  An element of the compression buffer (\<^verbatim>\<open>compel_t\<close>): the offset of a name in the message
  and the whole uncompressed name. The buffer is the sequence of its elements in the order
  of growth, the order in which \<^verbatim>\<open>dlist_first\<close> and \<^verbatim>\<open>dlist_next\<close> visit them.
\<close>

record compel =
  ci_index :: nat
  ci_s :: "byte list"

text \<open>The search for the longest match: \<^verbatim>\<open>longest\<close>, \<^verbatim>\<open>lrem\<close> and \<^verbatim>\<open>coffs\<close>.\<close>

fun best_match :: "byte list \<Rightarrow> compel list \<Rightarrow> nat \<times> nat \<times> nat \<Rightarrow> (nat \<times> nat \<times> nat) option" where
  "best_match inn [] best = Some best"
| "best_match inn (ci # cis) (longest, lrem, coffs) = do {
     (rv, rem, to) \<leftarrow> domain_match inn (ci_s ci);
     if rv > longest
     then let newoffs = ci_index ci + to
          in best_match inn cis (if newoffs \<le> 0x3fff then (rv, rem, newoffs) else (longest, lrem, coffs))
     else best_match inn cis (longest, lrem, coffs) }"

definition ptr_hi :: "nat \<Rightarrow> byte" where
  "ptr_hi coffs = ucast (0xc0 OR drop_bit 8 (of_nat coffs AND 0x3f00) :: u32)"

definition ptr_lo :: "nat \<Rightarrow> byte" where
  "ptr_lo coffs = ucast (of_nat coffs AND 0xff :: u32)"

text \<open>
  \<open>mem\<close> tells whether \<^verbatim>\<open>dlist_grow\<close> finds memory; without, the result is 0 and the buffer
  is freed. The result is the length, the output buffer and the new compression buffer.
\<close>

definition compress_name ::
  "byte list \<Rightarrow> byte list \<Rightarrow> nat \<Rightarrow> compel list \<Rightarrow> bool \<Rightarrow> (nat \<times> byte list \<times> compel list) option" where
  "compress_name inn out offs cb mem = do {
     ilen \<leftarrow> rhnlen inn;
     pdnsd_assert (ilen \<le> DNSNAMEBUFSIZE);
     (longest, lrem, coffs) \<leftarrow> best_match inn cb (0, 0, 0);
     (rl, add, out) \<leftarrow>
       (if longest > 0 then do {
          pdnsd_assert (lrem + 2 \<le> ilen);
          out \<leftarrow> memcpy_at out 0 inn lrem;
          out \<leftarrow> wr out lrem (ptr_hi coffs);
          out \<leftarrow> wr out (lrem + 1) (ptr_lo coffs);
          Some (lrem + 2, lrem \<noteq> 0, out) }
        else do {
          out \<leftarrow> memcpy_at out 0 inn ilen;
          Some (ilen, True, out) });
     if add
     then if \<not> mem then Some (0, out, [])
          else Some (rl, out, cb @ [\<lparr>ci_index = offs, ci_s = take ilen inn\<rparr>])
     else Some (rl, out, cb) }"

subsection \<open>domain_match finds the longest common suffix\<close>

text \<open>The number of labels two names have in common at the end, up to case.\<close>

fun common_prefix :: "label list \<Rightarrow> label list \<Rightarrow> nat" where
  "common_prefix (a # as) (b # bs) = (if ci_eq a b then Suc (common_prefix as bs) else 0)"
| "common_prefix as bs = 0"

definition match_count :: "label list \<Rightarrow> label list \<Rightarrow> nat" where
  "match_count as bs = common_prefix (rev as) (rev bs)"

lemma common_prefix_le: "common_prefix as bs \<le> length as" "common_prefix as bs \<le> length bs"
  by (induction as bs rule: common_prefix.induct) auto

lemma common_prefix_take: "list_all2 ci_eq (take (common_prefix as bs) as) (take (common_prefix as bs) bs)"
  by (induction as bs rule: common_prefix.induct) auto

lemma common_prefix_maximal:
  "list_all2 ci_eq (take n as) (take n bs) \<Longrightarrow> n \<le> length as \<Longrightarrow> n \<le> length bs \<Longrightarrow> n \<le> common_prefix as bs"
proof (induction as bs arbitrary: n rule: common_prefix.induct)
  case (1 a as b bs)
  then show ?case by (cases n) auto
qed auto

lemma match_count_le: "match_count as bs \<le> length as" "match_count as bs \<le> length bs"
  using common_prefix_le [of "rev as" "rev bs"] by (simp_all add: match_count_def)

lemma match_count_suffix:
  "name_eq (drop (length as - match_count as bs) as) (drop (length bs - match_count as bs) bs)"
  using common_prefix_take [of "rev as" "rev bs"]
  by (simp add: match_count_def name_eq_def take_rev list_all2_rev)

lemma match_count_maximal:
  assumes "name_eq (drop (length as - n) as) (drop (length bs - n) bs)" "n \<le> length as" "n \<le> length bs"
  shows "n \<le> match_count as bs"
  unfolding match_count_def
  by (rule common_prefix_maximal) (use assms in \<open>simp_all add: name_eq_def take_rev list_all2_rev\<close>)

lemma seg_lens_wire:
  assumes "drop i nm = wire ls @ r" "list_all wf_label ls" "length acc + length ls \<le> 128"
  shows "seg_lens nm i acc = Some (i + length (wire_body ls), acc @ map length ls)"
  using assms
proof (induction ls arbitrary: i acc)
  case Nil
  then have "rd nm i = Some 0" by (auto dest: drop_ConsD)
  then show ?case by (simp add: seg_lens.simps)
next
  case (Cons l ls)
  from Cons.prems have d: "drop i nm = of_nat (length l) # l @ (wire ls @ r)" "wf_label l" by auto
  note lb = label_byte [OF d]
  have d2: "drop (i + 1 + length l) nm = wire ls @ r" using drop_app_eq [OF lb(2)] .
  have eq: "i + length l + 1 = i + 1 + length l" by simp
  have "seg_lens nm i acc = seg_lens nm (i + 1 + length l) (acc @ [length l])"
    using lb Cons.prems(3) by (subst seg_lens.simps) (simp add: eq)
  with Cons.IH [OF d2, of "acc @ [length l]"] Cons.prems show ?case by simp
qed

lemma match_bytes_eq:
  assumes "ms = p @ a @ s" "md = q @ b @ t" "length a = lb" "length b = lb"
  shows "if ci_eq a b then match_bytes ms md (length p + lb) (length q + lb) lb = Some (True, length p, length q)
    else \<exists>i j. match_bytes ms md (length p + lb) (length q + lb) lb = Some (False, i, j)"
  using assms
proof (induction lb arbitrary: a b s t)
  case (Suc lb)
  then obtain a' x where a: "a = a' @ [x]" by (cases a rule: rev_cases) auto
  from Suc obtain b' y where b: "b = b' @ [y]" by (cases b rule: rev_cases) auto
  have ab: "a = a' @ [x]" "b = b' @ [y]" "length a' = lb" "length b' = lb" using a b Suc.prems by auto
  have rds: "rd ms (length p + lb) = Some x" "rd md (length q + lb) = Some y"
    using Suc.prems ab by (auto simp: rd_def nth_append)
  have ci: "ci_eq a b \<longleftrightarrow> ci_eq a' b' \<and> tolower x = tolower y"
    using ab by (simp add: ci_eq_append)
  show ?case
  proof (cases "tolower x = tolower y")
    case True
    with Suc.IH [of a' "x # s" b' "y # t"] Suc.prems ab rds ci show ?thesis by (auto split: if_splits)
  next
    case False
    with rds ci show ?thesis by simp
  qed
qed auto

lemma common_prefix_nth:
  "n \<le> common_prefix as bs \<Longrightarrow> n < length as \<Longrightarrow> n < length bs \<Longrightarrow>
   Suc n \<le> common_prefix as bs \<longleftrightarrow> ci_eq (as ! n) (bs ! n)"
proof (induction as bs arbitrary: n rule: common_prefix.induct)
  case (1 a as b bs)
  then show ?case by (cases n) (auto split: if_splits)
qed auto

lemma match_count_step:
  assumes "k \<le> match_count as bs" "k < length as" "k < length bs"
  shows "Suc k \<le> match_count as bs \<longleftrightarrow> ci_eq (as ! (length as - Suc k)) (bs ! (length bs - Suc k))"
  using common_prefix_nth [of k "rev as" "rev bs"] assms by (simp add: match_count_def rev_nth)

text \<open>The offset of the last \<open>m\<close> labels of a name.\<close>

definition suffix_offs :: "label list \<Rightarrow> nat \<Rightarrow> nat" where
  "suffix_offs as m = length (wire_body (take (length as - m) as))"

lemma suffix_offs_0 [simp]: "suffix_offs as 0 = length (wire_body as)"
  by (simp add: suffix_offs_def)

lemma wire_split_at:
  assumes "k < length as"
  obtains p s where "wire as @ r = p @ as ! (length as - Suc k) @ s"
    "length p = Suc (suffix_offs as (Suc k))"
    "suffix_offs as k = length p + length (as ! (length as - Suc k))"
proof -
  let ?i = "length as - Suc k"
  have i: "?i < length as" using assms by simp
  have eq: "as = take ?i as @ as ! ?i # drop (Suc ?i) as" using id_take_nth_drop [OF i] .
  have S: "Suc ?i = length as - k" using assms by simp
  have "wire as = wire_body (take ?i as) @ wire (as ! ?i # drop (Suc ?i) as)"
    by (subst eq) (simp only: wire_append)
  then have 1: "wire as @ r = (wire_body (take ?i as) @ [of_nat (length (as ! ?i))]) @ as ! ?i @ (wire (drop (Suc ?i) as) @ r)"
    by simp
  have "take (length as - k) as = take ?i as @ [as ! ?i]"
    using take_Suc_conv_app_nth [OF i] S by simp
  then have "suffix_offs as k = length (wire_body (take ?i as) @ [of_nat (length (as ! ?i))]) + length (as ! ?i)"
    by (simp add: suffix_offs_def)
  with 1 show ?thesis
    using that [of "wire_body (take ?i as) @ [of_nat (length (as ! ?i))]" "wire (drop (Suc ?i) as) @ r"]
    by (simp add: suffix_offs_def)
qed

lemma match_segs_wire:
  assumes "1 \<le> k" "k - 1 \<le> match_count as bs" "n = min (length as) (length bs)" "k - 1 \<le> n"
  shows "match_segs (wire as @ r) (wire bs @ r') (map length as) (map length bs) n k
      (suffix_offs as (k - 1)) (suffix_offs bs (k - 1)) =
    Some (match_count as bs, suffix_offs as (match_count as bs), suffix_offs bs (match_count as bs))"
  using assms
proof (induction "Suc n - k" arbitrary: k)
  case 0
  then have "k - 1 = match_count as bs" using match_count_le [of as bs] by simp
  moreover have "\<not> k \<le> n" using "0.hyps" by linarith
  ultimately show ?case by (subst match_segs.simps) simp
next
  case (Suc m)
  define c where "c = k - 1"
  have k: "k = Suc c" and kn: "k \<le> n" using Suc.hyps(2) Suc.prems(1) by (simp_all add: c_def)
  have lt: "c < length as" "c < length bs" using kn k Suc.prems(3) by simp_all
  let ?a = "as ! (length as - Suc c)" and ?b = "bs ! (length bs - Suc c)"
  have step: "Suc c \<le> match_count as bs \<longleftrightarrow> ci_eq ?a ?b"
    using match_count_step [of c as bs] Suc.prems(2) lt by (simp add: c_def)
  have mc: "match_count as bs = c" if "\<not> ci_eq ?a ?b"
    using that step Suc.prems(2) by (simp add: c_def)
  have rds: "rd (map length as) (length as - k) = Some (length ?a)" "rd (map length bs) (length bs - k) = Some (length ?b)"
    using lt k by (simp_all add: rd_def)
  show ?case
  proof (cases "length ?a = length ?b")
    case False
    then have "\<not> ci_eq ?a ?b" using ci_eq_length by blast
    with mc rds False kn k show ?thesis by (subst match_segs.simps) simp
  next
    case len: True
    obtain p s where p: "wire as @ r = p @ ?a @ s" "length p = Suc (suffix_offs as (Suc c))"
      "suffix_offs as c = length p + length ?a" using wire_split_at [OF lt(1)] by blast
    obtain q t where q: "wire bs @ r' = q @ ?b @ t" "length q = Suc (suffix_offs bs (Suc c))"
      "suffix_offs bs c = length q + length ?b" using wire_split_at [OF lt(2)] by blast
    note mb = match_bytes_eq [OF p(1) q(1) refl len [symmetric], folded p(3)]
    show ?thesis
    proof (cases "ci_eq ?a ?b")
      case False
      with mb len q(3) obtain i j where
        "match_bytes (wire as @ r) (wire bs @ r') (suffix_offs as c) (suffix_offs bs c) (length ?a) = Some (False, i, j)"
        by auto
      with mc [OF False] rds kn k len show ?thesis by (subst match_segs.simps) simp
    next
      case True
      with mb len q(3) have
        "match_bytes (wire as @ r) (wire bs @ r') (suffix_offs as c) (suffix_offs bs c) (length ?a) =
          Some (True, length p, length q)" by simp
      then have "match_segs (wire as @ r) (wire bs @ r') (map length as) (map length bs) n k (suffix_offs as c) (suffix_offs bs c) =
          match_segs (wire as @ r) (wire bs @ r') (map length as) (map length bs) n (k + 1) (suffix_offs as k) (suffix_offs bs k)"
        using rds kn k len p(2) q(2) by (subst match_segs.simps) simp
      moreover have "m = Suc n - (k + 1)" using Suc.hyps(2) by simp
      ultimately show ?thesis
        using Suc.hyps(1) [of "k + 1"] step True Suc.prems(3) kn k by simp
    qed
  qed
qed

lemma domain_match_wire:
  assumes "list_all wf_label as" "list_all wf_label bs" "length as \<le> 128" "length bs \<le> 128"
  shows "domain_match (wire as @ r) (wire bs @ r') =
    Some (match_count as bs, suffix_offs as (match_count as bs), suffix_offs bs (match_count as bs))"
proof -
  have "seg_lens (wire as @ r) 0 [] = Some (length (wire_body as), map length as)"
    "seg_lens (wire bs @ r') 0 [] = Some (length (wire_body bs), map length bs)"
    using seg_lens_wire [of 0 "wire as @ r" as r "[]"] seg_lens_wire [of 0 "wire bs @ r'" bs r' "[]"] assms
    by simp_all
  moreover have eq: "(if length as > length bs then length bs else length as) = min (length as) (length bs)"
    by (simp add: min_def)
  moreover have "match_segs (wire as @ r) (wire bs @ r') (map length as) (map length bs)
      (if length as > length bs then length bs else length as) 1 (length (wire_body as)) (length (wire_body bs)) =
    Some (match_count as bs, suffix_offs as (match_count as bs), suffix_offs bs (match_count as bs))"
    unfolding eq using match_segs_wire [of 1 as bs "min (length as) (length bs)" r r'] by simp
  ultimately show ?thesis
    by (cases "length as > length bs") (simp_all add: domain_match_def min_def)
qed

text \<open>
  C9: for any two well-formed names, \<^verbatim>\<open>domain_match\<close> (which stays inside both names and its
  128-byte arrays) returns the number of labels of their longest common suffix, compared without
  regard to case, and the offset of that suffix in each name.
\<close>

theorem domain_match_correct:
  assumes "wf_name as" and "wf_name bs"
  shows "\<exists>m. domain_match (wire as @ r) (wire bs @ r') =
      Some (m, length (wire_body (take (length as - m) as)), length (wire_body (take (length bs - m) bs))) \<and>
    m \<le> length as \<and> m \<le> length bs \<and>
    name_eq (drop (length as - m) as) (drop (length bs - m) bs) \<and>
    (\<forall>n. n \<le> length as \<longrightarrow> n \<le> length bs \<longrightarrow>
       name_eq (drop (length as - n) as) (drop (length bs - n) bs) \<longrightarrow> n \<le> m)"
proof -
  have "length as \<le> 128" "length bs \<le> 128" using wf_name_segcnt assms by (auto intro: less_imp_le)
  from domain_match_wire [OF wf_nameD [OF assms(1)] wf_nameD [OF assms(2)] this]
  show ?thesis
    using match_count_le [of as bs] match_count_suffix [of as bs] match_count_maximal [of as _ bs]
    unfolding suffix_offs_def by blast
qed

theorem domain_match_correct_witness:
  "\<exists>m rem to. domain_match (wire [[119], [65, 66], [67]] @ []) (wire [[97, 98], [99]] @ []) = Some (m, rem, to)"
proof -
  have "wf_name [[119], [65, 66], [67]]" "wf_name [[97, 98], [99]]"
    by (simp_all add: wf_name_def wf_label_def DNSNAMEBUFSIZE_def)
  from domain_match_correct [OF this, of "[]" "[]"] show ?thesis by blast
qed

subsection \<open>Compression is undone by decompression\<close>

lemma ptr_offs_eq: "ptr_offs lb b = (unat lb mod 64) * 256 + unat b"
  unfolding ptr_offs_def or_byte by (simp add: unat_ucast_byte)

lemma unat_ptr_lo: "c < 16384 \<Longrightarrow> unat (ptr_lo c) = c mod 256"
  by (simp add: ptr_lo_def unat_ucast_to_byte and_255_mod unat_of_nat)

lemma unat_ptr_hi: "c < 16384 \<Longrightarrow> unat (ptr_hi c) = 192 + c div 256"
  unfolding ptr_hi_def unat_ucast_to_byte or_c0 by (simp add: unat_of_nat less_mult_imp_div_less)

lemma ptr_offs_ptr:
  assumes "c \<le> 0x3fff"
  shows "ptr_offs (ptr_hi c) (ptr_lo c) = c" "192 \<le> unat (ptr_hi c)"
proof -
  have c: "c < 16384" using assms by simp
  then have "c div 256 < 64" by (simp add: less_mult_imp_div_less)
  then have "(192 + c div 256) mod 64 = c div 256"
    by (subst mod_add_left_eq [symmetric]) simp
  then show "ptr_offs (ptr_hi c) (ptr_lo c) = c"
    unfolding ptr_offs_eq unat_ptr_lo [OF c] unat_ptr_hi [OF c] by (simp only: div_mult_mod_eq)
  show "192 \<le> unat (ptr_hi c)" unfolding unat_ptr_hi [OF c] by simp
qed

end
