(* ===== verification/Compress_Roundtrip.thy ===== *)
theory Compress_Roundtrip
  imports Compress
begin

section \<open>Names written with compression are read back (dns.c)\<close>

text \<open>
  The compression buffer and the message built with it are tied together by an invariant
  \<open>cb_inv\<close> on a ghost list: for each element of the buffer its offset, the labels of the name
  and the number of labels that stand literally in the message (the rest is a pointer).
  \<^verbatim>\<open>compress_name\<close> keeps the invariant, and every pointer it writes leads to a literal
  label of an older name. Hence \<^verbatim>\<open>decompress_name\<close> reads every name back.
\<close>

type_synonym ghost = "nat \<times> label list \<times> nat"

definition cb_of :: "ghost list \<Rightarrow> compel list" where
  "cb_of g = map (\<lambda>(i, as, k). \<lparr>ci_index = i, ci_s = wire as\<rparr>) g"

definition lit_offs :: "nat \<Rightarrow> label list \<Rightarrow> nat \<Rightarrow> nat" where
  "lit_offs i as m = i + length (wire_body (take m as))"

definition reads_at :: "nat \<Rightarrow> nat \<Rightarrow> byte list \<Rightarrow> nat \<Rightarrow> label list \<Rightarrow> bool" where
  \<comment> \<open>a name equal to \<open>ls\<close> up to case that takes \<open>n\<close> bytes, with at most \<open>b\<close> pointers\<close>
  "reads_at n b msg off ls \<longleftrightarrow> (\<exists>h ls'. name_at msg off n h ls' \<and> name_eq ls' ls \<and> h \<le> b)"

definition reads_as :: "nat \<Rightarrow> byte list \<Rightarrow> nat \<Rightarrow> label list \<Rightarrow> bool" where
  "reads_as b msg off ls \<longleftrightarrow> (\<exists>n. reads_at n b msg off ls)"

abbreviation readable :: "byte list \<Rightarrow> nat \<Rightarrow> label list \<Rightarrow> bool" where
  "readable msg off ls \<equiv> reads_as (length ls) msg off ls"

text \<open>
  The literal positions of a list of names: the offset and the rest of the name from there. A
  pointer reaches offsets up to \<open>0x3fff\<close>; names that start beyond play no role (they may even
  stand for text that was removed from the message again).
\<close>

definition lit :: "ghost list \<Rightarrow> nat \<Rightarrow> label list \<Rightarrow> bool" where
  "lit g off ls \<longleftrightarrow> (\<exists>i as k m. (i, as, k) \<in> set g \<and> i \<le> 0x3fff \<and> m < k \<and> off = lit_offs i as m \<and> ls = drop m as)"

definition older :: "ghost list \<Rightarrow> nat \<Rightarrow> label list \<Rightarrow> bool" where
  "older g i ls \<longleftrightarrow> (\<exists>off ls'. lit g off ls' \<and> name_eq ls' ls \<and> off < i)"

lemma lit_append: "lit (g @ g') off ls \<longleftrightarrow> lit g off ls \<or> lit g' off ls"
  unfolding lit_def set_append by blast

lemma lit_one: "lit [(i, as, k)] off ls \<longleftrightarrow> i \<le> 0x3fff \<and> (\<exists>m<k. off = lit_offs i as m \<and> ls = drop m as)"
  unfolding lit_def by auto

lemma lit_Nil [simp]: "\<not> lit [] off ls"
  by (simp add: lit_def)

fun cb_inv :: "byte list \<Rightarrow> ghost list \<Rightarrow> ghost list \<Rightarrow> bool" where
  "cb_inv msg pre [] = True"
| "cb_inv msg pre ((i, as, k) # g) =
     (wf_name as \<and> k \<le> length as \<and>
      (i \<le> 0x3fff \<longrightarrow> (\<forall>m<k. readable msg (lit_offs i as m) (drop m as)) \<and>
         (\<forall>m. k \<le> m \<longrightarrow> m < length as \<longrightarrow> older pre i (drop m as))) \<and>
      cb_inv msg (pre @ [(i, as, k)]) g)"

lemma reads_at_append: "reads_at n b msg off ls \<Longrightarrow> reads_at n b (msg @ x) off ls"
  unfolding reads_at_def using name_at_append by blast

lemma readable_append: "reads_as b msg off ls \<Longrightarrow> reads_as b (msg @ x) off ls"
  unfolding reads_as_def reads_at_def using name_at_append by blast

lemma readable_less: "reads_as b msg off ls \<Longrightarrow> off < length msg"
  unfolding reads_as_def reads_at_def using name_at_less by blast

lemma cb_inv_append_msg: "cb_inv msg pre g \<Longrightarrow> cb_inv (msg @ x) pre g"
  by (induction msg pre g rule: cb_inv.induct) (auto intro: readable_append)

lemma cb_inv_append: "cb_inv msg pre (g @ g') \<longleftrightarrow> cb_inv msg pre g \<and> cb_inv msg (pre @ g) g'"
  by (induction msg pre g rule: cb_inv.induct) auto

lemma name_eq_length: "name_eq as bs \<Longrightarrow> length as = length bs"
  by (simp add: name_eq_def list_all2_lengthD)

lemma name_eq_drop: "name_eq as bs \<Longrightarrow> name_eq (drop n as) (drop n bs)"
  by (simp add: name_eq_def list_all2_dropI)

lemma cb_inv_lit: "cb_inv msg pre g \<Longrightarrow> lit g off ls \<Longrightarrow> readable msg off ls"
proof (induction msg pre g rule: cb_inv.induct)
  case (2 msg pre i as k g)
  from 2(3) have "lit [(i, as, k)] off ls \<or> lit g off ls"
    using lit_append [of "[(i, as, k)]" g off ls] by simp
  with 2 show ?case by (auto simp: lit_one)
qed simp

lemma lit_older:
  assumes "cb_inv msg pre g" and "lit g off ls" and "m < length ls"
  shows "\<exists>off' ls'. lit (pre @ g) off' ls' \<and> name_eq ls' (drop m ls)"
  using assms
proof (induction msg pre g rule: cb_inv.induct)
  case (2 msg pre i as k g)
  show ?case
  proof (cases "lit g off ls")
    case True
    with 2 show ?thesis by simp
  next
    case False
    with 2(3) obtain j where j: "j < k" "ls = drop j as" "i \<le> 0x3fff"
      using lit_append [of "[(i, as, k)]" g off ls] by (auto simp: lit_one)
    show ?thesis
    proof (cases "m + j < k")
      case True
      then have "lit (pre @ (i, as, k) # g) (lit_offs i as (m + j)) (drop m ls)"
        unfolding lit_def using True j
        by (intro exI [of _ i] exI [of _ as] exI [of _ k] exI [of _ "m + j"]) (simp add: add.commute)
      then show ?thesis by blast
    next
      case False
      then have "k \<le> m + j" "m + j < length as" using 2(4) j by simp_all
      moreover have "\<forall>m. k \<le> m \<longrightarrow> m < length as \<longrightarrow> older pre i (drop m as)" using 2(2) j(3) by simp
      ultimately have "older pre i (drop (m + j) as)" by blast
      then have "older pre i (drop m ls)" using j(2) by (simp add: add.commute)
      then show ?thesis unfolding older_def lit_append by blast
    qed
  qed
qed simp

subsection \<open>The search finds a literal position\<close>

definition found :: "ghost list \<Rightarrow> label list \<Rightarrow> nat \<times> nat \<times> nat \<Rightarrow> bool" where
  "found g as best \<longleftrightarrow> (case best of (longest, lrem, coffs) \<Rightarrow>
     longest \<le> length as \<and>
     (0 < longest \<longrightarrow> coffs \<le> 0x3fff \<and> lrem = suffix_offs as longest \<and>
        (\<exists>ls. lit g coffs ls \<and> name_eq ls (drop (length as - longest) as))) \<and>
     (\<forall>off ls r. lit g off ls \<longrightarrow> off \<le> 0x3fff \<longrightarrow> r \<le> length as \<longrightarrow>
        name_eq ls (drop (length as - r) as) \<longrightarrow> r \<le> longest))"

lemma foundD:
  assumes "found g as (longest, lrem, coffs)"
  shows "longest \<le> length as"
    and "0 < longest \<Longrightarrow> coffs \<le> 0x3fff \<and> lrem = suffix_offs as longest \<and>
      (\<exists>ls. lit g coffs ls \<and> name_eq ls (drop (length as - longest) as))"
    and "lit g off ls \<Longrightarrow> off \<le> 0x3fff \<Longrightarrow> r \<le> length as \<Longrightarrow>
      name_eq ls (drop (length as - r) as) \<Longrightarrow> r \<le> longest"
  using assms unfolding found_def by blast+

lemma foundI:
  assumes "longest \<le> length as"
    and "0 < longest \<Longrightarrow> coffs \<le> 0x3fff \<and> lrem = suffix_offs as longest \<and>
      (\<exists>ls. lit g coffs ls \<and> name_eq ls (drop (length as - longest) as))"
    and "\<And>off ls r. lit g off ls \<Longrightarrow> off \<le> 0x3fff \<Longrightarrow> r \<le> length as \<Longrightarrow>
      name_eq ls (drop (length as - r) as) \<Longrightarrow> r \<le> longest"
  shows "found g as (longest, lrem, coffs)"
  using assms unfolding found_def by blast

lemma lit_offs_mono: "m \<le> n \<Longrightarrow> lit_offs i as m \<le> lit_offs i as n"
proof -
  assume "m \<le> n"
  then have "take n as = take m as @ take (n - m) (drop m as)"
    by (metis le_add_diff_inverse take_add)
  then show ?thesis by (simp add: lit_offs_def)
qed

lemma match_in_entry:
  assumes "name_eq (drop m bs) (drop (length as - r) as)" "r \<le> length as" "m \<le> length bs"
  shows "r \<le> match_count as bs" "length bs - m = r"
proof -
  show len: "length bs - m = r" using name_eq_length [OF assms(1)] assms(2) by simp
  then have m: "m = length bs - r" using assms(3) by simp
  have r: "r \<le> length bs" using len by linarith
  show "r \<le> match_count as bs"
    by (rule match_count_maximal) (use assms m r name_eq_sym in auto)
qed

lemma found_step:
  assumes f: "found g as (longest, lrem, coffs)" and k: "k \<le> length bs"
    and o: "i \<le> 0x3fff \<longrightarrow> (\<forall>m. k \<le> m \<longrightarrow> m < length bs \<longrightarrow> older g i (drop m bs))"
    and mc: "mc = match_count as bs"
  shows "found (g @ [(i, bs, k)]) as
    (if mc > longest then if i + suffix_offs bs mc \<le> 0x3fff then (mc, suffix_offs as mc, i + suffix_offs bs mc)
       else (longest, lrem, coffs) else (longest, lrem, coffs))"
proof -
  have le: "mc \<le> length as" "mc \<le> length bs" using match_count_le mc by auto
  let ?m = "length bs - mc"
  have offs: "i + suffix_offs bs mc = lit_offs i bs ?m" by (simp add: suffix_offs_def lit_offs_def)
  have eq: "name_eq (drop ?m bs) (drop (length as - mc) as)"
    using match_count_suffix [of as bs] mc name_eq_sym by blast
  have up: "r \<le> mc \<and> length bs - m = r" if "m < k" "r \<le> length as"
    "name_eq (drop m bs) (drop (length as - r) as)" for m r
    using match_in_entry [OF that(3,2)] that(1) k mc by simp
  have new: "r \<le> mc" if "lit [(i, bs, k)] off ls" "r \<le> length as" "name_eq ls (drop (length as - r) as)" for off ls r
    using that up unfolding lit_one by blast
  have lit: "?m < k" if "longest < mc" "i + suffix_offs bs mc \<le> 0x3fff"
  proof (rule ccontr)
    assume "\<not> ?m < k"
    then have "older g i (drop ?m bs)" using o that le by simp
    then obtain off ls where p: "lit g off ls" "name_eq ls (drop ?m bs)" "off < i"
      unfolding older_def by blast
    have "off \<le> 0x3fff" using p(3) that(2) by simp
    from foundD(3) [OF f p(1) this le(1) name_eq_trans [OF p(2) eq]] that(1) show False by simp
  qed
  have farther: "r \<le> longest" if "longest < mc" "\<not> i + suffix_offs bs mc \<le> 0x3fff" "m < k" "r \<le> length as"
    "lit_offs i bs m \<le> 0x3fff" "name_eq (drop m bs) (drop (length as - r) as)" for m r
  proof -
    have "?m \<le> m" using up [OF that(3,4,6)] k that(3) by linarith
    from lit_offs_mono [OF this, of i bs] that(2,5) offs show ?thesis by simp
  qed
  consider (better) "longest < mc" "i + suffix_offs bs mc \<le> 0x3fff"
    | (far) "longest < mc" "\<not> i + suffix_offs bs mc \<le> 0x3fff" | (worse) "\<not> longest < mc"
    by blast
  then show ?thesis
  proof cases
    case better
    have "lit (g @ [(i, bs, k)]) (i + suffix_offs bs mc) (drop ?m bs)"
      unfolding lit_append lit_one using lit [OF better] offs better(2) by auto
    with better eq le(1) have "found (g @ [(i, bs, k)]) as (mc, suffix_offs as mc, i + suffix_offs bs mc)"
      by (intro foundI) (use foundD(3) [OF f] new in \<open>unfold lit_append, force+\<close>)
    with better show ?thesis by simp
  next
    case far
    have "found (g @ [(i, bs, k)]) as (longest, lrem, coffs)"
    proof (rule foundI)
      fix off ls r
      assume "lit (g @ [(i, bs, k)]) off ls" "off \<le> 0x3fff" "r \<le> length as" "name_eq ls (drop (length as - r) as)"
      then show "r \<le> longest"
        unfolding lit_append lit_one using foundD(3) [OF f] farther [OF far] by blast
    qed (use foundD(1,2) [OF f] in \<open>unfold lit_append, blast+\<close>)
    with far show ?thesis by simp
  next
    case worse
    then have "found (g @ [(i, bs, k)]) as (longest, lrem, coffs)"
      by (intro foundI) (use foundD [OF f] new in \<open>unfold lit_append, force+\<close>)
    with worse show ?thesis by simp
  qed
qed

lemma best_match_found:
  assumes "cb_inv msg g1 g2" and "found g1 as best" and "wf_name as"
  shows "\<exists>best'. best_match (wire as @ r) (cb_of g2) best = Some best' \<and> found (g1 @ g2) as best'"
  using assms
proof (induction g2 arbitrary: g1 best)
  case Nil
  then show ?case by (simp add: cb_of_def)
next
  case (Cons e g2)
  obtain i bs k where e: "e = (i, bs, k)" by (cases e)
  obtain longest lrem coffs where b: "best = (longest, lrem, coffs)" by (cases best)
  have inv: "wf_name bs" "k \<le> length bs" "i \<le> 0x3fff \<longrightarrow> (\<forall>m. k \<le> m \<longrightarrow> m < length bs \<longrightarrow> older g1 i (drop m bs))"
    "cb_inv msg (g1 @ [(i, bs, k)]) g2" using Cons.prems(1) e by auto
  have "length as \<le> 128" "length bs \<le> 128"
    using wf_name_segcnt [OF Cons.prems(3)] wf_name_segcnt [OF inv(1)] by auto
  from domain_match_wire [OF wf_nameD [OF Cons.prems(3)] wf_nameD [OF inv(1)] this, of r "[]"]
  have dm: "domain_match (wire as @ r) (wire bs) =
      Some (match_count as bs, suffix_offs as (match_count as bs), suffix_offs bs (match_count as bs))" by simp
  have f: "found (g1 @ [(i, bs, k)]) as (longest, lrem, coffs)" if "\<not> longest < match_count as bs"
    using found_step [OF Cons.prems(2) [unfolded b] inv(2,3) refl] that by simp
  have f': "found (g1 @ [(i, bs, k)]) as (if i + suffix_offs bs (match_count as bs) \<le> 0x3fff
      then (match_count as bs, suffix_offs as (match_count as bs), i + suffix_offs bs (match_count as bs))
      else (longest, lrem, coffs))" if "longest < match_count as bs"
    using found_step [OF Cons.prems(2) [unfolded b] inv(2,3) refl] that by (simp only: if_True)
  show ?case
  proof (cases "longest < match_count as bs")
    case True
    from Cons.IH [OF inv(4) f' [OF True] Cons.prems(3)] True dm show ?thesis
      by (simp add: cb_of_def e b Let_def)
  next
    case False
    from Cons.IH [OF inv(4) f [OF False] Cons.prems(3)] False dm show ?thesis
      by (simp add: cb_of_def e b)
  qed
qed

lemma found_start: "found [] as (0, 0, 0)"
  by (simp add: found_def)

subsection \<open>compress_name keeps the invariant\<close>

lemma name_at_literal:
  assumes "drop off msg = wire_body ls @ rest" "list_all wf_label ls"
    and "name_at msg (off + length (wire_body ls)) n h ms"
  shows "name_at msg off (length (wire_body ls) + n) h (ls @ ms)"
  using assms
proof (induction ls arbitrary: off)
  case Nil
  then show ?case by auto
next
  case (Cons l ls)
  then have d: "drop off msg = of_nat (length l) # l @ (wire_body ls @ rest)" "wf_label l" by auto
  note lb = label_byte [OF d]
  have "drop (off + 1 + length l) msg = wire_body ls @ rest" using drop_app_eq [OF lb(2)] .
  moreover have "off + 1 + length l + length (wire_body ls) = off + length (wire_body (l # ls))" by simp
  ultimately have "name_at msg (off + 1 + length l) (length (wire_body ls) + n) h (ls @ ms)"
    using Cons.IH [of "off + 1 + length l"] Cons.prems(2,3) by (simp add: add.assoc)
  from name_label [OF d this] show ?case by (simp add: add.assoc)
qed

text \<open>What a name written at the end of the message means, from each of its literal labels on.\<close>

lemma reads_as_written:
  assumes wf: "list_all wf_label as" and k: "k \<le> length as" and m: "m \<le> k"
    and rest: "name_at (msg @ wire_body (take k as) @ rest) (length msg + length (wire_body (take k as))) n h ls"
    and eq: "name_eq ls (drop k as)" and h: "h \<le> b"
  shows "reads_at (length (wire_body (drop m (take k as))) + n) b
    (msg @ wire_body (take k as) @ rest) (lit_offs (length msg) as m) (drop m as)"
proof -
  let ?msg = "msg @ wire_body (take k as) @ rest" and ?mid = "drop m (take k as)"
  have split: "take k as = take m as @ ?mid"
    using append_take_drop_id [of m "take k as"] m by (simp add: min.absorb1)
  have whole: "drop m as = ?mid @ drop k as"
    using drop_append [of m "take k as" "drop k as"] m k by simp
  have "drop (lit_offs (length msg) as m) ?msg = wire_body ?mid @ rest"
    unfolding lit_offs_def by (subst split) simp
  moreover have "list_all wf_label ?mid"
    using wf by (auto simp: list_all_iff dest: in_set_dropD in_set_takeD)
  moreover have "lit_offs (length msg) as m + length (wire_body ?mid) = length msg + length (wire_body (take k as))"
    unfolding lit_offs_def by (subst (2) split) simp
  ultimately have "name_at ?msg (lit_offs (length msg) as m) (length (wire_body ?mid) + n) h (?mid @ ls)"
    using name_at_literal [of _ ?msg ?mid rest n h ls] rest by metis
  moreover have "name_eq (?mid @ ls) (drop m as)"
    unfolding whole using eq by (simp add: name_eq_def list_all2_appendI list_all2_refl)
  ultimately show ?thesis unfolding reads_at_def using h by blast
qed

lemma name_at_ptr:
  assumes "name_at msg c n h ls" "c \<le> 0x3fff"
  shows "name_at (msg @ x @ ptr_hi c # ptr_lo c # rest) (length msg + length x) 2 (Suc h) ls"
proof -
  let ?m = "msg @ x @ ptr_hi c # ptr_lo c # rest"
  have "rd ?m (length msg + length x) = Some (ptr_hi c)" "rd ?m (length msg + length x + 1) = Some (ptr_lo c)"
    by (simp_all add: rd_def nth_append)
  moreover have "name_at ?m (ptr_offs (ptr_hi c) (ptr_lo c)) n h ls"
    using name_at_append [OF assms(1)] ptr_offs_ptr(1) [OF assms(2)] by simp
  ultimately show ?thesis using ptr_offs_ptr(2) [OF assms(2)] by (intro name_ptr) auto
qed

lemma compress_name_literal:
  assumes "cb_inv msg [] g" "wf_name as"
  shows "reads_at (length (wire as)) (length as) (msg @ wire as) (length msg) as"
    and "cb_inv (msg @ wire as) [] (g @ [(length msg, as, length as)])"
proof -
  have z: "name_at (msg @ wire_body (take (length as) as) @ [0]) (length msg + length (wire_body (take (length as) as))) 1 0 []"
    by (rule name_end) (simp add: rd_def nth_append)
  have r: "reads_at (length (wire_body (drop m as)) + 1) (length (drop m as)) (msg @ wire as) (lit_offs (length msg) as m) (drop m as)"
    if "m \<le> length as" for m
    using reads_as_written [OF wf_nameD [OF assms(2)] order_refl that z, of "length (drop m as)"] by (simp add: wire_def)
  from r [of 0] show "reads_at (length (wire as)) (length as) (msg @ wire as) (length msg) as"
    by (simp add: lit_offs_def length_wire)
  show "cb_inv (msg @ wire as) [] (g @ [(length msg, as, length as)])"
  proof -
    have "reads_as (length (drop m as)) (msg @ wire as) (lit_offs (length msg) as m) (drop m as)"
      if "m < length as" for m
      unfolding reads_as_def by (rule exI, rule r) (use that in simp)
    then show ?thesis
      using assms(2) cb_inv_append_msg [OF assms(1), of "wire as"] unfolding cb_inv_append by (simp add: length_wire)
  qed
qed

lemma compress_name_pointer:
  assumes inv: "cb_inv msg [] g" and wf: "wf_name as" and f: "found g as (longest, lrem, coffs)" and pos: "0 < longest"
  defines "k \<equiv> length as - longest"
  defines "msg' \<equiv> msg @ wire_body (take k as) @ [ptr_hi coffs, ptr_lo coffs]"
  shows "reads_at (length (wire_body (take k as)) + 2) (Suc (length as)) msg' (length msg) as"
    and "0 < k \<Longrightarrow> cb_inv msg' [] (g @ [(length msg, as, k)])"
proof -
  from foundD(1,2) [OF f] pos obtain ls where l: "longest \<le> length as" "coffs \<le> 0x3fff" "lit g coffs ls"
    "name_eq ls (drop k as)" unfolding k_def by blast
  have len: "length ls = longest" using name_eq_length [OF l(4)] l(1) by (simp add: k_def)
  obtain n h ls' where a: "name_at msg coffs n h ls'" "name_eq ls' ls" "h \<le> longest"
    using cb_inv_lit [OF inv l(3)] unfolding reads_as_def reads_at_def len by blast
  note ptr = name_at_ptr [OF a(1) l(2), of "wire_body (take k as)" "[]"]
  have kl: "k \<le> length as" by (simp add: k_def)
  have rd: "reads_at (length (wire_body (drop m (take k as))) + 2) b msg' (lit_offs (length msg) as m) (drop m as)" if "m \<le> k" "Suc longest \<le> b" for m b
    unfolding msg'_def
    by (rule reads_as_written [OF wf_nameD [OF wf] kl that(1) ptr name_eq_trans [OF a(2) l(4)]])
      (use a(3) that(2) in simp)
  from rd [of 0 "Suc (length as)"] l(1) show "reads_at (length (wire_body (take k as)) + 2) (Suc (length as)) msg' (length msg) as"
    by (simp add: lit_offs_def)
  have "older g (length msg) (drop m as)" if "k \<le> m" "m < length as" for m
  proof -
    have "m - k < length ls" using that l(1) len by (simp add: k_def)
    from lit_older [OF inv l(3) this] obtain off ls2 where o: "lit g off ls2" "name_eq ls2 (drop (m - k) ls)" by auto
    have "name_eq (drop (m - k) ls) (drop m as)" using name_eq_drop [OF l(4), of "m - k"] that(1) by simp
    with o readable_less [OF cb_inv_lit [OF inv o(1)]] show ?thesis
      unfolding older_def using name_eq_trans by blast
  qed
  moreover have "reads_as (length (drop m as)) msg' (lit_offs (length msg) as m) (drop m as)" if "m < k" for m
    unfolding reads_as_def
    by (rule exI, rule rd) (use that l(1) in \<open>auto simp: k_def\<close>)
  ultimately show "cb_inv msg' [] (g @ [(length msg, as, k)])"
    using inv wf kl cb_inv_append_msg unfolding cb_inv_append by (simp add: msg'_def)
qed

text \<open>A name that stands in the message where a pointer can reach it is known.\<close>

definition known :: "ghost list \<Rightarrow> label list \<Rightarrow> bool" where
  "known g as \<longleftrightarrow> as \<noteq> [] \<and> (\<exists>off ls. lit g off ls \<and> name_eq ls as \<and> off \<le> 0x3fff)"

lemma known_append: "known g as \<Longrightarrow> known (g @ g') as"
  unfolding known_def lit_append by blast

text \<open>
  What \<^verbatim>\<open>compress_name\<close> does depends on the message only through its length: the bytes it writes
  are right for every message of that length for which the invariant holds.
\<close>

definition name_written :: "nat \<Rightarrow> ghost list \<Rightarrow> label list \<Rightarrow> byte list \<Rightarrow> ghost list \<Rightarrow> bool" where
  "name_written off g as bs g' \<longleftrightarrow> 0 < length bs \<and> length bs \<le> length (wire as) \<and>
     (\<forall>msg. length msg = off \<longrightarrow> cb_inv msg [] g \<longrightarrow>
        reads_at (length bs) (Suc (length as)) (msg @ bs) off as \<and> cb_inv (msg @ bs) [] g') \<and>
     (known g as \<longrightarrow> g' = g) \<and> (\<exists>k. g' = g \<or> g' = g @ [(off, as, k)]) \<and> (off \<le> 0x3fff \<and> as \<noteq> [] \<longrightarrow> known g' as) \<and> (\<forall>bs. known g bs \<longrightarrow> known g' bs)"

lemma name_writtenD:
  assumes "name_written off g as bs g'" "length msg = off" "cb_inv msg [] g"
  shows "0 < length bs" "length bs \<le> length (wire as)" "reads_at (length bs) (Suc (length as)) (msg @ bs) off as"
    "cb_inv (msg @ bs) [] g'"
  using assms unfolding name_written_def by blast+

lemma cb_of_add: "cb_of g @ [\<lparr>ci_index = i, ci_s = wire as\<rparr>] = cb_of (g @ [(i, as, k)])"
  by (simp add: cb_of_def)

lemma literal_written:
  assumes f: "found g as (0, lrem, coffs)" and wf: "wf_name as"
  shows "name_written off g as (wire as) (g @ [(off, as, length as)])"
proof -
  have "\<not> known g as"
  proof
    assume "known g as"
    then obtain o' ls where "lit g o' ls" "name_eq ls as" "o' \<le> 0x3fff" "as \<noteq> []" unfolding known_def by blast
    with foundD(3) [OF f, of o' ls "length as"] show False by simp
  qed
  moreover have "known (g @ [(off, as, length as)]) as" if "off \<le> 0x3fff" "as \<noteq> []"
  proof -
    have "lit (g @ [(off, as, length as)]) off as"
      unfolding lit_append lit_one using that by (intro disjI2 conjI exI [of _ 0]) (simp_all add: lit_offs_def)
    with that show ?thesis unfolding known_def by blast
  qed
  moreover have "reads_at (length (wire as)) (Suc (length as)) (msg @ wire as) off as \<and>
      cb_inv (msg @ wire as) [] (g @ [(off, as, length as)])" if "length msg = off" "cb_inv msg [] g" for msg
    using compress_name_literal [OF that(2) wf] that(1) unfolding reads_at_def using le_SucI by blast
  ultimately show ?thesis using known_append unfolding name_written_def by (simp add: length_wire)
qed

lemma pointer_written:
  assumes f: "found g as (longest, lrem, coffs)" and wf: "wf_name as" and pos: "0 < longest"
  defines "k \<equiv> length as - longest"
  shows "name_written off g as (wire_body (take k as) @ [ptr_hi coffs, ptr_lo coffs]) (if 0 < k then g @ [(off, as, k)] else g)"
    and "lrem = length (wire_body (take k as))" and "lrem + 2 \<le> length (wire as)"
    and "wire as = wire_body (take k as) @ wire (drop k as)" and "lrem \<noteq> 0 \<longleftrightarrow> 0 < k"
proof -
  from foundD(1,2) [OF f] pos obtain ls where l: "longest \<le> length as" "lrem = length (wire_body (take k as))"
      "lit g coffs ls" "name_eq ls (drop k as)" "coffs \<le> 0x3fff"
    by (auto simp: suffix_offs_def k_def)
  have ne: "as \<noteq> []" using pos l(1) by auto
  show "lrem = length (wire_body (take k as))" by (rule l(2))
  show wa: "wire as = wire_body (take k as) @ wire (drop k as)" by (metis append_take_drop_id wire_append)
  have "list_all wf_label (drop k as)" using wf_nameD [OF wf] by (auto simp: list_all_iff dest: in_set_dropD)
  from length_wire_body_ge [OF this] have "length (wire (drop k as)) \<ge> 2"
    using pos l(1) by (simp add: length_wire k_def)
  then show fits: "lrem + 2 \<le> length (wire as)" using wa l(2) by simp
  show "lrem \<noteq> 0 \<longleftrightarrow> 0 < k" unfolding l(2) using ne by (cases as; cases k) auto
  have kn: "k = 0" if "known g as"
  proof -
    from that obtain o' ls' where "lit g o' ls'" "name_eq ls' as" "o' \<le> 0x3fff" unfolding known_def by blast
    with foundD(3) [OF f, of o' ls' "length as"] show ?thesis by (simp add: k_def)
  qed
  have kn': "known (if 0 < k then g @ [(off, as, k)] else g) as" if "off \<le> 0x3fff"
  proof (cases "0 < k")
    case True
    then have "lit (g @ [(off, as, k)]) off as"
      unfolding lit_append lit_one using that by (intro disjI2 conjI exI [of _ 0]) (simp_all add: lit_offs_def)
    with that ne True show ?thesis unfolding known_def by auto
  next
    case False
    with l(3-5) ne show ?thesis unfolding known_def by auto
  qed
  let ?b = "wire_body (take k as) @ [ptr_hi coffs, ptr_lo coffs]"
  have rd: "reads_at (length ?b) (Suc (length as)) (msg @ ?b) off as \<and>
      cb_inv (msg @ ?b) [] (if 0 < k then g @ [(off, as, k)] else g)" if "length msg = off" "cb_inv msg [] g" for msg
    using compress_name_pointer [OF that(2) wf f pos, folded k_def] cb_inv_append_msg [OF that(2)] that(1) by auto
  show "name_written off g as ?b (if 0 < k then g @ [(off, as, k)] else g)"
    unfolding name_written_def using kn kn' rd known_append fits l(2) ne by auto
qed

text \<open>A call of \<^verbatim>\<open>compress_name\<close>: \<open>ok\<close> tells whether memory is found.\<close>

lemma compress_name_step:
  assumes inv: "cb_inv msg [] g" and wf: "wf_name as" and out: "length (wire as) \<le> length out"
  shows "\<exists>bs g'. (\<forall>ok. compress_name (wire as @ r) out (length msg) (cb_of g) ok =
      Some (if ok \<or> g' = g then (length bs, bs @ drop (length bs) out, cb_of g') else (0, bs @ drop (length bs) out, []))) \<and>
    name_written (length msg) g as bs g'"
proof -
  from best_match_found [OF inv found_start wf, of r] obtain longest lrem coffs
    where bm: "best_match (wire as @ r) (cb_of g) (0, 0, 0) = Some (longest, lrem, coffs)"
      and f: "found g as (longest, lrem, coffs)" by auto
  have len: "rhnlen (wire as @ r) = Some (length (wire as))" "length (wire as) \<le> DNSNAMEBUFSIZE"
    using rhnlen_wire [OF wf_nameD [OF wf], of r] wf by (simp_all add: wf_name_def)
  show ?thesis
  proof (cases "0 < longest")
    case False
    let ?g = "g @ [(length msg, as, length as)]"
    have "compress_name (wire as @ r) out (length msg) (cb_of g) ok =
        Some (if ok \<or> ?g = g then (length (wire as), wire as @ drop (length (wire as)) out, cb_of ?g)
          else (0, wire as @ drop (length (wire as)) out, []))" for ok
      using False bm len out by (simp add: compress_name_def mem_simps cb_of_add [symmetric])
    moreover have "name_written (length msg) g as (wire as) ?g"
      using literal_written [of g as lrem coffs] f False wf by simp
    ultimately show ?thesis by blast
  next
    case True
    define k where "k = length as - longest"
    note p = pointer_written [OF f wf True, folded k_def]
    let ?b = "wire_body (take k as)" and ?g = "if 0 < k then g @ [(length msg, as, k)] else g"
    have tk: "take lrem (wire as @ r) = ?b" "lrem \<le> length (wire as @ r)" using p(2-4) by simp_all
    have lt: "length ?b < length out" "Suc (length ?b) < length out" using p(2,3) out by simp_all
    then have w: "?b @ drop (length ?b) out = ?b @ out ! length ?b # out ! Suc (length ?b) # drop (length ?b + 2) out"
      using drop_two by auto
    have "compress_name (wire as @ r) out (length msg) (cb_of g) ok =
        Some (if ok \<or> ?g = g then (length (?b @ [ptr_hi coffs, ptr_lo coffs]),
            (?b @ [ptr_hi coffs, ptr_lo coffs]) @ drop (length (?b @ [ptr_hi coffs, ptr_lo coffs])) out, cb_of ?g)
          else (0, (?b @ [ptr_hi coffs, ptr_lo coffs]) @ drop (length (?b @ [ptr_hi coffs, ptr_lo coffs])) out, []))" for ok
    proof -
      have "memcpy_at out 0 (wire as @ r) lrem = Some (?b @ drop (length ?b) out)"
        using tk lt p(2) by (simp add: memcpy_at_def)
      moreover have "pdnsd_assert (lrem + 2 \<le> length (wire as)) = Some ()" using p(3) by simp
      moreover have "rhnlen (wire as @ r) = Some (length (wire as))" by (rule len)
      moreover have "take (length (wire as)) (wire as @ r) = wire as" by simp
      moreover have e1: "wr (?b @ drop (length ?b) out) lrem (ptr_hi coffs) = Some (?b @ ptr_hi coffs # out ! Suc (length ?b) # drop (length ?b + 2) out)"
        using lt unfolding w p(2) by (simp add: wr_def)
      moreover have e2: "wr (?b @ ptr_hi coffs # out ! Suc (length ?b) # drop (length ?b + 2) out) (lrem + 1) (ptr_lo coffs) =
          Some (?b @ ptr_hi coffs # ptr_lo coffs # drop (length ?b + 2) out)"
        unfolding p(2) by (simp add: wr_def list_update_append)
      ultimately show ?thesis using True bm p(5) len(2) p(2) unfolding compress_name_def
        by (simp add: cb_of_add [symmetric, where k = k])
    qed
    with p(1) show ?thesis by blast
  qed
qed

subsection \<open>A message with any number of names\<close>

text \<open>
  How the callers of \<^verbatim>\<open>compress_name\<close> build an answer: each item is other data (counts,
  types, addresses, ...) followed by a name, written at the end of the message with the
  compression buffer carried along. The result holds the message and, for each name, its
  offset and the length \<^verbatim>\<open>compress_name\<close> returned.
\<close>

fun write_names ::
  "byte list \<Rightarrow> compel list \<Rightarrow> (byte list \<times> label list) list \<Rightarrow> (byte list \<times> (nat \<times> nat) list) option" where
  "write_names msg cb [] = Some (msg, [])"
| "write_names msg cb ((dat, nm) # items) = do {
     let off = length (msg @ dat);
     (rl, out, cb) \<leftarrow> compress_name (wire nm) (replicate DNSNAMEBUFSIZE 0) off cb True;
     (m, offs) \<leftarrow> write_names (msg @ dat @ take rl out) cb items;
     Some (m, (off, rl) # offs) }"

lemma write_names_reads:
  assumes "cb_inv msg [] g" "list_all (\<lambda>(dat, nm). wf_name nm) items"
  shows "\<exists>m offs. write_names msg (cb_of g) items = Some (m, offs) \<and> (\<exists>x. m = msg @ x) \<and>
    length m \<le> length msg + (\<Sum>(dat, nm)\<leftarrow>items. length dat + length (wire nm)) \<and>
    list_all2 (\<lambda>(off, n) (dat, nm). n \<le> length (wire nm) \<and> reads_at n (Suc (length nm)) m off nm) offs items"
  using assms
proof (induction items arbitrary: msg g)
  case Nil
  then show ?case by simp
next
  case (Cons it items)
  obtain dat nm where it: "it = (dat, nm)" by (cases it)
  have wf: "wf_name nm" "list_all (\<lambda>(dat, nm). wf_name nm) items" using Cons.prems it by auto
  have "length (wire nm) \<le> length (replicate DNSNAMEBUFSIZE (0 :: byte))" using wf(1) by (simp add: wf_name_def)
  from compress_name_step [OF cb_inv_append_msg [OF Cons.prems(1), of dat] wf(1) this, of "[]"] obtain bs g'
    where c: "\<forall>ok. compress_name (wire nm) (replicate DNSNAMEBUFSIZE 0) (length (msg @ dat)) (cb_of g) ok =
        Some (if ok \<or> g' = g then (length bs, bs @ drop (length bs) (replicate DNSNAMEBUFSIZE 0), cb_of g')
          else (0, bs @ drop (length bs) (replicate DNSNAMEBUFSIZE 0), []))"
      "name_written (length (msg @ dat)) g nm bs g'" by (simp, blast)
  define rl out where "rl = length bs" and "out = bs @ drop (length bs) (replicate DNSNAMEBUFSIZE 0)"
  have st: "compress_name (wire nm) (replicate DNSNAMEBUFSIZE 0) (length (msg @ dat)) (cb_of g) True = Some (rl, out, cb_of g')"
    "rl \<le> length (wire nm)" "rl \<le> length out"
    "reads_at rl (Suc (length nm)) (msg @ dat @ take rl out) (length (msg @ dat)) nm"
    "cb_inv (msg @ dat @ take rl out) [] g'"
    using c(1) [THEN spec, of True] name_writtenD [OF c(2) refl cb_inv_append_msg [OF Cons.prems(1), of dat]]
    unfolding rl_def out_def by (simp_all del: length_append) simp
  from Cons.IH [OF st(5) wf(2)] obtain m offs x where IH:
    "write_names (msg @ dat @ take rl out) (cb_of g') items = Some (m, offs)" "m = (msg @ dat @ take rl out) @ x"
    "length m \<le> length (msg @ dat @ take rl out) + (\<Sum>(dat, nm)\<leftarrow>items. length dat + length (wire nm))"
    "list_all2 (\<lambda>(off, n) (dat, nm). n \<le> length (wire nm) \<and> reads_at n (Suc (length nm)) m off nm) offs items" by blast
  have "reads_at rl (Suc (length nm)) m (length (msg @ dat)) nm"
    unfolding IH(2) by (rule reads_at_append [OF st(4)])
  then show ?case using st(1-3) IH it by (simp add: Let_def)
qed

lemma reads_at_has_name:
  assumes "reads_at n (Suc (length nm)) m off nm" "wf_name nm"
  shows "\<exists>ls. has_name m off (length m - off) n ls \<and> name_eq ls nm"
proof -
  from assms(1) obtain h ls where a: "name_at m off n h ls" "name_eq ls nm" "h \<le> Suc (length nm)"
    unfolding reads_at_def by blast
  have "length (wire_body ls) = length (wire_body nm)"
    using a(2) unfolding name_eq_def by (induction ls nm rule: list_all2_induct) (auto dest: ci_eq_length)
  then have "wf_name ls" using name_at_wf [OF a(1)] assms(2) by (simp add: wf_name_def length_wire)
  moreover have "h \<le> 255" using a(3) wf_name_segcnt [OF assms(2)] by simp
  moreover have "n \<le> length m - off" using name_at_extent [OF a(1)] by linarith
  ultimately show ?thesis using a(1,2) unfolding has_name_def by blast
qed

lemma list_all2_nth: "list_all2 P xs ys \<Longrightarrow> j < length ys \<Longrightarrow> P (xs ! j) (ys ! j)"
  by (rule list_all2_nthD2)

text \<open>
  C10: names written with \<^verbatim>\<open>compress_name\<close>, in any number and order and with any data between
  them, are all read back by \<^verbatim>\<open>decompress_name\<close> from the finished message: every call succeeds
  without an out-of-bounds access, reading succeeds at the offset of each name, advances by
  exactly the number of bytes written for it and gives the name up to case; and compression
  never makes a name longer.
\<close>

theorem compress_decompress_roundtrip:
  assumes "list_all (\<lambda>(dat, nm). wf_name nm) items" and "length buf = DNSNAMEBUFSIZE"
  shows "\<exists>m offs. write_names msg [] items = Some (m, offs) \<and> length offs = length items \<and>
    length m \<le> length msg + (\<Sum>(dat, nm)\<leftarrow>items. length dat + length (wire nm)) \<and>
    (\<forall>j < length items. \<exists>ls t. name_eq ls (snd (items ! j)) \<and>
       decompress_name m (fst (offs ! j)) (length m - fst (offs ! j)) buf =
         Some (RC_OK, fst (offs ! j) + snd (offs ! j), length m - fst (offs ! j) - snd (offs ! j), t,
           Some (length (wire ls))) \<and>
       take (length (wire ls)) t = wire ls)"
proof -
  have "cb_inv msg [] []" by simp
  from write_names_reads [OF this assms(1)] obtain m offs where w: "write_names msg [] items = Some (m, offs)"
    "length m \<le> length msg + (\<Sum>(dat, nm)\<leftarrow>items. length dat + length (wire nm))"
    "list_all2 (\<lambda>(off, n) (dat, nm). n \<le> length (wire nm) \<and> reads_at n (Suc (length nm)) m off nm) offs items"
    by (auto simp: cb_of_def)
  have "\<exists>ls t. name_eq ls (snd (items ! j)) \<and>
       decompress_name m (fst (offs ! j)) (length m - fst (offs ! j)) buf =
         Some (RC_OK, fst (offs ! j) + snd (offs ! j), length m - fst (offs ! j) - snd (offs ! j), t,
           Some (length (wire ls))) \<and> take (length (wire ls)) t = wire ls" if j: "j < length items" for j
  proof -
    have "reads_at (snd (offs ! j)) (Suc (length (snd (items ! j)))) m (fst (offs ! j)) (snd (items ! j))"
      using list_all2_nth [OF w(3) j] by (auto split: prod.splits)
    moreover have "wf_name (snd (items ! j))" using assms(1) j by (cases "items ! j") (auto simp: list_all_length)
    ultimately obtain ls where "has_name m (fst (offs ! j)) (length m - fst (offs ! j)) (snd (offs ! j)) ls"
      "name_eq ls (snd (items ! j))" using reads_at_has_name by blast
    with decompress_name_complete [OF this(1) assms(2)] show ?thesis by blast
  qed
  with w list_all2_lengthD [OF w(3)] show ?thesis by auto
qed

theorem compress_decompress_roundtrip_witness:
  "\<exists>m offs. write_names [1, 2] [] [([], [[97], [98]]), ([7], [[99], [65], [98]]), ([], [[97], [66]])] = Some (m, offs) \<and>
    length offs = 3"
proof -
  let ?items = "[([], [[97], [98]]), ([7], [[99], [65], [98]]), ([], [[97], [66]])] :: (byte list \<times> label list) list"
  have "list_all (\<lambda>(dat, nm). wf_name nm) ?items" "length (replicate 256 (0 :: byte)) = DNSNAMEBUFSIZE"
    by (simp_all add: wf_name_def wf_label_def DNSNAMEBUFSIZE_def)
  from compress_decompress_roundtrip [OF this, of "[1, 2]"] show ?thesis by fastforce
qed

end
