(* ===== verification/Consts.thy ===== *)
theory Consts
  imports Prelude "HOL-Library.List_Lexorder"
begin

section \<open>Keywords and constants of the configuration (consts.c, conf-keywords.h)\<close>

text \<open>
  The dictionaries of configuration keywords and the binary search over them. The keyword to
  look up is a pointer into the text of the configuration file with a length, so it is not
  null-terminated; the keywords of a dictionary are C strings. The comment above each dictionary
  demands alphabetical order: the locale \<open>dictionary\<close> states what the search needs, and it is
  interpreted on every dictionary of the program.
\<close>

subsection \<open>The enumerations\<close>

abbreviation (input) C_ERR :: int where "C_ERR \<equiv> 0"
abbreviation (input) C_ON :: int where "C_ON \<equiv> 1"
abbreviation (input) C_OFF :: int where "C_OFF \<equiv> 2"
abbreviation (input) C_DEFAULT :: int where "C_DEFAULT \<equiv> 3"
abbreviation (input) C_DISCOVER :: int where "C_DISCOVER \<equiv> 4"
abbreviation (input) C_NONE :: int where "C_NONE \<equiv> 5"
abbreviation (input) C_IF :: int where "C_IF \<equiv> 6"
abbreviation (input) C_EXEC :: int where "C_EXEC \<equiv> 7"
abbreviation (input) C_PING :: int where "C_PING \<equiv> 8"
abbreviation (input) C_QUERY :: int where "C_QUERY \<equiv> 9"
abbreviation (input) C_ONQUERY :: int where "C_ONQUERY \<equiv> 10"
abbreviation (input) C_ONTIMEOUT :: int where "C_ONTIMEOUT \<equiv> 11"
abbreviation (input) UDP_ONLY :: int where "UDP_ONLY \<equiv> 12"
abbreviation (input) TCP_ONLY :: int where "TCP_ONLY \<equiv> 13"
abbreviation (input) TCP_UDP :: int where "TCP_UDP \<equiv> 14"
abbreviation (input) UDP_TCP :: int where "UDP_TCP \<equiv> 15"
abbreviation (input) C_DEV :: int where "C_DEV \<equiv> 16"
abbreviation (input) C_DIALD :: int where "C_DIALD \<equiv> 17"
abbreviation (input) C_INCLUDED :: int where "C_INCLUDED \<equiv> 18"
abbreviation (input) C_EXCLUDED :: int where "C_EXCLUDED \<equiv> 19"
abbreviation (input) C_SIMPLE_ONLY :: int where "C_SIMPLE_ONLY \<equiv> 20"
abbreviation (input) C_FQDN_ONLY :: int where "C_FQDN_ONLY \<equiv> 21"
abbreviation (input) C_AUTH :: int where "C_AUTH \<equiv> 22"
abbreviation (input) C_DOMAIN :: int where "C_DOMAIN \<equiv> 23"
abbreviation (input) C_FAIL :: int where "C_FAIL \<equiv> 24"
abbreviation (input) C_NEGATE :: int where "C_NEGATE \<equiv> 25"

abbreviation (input) K_ERROR :: int where "K_ERROR \<equiv> 0"
abbreviation (input) K_GLOBAL :: int where "K_GLOBAL \<equiv> 1"
abbreviation (input) K_SERVER :: int where "K_SERVER \<equiv> 2"
abbreviation (input) K_RR :: int where "K_RR \<equiv> 3"
abbreviation (input) K_NEG :: int where "K_NEG \<equiv> 4"
abbreviation (input) K_SOURCE :: int where "K_SOURCE \<equiv> 5"
abbreviation (input) K_INCLUDE_F :: int where "K_INCLUDE_F \<equiv> 6"
abbreviation (input) K_PERM_CACHE :: int where "K_PERM_CACHE \<equiv> 7"
abbreviation (input) K_CACHE_DIR :: int where "K_CACHE_DIR \<equiv> 8"
abbreviation (input) K_SERVER_PORT :: int where "K_SERVER_PORT \<equiv> 9"
abbreviation (input) K_SERVER_IP :: int where "K_SERVER_IP \<equiv> 10"
abbreviation (input) K_OUTGOING_IP :: int where "K_OUTGOING_IP \<equiv> 11"
abbreviation (input) K_SCHEME_FILE :: int where "K_SCHEME_FILE \<equiv> 12"
abbreviation (input) K_LINKDOWN_KLUGE :: int where "K_LINKDOWN_KLUGE \<equiv> 13"
abbreviation (input) K_MAX_TTL :: int where "K_MAX_TTL \<equiv> 14"
abbreviation (input) K_MIN_TTL :: int where "K_MIN_TTL \<equiv> 15"
abbreviation (input) K_RUN_AS :: int where "K_RUN_AS \<equiv> 16"
abbreviation (input) K_STRICT_SETUID :: int where "K_STRICT_SETUID \<equiv> 17"
abbreviation (input) K_USE_NSS :: int where "K_USE_NSS \<equiv> 18"
abbreviation (input) K_PARANOID :: int where "K_PARANOID \<equiv> 19"
abbreviation (input) K_IGNORE_CD :: int where "K_IGNORE_CD \<equiv> 20"
abbreviation (input) K_STATUS_CTL :: int where "K_STATUS_CTL \<equiv> 21"
abbreviation (input) K_DAEMON :: int where "K_DAEMON \<equiv> 22"
abbreviation (input) K_C_TCP_SERVER :: int where "K_C_TCP_SERVER \<equiv> 23"
abbreviation (input) K_PID_FILE :: int where "K_PID_FILE \<equiv> 24"
abbreviation (input) K_C_VERBOSITY :: int where "K_C_VERBOSITY \<equiv> 25"
abbreviation (input) K_C_QUERY_METHOD :: int where "K_C_QUERY_METHOD \<equiv> 26"
abbreviation (input) K_RUN_IPV4 :: int where "K_RUN_IPV4 \<equiv> 27"
abbreviation (input) K_IPV4_6_PREFIX :: int where "K_IPV4_6_PREFIX \<equiv> 28"
abbreviation (input) K_C_DEBUG :: int where "K_C_DEBUG \<equiv> 29"
abbreviation (input) K_C_CTL_PERMS :: int where "K_C_CTL_PERMS \<equiv> 30"
abbreviation (input) K_C_PROC_LIMIT :: int where "K_C_PROC_LIMIT \<equiv> 31"
abbreviation (input) K_C_PROCQ_LIMIT :: int where "K_C_PROCQ_LIMIT \<equiv> 32"
abbreviation (input) K_TCP_QTIMEOUT :: int where "K_TCP_QTIMEOUT \<equiv> 33"
abbreviation (input) K_C_PAR_QUERIES :: int where "K_C_PAR_QUERIES \<equiv> 34"
abbreviation (input) K_C_RAND_RECS :: int where "K_C_RAND_RECS \<equiv> 35"
abbreviation (input) K_NEG_TTL :: int where "K_NEG_TTL \<equiv> 36"
abbreviation (input) K_NEG_RRS_POL :: int where "K_NEG_RRS_POL \<equiv> 37"
abbreviation (input) K_NEG_DOMAIN_POL :: int where "K_NEG_DOMAIN_POL \<equiv> 38"
abbreviation (input) K_QUERY_PORT_START :: int where "K_QUERY_PORT_START \<equiv> 39"
abbreviation (input) K_QUERY_PORT_END :: int where "K_QUERY_PORT_END \<equiv> 40"
abbreviation (input) K_UDP_BUFSIZE :: int where "K_UDP_BUFSIZE \<equiv> 41"
abbreviation (input) K_DELEGATION_ONLY :: int where "K_DELEGATION_ONLY \<equiv> 42"
abbreviation (input) K_IP :: int where "K_IP \<equiv> 43"
abbreviation (input) K_PORT :: int where "K_PORT \<equiv> 44"
abbreviation (input) K_SCHEME :: int where "K_SCHEME \<equiv> 45"
abbreviation (input) K_UPTEST :: int where "K_UPTEST \<equiv> 46"
abbreviation (input) K_TIMEOUT :: int where "K_TIMEOUT \<equiv> 47"
abbreviation (input) K_PING_TIMEOUT :: int where "K_PING_TIMEOUT \<equiv> 48"
abbreviation (input) K_PING_IP :: int where "K_PING_IP \<equiv> 49"
abbreviation (input) K_UPTEST_CMD :: int where "K_UPTEST_CMD \<equiv> 50"
abbreviation (input) K_QUERY_TEST_NAME :: int where "K_QUERY_TEST_NAME \<equiv> 51"
abbreviation (input) K_INTERVAL :: int where "K_INTERVAL \<equiv> 52"
abbreviation (input) K_INTERFACE :: int where "K_INTERFACE \<equiv> 53"
abbreviation (input) K_DEVICE :: int where "K_DEVICE \<equiv> 54"
abbreviation (input) K_PURGE_CACHE :: int where "K_PURGE_CACHE \<equiv> 55"
abbreviation (input) K_CACHING :: int where "K_CACHING \<equiv> 56"
abbreviation (input) K_LEAN_QUERY :: int where "K_LEAN_QUERY \<equiv> 57"
abbreviation (input) K_EDNS_QUERY :: int where "K_EDNS_QUERY \<equiv> 58"
abbreviation (input) K_PRESET :: int where "K_PRESET \<equiv> 59"
abbreviation (input) K_PROXY_ONLY :: int where "K_PROXY_ONLY \<equiv> 60"
abbreviation (input) K_ROOT_SERVER :: int where "K_ROOT_SERVER \<equiv> 61"
abbreviation (input) K_RANDOMIZE_SERVERS :: int where "K_RANDOMIZE_SERVERS \<equiv> 62"
abbreviation (input) K_INCLUDE :: int where "K_INCLUDE \<equiv> 63"
abbreviation (input) K_EXCLUDE :: int where "K_EXCLUDE \<equiv> 64"
abbreviation (input) K_POLICY :: int where "K_POLICY \<equiv> 65"
abbreviation (input) K_REJECTLIST :: int where "K_REJECTLIST \<equiv> 66"
abbreviation (input) K_REJECTPOLICY :: int where "K_REJECTPOLICY \<equiv> 67"
abbreviation (input) K_REJECTRECURSIVELY :: int where "K_REJECTRECURSIVELY \<equiv> 68"
abbreviation (input) K_LABEL :: int where "K_LABEL \<equiv> 69"
abbreviation (input) K_A :: int where "K_A \<equiv> 70"
abbreviation (input) K_PTR :: int where "K_PTR \<equiv> 71"
abbreviation (input) K_MX :: int where "K_MX \<equiv> 72"
abbreviation (input) K_SOA :: int where "K_SOA \<equiv> 73"
abbreviation (input) K_CNAME :: int where "K_CNAME \<equiv> 74"
abbreviation (input) K_TXT :: int where "K_TXT \<equiv> 75"
abbreviation (input) K_SPF :: int where "K_SPF \<equiv> 76"
abbreviation (input) K_NAME :: int where "K_NAME \<equiv> 77"
abbreviation (input) K_OWNER :: int where "K_OWNER \<equiv> 78"
abbreviation (input) K_TTL :: int where "K_TTL \<equiv> 79"
abbreviation (input) K_TYPES :: int where "K_TYPES \<equiv> 80"
abbreviation (input) K_FILET :: int where "K_FILET \<equiv> 81"
abbreviation (input) K_SERVE_ALIASES :: int where "K_SERVE_ALIASES \<equiv> 82"
abbreviation (input) K_AUTHREC :: int where "K_AUTHREC \<equiv> 83"
abbreviation (input) K_REVERSE :: int where "K_REVERSE \<equiv> 84"

subsection \<open>The tables\<close>

type_synonym dict = "(string \<times> int) list"

definition const_dic :: dict where
  "const_dic = [
     (''auth'', C_AUTH), (''default'', C_DEFAULT), (''dev'', C_DEV), (''diald'', C_DIALD),
     (''discover'', C_DISCOVER), (''domain'', C_DOMAIN), (''excluded'', C_EXCLUDED), (''exec'', C_EXEC),
     (''fail'', C_FAIL), (''false'', C_OFF), (''fqdn_only'', C_FQDN_ONLY), (''if'', C_IF),
     (''included'', C_INCLUDED), (''negate'', C_NEGATE), (''no'', C_OFF), (''none'', C_NONE),
     (''off'', C_OFF), (''on'', C_ON), (''onquery'', C_ONQUERY), (''ontimeout'', C_ONTIMEOUT),
     (''ping'', C_PING), (''query'', C_QUERY), (''simple_only'', C_SIMPLE_ONLY), (''tcp_only'', TCP_ONLY),
     (''tcp_udp'', TCP_UDP), (''true'', C_ON), (''udp_only'', UDP_ONLY), (''udp_tcp'', UDP_TCP),
     (''yes'', C_ON)]"

definition section_headers :: dict where
  "section_headers = [
     (''global'', K_GLOBAL), (''include'', K_INCLUDE_F), (''neg'', K_NEG), (''rr'', K_RR),
     (''server'', K_SERVER), (''source'', K_SOURCE)]"

definition global_options :: dict where
  "global_options = [
     (''cache_dir'', K_CACHE_DIR), (''ctl_perms'', K_C_CTL_PERMS), (''daemon'', K_DAEMON),
     (''debug'', K_C_DEBUG), (''delegation_only'', K_DELEGATION_ONLY), (''ignore_cd'', K_IGNORE_CD),
     (''interface'', K_SERVER_IP), (''ipv4_6_prefix'', K_IPV4_6_PREFIX),
     (''linkdown_kluge'', K_LINKDOWN_KLUGE), (''max_ttl'', K_MAX_TTL), (''min_ttl'', K_MIN_TTL),
     (''neg_domain_pol'', K_NEG_DOMAIN_POL), (''neg_rrs_pol'', K_NEG_RRS_POL), (''neg_ttl'', K_NEG_TTL),
     (''outgoing_ip'', K_OUTGOING_IP), (''outside_interface'', K_OUTGOING_IP),
     (''par_queries'', K_C_PAR_QUERIES), (''paranoid'', K_PARANOID), (''perm_cache'', K_PERM_CACHE),
     (''pid_file'', K_PID_FILE), (''proc_limit'', K_C_PROC_LIMIT), (''procq_limit'', K_C_PROCQ_LIMIT),
     (''query_method'', K_C_QUERY_METHOD), (''query_port_end'', K_QUERY_PORT_END),
     (''query_port_start'', K_QUERY_PORT_START), (''randomize_recs'', K_C_RAND_RECS),
     (''run_as'', K_RUN_AS), (''run_ipv4'', K_RUN_IPV4), (''scheme_file'', K_SCHEME_FILE),
     (''server_ip'', K_SERVER_IP), (''server_port'', K_SERVER_PORT), (''status_ctl'', K_STATUS_CTL),
     (''strict_setuid'', K_STRICT_SETUID), (''tcp_qtimeout'', K_TCP_QTIMEOUT),
     (''tcp_server'', K_C_TCP_SERVER), (''timeout'', K_TIMEOUT), (''udpbufsize'', K_UDP_BUFSIZE),
     (''use_nss'', K_USE_NSS), (''verbosity'', K_C_VERBOSITY)]"

definition server_options :: dict where
  "server_options = [
     (''caching'', K_CACHING), (''device'', K_DEVICE), (''edns_query'', K_EDNS_QUERY),
     (''exclude'', K_EXCLUDE), (''file'', K_FILET), (''include'', K_INCLUDE),
     (''interface'', K_INTERFACE), (''interval'', K_INTERVAL), (''ip'', K_IP), (''label'', K_LABEL),
     (''lean_query'', K_LEAN_QUERY), (''ping_ip'', K_PING_IP), (''ping_timeout'', K_PING_TIMEOUT),
     (''policy'', K_POLICY), (''port'', K_PORT), (''preset'', K_PRESET), (''proxy_only'', K_PROXY_ONLY),
     (''purge_cache'', K_PURGE_CACHE), (''query_test_name'', K_QUERY_TEST_NAME),
     (''randomize_servers'', K_RANDOMIZE_SERVERS), (''reject'', K_REJECTLIST),
     (''reject_policy'', K_REJECTPOLICY), (''reject_recursively'', K_REJECTRECURSIVELY),
     (''root_server'', K_ROOT_SERVER), (''scheme'', K_SCHEME), (''timeout'', K_TIMEOUT),
     (''uptest'', K_UPTEST), (''uptest_cmd'', K_UPTEST_CMD)]"

definition rr_options :: dict where
  "rr_options = [
     (''a'', K_A), (''authrec'', K_AUTHREC), (''cname'', K_CNAME), (''mx'', K_MX), (''name'', K_NAME),
     (''ns'', K_OWNER), (''owner'', K_OWNER), (''ptr'', K_PTR), (''reverse'', K_REVERSE),
     (''soa'', K_SOA), (''spf'', K_SPF), (''ttl'', K_TTL), (''txt'', K_TXT)]"

definition source_options :: dict where
  "source_options = [
     (''authrec'', K_AUTHREC), (''file'', K_FILET), (''ns'', K_OWNER), (''owner'', K_OWNER),
     (''serve_aliases'', K_SERVE_ALIASES), (''ttl'', K_TTL)]"

definition include_options :: dict where
  "include_options = [
     (''file'', K_FILET)]"

definition neg_options :: dict where
  "neg_options = [
     (''name'', K_NAME), (''ttl'', K_TTL), (''types'', K_TYPES)]"

definition const_names :: "string list" where
  "const_names = [
     ''error'', ''on'', ''off'', ''default'', ''discover'', ''none'', ''if'', ''exec'', ''ping'',
     ''query'', ''onquery'', ''ontimeout'', ''udp_only'', ''tcp_only'', ''tcp_udp'', ''udp_tcp'',
     ''dev'', ''diald'', ''included'', ''excluded'', ''simple_only'', ''fqdn_only'', ''auth'',
     ''domain'', ''fail'', ''negate'']"
subsection \<open>Comparing and searching\<close>

text \<open>
  \<^verbatim>\<open>strncmp\<close>: the arguments are the bytes from the pointers on; reading past the end of an
  object gives \<^term>\<open>None\<close>. The C standard fixes only the sign of the result.
\<close>

fun strncmp :: "byte list \<Rightarrow> byte list \<Rightarrow> nat \<Rightarrow> int option" where
  "strncmp a b 0 = Some 0"
| "strncmp a b (Suc n) = do {
     x \<leftarrow> rd a 0;
     y \<leftarrow> rd b 0;
     if x \<noteq> y then Some (int (unat x) - int (unat y))
     else if x = 0 then Some 0
     else strncmp (drop 1 a) (drop 1 b) n }"

definition keyncmp :: "byte list \<Rightarrow> nat \<Rightarrow> byte list \<Rightarrow> int option" where
  "keyncmp key1 len key2 = do {
     cmp \<leftarrow> strncmp key1 key2 len;
     if cmp \<noteq> 0 then Some cmp
     else do { b \<leftarrow> rd key2 len; Some (- int (unat b)) } }"

function binsearch_loop :: "byte list \<Rightarrow> nat \<Rightarrow> dict \<Rightarrow> nat \<Rightarrow> nat \<Rightarrow> int option" where
  "binsearch_loop name len dic i j =
     (if i < j
      then do {
        let k = (i + j) div 2;
        (key, v) \<leftarrow> rd dic k;
        cmp \<leftarrow> keyncmp name len (cstr key @ [0]);
        if cmp < 0 then binsearch_loop name len dic i k
        else if cmp > 0 then binsearch_loop name len dic (k + 1) j
        else Some v }
      else Some 0)"
  by pat_completeness auto
termination
  by (relation "measure (\<lambda>(name, len, dic, i, j). j - i)") auto

declare binsearch_loop.simps [simp del]

definition binsearch_keyword :: "byte list \<Rightarrow> nat \<Rightarrow> dict \<Rightarrow> nat \<Rightarrow> int option" where
  "binsearch_keyword name len dic n = binsearch_loop name len dic 0 n"

definition lookup_const :: "byte list \<Rightarrow> nat \<Rightarrow> int option" where
  "lookup_const name len = binsearch_keyword name len const_dic (length const_dic)"

definition const_name :: "int \<Rightarrow> string" where
  "const_name c = (if c \<ge> 0 \<and> c < int (length const_names) then const_names ! nat c else ''ILLEGAL!'')"

subsection \<open>The comparison decides the lexicographic order\<close>

lemma keyncmp_lex:
  assumes "0 \<notin> set xs" "0 \<notin> set ys"
  shows "\<exists>d. keyncmp (xs @ r) (length xs) (ys @ 0 # s) = Some d \<and> (d < 0 \<longleftrightarrow> xs < ys) \<and> (d = 0 \<longleftrightarrow> xs = ys)"
  using assms
proof (induction xs arbitrary: ys)
  case Nil
  show ?case
  proof (cases ys)
    case (Cons y ys')
    with Nil have "y \<noteq> 0" by auto
    then have "0 < uint y" using unsigned_eq_0_iff [of y] by (simp add: order.strict_iff_order)
    with Cons show ?thesis by (simp add: keyncmp_def rd_def)
  qed (simp add: keyncmp_def rd_def)
next
  case (Cons x xs)
  have x: "uint x \<noteq> 0" using Cons.prems unsigned_eq_0_iff [of x] by auto
  show ?case
  proof (cases ys)
    case Nil
    with Cons.prems x show ?thesis by (auto simp: keyncmp_def rd_def)
  next
    case ys: (Cons y ys')
    show ?thesis
    proof (cases "x = y")
      case True
      from Cons.IH [of ys'] Cons.prems ys obtain d where
        "keyncmp (xs @ r) (length xs) (ys' @ 0 # s) = Some d" "d < 0 \<longleftrightarrow> xs < ys'" "d = 0 \<longleftrightarrow> xs = ys'" by auto
      moreover have "rd (y # l) (Suc n) = rd l n" for l :: "byte list" and n by (simp add: rd_def)
      then have "keyncmp ((x # xs) @ r) (length (x # xs)) ((y # ys') @ 0 # s) = keyncmp (xs @ r) (length xs) (ys' @ 0 # s)"
        using True Cons.prems by (simp add: keyncmp_def rd_def [of _ 0] cong: if_cong)
      ultimately show ?thesis using True ys by auto
    next
      case False
      then show ?thesis using ys by (auto simp: keyncmp_def rd_def word_less_def word_uint_eq_iff)
    qed
  qed
qed

subsection \<open>Sorted dictionaries\<close>

definition keys_sorted :: "dict \<Rightarrow> bool" where
  "keys_sorted dic \<longleftrightarrow> sorted_wrt (<) (map (cstr \<circ> fst) dic)"

lemma chr_eq_iff [simp]: "chr a = chr b \<longleftrightarrow> a = b"
proof
  assume "chr a = chr b"
  then have "unat (chr a) = unat (chr b)" by simp
  then have "(of_char a :: nat) = of_char b" by (simp add: chr_def)
  then show "a = b" by simp
qed simp

lemma cstr_eq_iff [simp]: "cstr s = cstr t \<longleftrightarrow> s = t"
  by (simp add: cstr_def inj_map_eq_map inj_def)

text \<open>What the search relies on, and what it then returns.\<close>

locale dictionary =
  fixes dic :: dict
  assumes sorted: "keys_sorted dic"
    and no_nul: "\<forall>(key, v) \<in> set dic. 0 \<notin> set (cstr key)"
begin

lemma less_keys: "i < j \<Longrightarrow> j < length dic \<Longrightarrow> cstr (fst (dic ! i)) < cstr (fst (dic ! j))"
  using sorted unfolding keys_sorted_def sorted_wrt_iff_nth_less by simp

lemma map_of_nth: "k < length dic \<Longrightarrow> map_of dic (fst (dic ! k)) = Some (snd (dic ! k))"
proof -
  assume k: "k < length dic"
  have "distinct (map fst dic)"
    unfolding distinct_conv_nth
  proof (intro allI impI)
    fix i j assume "i < length (map fst dic)" "j < length (map fst dic)" "i \<noteq> j"
    then show "map fst dic ! i \<noteq> map fst dic ! j"
      using less_keys [of i j] less_keys [of j i] by (cases "i < j") auto
  qed
  with k show ?thesis by (metis map_of_eq_Some_iff nth_mem prod.collapse)
qed

lemma loop_finds:
  assumes "j \<le> length dic" "0 \<notin> set (cstr s)"
    and "\<forall>k < length dic. fst (dic ! k) = s \<longrightarrow> i \<le> k \<and> k < j"
  shows "binsearch_loop (cstr s @ r) (length s) dic i j = Some (case map_of dic s of None \<Rightarrow> 0 | Some v \<Rightarrow> v)"
  using assms
proof (induction "j - i" arbitrary: i j rule: less_induct)
  case less
  show ?case
  proof (cases "i < j")
    case False
    have "s \<notin> fst ` set dic"
    proof
      assume "s \<in> fst ` set dic"
      then obtain k where "k < length dic" "fst (dic ! k) = s" by (auto simp: in_set_conv_nth)
      with less.prems(3) False show False by auto
    qed
    then have "map_of dic s = None" by (simp add: map_of_eq_None_iff)
    with False show ?thesis by (simp add: binsearch_loop.simps)
  next
    case True
    let ?k = "(i + j) div 2"
    have k: "i \<le> ?k" "?k < j" "?k < length dic" using True less.prems(1) by auto
    obtain key v where kv: "dic ! ?k = (key, v)" by (cases "dic ! ?k")
    have "0 \<notin> set (cstr key)" using no_nul nth_mem [OF k(3)] kv by auto
    from keyncmp_lex [OF less.prems(2) this, of r "[]"] obtain d where
      d: "keyncmp (cstr s @ r) (length s) (cstr key @ [0]) = Some d" "d < 0 \<longleftrightarrow> cstr s < cstr key" "d = 0 \<longleftrightarrow> s = key"
      by auto
    have rdk: "rd dic ?k = Some (key, v)" using k kv by (simp add: rd_def)
    note loop = binsearch_loop.simps [of "cstr s @ r" "length s" dic i j]
    consider (lt) "d < 0" | (gt) "d > 0" | (eq) "d = 0" by linarith
    then show ?thesis
    proof cases
      case lt
      have "k' < ?k" if "k' < length dic" "fst (dic ! k') = s" for k'
        using less_keys [of ?k k'] that lt d(2) kv by (cases "?k < k'"; cases "?k = k'") auto
      then have "binsearch_loop (cstr s @ r) (length s) dic i ?k = Some (case map_of dic s of None \<Rightarrow> 0 | Some v \<Rightarrow> v)"
        using less.prems k True by (intro less.hyps) auto
      then show ?thesis unfolding loop using lt True d(1) rdk by simp
    next
      case gt
      then have "cstr key < cstr s" using d(2,3) by (metis cstr_eq_iff less_irrefl linorder_cases not_less_iff_gr_or_eq)
      then have "?k < k'" if "k' < length dic" "fst (dic ! k') = s" for k'
        using less_keys [of k' ?k] that kv k(3) by (cases "k' < ?k"; cases "?k = k'") auto
      then have "binsearch_loop (cstr s @ r) (length s) dic (?k + 1) j = Some (case map_of dic s of None \<Rightarrow> 0 | Some v \<Rightarrow> v)"
        using less.prems k True by (intro less.hyps) (auto simp: Suc_le_eq)
      then show ?thesis unfolding loop using gt True d(1) rdk by simp
    next
      case eq
      then have "s = key" using d(3) by simp
      then have "map_of dic s = Some v" using map_of_nth [OF k(3)] kv by simp
      then show ?thesis unfolding loop using True d(1) rdk eq by simp
    qed
  qed
qed

lemma binsearch_finds:
  assumes "0 \<notin> set (cstr s)"
  shows "binsearch_keyword (cstr s @ r) (length s) dic (length dic) = Some (case map_of dic s of None \<Rightarrow> 0 | Some v \<Rightarrow> v)"
  unfolding binsearch_keyword_def using assms by (intro loop_finds) auto

end

lemma dictionaryI:
  assumes "sorted_wrt (<) (map (map of_char \<circ> fst) dic :: nat list list)"
    and "\<forall>(key, v) \<in> set dic. CHR 0x00 \<notin> set key"
  shows "dictionary dic"
proof
  have mono: "cstr s < cstr t" if "map of_char s < (map of_char t :: nat list)" for s t
    using that
  proof (induction s arbitrary: t)
    case Nil
    then show ?case by (cases t) (auto simp: cstr_def)
  next
    case (Cons x s)
    then show ?case by (cases t) (auto simp: cstr_def chr_def word_less_nat_alt)
  qed
  show "keys_sorted dic"
    using assms(1) unfolding keys_sorted_def sorted_wrt_map by (rule sorted_wrt_mono_rel [rotated]) (auto intro: mono)
  show "\<forall>(key, v) \<in> set dic. 0 \<notin> set (cstr key)"
    using assms(2) chr_eq_iff [of _ "CHR 0x00"] by (fastforce simp: cstr_def chr_def [of "CHR 0x00"])
qed

lemma sorted_wrt2_less:
  "sorted_wrt (<) ([] :: nat list list)" "sorted_wrt (<) [x :: nat list]"
  "sorted_wrt (<) (x # y # zs) \<longleftrightarrow> x < y \<and> sorted_wrt (<) (y # zs :: nat list list)"
  by (simp_all only: sorted_wrt.simps(1) sorted_wrt1 sorted_wrt2 [OF transp_on_less])

interpretation const_dic: dictionary const_dic
  by (rule dictionaryI) (simp_all add: const_dic_def sorted_wrt2_less del: sorted_wrt.simps)

interpretation section_headers: dictionary section_headers
  by (rule dictionaryI) (simp_all add: section_headers_def sorted_wrt2_less del: sorted_wrt.simps)

interpretation global_options: dictionary global_options
  by (rule dictionaryI) (simp_all add: global_options_def sorted_wrt2_less del: sorted_wrt.simps)

interpretation server_options: dictionary server_options
  by (rule dictionaryI) (simp_all add: server_options_def sorted_wrt2_less del: sorted_wrt.simps)

interpretation rr_options: dictionary rr_options
  by (rule dictionaryI) (simp_all add: rr_options_def sorted_wrt2_less del: sorted_wrt.simps)

interpretation source_options: dictionary source_options
  by (rule dictionaryI) (simp_all add: source_options_def sorted_wrt2_less del: sorted_wrt.simps)

interpretation include_options: dictionary include_options
  by (rule dictionaryI) (simp_all add: include_options_def sorted_wrt2_less del: sorted_wrt.simps)

interpretation neg_options: dictionary neg_options
  by (rule dictionaryI) (simp_all add: neg_options_def sorted_wrt2_less del: sorted_wrt.simps)

text \<open>The search with the length of the dictionary, as \<^verbatim>\<open>lookup_keyword\<close> in conf-parser.c does it.\<close>

definition lookup_keyword :: "byte list \<Rightarrow> nat \<Rightarrow> dict \<Rightarrow> int option" where
  "lookup_keyword name len dic = binsearch_keyword name len dic (length dic)"

text \<open>
  C25: every dictionary of the configuration parser is in the order its comment demands, so the
  binary search finds exactly the keywords that are in it, with their values, and returns 0 for
  any other word; the word is compared over its whole length although the text goes on behind
  it, and no read leaves the text or a keyword.
\<close>

theorem lookup_keyword_correct:
  assumes "dic \<in> {const_dic, section_headers, global_options, server_options, rr_options, source_options,
      include_options, neg_options}" and "CHR 0x00 \<notin> set s"
  shows "lookup_keyword (cstr s @ rest) (length s) dic = Some (case map_of dic s of None \<Rightarrow> 0 | Some v \<Rightarrow> v)"
proof -
  have nul: "0 \<notin> set (cstr s)" using assms(2) chr_eq_iff [of _ "CHR 0x00"] by (fastforce simp: cstr_def chr_def [of "CHR 0x00"])
  note finds = const_dic.binsearch_finds [OF nul] section_headers.binsearch_finds [OF nul]
    global_options.binsearch_finds [OF nul] server_options.binsearch_finds [OF nul] rr_options.binsearch_finds [OF nul]
    source_options.binsearch_finds [OF nul] include_options.binsearch_finds [OF nul] neg_options.binsearch_finds [OF nul]
  show ?thesis
    using assms(1) unfolding lookup_keyword_def insert_iff empty_iff by (elim disjE FalseE) (simp_all only: finds)
qed

theorem lookup_keyword_correct_witness:
  "lookup_keyword (cstr ''udp_only;'') 8 const_dic = Some UDP_ONLY \<and>
   lookup_keyword (cstr ''pingx'') 5 const_dic = Some 0"
proof -
  have "lookup_keyword (cstr ''udp_only'' @ cstr '';'') (length ''udp_only'') const_dic =
      Some (case map_of const_dic ''udp_only'' of None \<Rightarrow> 0 | Some v \<Rightarrow> v)"
    by (rule lookup_keyword_correct) simp_all
  moreover have "lookup_keyword (cstr ''pingx'' @ []) (length ''pingx'') const_dic =
      Some (case map_of const_dic ''pingx'' of None \<Rightarrow> 0 | Some v \<Rightarrow> v)"
    by (rule lookup_keyword_correct) simp_all
  moreover have "map_of const_dic ''udp_only'' = Some UDP_ONLY" "map_of const_dic ''pingx'' = None"
    by (simp_all add: const_dic_def)
  ultimately show ?thesis by (simp add: cstr_def eval_nat_numeral)
qed

text \<open>
  C26: the name table of the constants agrees with the dictionary: the name printed for a
  constant other than \<^verbatim>\<open>C_ERR\<close> is read back as that constant, and the names of the program's
  own table never reach the fallback text.
\<close>

theorem const_name_round_trip:
  assumes "0 < c" and "c < 26"
  shows "lookup_const (cstr (const_name c)) (length (const_name c)) = Some c"
proof -
  have tab: "map (map_of const_dic) const_names = None # map Some [1, 2, 3, 4, 5, 6, 7, 8, 9, 10, 11, 12, 13, 14,
      15, 16, 17, 18, 19, 20, 21, 22, 23, 24, 25]"
    by (simp add: const_names_def const_dic_def)
  have nul: "\<forall>s \<in> set const_names. CHR 0x00 \<notin> set s" by (simp add: const_names_def)
  have len: "nat c < length const_names" using assms by (simp add: const_names_def)
  have up: "(None # map Some [1, 2, 3, 4, 5, 6, 7, 8, 9, 10, 11, 12, 13, 14, 15, 16, 17, 18, 19, 20, 21, 22, 23,
      24, 25]) = None # map (Some \<circ> int) [1..<26]" by (simp add: upt_rec)
  have "map_of const_dic (const_names ! nat c) = (None # map (Some \<circ> int) [1..<26]) ! nat c"
    using arg_cong [OF tab, of "\<lambda>l. l ! nat c"] len unfolding up by simp
  also have "\<dots> = Some c" using assms by (simp add: nth_Cons')
  finally have n: "map_of const_dic (const_names ! nat c) = Some c" "CHR 0x00 \<notin> set (const_names ! nat c)"
    using nul len by simp_all
  have "const_name c = const_names ! nat c" using assms by (simp add: const_name_def const_names_def)
  moreover have "0 \<notin> set (cstr (const_names ! nat c))"
    using n(2) chr_eq_iff [of _ "CHR 0x00"] by (fastforce simp: cstr_def chr_def [of "CHR 0x00"])
  ultimately show ?thesis
    using const_dic.binsearch_finds [of "const_names ! nat c" "[]"] n(1) by (simp add: lookup_const_def)
qed

theorem const_name_round_trip_witness:
  "lookup_const (cstr (const_name C_DISCOVER)) (length (const_name C_DISCOVER)) = Some C_DISCOVER \<and>
   const_name C_DISCOVER = ''discover''"
  using const_name_round_trip [of C_DISCOVER] by (simp add: const_name_def const_names_def)

end
