(* ===== verification/Answer_Msg.thy ===== *)
theory Answer_Msg
  imports Compress_Roundtrip Dns_Wire
begin

unbundle bit_operations_syntax

section \<open>Writing an answer: messages and records (dns_answer.c)\<close>

text \<open>
  The message under construction and the functions that append to it: \<^verbatim>\<open>add_rr\<close>,
  \<^verbatim>\<open>add_opt_pseudo_rr\<close>, \<^verbatim>\<open>remove_opt_pseudo_rr\<close>. The record \<open>answer\<close> holds what these functions
  get by reference: the allocated block (the bytes from the DNS header on), the size of the message,
  the size of the allocated block (which includes the two bytes of the length field before the
  header) and the compression buffer. Each call that allocates takes its outcome from \<open>an_mem\<close>
  (all succeed once it is used up), and memory that was not written yet holds arbitrary bytes,
  \<open>an_junk\<close>.
\<close>

subsection \<open>The message\<close>

definition ALLOCINITIALSIZE :: nat where "ALLOCINITIALSIZE = 256"
definition ALLOCCHUNKSIZEMASK :: int where "ALLOCCHUNKSIZEMASK = 0x7f"
definition dnsmsghdroffset :: nat where "dnsmsghdroffset = 2"
definition sizeof_rr_hdr :: nat where "sizeof_rr_hdr = 10"
definition sizeof_opt_pseudo_rr :: nat where "sizeof_opt_pseudo_rr = 1 + sizeof_rr_hdr"

abbreviation (input) T_OPT :: int where "T_OPT \<equiv> 41"
abbreviation (input) C_IN :: int where "C_IN \<equiv> 1"

lemmas size_defs = dnsmsghdroffset_def sizeof_rr_hdr_def sizeof_opt_pseudo_rr_def sizeof_dns_hdr_def

datatype sect = S_ANSWER | S_AUTHORITY | S_ADDITIONAL

record answer =
  an_buf :: "byte list"
  an_sz :: nat
  an_allocsz :: nat
  an_cb :: "compel list"
  an_mem :: "bool list"
  an_junk :: "nat \<Rightarrow> byte"

definition next_mem :: "answer \<Rightarrow> bool \<times> answer" where
  "next_mem a = (case an_mem a of [] \<Rightarrow> (True, a) | b # bs \<Rightarrow> (b, a\<lparr>an_mem := bs\<rparr>))"

text \<open>
  The growth of the message to a multiple of the chunk size when \<open>newsz\<close> bytes are needed, as it
  is written in \<^verbatim>\<open>add_rr\<close>, \<^verbatim>\<open>add_opt_pseudo_rr\<close> and \<^verbatim>\<open>compose_answer\<close>.
\<close>

definition answer_room :: "nat \<Rightarrow> answer \<Rightarrow> bool \<times> answer" where
  "answer_room newsz a =
     (if newsz > an_allocsz a
      then let newallocsz = nat ((int newsz + ALLOCCHUNKSIZEMASK) AND NOT ALLOCCHUNKSIZEMASK);
               (ok, a) = next_mem a
           in if \<not> ok then (False, a)
              else (True, a\<lparr>an_buf := an_buf a @ map (an_junk a) [length (an_buf a)..<newallocsz - dnsmsghdroffset],
                        an_allocsz := newallocsz\<rparr>)
      else (True, a))"

text \<open>\<^verbatim>\<open>memcpy\<close> to the end of the message, which grows by the bytes copied.\<close>

definition put_bytes :: "byte list \<Rightarrow> nat \<Rightarrow> answer \<Rightarrow> answer option" where
  "put_bytes src n a = do {
     b \<leftarrow> memcpy_at (an_buf a) (an_sz a) src n;
     Some (a\<lparr>an_buf := b, an_sz := an_sz a + n\<rparr>) }"

text \<open>
  \<^verbatim>\<open>compress_name\<close> to the end of the message, which grows by the result; 0 is the failure.
\<close>

definition put_name :: "byte list \<Rightarrow> answer \<Rightarrow> (nat \<times> answer) option" where
  "put_name inn a = (let (ok, a) = next_mem a in do {
     (n, out, cb) \<leftarrow> compress_name inn (drop (an_sz a) (an_buf a)) (an_sz a) (an_cb a) ok;
     Some (n, a\<lparr>an_buf := take (an_sz a) (an_buf a) @ out, an_sz := an_sz a + n, an_cb := cb\<rparr>) })"

subsection \<open>The record data, by type\<close>

text \<open>
  The cases of the \<^verbatim>\<open>switch\<close> of \<^verbatim>\<open>add_rr\<close>. The result is \<^verbatim>\<open>rdlen\<close>, or \<^term>\<open>None\<close> where
  \<^verbatim>\<open>add_rr\<close> returns 0.
\<close>

definition rdata_name :: "byte list \<Rightarrow> nat \<Rightarrow> answer \<Rightarrow> (nat option \<times> answer) option" where
  "rdata_name data dlen a = do {
     (rdlen, a) \<leftarrow> put_name data a;
     if rdlen = 0 then Some (None, a)
     else do { pdnsd_assert (rdlen \<le> dlen); Some (Some rdlen, a) } }"

definition rdata_two_names :: "byte list \<Rightarrow> nat \<Rightarrow> answer \<Rightarrow> (nat option \<times> answer) option" where
  "rdata_two_names data dlen a = do {
     (rdlen, a) \<leftarrow> put_name data a;
     if rdlen = 0 then Some (None, a)
     else do {
       ilen \<leftarrow> rhnlen data;
       pdnsd_assert (rdlen \<le> ilen);
       (blen, a) \<leftarrow> put_name (drop ilen data) a;
       if blen = 0 then Some (None, a)
       else do { pdnsd_assert (rdlen + blen \<le> dlen); Some (Some (rdlen + blen), a) } } }"

text \<open>\<open>k\<close> bytes (2 for MX and the like, 6 for SRV) and a name.\<close>

definition rdata_prefixed :: "nat \<Rightarrow> byte list \<Rightarrow> nat \<Rightarrow> answer \<Rightarrow> (nat option \<times> answer) option" where
  "rdata_prefixed k data dlen a = do {
     pdnsd_assert (dlen > k);
     a \<leftarrow> put_bytes data k a;
     (blen, a) \<leftarrow> put_name (drop k data) a;
     if blen = 0 then Some (None, a)
     else do { pdnsd_assert (k + blen \<le> dlen); Some (Some (k + blen), a) } }"

definition rdata_soa :: "byte list \<Rightarrow> nat \<Rightarrow> answer \<Rightarrow> (nat option \<times> answer) option" where
  "rdata_soa data dlen a = do {
     (rdlen, a) \<leftarrow> put_name data a;
     if rdlen = 0 then Some (None, a)
     else do {
       ilen \<leftarrow> rhnlen data;
       pdnsd_assert (rdlen \<le> ilen);
       (blen, a) \<leftarrow> put_name (drop ilen data) a;
       if blen = 0 then Some (None, a)
       else do {
         let rdlen = rdlen + blen;
         l \<leftarrow> rhnlen (drop ilen data);
         let ilen = ilen + l;
         pdnsd_assert (rdlen \<le> ilen);
         a \<leftarrow> put_bytes (drop ilen data) 20 a;
         pdnsd_assert (rdlen + 20 \<le> dlen);
         Some (Some (rdlen + 20), a) } } }"

definition rdata_px :: "byte list \<Rightarrow> nat \<Rightarrow> answer \<Rightarrow> (nat option \<times> answer) option" where
  "rdata_px data dlen a = do {
     pdnsd_assert (dlen > 2);
     a \<leftarrow> put_bytes data 2 a;
     (blen, a) \<leftarrow> put_name (drop 2 data) a;
     if blen = 0 then Some (None, a)
     else do {
       let rdlen = 2 + blen;
       l \<leftarrow> rhnlen (drop 2 data);
       let ilen = 2 + l;
       pdnsd_assert (rdlen \<le> ilen);
       (blen, a) \<leftarrow> put_name (drop ilen data) a;
       if blen = 0 then Some (None, a)
       else do { pdnsd_assert (rdlen + blen \<le> dlen); Some (Some (rdlen + blen), a) } } }"

definition rdata_nxt :: "byte list \<Rightarrow> nat \<Rightarrow> answer \<Rightarrow> (nat option \<times> answer) option" where
  "rdata_nxt data dlen a = do {
     (blen, a) \<leftarrow> put_name data a;
     if blen = 0 then Some (None, a)
     else do {
       ilen \<leftarrow> rhnlen data;
       pdnsd_assert (blen \<le> ilen);
       pdnsd_assert (dlen \<ge> ilen);
       if dlen > ilen
       then do { a \<leftarrow> put_bytes (drop ilen data) (dlen - ilen) a; Some (Some (blen + (dlen - ilen)), a) }
       else Some (Some blen, a) } }"

text \<open>The loop over the three strings of a NAPTR record: \<open>j\<close> are left.\<close>

fun naptr_len :: "byte list \<Rightarrow> nat \<Rightarrow> nat \<Rightarrow> nat \<Rightarrow> nat option" where
  "naptr_len data dlen 0 ilen = Some ilen"
| "naptr_len data dlen (Suc j) ilen = do {
     b \<leftarrow> rd data ilen;
     pdnsd_assert (dlen > ilen + unat b + 1);
     naptr_len data dlen j (ilen + unat b + 1) }"

definition rdata_naptr :: "byte list \<Rightarrow> nat \<Rightarrow> answer \<Rightarrow> (nat option \<times> answer) option" where
  "rdata_naptr data dlen a = do {
     pdnsd_assert (dlen > 4);
     ilen \<leftarrow> naptr_len data dlen 3 4;
     a \<leftarrow> put_bytes data ilen a;
     (blen, a) \<leftarrow> put_name (drop ilen data) a;
     if blen = 0 then Some (None, a)
     else do { pdnsd_assert (ilen + blen \<le> dlen); Some (Some (ilen + blen), a) } }"

definition put_rdata :: "int \<Rightarrow> byte list \<Rightarrow> nat \<Rightarrow> answer \<Rightarrow> (nat option \<times> answer) option" where
  "put_rdata type data dlen a =
     (if type \<in> {T_CNAME, T_MB, T_MD, T_MF, T_MG, T_MR, T_NS, T_PTR} then rdata_name data dlen a
      else if type \<in> {T_MINFO, T_RP} then rdata_two_names data dlen a
      else if type \<in> {T_MX, T_AFSDB, T_RT, T_KX} then rdata_prefixed 2 data dlen a
      else if type = T_SOA then rdata_soa data dlen a
      else if type = T_PX then rdata_px data dlen a
      else if type = T_SRV then rdata_prefixed 6 data dlen a
      else if type = T_NXT then rdata_nxt data dlen a
      else if type = T_NAPTR then rdata_naptr data dlen a
      else do { a \<leftarrow> put_bytes data dlen a; Some (Some dlen, a) })"

subsection \<open>Records\<close>

text \<open>The counter of a section in the header: \<^verbatim>\<open>htons(ntohs(count)+1)\<close>.\<close>

definition count_pos :: "sect \<Rightarrow> nat" where
  "count_pos s = (case s of S_ANSWER \<Rightarrow> 6 | S_AUTHORITY \<Rightarrow> 8 | S_ADDITIONAL \<Rightarrow> 10)"

definition inc_count :: "nat \<Rightarrow> answer \<Rightarrow> answer option" where
  "inc_count p a = do {
     (n, _) \<leftarrow> getint16 (drop p (an_buf a));
     (b, _) \<leftarrow> putint16 (n + 1) (an_buf a) p;
     Some (a\<lparr>an_buf := b\<rparr>) }"

definition put_rr_hdr :: "int \<Rightarrow> u32 \<Rightarrow> nat \<Rightarrow> nat \<Rightarrow> byte list \<Rightarrow> byte list option" where
  "put_rr_hdr type ttl rdlen rrht buf = do {
     (buf, p) \<leftarrow> putint16 (word_of_int type) buf rrht;
     (buf, p) \<leftarrow> putint16 (word_of_int C_IN) buf p;
     (buf, p) \<leftarrow> putint32 ttl buf p;
     (buf, p) \<leftarrow> putint16 (of_nat rdlen) buf p;
     Some buf }"

text \<open>The first block of \<^verbatim>\<open>add_rr\<close>: the name of the record, and space for all of it.\<close>

definition add_owner :: "byte list \<Rightarrow> nat \<Rightarrow> answer \<Rightarrow> (bool \<times> answer) option" where
  "add_owner rrn dlen a = do {
     let (ok, a) = next_mem a;
     (nlen, nbuf, cb) \<leftarrow> compress_name rrn (map (an_junk a) [0..<DNSNAMEBUFSIZE]) (an_sz a) (an_cb a) ok;
     let a = a\<lparr>an_cb := cb\<rparr>;
     if nlen = 0 then Some (False, a)
     else do {
       let (ok, a) = answer_room (dnsmsghdroffset + an_sz a + nlen + sizeof_rr_hdr + dlen) a;
       if \<not> ok then Some (False, a)
       else do {
         a \<leftarrow> put_bytes nbuf nlen a;
         Some (True, a) } } }"

text \<open>\<open>udp\<close> is the size limit of an answer over UDP.\<close>

definition beyond :: "nat option \<Rightarrow> nat \<Rightarrow> bool" where
  "beyond udp n \<longleftrightarrow> (case udp of None \<Rightarrow> False | Some u \<Rightarrow> n > u)"

definition add_rr ::
  "byte list \<Rightarrow> int \<Rightarrow> u32 \<Rightarrow> nat \<Rightarrow> byte list \<Rightarrow> sect \<Rightarrow> nat option \<Rightarrow> answer \<Rightarrow> (bool \<times> answer) option" where
  "add_rr rrn type ttl dlen data section udp a = do {
     let osz = an_sz a;
     (ok, a) \<leftarrow> add_owner rrn dlen a;
     if \<not> ok then Some (False, a)
     else do {
       let rrht = an_sz a;
       (r, a) \<leftarrow> put_rdata type data dlen (a\<lparr>an_sz := rrht + sizeof_rr_hdr\<rparr>);
       (case r of
          None \<Rightarrow> Some (False, a)
        | Some rdlen \<Rightarrow>
            if beyond udp (an_sz a) \<and> section = S_ADDITIONAL
            then Some (True, a\<lparr>an_sz := osz\<rparr>)
            else do {
              b \<leftarrow> put_rr_hdr type ttl rdlen rrht (an_buf a);
              a \<leftarrow> inc_count (count_pos section) (a\<lparr>an_buf := b\<rparr>);
              Some (True, a) }) } }"

definition add_opt_pseudo_rr :: "u16 \<Rightarrow> u16 \<Rightarrow> u16 \<Rightarrow> u16 \<Rightarrow> answer \<Rightarrow> (bool \<times> answer) option" where
  "add_opt_pseudo_rr udpsize rcode ednsver Zflags a =
     (let (ok, a) = answer_room (dnsmsghdroffset + an_sz a + sizeof_opt_pseudo_rr) a
      in if \<not> ok then Some (False, a)
         else do {
           let p = an_sz a;
           b \<leftarrow> wr (an_buf a) p 0;
           (b, p) \<leftarrow> putint16 (word_of_int T_OPT) b (p + 1);
           (b, p) \<leftarrow> putint16 udpsize b p;
           b \<leftarrow> wr b p (ucast (drop_bit 4 rcode));
           b \<leftarrow> wr b (p + 1) (ucast ednsver);
           (b, p) \<leftarrow> putint16 Zflags b (p + 2);
           (b, p) \<leftarrow> putint16 0 b p;
           a \<leftarrow> inc_count 10 (a\<lparr>an_buf := b, an_sz := an_sz a + sizeof_opt_pseudo_rr\<rparr>);
           Some (True, a) })"

text \<open>The result is the new size and the message, a buffer with \<open>sz\<close> bytes in use.\<close>

definition remove_opt_pseudo_rr :: "byte list \<Rightarrow> nat \<Rightarrow> (nat \<times> byte list) option" where
  "remove_opt_pseudo_rr ans sz = do {
     (acnt, _) \<leftarrow> getint16 (drop 10 ans);
     if \<not> (acnt > 0 \<and> sz \<ge> sizeof_dns_hdr + sizeof_opt_pseudo_rr) then Some (0, ans)
     else do {
       let sz = sz - sizeof_opt_pseudo_rr;
       b \<leftarrow> rd ans sz;
       if b \<noteq> 0 then Some (0, ans)
       else do {
         (type, _) \<leftarrow> getint16 (drop (sz + 1) ans);
         if type \<noteq> word_of_int T_OPT then Some (0, ans)
         else do {
           (ans, _) \<leftarrow> putint16 (acnt - 1) ans 10;
           Some (sz, ans) } } } }"

subsection \<open>What a message means\<close>

text \<open>
  Record data is a sequence of parts, plain bytes and names; in the cache the names are stored
  in full, in a message they may be compressed.
\<close>

datatype part = Lit "byte list" | Nm "label list"

primrec plain_part :: "part \<Rightarrow> byte list" where
  "plain_part (Lit bs) = bs"
| "plain_part (Nm ls) = wire ls"

definition plain :: "part list \<Rightarrow> byte list" where
  "plain ps = concat (map plain_part ps)"

lemma plain_simps [simp]: "plain [] = []" "plain (p # ps) = plain_part p @ plain ps" "plain (ps @ qs) = plain ps @ plain qs"
  by (simp_all add: plain_def)

primrec part_at :: "byte list \<Rightarrow> nat \<Rightarrow> part \<Rightarrow> nat \<Rightarrow> bool" where
  "part_at msg off (Lit bs) n \<longleftrightarrow> n = length bs \<and> off + n \<le> length msg \<and> take n (drop off msg) = bs"
| "part_at msg off (Nm ls) n \<longleftrightarrow> n \<le> length (wire ls) \<and> reads_at n (Suc (length ls)) msg off ls"

text \<open>A sequence of items, each of which takes some bytes of the message.\<close>

primrec seq_at :: "(byte list \<Rightarrow> nat \<Rightarrow> 'x \<Rightarrow> nat \<Rightarrow> bool) \<Rightarrow> byte list \<Rightarrow> nat \<Rightarrow> 'x list \<Rightarrow> nat \<Rightarrow> bool" where
  "seq_at P msg off [] n \<longleftrightarrow> n = 0"
| "seq_at P msg off (x # xs) n \<longleftrightarrow> (\<exists>k\<le>n. P msg off x k \<and> seq_at P msg (off + k) xs (n - k))"

abbreviation parts_at :: "byte list \<Rightarrow> nat \<Rightarrow> part list \<Rightarrow> nat \<Rightarrow> bool" where
  "parts_at \<equiv> seq_at part_at"

lemma seq_at_longer:
  assumes "\<And>off x n. P msg off x n \<Longrightarrow> P (msg @ y) off x n"
  shows "seq_at P msg off xs n \<Longrightarrow> seq_at P (msg @ y) off xs n"
proof (induction xs arbitrary: off n)
  case (Cons p ps)
  then obtain k where "k \<le> n" "P msg off p k" "seq_at P msg (off + k) ps (n - k)" by auto
  with Cons.IH assms show ?case by auto
qed simp

lemma seq_at_app:
  "seq_at P msg off ps n \<Longrightarrow> seq_at P msg (off + n) qs m \<Longrightarrow> seq_at P msg off (ps @ qs) (n + m)"
proof (induction ps arbitrary: off n)
  case (Cons p ps)
  then obtain k where k: "k \<le> n" "P msg off p k" "seq_at P msg (off + k) ps (n - k)" by auto
  have "seq_at P msg (off + k + (n - k)) qs m" using Cons.prems(2) k(1) by simp
  from Cons.IH [OF k(3) this] have "seq_at P msg (off + k) (ps @ qs) (n + m - k)" using k(1) by simp
  with k(1,2) show ?case unfolding append_Cons seq_at.simps by (intro exI [of _ k]) simp
qed simp

lemma seq_at_snoc: "seq_at P msg off xs n \<Longrightarrow> P msg (off + n) x m \<Longrightarrow> seq_at P msg off (xs @ [x]) (n + m)"
  by (erule seq_at_app) (simp, blast)

lemma part_at_append: "part_at msg off p n \<Longrightarrow> part_at (msg @ x) off p n"
  by (cases p) (auto intro: reads_at_append)

lemma parts_at_append: "parts_at msg off ps n \<Longrightarrow> parts_at (msg @ x) off ps n"
  by (rule seq_at_longer [where P = part_at]) (rule part_at_append)

lemmas parts_at_app = seq_at_app [where P = part_at]

text \<open>Messages that agree at the positions \<open>F\<close>.\<close>

definition agree :: "nat set \<Rightarrow> byte list \<Rightarrow> byte list \<Rightarrow> bool" where
  "agree F m m' \<longleftrightarrow> length m = length m' \<and> (\<forall>i<length m'. i \<in> F \<longrightarrow> m ! i = m' ! i)"

lemma agree_refl [simp, intro!]: "agree F m m"
  by (simp add: agree_def)

lemma agree_subset: "agree G m m' \<Longrightarrow> F \<subseteq> G \<Longrightarrow> agree F m m'"
  by (auto simp: agree_def)

text \<open>A message that agrees with a longer one, where the new positions are fixed.\<close>

lemma agree_longer:
  assumes "agree (F \<union> {length x..<length x + length y}) m (x @ y)"
  shows "m = take (length x) m @ y" "agree F (take (length x) m) x"
proof -
  have l: "length m = length x + length y" and e: "\<And>i. i < length x + length y \<Longrightarrow> i \<in> F \<or> length x \<le> i \<Longrightarrow> m ! i = (x @ y) ! i"
    using assms by (auto simp: agree_def)
  have "drop (length x) m = y"
    using l e by (intro nth_equalityI) auto
  then show "m = take (length x) m @ y" by (metis append_take_drop_id)
  show "agree F (take (length x) m) x" using l e by (auto simp: agree_def nth_append)
qed

text \<open>A message that agrees with a longer one, where the new positions are free.\<close>

lemma agree_prefix:
  assumes "agree F m (x @ y)"
  shows "m = take (length x) m @ drop (length x) m" "agree F (take (length x) m) x"
  using assms by (auto simp: agree_def nth_append)

subsection \<open>The invariant of the message under construction\<close>

text \<open>
  The bytes at the positions \<open>F\<close> are final; whatever the other bytes become, the compression
  buffer describes names that can be read from the message.
\<close>

definition built :: "nat set \<Rightarrow> ghost list \<Rightarrow> answer \<Rightarrow> bool" where
  "built F g a \<longleftrightarrow> an_cb a = cb_of g \<and> an_sz a \<le> length (an_buf a) \<and>
     length (an_buf a) + dnsmsghdroffset = an_allocsz a \<and> (\<forall>m. agree F m (take (an_sz a) (an_buf a)) \<longrightarrow> cb_inv m [] g)"

definition room :: "answer \<Rightarrow> nat" where "room a = length (an_buf a) - an_sz a"

text \<open>The bytes \<open>bs\<close> were appended; what else is known after this.\<close>

definition grown :: "answer \<Rightarrow> answer \<Rightarrow> byte list \<Rightarrow> bool" where
  "grown a a' bs \<longleftrightarrow> an_buf a' = take (an_sz a) (an_buf a) @ bs @ drop (an_sz a + length bs) (an_buf a) \<and>
     an_sz a' = an_sz a + length bs \<and> an_sz a + length bs \<le> length (an_buf a) \<and> an_allocsz a' = an_allocsz a \<and>
     an_junk a' = an_junk a \<and> (an_mem a = [] \<longrightarrow> an_mem a' = [])"

definition fixed_to :: "nat set \<Rightarrow> answer \<Rightarrow> answer \<Rightarrow> nat set" where
  "fixed_to F a a' = F \<union> {an_sz a..<an_sz a'}"

definition knows_more :: "ghost list \<Rightarrow> ghost list \<Rightarrow> bool" where
  "knows_more g g' \<longleftrightarrow> (\<forall>nm. known g nm \<longrightarrow> known g' nm)"

definition wrote :: "nat set \<Rightarrow> ghost list \<Rightarrow> answer \<Rightarrow> part list \<Rightarrow> nat \<Rightarrow> ghost list \<Rightarrow> answer \<Rightarrow> bool" where
  "wrote F g a ps n g' a' \<longleftrightarrow> (\<exists>bs. grown a a' bs \<and> n = length bs) \<and> n \<le> length (plain ps) \<and> built (fixed_to F a a') g' a' \<and>
     (\<forall>m. agree (fixed_to F a a') m (take (an_sz a') (an_buf a')) \<longrightarrow> parts_at m (an_sz a) ps n) \<and>
     knows_more g g' \<and> (an_sz a + n \<le> 0x4000 \<longrightarrow> (\<forall>ls. Nm ls \<in> set ps \<and> ls \<noteq> [] \<longrightarrow> known g' ls)) \<and>
     ((\<forall>ls. Nm ls \<in> set ps \<longrightarrow> known g ls) \<longrightarrow> g' = g)"

lemma knows_more_trans: "knows_more g g' \<Longrightarrow> knows_more g' g'' \<Longrightarrow> knows_more g g''"
  by (simp add: knows_more_def)

lemma knows_more_refl [simp]: "knows_more g g"
  by (simp add: knows_more_def)

lemma grown_take: "grown a a' bs \<Longrightarrow> take (an_sz a') (an_buf a') = take (an_sz a) (an_buf a) @ bs"
  by (simp add: grown_def)

lemma grown_trans:
  assumes "grown a b xs" "grown b c ys"
  shows "grown a c (xs @ ys)"
proof -
  have "take (an_sz a + length xs) (an_buf b) = take (an_sz a) (an_buf a) @ xs"
    using assms(1) by (simp add: grown_def)
  moreover have "drop (an_sz a + length xs + length ys) (an_buf b) = drop (an_sz a + length xs + length ys) (an_buf a)"
    using assms(1) by (simp add: grown_def add.commute)
  ultimately show ?thesis using assms by (auto simp: grown_def add.assoc)
qed

lemma wroteD:
  assumes "wrote F g a ps n g' a'"
  shows "built (fixed_to F a a') g' a'" "an_sz a' = an_sz a + n" "n \<le> length (plain ps)" "knows_more g g'"
    "length (an_buf a') = length (an_buf a)" "room a' = room a - n" "an_allocsz a' = an_allocsz a"
    "an_mem a = [] \<longrightarrow> an_mem a' = []" "an_sz a + n \<le> length (an_buf a)"
  using assms by (auto simp: wrote_def grown_def room_def)

lemma wrote_nil: "built F g a \<Longrightarrow> wrote F g a [] 0 g a"
  by (auto simp: wrote_def grown_def fixed_to_def built_def)

lemma fixed_to_trans: "an_sz a \<le> an_sz b \<Longrightarrow> an_sz b \<le> an_sz c \<Longrightarrow> fixed_to (fixed_to F a b) b c = fixed_to F a c"
  by (auto simp: fixed_to_def)

lemma wrote_trans:
  assumes 1: "wrote F g a ps n g1 b" and 2: "wrote (fixed_to F a b) g1 b qs k g2 c"
  shows "wrote F g a (ps @ qs) (n + k) g2 c"
proof -
  obtain xs ys where g: "grown a b xs" "n = length xs" "grown b c ys" "k = length ys"
    using 1 2 unfolding wrote_def by blast
  have sz: "an_sz b = an_sz a + n" "an_sz c = an_sz b + k" using g by (auto simp: grown_def)
  have F: "fixed_to (fixed_to F a b) b c = fixed_to F a c" using sz by (intro fixed_to_trans) simp_all
  have read: "parts_at m (an_sz a) (ps @ qs) (n + k)" if m: "agree (fixed_to F a c) m (take (an_sz c) (an_buf c))" for m
  proof -
    have q: "parts_at m (an_sz a + n) qs k" using 2 m F sz unfolding wrote_def by auto
    have tk: "take (an_sz c) (an_buf c) = take (an_sz b) (an_buf b) @ ys" by (rule grown_take [OF g(3)])
    have lb: "length (take (an_sz b) (an_buf b)) = an_sz b" using g(1) by (simp add: grown_def)
    have "agree (fixed_to F a b) m (take (an_sz b) (an_buf b) @ ys)"
      by (rule agree_subset [OF m [unfolded tk]]) (auto simp: fixed_to_def sz)
    from agree_prefix [OF this] have "m = take (an_sz b) m @ drop (an_sz b) m"
      "agree (fixed_to F a b) (take (an_sz b) m) (take (an_sz b) (an_buf b))" unfolding lb by blast+
    with 1 have "parts_at (take (an_sz b) m) (an_sz a) ps n" unfolding wrote_def by blast
    then have "parts_at m (an_sz a) ps n" using parts_at_append [of "take (an_sz b) m" "an_sz a" ps n "drop (an_sz b) m"] by simp
    from parts_at_app [OF this q] show ?thesis .
  qed
  have "\<exists>bs. grown a c bs \<and> n + k = length bs" using grown_trans [OF g(1,3)] g by auto
  then show ?thesis
    using 1 2 read sz unfolding wrote_def F by (auto intro: knows_more_trans simp: knows_more_def)
qed

end
