(* ===== verification/Answer_Rdata.thy ===== *)
theory Answer_Rdata
  imports Answer_Msg
begin

unbundle bit_operations_syntax

section \<open>The record data in an answer\<close>

text \<open>
  The record data that \<^verbatim>\<open>add_rr\<close> writes, for every case of its \<^verbatim>\<open>switch\<close>: no byte outside the block
  is touched, no assertion fails, and the data can be read back.
\<close>

lemma grownI:
  assumes "an_buf a' = take (an_sz a) (an_buf a) @ bs @ drop (an_sz a + length bs) (an_buf a)" "an_sz a' = an_sz a + length bs"
    "an_sz a + length bs \<le> length (an_buf a)" "an_allocsz a' = an_allocsz a" "an_junk a' = an_junk a" "an_mem a = [] \<longrightarrow> an_mem a' = []"
  shows "grown a a' bs"
  using assms by (simp add: grown_def)

lemma wroteI:
  assumes "built F g a" "grown a a' bs" "an_cb a' = cb_of g'" "length bs \<le> length (plain_part p)"
    and "\<And>m. length m = an_sz a \<Longrightarrow> cb_inv m [] g \<Longrightarrow> part_at (m @ bs) (an_sz a) p (length bs) \<and> cb_inv (m @ bs) [] g'"
    and "knows_more g g'" "an_sz a + length bs \<le> 0x4000 \<longrightarrow> (\<forall>ls. p = Nm ls \<and> ls \<noteq> [] \<longrightarrow> known g' ls)"
    and "(\<forall>ls. p = Nm ls \<longrightarrow> known g ls) \<longrightarrow> g' = g"
  shows "wrote F g a [p] (length bs) g' a'"
proof -
  have tk: "take (an_sz a') (an_buf a') = take (an_sz a) (an_buf a) @ bs" by (rule grown_take [OF assms(2)])
  have l: "length (take (an_sz a) (an_buf a)) = an_sz a" using assms(2) by (simp add: grown_def)
  have "parts_at m (an_sz a) [p] (length bs) \<and> cb_inv m [] g'"
    if m: "agree (fixed_to F a a') m (take (an_sz a') (an_buf a'))" for m
  proof -
    have "agree (F \<union> {an_sz a..<an_sz a + length bs}) m (take (an_sz a) (an_buf a) @ bs)"
      using m assms(2) unfolding tk by (simp add: grown_def fixed_to_def)
    from agree_longer [where x = "take (an_sz a) (an_buf a)", unfolded l, OF this]
    have m': "m = take (an_sz a) m @ bs" "agree F (take (an_sz a) m) (take (an_sz a) (an_buf a))" by blast+
    have "cb_inv (take (an_sz a) m) [] g" using m'(2) assms(1) unfolding built_def by blast
    moreover have "length (take (an_sz a) m) = an_sz a" using m'(2) l by (simp add: agree_def)
    ultimately have "part_at (take (an_sz a) m @ bs) (an_sz a) p (length bs) \<and> cb_inv (take (an_sz a) m @ bs) [] g'"
      by (intro assms(5))
    then show ?thesis using m'(1) by auto
  qed
  then show ?thesis
    using assms unfolding wrote_def built_def by (auto simp: grown_def)
qed

lemma put_bytes_step:
  assumes "built F g a" "n \<le> length src" "n \<le> room a"
  shows "\<exists>a'. put_bytes src n a = Some a' \<and> wrote F g a [Lit (take n src)] n g a'"
proof -
  let ?b = "take (an_sz a) (an_buf a) @ take n src @ drop (an_sz a + n) (an_buf a)"
  let ?a = "a\<lparr>an_buf := ?b, an_sz := an_sz a + n\<rparr>"
  have le: "an_sz a + n \<le> length (an_buf a)" using assms unfolding built_def room_def by auto
  then have p: "put_bytes src n a = Some ?a" using assms(2) by (simp add: put_bytes_def memcpy_at_def)
  have ln: "length (take n src) = n" using assms(2) by simp
  have "grown a ?a (take n src)" by (rule grownI) (use le ln in simp_all)
  moreover have "an_cb ?a = cb_of g" using assms(1) by (simp add: built_def)
  ultimately have "wrote F g a [Lit (take n src)] (length (take n src)) g ?a"
    using assms(1,2) by (intro wroteI) (auto intro: cb_inv_append_msg simp: min_absorb2)
  with p ln show ?thesis by auto
qed

definition name_result :: "nat set \<Rightarrow> ghost list \<Rightarrow> answer \<Rightarrow> label list \<Rightarrow> nat \<Rightarrow> answer \<Rightarrow> bool" where
  "name_result F g a ls n a' \<longleftrightarrow> (if n = 0 then an_mem a \<noteq> [] else (\<exists>g'. wrote F g a [Nm ls] n g' a'))"

lemma next_mem_cases: "\<exists>ok m. next_mem a = (ok, a\<lparr>an_mem := m\<rparr>) \<and> (an_mem a = [] \<longrightarrow> ok \<and> m = [])"
proof (cases "an_mem a")
  case Nil
  then have "a\<lparr>an_mem := []\<rparr> = a" by (cases a) simp
  with Nil show ?thesis by (auto simp: next_mem_def)
next
  case (Cons b bs)
  then show ?thesis by (auto simp: next_mem_def)
qed

lemma wrote_name:
  assumes b: "built F g a" and g: "grown a a' bs" and c: "an_cb a' = cb_of g'" and w: "name_written (an_sz a) g ls bs g'"
  shows "wrote F g a [Nm ls] (length bs) g' a'"
proof (rule wroteI [OF b g c])
  show "length bs \<le> length (plain_part (Nm ls))" using w by (simp add: name_written_def)
  show "part_at (m @ bs) (an_sz a) (Nm ls) (length bs) \<and> cb_inv (m @ bs) [] g'" if "length m = an_sz a" "cb_inv m [] g" for m
    using name_writtenD [OF w that] by simp
  show "knows_more g g'" using w by (simp add: name_written_def knows_more_def)
  have "an_sz a \<le> 0x3fff" if "an_sz a + length bs \<le> 0x4000"
  proof -
    have "0 < length bs" using w by (simp add: name_written_def)
    with that show ?thesis by linarith
  qed
  then show "an_sz a + length bs \<le> 0x4000 \<longrightarrow> (\<forall>ls'. Nm ls = Nm ls' \<and> ls' \<noteq> [] \<longrightarrow> known g' ls')"
    using w by (auto simp: name_written_def)
  show "(\<forall>ls'. Nm ls = Nm ls' \<longrightarrow> known g ls') \<longrightarrow> g' = g" using w by (simp add: name_written_def)
qed

lemma put_name_step:
  assumes b: "built F g a" and wf: "wf_name ls" and rm: "length (wire ls) \<le> room a"
  shows "\<exists>n a'. put_name (wire ls @ r) a = Some (n, a') \<and> name_result F g a ls n a'"
proof -
  let ?msg = "take (an_sz a) (an_buf a)" and ?out = "drop (an_sz a) (an_buf a)"
  have l: "length ?msg = an_sz a" and cb: "an_cb a = cb_of g" using b by (simp_all add: built_def)
  have "cb_inv ?msg [] g" using b unfolding built_def by blast
  moreover have "length (wire ls) \<le> length ?out" using rm by (simp add: room_def)
  ultimately obtain bs g' where c: "\<forall>ok. compress_name (wire ls @ r) ?out (an_sz a) (cb_of g) ok =
      Some (if ok \<or> g' = g then (length bs, bs @ drop (length bs) ?out, cb_of g') else (0, bs @ drop (length bs) ?out, []))"
    and w: "name_written (an_sz a) g ls bs g'"
    using compress_name_step [where msg = ?msg and g = g and as = ls and out = ?out and r = r] wf unfolding l by blast
  obtain m ok where m: "next_mem a = (ok, a\<lparr>an_mem := m\<rparr>)" "an_mem a = [] \<Longrightarrow> ok \<and> m = []"
    using next_mem_cases [of a] by blast
  have wl: "0 < length bs" "length bs \<le> length (wire ls)" using w by (auto simp: name_written_def)
  show ?thesis
  proof (cases "ok \<or> g' = g")
    case False
    with m(2) have "an_mem a \<noteq> []" by blast
    with False m(1) c cb show ?thesis by (simp add: put_name_def name_result_def del: wire_simps)
  next
    case True
    let ?a = "a\<lparr>an_mem := m, an_buf := ?msg @ bs @ drop (an_sz a + length bs) (an_buf a), an_sz := an_sz a + length bs, an_cb := cb_of g'\<rparr>"
    have p: "put_name (wire ls @ r) a = Some (length bs, ?a)"
      using True m(1) c cb by (simp add: put_name_def add.commute del: wire_simps)
    have g: "grown a ?a bs" by (rule grownI) (use wl rm m(2) b in \<open>auto simp: room_def built_def\<close>)
    have "wrote F g a [Nm ls] (length bs) g' ?a"
      by (rule wrote_name [OF b g _ w]) simp
    with p wl show ?thesis by (auto simp: name_result_def simp del: wire_simps)
  qed
qed

text \<open>The parts of the data of each type; a string of a NAPTR record has a length byte.\<close>

definition dns_string :: "byte list \<Rightarrow> byte list" where
  "dns_string s = of_nat (length s) # s"

definition rdata_shape :: "int \<Rightarrow> part list \<Rightarrow> bool" where
  "rdata_shape type ps \<longleftrightarrow>
     (if type \<in> {T_CNAME, T_MB, T_MD, T_MF, T_MG, T_MR, T_NS, T_PTR} then \<exists>l. ps = [Nm l]
      else if type \<in> {T_MINFO, T_RP} then \<exists>l l'. ps = [Nm l, Nm l']
      else if type \<in> {T_MX, T_AFSDB, T_RT, T_KX} then \<exists>b l. ps = [Lit b, Nm l] \<and> length b = 2
      else if type = T_SOA then \<exists>l l' b. ps = [Nm l, Nm l', Lit b] \<and> length b = 20
      else if type = T_PX then \<exists>b l l'. ps = [Lit b, Nm l, Nm l'] \<and> length b = 2
      else if type = T_SRV then \<exists>b l. ps = [Lit b, Nm l] \<and> length b = 6
      else if type = T_NXT then \<exists>l b. ps = [Nm l, Lit b]
      else if type = T_NAPTR then \<exists>h s t u l. ps = [Lit (h @ dns_string s @ dns_string t @ dns_string u), Nm l] \<and>
          length h = 4 \<and> length s < 256 \<and> length t < 256 \<and> length u < 256
      else \<exists>b. ps = [Lit b])"

definition rdata_ok :: "int \<Rightarrow> byte list \<Rightarrow> part list \<Rightarrow> bool" where
  "rdata_ok type data ps \<longleftrightarrow> rdata_shape type ps \<and> (\<forall>ls. Nm ls \<in> set ps \<longrightarrow> wf_name ls) \<and> plain ps = data"

definition rdata_result :: "nat set \<Rightarrow> ghost list \<Rightarrow> answer \<Rightarrow> part list \<Rightarrow> nat option \<Rightarrow> answer \<Rightarrow> bool" where
  "rdata_result F g a ps r a' \<longleftrightarrow> (case r of None \<Rightarrow> an_mem a \<noteq> [] | Some n \<Rightarrow> \<exists>g'. wrote F g a ps n g' a')"

lemma rdata_result_Some: "wrote F g a ps n g' a' \<Longrightarrow> rdata_result F g a ps (Some n) a'"
  by (auto simp: rdata_result_def)

lemma rdata_result_None: "an_mem a \<noteq> [] \<Longrightarrow> rdata_result F g a ps None a'"
  by (simp add: rdata_result_def)

lemma put_bytesE:
  assumes "built F g a" "n \<le> length src" "n \<le> room a"
  obtains a' where "put_bytes src n a = Some a'" "wrote F g a [Lit (take n src)] n g a'"
  using put_bytes_step [OF assms] by blast

lemma put_nameE:
  assumes "built F g a" "wf_name ls" "length (wire ls) \<le> room a" "src = wire ls @ r"
  obtains (none) a' where "put_name src a = Some (0, a')" "an_mem a \<noteq> []"
  | (some) n a' g' where "put_name src a = Some (n, a')" "n > 0" "wrote F g a [Nm ls] n g' a'"
proof -
  from put_name_step [OF assms(1-3), of r] obtain n a' where
    p: "put_name src a = Some (n, a')" "name_result F g a ls n a'" unfolding assms(4) by blast
  then show thesis by (cases "n = 0") (auto simp: name_result_def intro: none some)
qed

lemma wire_gt [simp]: "length (wire ls) > 0" "wire ls \<noteq> []"
  by (simp_all add: length_wire wire_def)

lemma rdata_name_ok:
  assumes b: "built F g a" and "wf_name l" "length (wire l) \<le> room a"
  shows "\<exists>r a'. rdata_name (wire l @ y) (length (wire l)) a = Some (r, a') \<and> rdata_result F g a [Nm l] r a'"
proof (rule put_nameE [OF assms, of "wire l @ y" y])
  fix a' assume "put_name (wire l @ y) a = Some (0, a')" "an_mem a \<noteq> []"
  then show ?thesis by (simp add: rdata_name_def rdata_result_None)
next
  fix n a' g' assume p: "put_name (wire l @ y) a = Some (n, a')" "n > 0" "wrote F g a [Nm l] n g' a'"
  then show ?thesis using wroteD(3) [OF p(3)] rdata_result_Some by (auto simp: rdata_name_def)
qed simp

lemma wf_rhnlen: "wf_name l \<Longrightarrow> rhnlen (wire l @ r) = Some (length (wire l))"
  by (rule rhnlen_wire [OF wf_nameD])

text \<open>A name followed by more parts: what is left is to write the rest.\<close>

lemma name_more:
  assumes w: "wrote F g a ps n g1 b" "rdata_result (fixed_to F a b) g1 b qs r c"
  shows "rdata_result F g a (ps @ qs) (map_option ((+) n) r) c"
proof (cases r)
  case None
  with w(2) wroteD(8) [OF w(1)] show ?thesis by (auto simp: rdata_result_def)
next
  case (Some k)
  with w(2) obtain g' where "wrote (fixed_to F a b) g1 b qs k g' c" by (auto simp: rdata_result_def)
  from wrote_trans [OF w(1) this] Some show ?thesis by (auto simp: rdata_result_def)
qed

lemma rdata_prefixed_ok:
  assumes b: "built F g a" and wf: "wf_name l" and "length p = k" and rm: "k + length (wire l) \<le> room a"
  shows "\<exists>r a'. rdata_prefixed k (p @ wire l @ y) (k + length (wire l)) a = Some (r, a') \<and> rdata_result F g a [Lit p, Nm l] r a'"
proof -
  from put_bytesE [OF b, of k "p @ wire l @ y"] assms(3) rm obtain b1 where
    1: "put_bytes (p @ wire l @ y) k a = Some b1" "wrote F g a [Lit p] k g b1" by auto
  note w = wroteD [OF 1(2)]
  have rm1: "length (wire l) \<le> room b1" and d: "drop k (p @ wire l @ y) = wire l @ y" using w(6) rm assms(3) by simp_all
  show ?thesis
  proof (cases rule: put_nameE [OF w(1) wf rm1 d, case_names none some])
    case (none a')
    with 1 w(8) show ?thesis by (auto simp: rdata_prefixed_def rdata_result_None simp del: drop_append)
  next
    case (some n a' g')
    have "rdata_result F g a ([Lit p] @ [Nm l]) (Some (k + n)) a'" by (rule rdata_result_Some [OF wrote_trans [OF 1(2) some(3)]])
    with 1 some(1,2) wroteD(3) [OF some(3)] show ?thesis
      by (auto simp: rdata_prefixed_def simp del: drop_append)
  qed
qed

lemma rdata_two_names_ok:
  assumes b: "built F g a" and wf: "wf_name l" "wf_name l'" and rm: "length (wire l @ wire l') \<le> room a"
  shows "\<exists>r a'. rdata_two_names (wire l @ wire l' @ y) (length (wire l @ wire l')) a = Some (r, a') \<and>
    rdata_result F g a [Nm l, Nm l'] r a'"
proof -
  have rm0: "length (wire l) \<le> room a" using rm by simp
  show ?thesis
  proof (cases rule: put_nameE [OF b wf(1) rm0 refl [of "wire l @ wire l' @ y"], case_names none some])
    case (none a')
    then show ?thesis by (simp add: rdata_two_names_def rdata_result_None)
  next
    case (some n b1 g1)
    note w = wroteD [OF some(3)]
    have rm1: "length (wire l') \<le> room b1" and d: "drop (length (wire l)) (wire l @ wire l' @ y) = wire l' @ y"
      using w(3,6) rm by simp_all
    show ?thesis
    proof (cases rule: put_nameE [OF w(1) wf(2) rm1 d, case_names none some])
      case (none a')
      with some w(3,8) show ?thesis by (auto simp: rdata_two_names_def rdata_result_None wf_rhnlen [OF wf(1)] simp del: drop_append)
    next
      case some2: (some k a' g')
      have "rdata_result F g a ([Nm l] @ [Nm l']) (Some (n + k)) a'" by (rule rdata_result_Some [OF wrote_trans [OF some(3) some2(3)]])
      with some(1,2) some2(1,2) w(3) wroteD(3) [OF some2(3)] show ?thesis
        by (auto simp: rdata_two_names_def wf_rhnlen [OF wf(1)] simp del: drop_append)
    qed
  qed
qed

lemma rdata_soa_ok:
  assumes b: "built F g a" and wf: "wf_name l" "wf_name l'" and p: "length p = 20"
    and rm: "length (wire l @ wire l' @ p) \<le> room a"
  shows "\<exists>r a'. rdata_soa (wire l @ wire l' @ p @ y) (length (wire l @ wire l' @ p)) a = Some (r, a') \<and>
    rdata_result F g a [Nm l, Nm l', Lit p] r a'"
proof -
  let ?d = "wire l @ wire l' @ p @ y"
  have rm0: "length (wire l) \<le> room a" using rm by simp
  show ?thesis
  proof (cases rule: put_nameE [OF b wf(1) rm0 refl [of ?d], case_names none some])
    case (none a')
    then show ?thesis by (simp add: rdata_soa_def rdata_result_None)
  next
    case (some n b1 g1)
    note w = wroteD [OF some(3)]
    have rm1: "length (wire l') \<le> room b1" and d: "drop (length (wire l)) ?d = wire l' @ p @ y"
      using w(3,6) rm by simp_all
    show ?thesis
    proof (cases rule: put_nameE [OF w(1) wf(2) rm1 d, case_names none some])
      case (none a')
      with some w(3,8) d show ?thesis by (auto simp: rdata_soa_def rdata_result_None wf_rhnlen [OF wf(1)] simp del: drop_append)
    next
      case some2: (some k b2 g')
      note w2 = wroteD [OF some2(3)]
      have d2: "drop (length (wire l) + length (wire l')) ?d = p @ y" by simp
      have "20 \<le> room b2" using p rm w(3,6) w2(3,6) by simp
      from put_bytesE [OF w2(1) _ this, of "p @ y"] p obtain b3 where
        3: "put_bytes (p @ y) 20 b2 = Some b3" "wrote (fixed_to (fixed_to F a b1) b1 b2) g' b2 [Lit p] 20 g' b3" by auto
      have "rdata_result F g a ([Nm l] @ [Nm l'] @ [Lit p]) (Some (n + (k + 20))) b3"
        by (rule rdata_result_Some [OF wrote_trans [OF some(3) wrote_trans [OF some2(3) 3(2)]]])
      with some(1,2) some2(1,2) w(3) w2(3) 3(1) d d2 p show ?thesis
        by (auto simp: rdata_soa_def wf_rhnlen [OF wf(1)] wf_rhnlen [OF wf(2)] add.assoc simp del: drop_append)
    qed
  qed
qed

lemma rdata_px_ok:
  assumes b: "built F g a" and wf: "wf_name l" "wf_name l'" and p: "length p = 2"
    and rm: "length (p @ wire l @ wire l') \<le> room a"
  shows "\<exists>r a'. rdata_px (p @ wire l @ wire l' @ y) (length (p @ wire l @ wire l')) a = Some (r, a') \<and>
    rdata_result F g a [Lit p, Nm l, Nm l'] r a'"
proof -
  let ?d = "p @ wire l @ wire l' @ y"
  from put_bytesE [OF b, of 2 ?d] p rm obtain b1 where
    1: "put_bytes ?d 2 a = Some b1" "wrote F g a [Lit p] 2 g b1" by auto
  note w = wroteD [OF 1(2)]
  have rm1: "length (wire l) \<le> room b1" and d: "drop 2 ?d = wire l @ wire l' @ y" using w(6) rm p by simp_all
  show ?thesis
  proof (cases rule: put_nameE [OF w(1) wf(1) rm1 d, case_names none some])
    case (none a')
    with 1 w(8) show ?thesis by (auto simp: rdata_px_def rdata_result_None p simp del: drop_append)
  next
    case (some n b2 g2)
    note w2 = wroteD [OF some(3)]
    have rm2: "length (wire l') \<le> room b2" and d2: "drop (2 + length (wire l)) ?d = wire l' @ y"
      using w(6) w2(3,6) rm p by simp_all
    show ?thesis
    proof (cases rule: put_nameE [OF w2(1) wf(2) rm2 d2, case_names none some])
      case (none a')
      with 1 some w(8) w2(3,8) d show ?thesis
        by (auto simp: rdata_px_def rdata_result_None wf_rhnlen [OF wf(1)] p simp del: drop_append)
    next
      case some2: (some k a' g')
      have "rdata_result F g a ([Lit p] @ [Nm l] @ [Nm l']) (Some (2 + (n + k))) a'"
        by (rule rdata_result_Some [OF wrote_trans [OF 1(2) wrote_trans [OF some(3) some2(3)]]])
      with 1 some(1,2) some2(1,2) w2(3) wroteD(3) [OF some2(3)] d p show ?thesis
        by (auto simp: rdata_px_def wf_rhnlen [OF wf(1)] simp del: drop_append)
    qed
  qed
qed

lemma rdata_nxt_ok:
  assumes b: "built F g a" and wf: "wf_name l" and rm: "length (wire l @ p) \<le> room a"
  shows "\<exists>r a'. rdata_nxt (wire l @ p @ y) (length (wire l @ p)) a = Some (r, a') \<and> rdata_result F g a [Nm l, Lit p] r a'"
proof -
  let ?d = "wire l @ p @ y"
  have rm0: "length (wire l) \<le> room a" using rm by simp
  show ?thesis
  proof (cases rule: put_nameE [OF b wf rm0 refl [of ?d], case_names none some])
    case (none a')
    then show ?thesis by (simp add: rdata_nxt_def rdata_result_None)
  next
    case (some n b1 g1)
    note w = wroteD [OF some(3)]
    have "length p \<le> room b1" using rm w(3,6) by simp
    from put_bytesE [OF w(1) _ this, of "p @ y"] obtain b2 where
      2: "put_bytes (p @ y) (length p) b1 = Some b2" "wrote (fixed_to F a b1) g1 b1 [Lit p] (length p) g1 b2" by auto
    have all: "rdata_result F g a ([Nm l] @ [Lit p]) (Some (n + length p)) b2"
      by (rule rdata_result_Some [OF wrote_trans [OF some(3) 2(2)]])
    show ?thesis
    proof (cases "p = []")
      case True
      have "put_bytes (p @ y) (length p) b1 = Some b1"
        using w(1) True by (simp add: put_bytes_def memcpy_at_def built_def)
      with all some(1,2) 2(1) True w(3) show ?thesis by (auto simp: rdata_nxt_def wf_rhnlen [OF wf] wf_rhnlen [OF wf, of "[]", simplified])
    next
      case False
      with all some(1,2) 2(1) w(3) show ?thesis by (auto simp: rdata_nxt_def wf_rhnlen [OF wf])
    qed
  qed
qed

lemma naptr_len_string:
  assumes "length s < 256"
  shows "naptr_len (h @ dns_string s @ r) dlen (Suc j) (length h) =
    (if dlen > length h + length (dns_string s) then naptr_len (h @ dns_string s @ r) dlen j (length h + length (dns_string s)) else None)"
  using assms by (simp add: rd_def nth_append dns_string_def pdnsd_assert_def)

lemma rdata_naptr_ok:
  assumes b: "built F g a" and wf: "wf_name l" and p: "p = h @ dns_string s @ dns_string t @ dns_string u" "length h = 4"
      "length s < 256" "length t < 256" "length u < 256"
    and rm: "length (p @ wire l) \<le> room a"
  shows "\<exists>r a'. rdata_naptr (p @ wire l @ y) (length (p @ wire l)) a = Some (r, a') \<and> rdata_result F g a [Lit p, Nm l] r a'"
proof -
  let ?d = "p @ wire l @ y" and ?n = "length (p @ wire l)"
  have "length (wire l) > 0" by simp
  then have n: "naptr_len ?d ?n 3 4 = Some (length p)"
    using naptr_len_string [OF p(3), of h "dns_string t @ dns_string u @ wire l @ y" ?n 2]
      naptr_len_string [OF p(4), of "h @ dns_string s" "dns_string u @ wire l @ y" ?n 1]
      naptr_len_string [OF p(5), of "h @ dns_string s @ dns_string t" "wire l @ y" ?n 0]
    by (simp del: naptr_len.simps(2) add: p(1,2) numeral_3_eq_3 numeral_2_eq_2 add.assoc)
  from put_bytesE [OF b, of "length p" ?d] rm obtain b1 where
    1: "put_bytes ?d (length p) a = Some b1" "wrote F g a [Lit p] (length p) g b1" by auto
  note w = wroteD [OF 1(2)]
  have rm1: "length (wire l) \<le> room b1" and d: "drop (length p) ?d = wire l @ y" using w(6) rm by simp_all
  have gt: "?n > 4" using p(1,2) by (simp add: dns_string_def)
  show ?thesis
  proof (cases rule: put_nameE [OF w(1) wf rm1 d, case_names none some])
    case (none a')
    with 1 n w(8) gt show ?thesis by (auto simp: rdata_naptr_def rdata_result_None simp del: drop_append length_append)
  next
    case (some k a' g')
    have "rdata_result F g a ([Lit p] @ [Nm l]) (Some (length p + k)) a'" by (rule rdata_result_Some [OF wrote_trans [OF 1(2) some(3)]])
    moreover have "length p + k \<le> ?n" using wroteD(3) [OF some(3)] by simp
    ultimately show ?thesis using 1 n some(1,2) gt by (auto simp: rdata_naptr_def simp del: drop_append length_append)
  qed
qed

lemma rdata_default_ok:
  assumes "built F g a" "length p \<le> room a"
  shows "\<exists>r a'. (do { a \<leftarrow> put_bytes (p @ y) (length p) a; Some (Some (length p), a) }) = Some (r, a') \<and> rdata_result F g a [Lit p] r a'"
proof -
  from put_bytesE [OF assms(1) _ assms(2), of "p @ y"] obtain b1 where
    "put_bytes (p @ y) (length p) a = Some b1" "wrote F g a [Lit p] (length p) g b1" by auto
  then show ?thesis using rdata_result_Some by auto
qed

lemma put_rdata_ok:
  assumes b: "built F g a" and ok: "rdata_ok type data ps" and rm: "length data \<le> room a"
  shows "\<exists>r a'. put_rdata type (data @ y) (length data) a = Some (r, a') \<and> rdata_result F g a ps r a'"
proof -
  have sh: "rdata_shape type ps" and wf: "\<And>ls. Nm ls \<in> set ps \<Longrightarrow> wf_name ls" and d: "data = plain ps"
    using ok by (auto simp: rdata_ok_def)
  have rm': "length (plain ps) \<le> room a" using rm d by simp
  note defs = put_rdata_def rdata_shape_def d
  consider (nm) "type \<in> {T_CNAME, T_MB, T_MD, T_MF, T_MG, T_MR, T_NS, T_PTR}" | (two) "type \<in> {T_MINFO, T_RP}"
    | (mx) "type \<in> {T_MX, T_AFSDB, T_RT, T_KX}" | (soa) "type = T_SOA" | (px) "type = T_PX" | (srv) "type = T_SRV"
    | (nxt) "type = T_NXT" | (naptr) "type = T_NAPTR"
    | (def) "type \<notin> {T_CNAME, T_MB, T_MD, T_MF, T_MG, T_MR, T_NS, T_PTR}" "type \<notin> {T_MINFO, T_RP}"
      "type \<notin> {T_MX, T_AFSDB, T_RT, T_KX}" "type \<notin> {T_SOA, T_PX, T_SRV, T_NXT, T_NAPTR}" by auto
  then show ?thesis
  proof cases
    case nm
    with sh obtain l where ps: "ps = [Nm l]" unfolding rdata_shape_def by auto
    have "put_rdata type (data @ y) (length data) a = rdata_name (wire l @ y) (length (wire l)) a"
      using nm by (simp add: put_rdata_def d ps)
    with rdata_name_ok [OF b, of l] wf rm' ps show ?thesis by simp
  next
    case two
    with sh obtain l l' where ps: "ps = [Nm l, Nm l']" unfolding rdata_shape_def by auto
    have "put_rdata type (data @ y) (length data) a = rdata_two_names (wire l @ wire l' @ y) (length (wire l @ wire l')) a"
      using two by (auto simp add: put_rdata_def d ps)
    with rdata_two_names_ok [OF b, of l l'] wf rm' ps show ?thesis by simp
  next
    case mx
    with sh obtain p l where ps: "ps = [Lit p, Nm l]" "length p = 2" unfolding rdata_shape_def by auto
    have "put_rdata type (data @ y) (length data) a = rdata_prefixed 2 (p @ wire l @ y) (2 + length (wire l)) a"
      using mx ps(2) by (auto simp add: put_rdata_def d ps(1))
    with rdata_prefixed_ok [OF b, of l p 2] wf rm' ps show ?thesis by simp
  next
    case soa
    with sh obtain l l' p where ps: "ps = [Nm l, Nm l', Lit p]" "length p = 20" unfolding rdata_shape_def by auto
    have "put_rdata type (data @ y) (length data) a = rdata_soa (wire l @ wire l' @ p @ y) (length (wire l @ wire l' @ p)) a"
      using soa by (simp add: put_rdata_def d ps(1))
    with rdata_soa_ok [OF b, of l l' p] wf rm' ps show ?thesis by simp
  next
    case px
    with sh obtain l l' p where ps: "ps = [Lit p, Nm l, Nm l']" "length p = 2" unfolding rdata_shape_def by auto
    have "put_rdata type (data @ y) (length data) a = rdata_px (p @ wire l @ wire l' @ y) (length (p @ wire l @ wire l')) a"
      using px by (simp add: put_rdata_def d ps(1))
    with rdata_px_ok [OF b, of l l' p] wf rm' ps show ?thesis by simp
  next
    case srv
    with sh obtain p l where ps: "ps = [Lit p, Nm l]" "length p = 6" unfolding rdata_shape_def by auto
    have "put_rdata type (data @ y) (length data) a = rdata_prefixed 6 (p @ wire l @ y) (6 + length (wire l)) a"
      using srv ps(2) by (simp add: put_rdata_def d ps(1))
    with rdata_prefixed_ok [OF b, of l p 6] wf rm' ps show ?thesis by simp
  next
    case nxt
    with sh obtain p l where ps: "ps = [Nm l, Lit p]" unfolding rdata_shape_def by auto
    have "put_rdata type (data @ y) (length data) a = rdata_nxt (wire l @ p @ y) (length (wire l @ p)) a"
      using nxt by (simp add: put_rdata_def d ps(1))
    with rdata_nxt_ok [OF b, of l p] wf rm' ps show ?thesis by simp
  next
    case naptr
    with sh obtain h s t u l where ps: "ps = [Lit (h @ dns_string s @ dns_string t @ dns_string u), Nm l]"
      "length h = 4" "length s < 256" "length t < 256" "length u < 256" unfolding rdata_shape_def by auto
    have "put_rdata type (data @ y) (length data) a = rdata_naptr ((h @ dns_string s @ dns_string t @ dns_string u) @ wire l @ y)
        (length ((h @ dns_string s @ dns_string t @ dns_string u) @ wire l)) a"
      using naptr by (simp add: put_rdata_def d ps(1))
    with rdata_naptr_ok [OF b _ refl ps(2-5), of l] wf rm' ps show ?thesis by simp
  next
    case def
    with sh obtain p where ps: "ps = [Lit p]" unfolding rdata_shape_def by auto
    have "put_rdata type (data @ y) (length data) a = (do { a \<leftarrow> put_bytes (p @ y) (length p) a; Some (Some (length p), a) })"
      using def by (auto simp add: put_rdata_def d ps(1))
    with rdata_default_ok [OF b, of p] rm' ps show ?thesis by simp
  qed
qed

end
