(* ===== verification/Answer_Rr.thy ===== *)
theory Answer_Rr
  imports Answer_Rdata
begin

unbundle bit_operations_syntax

section \<open>Whole records in an answer\<close>

text \<open>
  What a message contains (\<open>content\<close>), and that \<^verbatim>\<open>add_rr\<close> and \<^verbatim>\<open>add_opt_pseudo_rr\<close> add one record.
\<close>

subsection \<open>Space for a record\<close>

lemma and_not_chunk: "(x :: int) AND NOT 0x7f = 128 * (x div 128)"
proof -
  have "x AND NOT (mask 7) = push_bit 7 (drop_bit 7 x)"
    by (rule bit_eqI) (auto simp: bit_simps)
  then show ?thesis by (simp add: push_bit_eq_mult drop_bit_eq_div mask_eq_exp_minus_1)
qed

lemma chunk_ge: "n \<le> nat ((int n + ALLOCCHUNKSIZEMASK) AND NOT ALLOCCHUNKSIZEMASK)"
proof -
  have "int n \<le> 128 * ((int n + 127) div 128)" by presburger
  then have "int n \<le> (int n + 0x7f) AND NOT 0x7f" unfolding and_not_chunk by simp
  then show ?thesis unfolding ALLOCCHUNKSIZEMASK_def by linarith
qed

text \<open>A larger block for the same message.\<close>

definition extends :: "answer \<Rightarrow> answer \<Rightarrow> bool" where
  "extends a a' \<longleftrightarrow> (\<exists>x. an_buf a' = an_buf a @ x) \<and> an_sz a' = an_sz a \<and> an_cb a' = an_cb a \<and>
     an_junk a' = an_junk a \<and> (an_mem a = [] \<longrightarrow> an_mem a' = [])"

lemma extends_built:
  assumes "extends a a'" "built F g a" "length (an_buf a') + dnsmsghdroffset = an_allocsz a'"
  shows "built F g a'"
  using assms by (auto simp: extends_def built_def)

lemma answer_room_step:
  assumes "length (an_buf a) + dnsmsghdroffset = an_allocsz a"
  shows "\<exists>ok a'. answer_room newsz a = (ok, a') \<and> extends a a' \<and> length (an_buf a') + dnsmsghdroffset = an_allocsz a' \<and>
    (an_mem a = [] \<longrightarrow> ok) \<and> (ok \<longrightarrow> newsz \<le> an_allocsz a')"
proof (cases "newsz > an_allocsz a")
  case False
  then show ?thesis using assms by (intro exI [of _ True] exI [of _ a]) (simp add: answer_room_def extends_def)
next
  case True
  obtain ok m where m: "next_mem a = (ok, a\<lparr>an_mem := m\<rparr>)" "an_mem a = [] \<longrightarrow> ok \<and> m = []"
    using next_mem_cases [of a] by blast
  define k where "k = nat ((int newsz + ALLOCCHUNKSIZEMASK) AND NOT ALLOCCHUNKSIZEMASK)"
  have k: "newsz \<le> k" "dnsmsghdroffset \<le> k" "length (an_buf a) \<le> k - dnsmsghdroffset"
    using chunk_ge [of newsz] True assms by (auto simp: k_def dnsmsghdroffset_def)
  show ?thesis
  proof (cases ok)
    case False
    with True m assms show ?thesis
      by (intro exI [of _ False] exI [of _ "a\<lparr>an_mem := m\<rparr>"]) (simp add: answer_room_def extends_def)
  next
    case ok: True
    let ?a = "a\<lparr>an_mem := m, an_buf := an_buf a @ map (an_junk a) [length (an_buf a)..<k - dnsmsghdroffset], an_allocsz := k\<rparr>"
    have "answer_room newsz a = (True, ?a)" using True ok m(1) by (simp add: answer_room_def k_def Let_def)
    moreover have "extends a ?a" using m(2) by (simp add: extends_def)
    ultimately show ?thesis using k by auto
  qed
qed

lemma add_owner_step:
  assumes b: "built F g a" and wf: "wf_name nm"
  shows "\<exists>ok a'. add_owner (wire nm @ r) dlen a = Some (ok, a') \<and> (an_mem a = [] \<longrightarrow> ok) \<and>
    (ok \<longrightarrow> (\<exists>n g' a0. extends a a0 \<and> wrote F g a0 [Nm nm] n g' a' \<and> sizeof_rr_hdr + dlen \<le> room a' \<and>
       (\<exists>k. g' = g \<or> g' = g @ [(an_sz a, nm, k)])))"
proof -
  let ?msg = "take (an_sz a) (an_buf a)" and ?out = "map (an_junk a) [0..<DNSNAMEBUFSIZE]"
  have l: "length ?msg = an_sz a" and cb: "an_cb a = cb_of g" and al: "length (an_buf a) + dnsmsghdroffset = an_allocsz a"
    using b by (simp_all add: built_def)
  have "cb_inv ?msg [] g" using b unfolding built_def by blast
  moreover have "length (wire nm) \<le> length ?out" using wf by (simp add: wf_name_def)
  ultimately obtain bs g' where c: "\<forall>ok. compress_name (wire nm @ r) ?out (an_sz a) (cb_of g) ok =
      Some (if ok \<or> g' = g then (length bs, bs @ drop (length bs) ?out, cb_of g') else (0, bs @ drop (length bs) ?out, []))"
    and w: "name_written (an_sz a) g nm bs g'"
    using compress_name_step [where msg = ?msg and g = g and as = nm and out = ?out and r = r] wf unfolding l by blast
  have wl: "0 < length bs" "length bs \<le> length (wire nm)" using w by (auto simp: name_written_def)
  obtain m ok where m: "next_mem a = (ok, a\<lparr>an_mem := m\<rparr>)" "an_mem a = [] \<longrightarrow> ok \<and> m = []"
    using next_mem_cases [of a] by blast
  show ?thesis
  proof (cases "ok \<or> g' = g")
    case False
    with m c cb show ?thesis by (auto simp: add_owner_def simp del: wire_simps)
  next
    case True
    let ?a1 = "a\<lparr>an_mem := m, an_cb := cb_of g'\<rparr>" and ?sz = "dnsmsghdroffset + an_sz a + length bs + sizeof_rr_hdr + dlen"
    obtain ok2 a2 where r2: "answer_room ?sz ?a1 = (ok2, a2)" "extends ?a1 a2" "length (an_buf a2) + dnsmsghdroffset = an_allocsz a2"
        "an_mem ?a1 = [] \<longrightarrow> ok2" "ok2 \<longrightarrow> ?sz \<le> an_allocsz a2"
      using answer_room_step [of ?a1 ?sz] al by auto
    have step: "add_owner (wire nm @ r) dlen a = (if \<not> ok2 then Some (False, a2)
        else do { a \<leftarrow> put_bytes (bs @ drop (length bs) ?out) (length bs) a2; Some (True, a) })"
      using True m(1) c cb wl(1) r2(1) by (simp add: add_owner_def del: wire_simps)
    show ?thesis
    proof (cases ok2)
      case False
      with step r2(4) m(2) show ?thesis by auto
    next
      case ok2: True
      let ?a0 = "a2\<lparr>an_cb := an_cb a\<rparr>"
      let ?b = "take (an_sz a2) (an_buf a2) @ bs @ drop (an_sz a2 + length bs) (an_buf a2)"
      let ?a3 = "a2\<lparr>an_buf := ?b, an_sz := an_sz a2 + length bs\<rparr>"
      have le: "an_sz a2 + length bs + sizeof_rr_hdr + dlen \<le> length (an_buf a2)" using r2(2,3,5) ok2 by (auto simp: extends_def)
      then have p: "put_bytes (bs @ drop (length bs) ?out) (length bs) a2 = Some ?a3"
        by (simp add: put_bytes_def memcpy_at_def)
      have e: "extends a ?a0" using r2(2) m(2) by (auto simp: extends_def)
      then have b0: "built F g ?a0" using extends_built [OF e b] r2(3) by simp
      have g: "grown ?a0 ?a3 bs" by (rule grownI) (use le in auto)
      have sz: "an_sz ?a0 = an_sz a" using e by (simp add: extends_def)
      have cb3: "an_cb ?a3 = cb_of g'" using r2(2) by (simp add: extends_def)
      have "wrote F g ?a0 [Nm nm] (length bs) g' ?a3"
        by (rule wrote_name [OF b0 g cb3 w [folded sz]])
      moreover have "sizeof_rr_hdr + dlen \<le> room ?a3" using le by (simp add: room_def)
      moreover have "\<exists>k. g' = g \<or> g' = g @ [(an_sz a, nm, k)]" using w unfolding name_written_def by blast
      moreover have "add_owner (wire nm @ r) dlen a = Some (True, ?a3)" using step ok2 p by (simp del: wire_simps)
      ultimately show ?thesis using e by blast
    qed
  qed
qed

subsection \<open>Questions and records in a message\<close>

definition u16_bytes :: "u16 \<Rightarrow> byte list" where "u16_bytes s = [ucast (drop_bit 8 s), ucast s]"
definition u32_bytes :: "u32 \<Rightarrow> byte list" where
  "u32_bytes l = [ucast (drop_bit 24 l), ucast (drop_bit 16 l), ucast (drop_bit 8 l), ucast l]"

lemma length_int_bytes [simp]: "length (u16_bytes s) = 2" "length (u32_bytes l) = 4"
  by (simp_all add: u16_bytes_def u32_bytes_def)

lemma getint16_bytes [simp]: "getint16 (u16_bytes s @ r) = Some (s, r)"
  by (simp add: getint16_def rd_def u16_bytes_def word_join16)

lemma getint32_bytes [simp]: "getint32 (u32_bytes s @ r) = Some (s, r)"
  using word_join32 [of s] by (simp add: getint32_def rd_def u32_bytes_def)

lemma getint16_eq:
  assumes "2 \<le> length b"
  obtains s where "getint16 b = Some (s, drop 2 b)" "take 2 b = u16_bytes s"
proof -
  obtain x y r where b: "b = x # y # r" using assms by (cases b; cases "tl b") auto
  let ?s = "push_bit 8 (ucast x) OR ucast y :: u16"
  have "(ucast (drop_bit 8 ?s) :: byte) = x" by (rule bit_word_eqI) (auto simp: bit_simps dest: bit_imp_le_length)
  moreover have "(ucast ?s :: byte) = y" by (rule bit_word_eqI) (auto simp: bit_simps)
  ultimately have "take 2 b = u16_bytes ?s" by (simp add: b u16_bytes_def)
  then show thesis by (intro that [of ?s]) (simp_all add: b getint16_def rd_def)
qed

record question =
  q_name :: "label list"
  q_type :: u16
  q_class :: u16

record msg_rr =
  mr_name :: "label list"
  mr_type :: u16
  mr_class :: u16
  mr_ttl :: u32
  mr_data :: "part list"

definition q_at :: "byte list \<Rightarrow> nat \<Rightarrow> question \<Rightarrow> nat \<Rightarrow> bool" where
  "q_at msg off q n \<longleftrightarrow> (\<exists>k. n = k + 4 \<and> off + n \<le> length msg \<and> reads_at k (Suc (length (q_name q))) msg off (q_name q) \<and>
     take 4 (drop (off + k) msg) = u16_bytes (q_type q) @ u16_bytes (q_class q))"

definition rr_at :: "byte list \<Rightarrow> nat \<Rightarrow> msg_rr \<Rightarrow> nat \<Rightarrow> bool" where
  "rr_at msg off r n \<longleftrightarrow> (\<exists>k j. n = k + 10 + j \<and> off + n \<le> length msg \<and> j < 65536 \<and>
     reads_at k (Suc (length (mr_name r))) msg off (mr_name r) \<and>
     take 10 (drop (off + k) msg) = u16_bytes (mr_type r) @ u16_bytes (mr_class r) @ u32_bytes (mr_ttl r) @ u16_bytes (of_nat j) \<and>
     parts_at msg (off + k + 10) (mr_data r) j)"

lemma q_at_append: "q_at msg off q n \<Longrightarrow> q_at (msg @ x) off q n"
  unfolding q_at_def by (auto intro: reads_at_append)

lemma rr_at_append: "rr_at msg off r n \<Longrightarrow> rr_at (msg @ x) off r n"
proof -
  assume "rr_at msg off r n"
  then obtain k j where r: "n = k + 10 + j" "off + n \<le> length msg" "j < 65536"
    "reads_at k (Suc (length (mr_name r))) msg off (mr_name r)"
    "take 10 (drop (off + k) msg) = u16_bytes (mr_type r) @ u16_bytes (mr_class r) @ u32_bytes (mr_ttl r) @ u16_bytes (of_nat j)"
    "parts_at msg (off + k + 10) (mr_data r) j" unfolding rr_at_def by blast
  then have "take 10 (drop (off + k) (msg @ x)) = take 10 (drop (off + k) msg)" by simp
  with r reads_at_append [OF r(4), of x] parts_at_append [OF r(6), of x] show ?thesis
    unfolding rr_at_def by (intro exI [of _ k] exI [of _ j]) (simp del: take_append drop_append)
qed

text \<open>The part of a message behind the header.\<close>

definition body_at :: "byte list \<Rightarrow> question list \<Rightarrow> msg_rr list \<Rightarrow> bool" where
  "body_at m qs rs \<longleftrightarrow> (\<exists>n k. seq_at q_at m sizeof_dns_hdr qs n \<and> seq_at rr_at m (sizeof_dns_hdr + n) rs k \<and>
     sizeof_dns_hdr + n + k = length m)"

text \<open>The records of the three sections; the four counters of the header.\<close>

definition all_rrs :: "(sect \<Rightarrow> msg_rr list) \<Rightarrow> msg_rr list" where
  "all_rrs R = R S_ANSWER @ R S_AUTHORITY @ R S_ADDITIONAL"

definition counts :: "question list \<Rightarrow> (sect \<Rightarrow> msg_rr list) \<Rightarrow> byte list" where
  "counts qs R = u16_bytes (of_nat (length qs)) @ u16_bytes (of_nat (length (R S_ANSWER))) @
     u16_bytes (of_nat (length (R S_AUTHORITY))) @ u16_bytes (of_nat (length (R S_ADDITIONAL)))"

text \<open>
  The answer under construction: questions \<open>qs\<close> and the records \<open>R\<close>; \<open>f\<close> are the first four
  bytes of the header (id and flags).
\<close>

definition content :: "byte list \<Rightarrow> question list \<Rightarrow> (sect \<Rightarrow> msg_rr list) \<Rightarrow> ghost list \<Rightarrow> answer \<Rightarrow> bool" where
  "content f qs R g a \<longleftrightarrow> built {sizeof_dns_hdr..} g a \<and> sizeof_dns_hdr \<le> an_sz a \<and>
     (\<forall>m. agree {sizeof_dns_hdr..} m (take (an_sz a) (an_buf a)) \<longrightarrow> body_at m qs (all_rrs R)) \<and>
     take sizeof_dns_hdr (an_buf a) = f @ counts qs R \<and> length f = 4"

text \<open>No record of a later section is there yet.\<close>

definition last_sect :: "sect \<Rightarrow> (sect \<Rightarrow> msg_rr list) \<Rightarrow> bool" where
  "last_sect s R \<longleftrightarrow> (s \<noteq> S_ADDITIONAL \<longrightarrow> R S_ADDITIONAL = []) \<and> (s = S_ANSWER \<longrightarrow> R S_AUTHORITY = [])"

lemma all_rrs_add: "last_sect s R \<Longrightarrow> all_rrs (R(s := R s @ [r])) = all_rrs R @ [r]"
  by (cases s) (simp_all add: all_rrs_def last_sect_def)

lemma putint16_bytes: "i + 2 \<le> length buf \<Longrightarrow> putint16 s buf i = Some (take i buf @ u16_bytes s @ drop (i + 2) buf, i + 2)"
  unfolding u16_bytes_def by (rule putint16_eq)

lemma putint32_bytes: "i + 4 \<le> length buf \<Longrightarrow> putint32 s buf i = Some (take i buf @ u32_bytes s @ drop (i + 4) buf, i + 4)"
  unfolding u32_bytes_def by (rule putint32_eq)

definition rr_hdr_bytes :: "int \<Rightarrow> u32 \<Rightarrow> nat \<Rightarrow> byte list" where
  "rr_hdr_bytes type ttl rdlen = u16_bytes (word_of_int type) @ u16_bytes 1 @ u32_bytes ttl @ u16_bytes (of_nat rdlen)"

lemma length_rr_hdr_bytes [simp]: "length (rr_hdr_bytes type ttl rdlen) = 10"
  by (simp add: rr_hdr_bytes_def)

lemma put_rr_hdr_step:
  assumes "i + 10 \<le> length buf"
  shows "put_rr_hdr type ttl rdlen i buf = Some (take i buf @ rr_hdr_bytes type ttl rdlen @ drop (i + 10) buf)"
proof -
  have l: "length (take i buf) = i" using assms by simp
  show ?thesis using assms l
    by (simp add: put_rr_hdr_def putint16_bytes putint32_bytes rr_hdr_bytes_def add.commute [of 10])
qed

lemma inc_count_step:
  assumes "take sizeof_dns_hdr (an_buf a) = x @ u16_bytes n @ y" "length x = p"
  shows "inc_count p a = Some (a\<lparr>an_buf := (x @ u16_bytes (n + 1) @ y) @ drop sizeof_dns_hdr (an_buf a)\<rparr>)"
proof -
  have b: "an_buf a = x @ u16_bytes n @ (y @ drop sizeof_dns_hdr (an_buf a))"
    using append_take_drop_id [of sizeof_dns_hdr "an_buf a"] assms(1) by simp
  have "getint16 (drop p (an_buf a)) = Some (n, y @ drop sizeof_dns_hdr (an_buf a))"
    by (subst b) (simp add: assms(2) [symmetric])
  moreover have "putint16 (n + 1) (an_buf a) p = Some (x @ u16_bytes (n + 1) @ (y @ drop sizeof_dns_hdr (an_buf a)), p + 2)"
    by (subst b) (simp add: assms(2) [symmetric] putint16_bytes)
  ultimately show ?thesis by (simp add: inc_count_def)
qed

lemma inc_count_sect:
  assumes "take sizeof_dns_hdr (an_buf a) = f @ counts qs R" "length f = 4"
  shows "inc_count (count_pos s) a =
    Some (a\<lparr>an_buf := (f @ counts qs (R(s := R s @ [r]))) @ drop sizeof_dns_hdr (an_buf a)\<rparr>)"
proof (cases s)
  case S_ANSWER
  with inc_count_step [where x = "f @ u16_bytes (of_nat (length qs))" and n = "of_nat (length (R S_ANSWER))" and
    y = "u16_bytes (of_nat (length (R S_AUTHORITY))) @ u16_bytes (of_nat (length (R S_ADDITIONAL)))" and a = a and p = 6] assms
  show ?thesis by (simp add: counts_def count_pos_def add.commute)
next
  case S_AUTHORITY
  with inc_count_step [where x = "f @ u16_bytes (of_nat (length qs)) @ u16_bytes (of_nat (length (R S_ANSWER)))" and
    n = "of_nat (length (R S_AUTHORITY))" and y = "u16_bytes (of_nat (length (R S_ADDITIONAL)))" and a = a and p = 8] assms
  show ?thesis by (simp add: counts_def count_pos_def add.commute)
next
  case S_ADDITIONAL
  with inc_count_step [where x = "f @ u16_bytes (of_nat (length qs)) @ u16_bytes (of_nat (length (R S_ANSWER))) @
    u16_bytes (of_nat (length (R S_AUTHORITY)))" and n = "of_nat (length (R S_ADDITIONAL))" and y = "[]" and a = a and p = 10] assms
  show ?thesis by (simp add: counts_def count_pos_def add.commute)
qed

lemma length_counts [simp]: "length (counts qs R) = 8"
  by (simp add: counts_def)

lemma agree_take:
  assumes "n \<le> length b"
  shows "agree F m (take n b) \<longleftrightarrow> length m = n \<and> (\<forall>i<n. i \<in> F \<longrightarrow> m ! i = b ! i)"
  using assms by (auto simp: agree_def min_absorb2)

lemma reserve_step:
  assumes "built F g a" "k \<le> room a"
  shows "built (F - {an_sz a..<an_sz a + k}) g (a\<lparr>an_sz := an_sz a + k\<rparr>)"
proof -
  have le: "an_sz a + k \<le> length (an_buf a)" using assms by (auto simp: built_def room_def)
  have "cb_inv m [] g" if m: "agree (F - {an_sz a..<an_sz a + k}) m (take (an_sz a + k) (an_buf a))" for m
  proof -
    have "agree F (take (an_sz a) m) (take (an_sz a) (an_buf a))"
      using m le by (simp add: agree_take)
    then have "cb_inv (take (an_sz a) m) [] g" using assms(1) unfolding built_def by blast
    from cb_inv_append_msg [OF this, of "drop (an_sz a) m"] show ?thesis by simp
  qed
  with assms(1) le show ?thesis by (simp add: built_def)
qed

text \<open>What the bytes of a record in place mean.\<close>

lemma rr_atI:
  assumes "reads_at k (Suc (length (mr_name r))) msg off (mr_name r)" "off + (k + 10 + j) \<le> length msg" "j < 65536"
    and "take 10 (drop (off + k) msg) = u16_bytes (mr_type r) @ u16_bytes (mr_class r) @ u32_bytes (mr_ttl r) @ u16_bytes (of_nat j)"
    and "parts_at msg (off + k + 10) (mr_data r) j"
  shows "rr_at msg off r (k + 10 + j)"
  using assms unfolding rr_at_def by blast

lemma body_snoc:
  assumes "body_at m qs rs" "rr_at (m @ x) (length m) r (length x)"
  shows "body_at (m @ x) qs (rs @ [r])"
proof -
  from assms(1) obtain n k where b: "seq_at q_at m sizeof_dns_hdr qs n" "seq_at rr_at m (sizeof_dns_hdr + n) rs k"
    "sizeof_dns_hdr + n + k = length m" unfolding body_at_def by blast
  have "seq_at q_at (m @ x) sizeof_dns_hdr qs n" using b(1) by (rule seq_at_longer [where P = q_at, rotated]) (rule q_at_append)
  moreover have "seq_at rr_at (m @ x) (sizeof_dns_hdr + n) rs k" using b(2) by (rule seq_at_longer [where P = rr_at, rotated]) (rule rr_at_append)
  with assms(2) b(3) have "seq_at rr_at (m @ x) (sizeof_dns_hdr + n) (rs @ [r]) (k + length x)" by (intro seq_at_snoc) simp_all
  ultimately show ?thesis unfolding body_at_def using b(3)
    by (intro exI [of _ n] exI [of _ "k + length x"]) simp
qed

definition rr_of :: "label list \<Rightarrow> int \<Rightarrow> u32 \<Rightarrow> part list \<Rightarrow> msg_rr" where
  "rr_of nm type ttl ps = \<lparr>mr_name = nm, mr_type = word_of_int type, mr_class = 1, mr_ttl = ttl, mr_data = ps\<rparr>"

text \<open>
  The outcome of adding a record \<open>r\<close> of at most \<open>n\<close> bytes: it is at the end of its section, or
  (additional records over UDP only) it does not fit and the message is as before.
\<close>

definition rr_outcome :: "byte list \<Rightarrow> question list \<Rightarrow> (sect \<Rightarrow> msg_rr list) \<Rightarrow> ghost list \<Rightarrow> answer \<Rightarrow>
    sect \<Rightarrow> nat option \<Rightarrow> msg_rr \<Rightarrow> nat \<Rightarrow> answer \<Rightarrow> bool" where
  "rr_outcome f qs R g a s udp r n a' \<longleftrightarrow> (\<exists>g'. knows_more g g' \<and>
     (content f qs R g' a' \<and> an_sz a' = an_sz a \<and> s = S_ADDITIONAL \<and> beyond udp (an_sz a + n) \<or>
      content f qs (R(s := R s @ [r])) g' a' \<and> an_sz a \<le> an_sz a' \<and> an_sz a' \<le> an_sz a + n \<and> (s = S_ADDITIONAL \<longrightarrow> \<not> beyond udp (an_sz a')) \<and>
      (an_sz a' \<le> 0x4000 \<longrightarrow> (\<forall>ls. Nm ls \<in> set (mr_data r) \<and> ls \<noteq> [] \<longrightarrow> known g' ls))))"

lemma fixed_hdr: "sizeof_dns_hdr \<le> an_sz a \<Longrightarrow> fixed_to {sizeof_dns_hdr..} a a' = {sizeof_dns_hdr..}"
  by (auto simp: fixed_to_def)

text \<open>The final message after the header of the record and the counter have been stored.\<close>

lemma add_rr_final:
  fixes type :: int and ttl :: u32
  assumes c: "content f qs R g a" and e: "extends a a0" and w1: "wrote {sizeof_dns_hdr..} g a0 [Nm nm] n g1 a1"
    and w2: "wrote ({sizeof_dns_hdr..} - {an_sz a1..<an_sz a1 + 10}) g1 (a1\<lparr>an_sz := an_sz a1 + 10\<rparr>) ps j g2 a3"
    and j: "j < 65536" and s: "last_sect s R"
  defines "r \<equiv> rr_of nm type ttl ps"
  shows "\<exists>b a'. put_rr_hdr type ttl j (an_sz a1) (an_buf a3) = Some b \<and> inc_count (count_pos s) (a3\<lparr>an_buf := b\<rparr>) = Some a' \<and>
    content f qs (R(s := R s @ [r])) g2 a' \<and> an_sz a' = an_sz a3 \<and> an_mem a' = an_mem a3"
proof -
  let ?H = "{sizeof_dns_hdr..}" and ?F = "{sizeof_dns_hdr..} - {an_sz a1..<an_sz a1 + 10}"
  let ?a2 = "a1\<lparr>an_sz := an_sz a1 + 10\<rparr>"
  have f: "length f = 4" and hd: "take sizeof_dns_hdr (an_buf a) = f @ counts qs R" and h: "sizeof_dns_hdr \<le> an_sz a"
    and bd: "\<And>m. agree ?H m (take (an_sz a) (an_buf a)) \<Longrightarrow> body_at m qs (all_rrs R)"
    and le: "an_sz a \<le> length (an_buf a)" using c by (auto simp: content_def built_def)
  obtain x where x: "an_buf a0 = an_buf a @ x" "an_sz a0 = an_sz a" using e by (auto simp: extends_def)
  obtain xs where g1: "grown a0 a1 xs" "n = length xs" using w1 unfolding wrote_def by blast
  obtain ys where g2: "grown ?a2 a3 ys" "j = length ys" using w2 unfolding wrote_def by blast
  have sz: "an_sz a1 = an_sz a + n" "an_sz a3 = an_sz a1 + 10 + j" and len: "length (an_buf a3) = length (an_buf a1)"
    "an_sz a3 \<le> length (an_buf a3)" using g1 g2 x(2) wroteD [OF w2] by (auto simp: grown_def)
  have t1: "take (an_sz a) (an_buf a1) = take (an_sz a) (an_buf a)" using g1(1) x le by (simp add: grown_def)
  have t3: "take (an_sz a1 + 10) (an_buf a3) = take (an_sz a1 + 10) (an_buf a1)" using g2(1) by (simp add: grown_def)
  have hd3: "take sizeof_dns_hdr (an_buf a3) = f @ counts qs R"
  proof -
    have "take sizeof_dns_hdr (an_buf a3) = take sizeof_dns_hdr (take (an_sz a) (take (an_sz a1 + 10) (an_buf a3)))"
      using h sz by (simp add: min_def)
    also have "\<dots> = take sizeof_dns_hdr (take (an_sz a) (an_buf a))" unfolding t3 using t1 sz by (simp add: min_def)
    finally show ?thesis using hd h by (simp add: min_def)
  qed
  let ?b = "take (an_sz a1) (an_buf a3) @ rr_hdr_bytes type ttl j @ drop (an_sz a1 + 10) (an_buf a3)"
  have p: "put_rr_hdr type ttl j (an_sz a1) (an_buf a3) = Some ?b" using len sz by (intro put_rr_hdr_step) simp
  have hdb: "take sizeof_dns_hdr ?b = f @ counts qs R" using hd3 h sz len by (simp add: min_def)
  let ?c = "(f @ counts qs (R(s := R s @ [r]))) @ drop sizeof_dns_hdr ?b"
  let ?a' = "a3\<lparr>an_buf := ?c\<rparr>"
  have q: "inc_count (count_pos s) (a3\<lparr>an_buf := ?b\<rparr>) = Some ?a'"
    using inc_count_sect [where a = "a3\<lparr>an_buf := ?b\<rparr>" and f = f and qs = qs and R = R and s = s and r = r] hdb f by simp
  have lb: "length ?b = length (an_buf a3)" using len sz by simp
  have lc: "length ?c = length (an_buf a3)" using lb f h sz len by (simp add: sizeof_dns_hdr_def)
  have lf: "length (f @ counts qs (R(s := R s @ [r]))) = sizeof_dns_hdr" using f by (simp add: sizeof_dns_hdr_def)
  have nth_c: "?c ! i = ?b ! i" if "sizeof_dns_hdr \<le> i" "i < length (an_buf a3)" for i
  proof -
    have "?c ! i = drop sizeof_dns_hdr ?b ! (i - sizeof_dns_hdr)" using that lf by (subst nth_append) simp
    also have "\<dots> = ?b ! i" using that lb by (subst nth_drop) simp_all
    finally show ?thesis .
  qed
  have nth_b: "?b ! i = an_buf a3 ! i" if "i \<in> ?F" "sizeof_dns_hdr \<le> i" "i < length (an_buf a3)" for i
    using that len sz by (auto simp: nth_append)
  have main: "cb_inv m [] g2 \<and> body_at m qs (all_rrs R @ [r])" if m: "agree ?H m (take (an_sz a3) ?c)" for m
  proof -
    have ml: "length m = an_sz a3" and mc: "\<And>i. i < an_sz a3 \<Longrightarrow> sizeof_dns_hdr \<le> i \<Longrightarrow> m ! i = ?c ! i"
      using m len(2) unfolding agree_take [OF len(2) [folded lc]] by auto
    have mb: "m ! i = ?b ! i" if "i < an_sz a3" "sizeof_dns_hdr \<le> i" for i
      using mc [OF that] nth_c [of i] that len(2) by simp
    have m3: "m ! i = an_buf a3 ! i" if "i < an_sz a3" "i \<in> ?F" for i
      using mb [of i] nth_b [of i] that len(2) by auto
    have A3: "agree (fixed_to ?F ?a2 a3) m (take (an_sz a3) (an_buf a3))"
      using ml m3 h sz unfolding agree_take [OF len(2)] by (auto simp: fixed_to_def)
    have ci: "cb_inv m [] g2" using wroteD(1) [OF w2] A3 unfolding built_def by blast
    have parts: "parts_at m (an_sz a1 + 10) ps j" using w2 A3 unfolding wrote_def by auto
    have m1: "m ! i = an_buf a1 ! i" if "i < an_sz a1" "sizeof_dns_hdr \<le> i" for i
    proof -
      have "m ! i = an_buf a3 ! i" using m3 [of i] that sz by auto
      also have "\<dots> = take (an_sz a1 + 10) (an_buf a3) ! i" using that by simp
      also have "\<dots> = an_buf a1 ! i" unfolding t3 using that by simp
      finally show ?thesis .
    qed
    have "agree ?H (take (an_sz a1) m) (take (an_sz a1) (an_buf a1))"
    proof -
      have "an_sz a1 \<le> length (an_buf a1)" using len sz by simp
      from agree_take [OF this] m1 ml sz show ?thesis by auto
    qed
    then have "parts_at (take (an_sz a1) m) (an_sz a) [Nm nm] n"
      using w1 h x(2) unfolding wrote_def by (simp add: fixed_hdr del: part_at.simps)
    then have "reads_at n (Suc (length nm)) (take (an_sz a1) m) (an_sz a) nm" by auto
    from reads_at_append [OF this, of "drop (an_sz a1) m"]
    have rd: "reads_at n (Suc (length (mr_name r))) m (an_sz a) (mr_name r)" by (simp add: r_def rr_of_def)
    have "agree ?H (take (an_sz a) m) (take (an_sz a) (an_buf a))"
    proof -
      have "m ! i = an_buf a ! i" if "i < an_sz a" "sizeof_dns_hdr \<le> i" for i
      proof -
        have "m ! i = take (an_sz a) (an_buf a1) ! i" using m1 [of i] that sz by simp
        also have "\<dots> = an_buf a ! i" unfolding t1 using that by simp
        finally show ?thesis .
      qed
      then show ?thesis using ml sz unfolding agree_take [OF le] by auto
    qed
    then have old: "body_at (take (an_sz a) m) qs (all_rrs R)" by (rule bd)
    have "take 10 (drop (an_sz a + n) m) = rr_hdr_bytes type ttl j"
    proof (rule nth_equalityI)
      show "length (take 10 (drop (an_sz a + n) m)) = length (rr_hdr_bytes type ttl j)" using ml sz by simp
      fix i assume "i < length (take 10 (drop (an_sz a + n) m))"
      then have i: "i < 10" by simp
      have "m ! (an_sz a1 + i) = ?b ! (an_sz a1 + i)" using mb [of "an_sz a1 + i"] i sz h by simp
      also have "\<dots> = rr_hdr_bytes type ttl j ! i" using i len sz by (simp add: nth_append)
      finally show "take 10 (drop (an_sz a + n) m) ! i = rr_hdr_bytes type ttl j ! i" using i ml sz by simp
    qed
    then have "rr_at m (an_sz a) r (n + 10 + j)"
      using rd parts ml sz j by (intro rr_atI) (simp_all add: r_def rr_of_def rr_hdr_bytes_def)
    moreover have "length (take (an_sz a) m) = an_sz a" "length (drop (an_sz a) m) = n + 10 + j" using ml sz by simp_all
    ultimately have "body_at m qs (all_rrs R @ [r])"
      using body_snoc [OF old, of "drop (an_sz a) m" r] by simp
    with ci show ?thesis by blast
  qed
  have "built ?H g2 ?a'"
    using main wroteD(1) [OF w2] lc unfolding built_def by auto
  moreover have "take sizeof_dns_hdr ?c = f @ counts qs (R(s := R s @ [r]))" using lf by simp
  ultimately have "content f qs (R(s := R s @ [r])) g2 ?a'"
    using main f h sz unfolding content_def all_rrs_add [OF s] by auto
  with p q show ?thesis by auto
qed

text \<open>The record that does not fit is taken back: the names in the buffer are still right.\<close>

lemma add_rr_dropped:
  assumes c: "content f qs R g a" and e: "extends a a0" and w1: "wrote {sizeof_dns_hdr..} g a0 [Nm nm] n g1 a1"
    and w2: "wrote F g1 (a1\<lparr>an_sz := an_sz a1 + 10\<rparr>) ps j g2 a3"
    and root: "\<exists>k. g1 = g \<or> g1 = g @ [(an_sz a, nm, k)]" and wf: "wf_name nm" and k: "nm = [] \<or> known g nm \<or> an_sz a > 0x3fff" and nn: "\<forall>ls. Nm ls \<notin> set ps"
  shows "content f qs R g2 (a3\<lparr>an_sz := an_sz a\<rparr>)"
proof -
  let ?H = "{sizeof_dns_hdr..}"
  have h: "sizeof_dns_hdr \<le> an_sz a" and le: "an_sz a \<le> length (an_buf a)" using c by (auto simp: content_def built_def)
  obtain x where x: "an_buf a0 = an_buf a @ x" "an_sz a0 = an_sz a" using e by (auto simp: extends_def)
  obtain xs where g1: "grown a0 a1 xs" using w1 unfolding wrote_def by blast
  obtain ys where g2: "grown (a1\<lparr>an_sz := an_sz a1 + 10\<rparr>) a3 ys" using w2 unfolding wrote_def by blast
  have t1: "take (an_sz a) (an_buf a1) = take (an_sz a) (an_buf a)" using g1 x le by (simp add: grown_def)
  have sz: "an_sz a \<le> an_sz a1" "an_sz a1 + 10 \<le> length (an_buf a1)" using g1 g2 x(2) by (auto simp: grown_def)
  have "take (an_sz a1 + 10) (an_buf a3) = take (an_sz a1 + 10) (an_buf a1)" using g2 by (simp add: grown_def)
  then have "take (an_sz a) (take (an_sz a1 + 10) (an_buf a3)) = take (an_sz a) (take (an_sz a1 + 10) (an_buf a1))" by simp
  with t1 sz have t: "take (an_sz a) (an_buf a3) = take (an_sz a) (an_buf a)" by (simp add: min_def)
  have "take sizeof_dns_hdr (take (an_sz a) (an_buf a3)) = take sizeof_dns_hdr (take (an_sz a) (an_buf a))" unfolding t ..
  then have hd: "take sizeof_dns_hdr (an_buf a3) = take sizeof_dns_hdr (an_buf a)" using h by (simp add: min_def)
  have "g2 = g1" using w2 nn unfolding wrote_def by blast
  moreover from root obtain k where r: "g1 = g \<or> g1 = g @ [(an_sz a, nm, k)]" by blast
  have "g1 = g \<or> g1 = g @ [(an_sz a, nm, k)] \<and> (nm = [] \<or> an_sz a > 0x3fff)"
    using w1 r assms(7) unfolding wrote_def by auto
  moreover have "cb_inv m [] (g @ [(an_sz a, nm, k)])" if "cb_inv m [] g" "nm = [] \<or> an_sz a > 0x3fff" "k \<le> length nm" for m
    using that wf by (auto simp: cb_inv_append)
  moreover have "k \<le> length nm" if "g1 = g @ [(an_sz a, nm, k)]"
  proof -
    have "cb_inv (take (an_sz a1) (an_buf a1)) [] g1" using wroteD(1) [OF w1] unfolding built_def by blast
    then show ?thesis unfolding that by (simp add: cb_inv_append)
  qed
  ultimately have ci: "cb_inv m [] g2" if "cb_inv m [] g" for m using that by auto
  have l3: "length (an_buf a3) = length (an_buf a1)" using g2 by (simp add: grown_def)
  have "built ?H g2 (a3\<lparr>an_sz := an_sz a\<rparr>)"
    using c ci wroteD(1) [OF w2] sz l3 unfolding content_def built_def by (auto simp: t)
  then show ?thesis using c unfolding content_def by (simp add: t hd)
qed

lemma add_rr_step:
  assumes c: "content f qs R g a" and wf: "wf_name nm" and ok: "rdata_ok type data ps" and dl: "length data < 65536"
    and s: "last_sect s R" and lim: "s = S_ADDITIONAL \<and> udp \<noteq> None \<longrightarrow> (nm = [] \<or> known g nm \<or> an_sz a > 0x3fff) \<and> (\<forall>ls. Nm ls \<notin> set ps)"
  shows "\<exists>done a'. add_rr (wire nm @ x) type ttl (length data) (data @ y) s udp a = Some (done, a') \<and>
    (an_mem a = [] \<longrightarrow> done \<and> an_mem a' = []) \<and>
    (done \<longrightarrow> rr_outcome f qs R g a s udp (rr_of nm type ttl ps) (length (wire nm) + 10 + length data) a')"
proof -
  let ?H = "{sizeof_dns_hdr..}"
  have b: "built ?H g a" and h: "sizeof_dns_hdr \<le> an_sz a" using c by (simp_all add: content_def)
  from add_owner_step [OF b wf, of x "length data"] obtain ok1 a1 where
    1: "add_owner (wire nm @ x) (length data) a = Some (ok1, a1)" "an_mem a = [] \<longrightarrow> ok1"
      "ok1 \<longrightarrow> (\<exists>n g' a0. extends a a0 \<and> wrote ?H g a0 [Nm nm] n g' a1 \<and> sizeof_rr_hdr + length data \<le> room a1 \<and>
       (\<exists>k. g' = g \<or> g' = g @ [(an_sz a, nm, k)]))" by blast
  show ?thesis
  proof (cases ok1)
    case False
    with 1(1,2) show ?thesis by (intro exI [of _ False] exI [of _ a1]) (simp add: add_rr_def)
  next
    case True
    with 1(3) obtain n g1 a0 where w: "extends a a0" "wrote ?H g a0 [Nm nm] n g1 a1" "sizeof_rr_hdr + length data \<le> room a1"
       "\<exists>k. g1 = g \<or> g1 = g @ [(an_sz a, nm, k)]" by blast
    let ?a2 = "a1\<lparr>an_sz := an_sz a1 + sizeof_rr_hdr\<rparr>" and ?F = "?H - {an_sz a1..<an_sz a1 + 10}"
    have s10: "sizeof_rr_hdr = 10" by (simp add: sizeof_rr_hdr_def)
    have sz0: "an_sz a0 = an_sz a" "an_mem a = [] \<longrightarrow> an_mem a0 = []" using w(1) by (auto simp: extends_def)
    have "built ?H g1 a1" using wroteD(1) [OF w(2)] h sz0 by (simp add: fixed_hdr)
    then have b2: "built ?F g1 ?a2" using reserve_step [of ?H g1 a1 10] w(3) by (simp add: s10)
    have r2: "length data \<le> room ?a2" using w(3) by (simp add: room_def)
    from put_rdata_ok [OF b2 ok r2] obtain r a3 where
      3: "put_rdata type (data @ y) (length data) ?a2 = Some (r, a3)" "rdata_result ?F g1 ?a2 ps r a3" by blast
    have step: "add_rr (wire nm @ x) type ttl (length data) (data @ y) s udp a = (case r of
          None \<Rightarrow> Some (False, a3)
        | Some rdlen \<Rightarrow>
            if beyond udp (an_sz a3) \<and> s = S_ADDITIONAL
            then Some (True, a3\<lparr>an_sz := an_sz a\<rparr>)
            else do {
              b \<leftarrow> put_rr_hdr type ttl rdlen (an_sz a1) (an_buf a3);
              a \<leftarrow> inc_count (count_pos s) (a3\<lparr>an_buf := b\<rparr>);
              Some (True, a) })"
      using 1(1) True 3(1) by (simp add: add_rr_def Let_def)
    show ?thesis
    proof (cases r)
      case None
      with 3(2) wroteD(8) [OF w(2)] sz0(2) have "an_mem a \<noteq> []" by (auto simp: rdata_result_def)
      with step None show ?thesis by (intro exI [of _ False] exI [of _ a3]) simp
    next
      case (Some j)
      with 3(2) obtain g2 where w2: "wrote ?F g1 ?a2 ps j g2 a3" by (auto simp: rdata_result_def)
      note d1 = wroteD [OF w(2)] and d2 = wroteD [OF w2]
      have m: "an_mem a = [] \<longrightarrow> an_mem a3 = []" using d1(8) d2(8) sz0(2) by auto
      have pl: "plain ps = data" using ok by (simp add: rdata_ok_def)
      have jl: "j \<le> length data" "j < 65536" using d2(3) pl dl by simp_all
      have nl: "n \<le> length (wire nm)" using d1(3) by simp
      have sz: "an_sz a \<le> an_sz a3" "an_sz a3 \<le> an_sz a + (length (wire nm) + 10 + length data)" using d1(2) d2(2) sz0 jl nl by (simp_all add: s10)
      have km: "knows_more g g2" using d1(4) d2(4) by (rule knows_more_trans)
      show ?thesis
      proof (cases "beyond udp (an_sz a3) \<and> s = S_ADDITIONAL")
        case True
        then have nn: "nm = [] \<or> known g nm \<or> an_sz a > 0x3fff" "\<forall>ls. Nm ls \<notin> set ps" using lim by (auto simp: beyond_def split: option.splits)
        have "content f qs R g2 (a3\<lparr>an_sz := an_sz a\<rparr>)"
          by (rule add_rr_dropped [OF c w(1,2) w2 [unfolded s10] w(4) wf nn])
        moreover have "beyond udp (an_sz a + (length (wire nm) + 10 + length data))"
          using True sz(2) by (auto simp: beyond_def split: option.splits)
        ultimately have "rr_outcome f qs R g a s udp (rr_of nm type ttl ps) (length (wire nm) + 10 + length data) (a3\<lparr>an_sz := an_sz a\<rparr>)"
          using km True unfolding rr_outcome_def by auto
        then show ?thesis using step Some True m
          by (intro exI [of _ True] exI [of _ "a3\<lparr>an_sz := an_sz a\<rparr>"]) simp
      next
        case False
        from add_rr_final [OF c w(1,2) w2 [unfolded s10] jl(2) s, of type ttl] obtain b' a' where
          4: "put_rr_hdr type ttl j (an_sz a1) (an_buf a3) = Some b'" "inc_count (count_pos s) (a3\<lparr>an_buf := b'\<rparr>) = Some a'"
            "content f qs (R(s := R s @ [rr_of nm type ttl ps])) g2 a'" "an_sz a' = an_sz a3" "an_mem a' = an_mem a3" by blast
        have "an_sz a1 + 10 + j = an_sz a3" using d2(2) by (simp add: s10)
        then have "an_sz a' \<le> 0x4000 \<longrightarrow> (\<forall>ls. Nm ls \<in> set ps \<and> ls \<noteq> [] \<longrightarrow> known g2 ls)"
          using w2 4(4) unfolding wrote_def by (simp add: s10)
        then have "rr_outcome f qs R g a s udp (rr_of nm type ttl ps) (length (wire nm) + 10 + length data) a'"
          using km 4(3,4) sz False unfolding rr_outcome_def by (auto simp: rr_of_def)
        moreover have "add_rr (wire nm @ x) type ttl (length data) (data @ y) s udp a = Some (True, a')"
          using step Some False 4(1,2) by simp
        ultimately show ?thesis using m 4(5) by (intro exI [of _ True] exI [of _ a']) simp
      qed
    qed
  qed
qed

subsection \<open>The OPT pseudo record\<close>

definition join32 :: "byte \<Rightarrow> byte \<Rightarrow> byte \<Rightarrow> byte \<Rightarrow> u32" where
  "join32 a b c d = push_bit 24 (ucast a) OR push_bit 16 (ucast b) OR push_bit 8 (ucast c) OR ucast d"

lemma u32_bytes_join [simp]: "u32_bytes (join32 a b c d) = [a, b, c, d]"
proof -
  have "(ucast (drop_bit 24 (join32 a b c d)) :: byte) = a" "(ucast (drop_bit 16 (join32 a b c d)) :: byte) = b"
    "(ucast (drop_bit 8 (join32 a b c d)) :: byte) = c" "(ucast (join32 a b c d) :: byte) = d"
    by (rule bit_word_eqI; auto simp: join32_def bit_simps dest: bit_imp_le_length)+
  then show ?thesis by (simp add: u32_bytes_def)
qed

definition opt_rr :: "u16 \<Rightarrow> u16 \<Rightarrow> u16 \<Rightarrow> u16 \<Rightarrow> msg_rr" where
  "opt_rr udpsize rcode ednsver Zflags =
     \<lparr>mr_name = [], mr_type = word_of_int T_OPT, mr_class = udpsize,
      mr_ttl = join32 (ucast (drop_bit 4 rcode)) (ucast ednsver) (ucast (drop_bit 8 Zflags)) (ucast Zflags), mr_data = []\<rparr>"

definition opt_bytes :: "u16 \<Rightarrow> u16 \<Rightarrow> u16 \<Rightarrow> u16 \<Rightarrow> byte list" where
  "opt_bytes udpsize rcode ednsver Zflags = 0 # u16_bytes (word_of_int T_OPT) @ u16_bytes udpsize @
     [ucast (drop_bit 4 rcode), ucast ednsver] @ u16_bytes Zflags @ u16_bytes 0"

lemma length_opt_bytes [simp]: "length (opt_bytes u r v z) = 11"
  by (simp add: opt_bytes_def)

lemma opt_bytes_at:
  assumes "length m = off"
  shows "rr_at (m @ opt_bytes u r v z) off (opt_rr u r v z) 11"
proof -
  have "name_at (m @ opt_bytes u r v z) off 1 0 []"
    by (rule name_end) (use assms in \<open>simp add: rd_def opt_bytes_def nth_append\<close>)
  then have n: "reads_at 1 (Suc 0) (m @ opt_bytes u r v z) off []" unfolding reads_at_def by blast
  have d: "drop (off + 1) (m @ opt_bytes u r v z) = tl (opt_bytes u r v z)"
    using assms by (simp add: opt_bytes_def)
  have "rr_at (m @ opt_bytes u r v z) off (opt_rr u r v z) (1 + 10 + 0)"
    by (rule rr_atI) (use n d assms in \<open>simp_all add: opt_rr_def opt_bytes_def u16_bytes_def\<close>)
  then show ?thesis by simp
qed

text \<open>Writing in the middle of a buffer.\<close>

definition patch :: "byte list \<Rightarrow> nat \<Rightarrow> byte list \<Rightarrow> byte list" where
  "patch b i x = take i b @ x @ drop (i + length x) b"

lemma length_patch [simp]: "i + length x \<le> length b \<Longrightarrow> length (patch b i x) = length b"
  by (simp add: patch_def)

lemma patch_patch: "i + length x + length y \<le> length b \<Longrightarrow> patch (patch b i x) (i + length x) y = patch b i (x @ y)"
  by (simp add: patch_def add_ac)

lemma wr_patch: "i < length b \<Longrightarrow> wr b i v = Some (patch b i [v])"
  by (simp add: wr_def patch_def upd_conv_take_nth_drop)

lemma putint16_patch: "i + 2 \<le> length b \<Longrightarrow> putint16 s b i = Some (patch b i (u16_bytes s), i + 2)"
  by (simp add: putint16_bytes patch_def)

lemma patch_more:
  assumes "i + length x + length y \<le> length b" "k = i + length x"
  shows "patch (patch b i x) k y = patch b i (x @ y)"
  using patch_patch assms by simp

text \<open>The bytes that \<^verbatim>\<open>add_opt_pseudo_rr\<close> stores.\<close>

lemma add_opt_eq:
  assumes "an_sz a + 11 \<le> length (an_buf a2)" "answer_room (dnsmsghdroffset + an_sz a + sizeof_opt_pseudo_rr) a = (True, a2)"
    "an_sz a2 = an_sz a"
  shows "add_opt_pseudo_rr u r v z a = do {
    a \<leftarrow> inc_count 10 (a2\<lparr>an_buf := patch (an_buf a2) (an_sz a) (opt_bytes u r v z), an_sz := an_sz a + 11\<rparr>);
    Some (True, a) }"
proof -
  let ?b = "an_buf a2" and ?i = "an_sz a"
  have 1: "wr ?b ?i 0 = Some (patch ?b ?i [0])" using assms(1) by (simp add: wr_patch)
  have 2: "putint16 (word_of_int T_OPT) (patch ?b ?i [0]) (?i + 1) = Some (patch ?b ?i ([0] @ u16_bytes (word_of_int T_OPT)), ?i + 3)"
    using assms(1) by (subst putint16_patch) (simp_all add: patch_more)
  have 3: "putint16 u (patch ?b ?i ([0] @ u16_bytes (word_of_int T_OPT))) (?i + 3) =
      Some (patch ?b ?i (([0] @ u16_bytes (word_of_int T_OPT)) @ u16_bytes u), ?i + 5)"
    using assms(1) by (subst putint16_patch) (simp_all add: patch_more)
  let ?x = "([0] @ u16_bytes (word_of_int T_OPT)) @ u16_bytes u" and ?r = "ucast (drop_bit 4 r) :: byte"
  have 4: "wr (patch ?b ?i ?x) (?i + 5) ?r = Some (patch ?b ?i (?x @ [?r]))"
    using assms(1) by (subst wr_patch) (simp_all add: patch_more)
  have 5: "wr (patch ?b ?i (?x @ [?r])) (?i + 5 + 1) (ucast v) = Some (patch ?b ?i ((?x @ [?r]) @ [ucast v]))"
    using assms(1) by (subst wr_patch) (simp_all add: patch_more)
  have 6: "putint16 z (patch ?b ?i ((?x @ [?r]) @ [ucast v])) (?i + 5 + 2) = Some (patch ?b ?i (((?x @ [?r]) @ [ucast v]) @ u16_bytes z), ?i + 9)"
    using assms(1) by (subst putint16_patch) (simp_all add: patch_more)
  have 7: "putint16 0 (patch ?b ?i (((?x @ [?r]) @ [ucast v]) @ u16_bytes z)) (?i + 9) =
      Some (patch ?b ?i ((((?x @ [?r]) @ [ucast v]) @ u16_bytes z) @ u16_bytes 0), ?i + 11)"
    using assms(1) by (subst putint16_patch) (simp_all add: patch_more)
  have 8: "(((?x @ [?r]) @ [ucast v]) @ u16_bytes z) @ u16_bytes 0 = opt_bytes u r v z" by (simp add: opt_bytes_def)
  show ?thesis
    unfolding add_opt_pseudo_rr_def assms(2) Let_def prod.case assms(3) 1 Option.bind.bind_lunit 2 3 4 5 6 7 8
    by (simp add: sizeof_opt_pseudo_rr_def sizeof_rr_hdr_def)
qed

lemma add_opt_step:
  assumes c: "content f qs R g a"
  shows "\<exists>ok a'. add_opt_pseudo_rr u r v z a = Some (ok, a') \<and> (an_mem a = [] \<longrightarrow> ok \<and> an_mem a' = []) \<and>
    (ok \<longrightarrow> content f qs (R(S_ADDITIONAL := R S_ADDITIONAL @ [opt_rr u r v z])) g a' \<and> an_sz a' = an_sz a + 11 \<and>
       (\<exists>x. an_buf a' = (f @ counts qs (R(S_ADDITIONAL := R S_ADDITIONAL @ [opt_rr u r v z]))) @
          drop sizeof_dns_hdr (take (an_sz a) (an_buf a)) @ opt_bytes u r v z @ x))"
proof -
  let ?H = "{sizeof_dns_hdr..}" and ?R = "R(S_ADDITIONAL := R S_ADDITIONAL @ [opt_rr u r v z])" and ?o = "opt_bytes u r v z"
  let ?sz = "dnsmsghdroffset + an_sz a + sizeof_opt_pseudo_rr"
  have f: "length f = 4" and hd: "take sizeof_dns_hdr (an_buf a) = f @ counts qs R" and h: "sizeof_dns_hdr \<le> an_sz a"
    and b: "built ?H g a" and bd: "\<And>m. agree ?H m (take (an_sz a) (an_buf a)) \<Longrightarrow> body_at m qs (all_rrs R)"
    and le: "an_sz a \<le> length (an_buf a)" and al: "length (an_buf a) + dnsmsghdroffset = an_allocsz a"
    using c by (auto simp: content_def built_def)
  obtain ok a2 where 2: "answer_room ?sz a = (ok, a2)" "extends a a2" "length (an_buf a2) + dnsmsghdroffset = an_allocsz a2"
      "an_mem a = [] \<longrightarrow> ok" "ok \<longrightarrow> ?sz \<le> an_allocsz a2" using answer_room_step [OF al, of ?sz] by blast
  show ?thesis
  proof (cases ok)
    case False
    with 2 show ?thesis by (intro exI [of _ False] exI [of _ a2]) (simp add: add_opt_pseudo_rr_def)
  next
    case True
    obtain x where x: "an_buf a2 = an_buf a @ x" "an_sz a2 = an_sz a" "an_cb a2 = an_cb a" "an_mem a = [] \<longrightarrow> an_mem a2 = []"
      using 2(2) by (auto simp: extends_def)
    have l: "an_sz a + 11 \<le> length (an_buf a2)" using True 2(3,5) by (simp add: size_defs)
    let ?b = "patch (an_buf a2) (an_sz a) ?o" and ?old = "take (an_sz a) (an_buf a)"
    let ?a3 = "a2\<lparr>an_buf := ?b, an_sz := an_sz a + 11\<rparr>"
    have pb: "?b = ?old @ ?o @ drop (an_sz a + 11) (an_buf a2)" using x le by (simp add: patch_def)
    have hb: "take sizeof_dns_hdr ?b = f @ counts qs R" using h le hd unfolding pb by (simp add: min_def)
    let ?n = "f @ counts qs ?R"
    have ln: "length ?n = sizeof_dns_hdr" using f by (simp add: sizeof_dns_hdr_def)
    let ?c = "?n @ drop sizeof_dns_hdr ?b"
    have eq: "add_opt_pseudo_rr u r v z a = Some (True, ?a3\<lparr>an_buf := ?c\<rparr>)"
      using add_opt_eq [OF l _ x(2), of u r v z] True 2(1)
        inc_count_sect [where a = ?a3 and f = f and qs = qs and R = R and s = S_ADDITIONAL and r = "opt_rr u r v z"] hb f
      by (simp add: count_pos_def)
    have ol: "length ?old = an_sz a" using le by simp
    have dc: "drop sizeof_dns_hdr ?b = drop sizeof_dns_hdr ?old @ ?o @ drop (an_sz a + 11) (an_buf a2)"
      unfolding pb using h ol by simp
    have tc: "take (an_sz a + 11) ?c = (?n @ drop sizeof_dns_hdr ?old) @ ?o" unfolding dc using ln h ol by simp
    have nl: "length (?n @ drop sizeof_dns_hdr ?old) = an_sz a" using ln h ol by simp
    have main: "cb_inv m [] g \<and> body_at m qs (all_rrs R @ [opt_rr u r v z])" if m: "agree ?H m (take (an_sz a + 11) ?c)" for m
    proof -
      have "agree (?H \<union> {an_sz a..<an_sz a + length ?o}) m ((?n @ drop sizeof_dns_hdr ?old) @ ?o)"
        unfolding tc [symmetric] by (rule agree_subset [OF m]) (use h in auto)
      from agree_longer [where x = "?n @ drop sizeof_dns_hdr ?old", unfolded nl, OF this]
      have m': "m = take (an_sz a) m @ ?o" "agree ?H (take (an_sz a) m) (?n @ drop sizeof_dns_hdr ?old)" by blast+
      have ag: "agree ?H (take (an_sz a) m) ?old"
      proof -
        have "(?n @ drop sizeof_dns_hdr ?old) ! i = ?old ! i" if "sizeof_dns_hdr \<le> i" "i < an_sz a" for i
        proof -
          have "(?n @ drop sizeof_dns_hdr ?old) ! i = drop sizeof_dns_hdr ?old ! (i - sizeof_dns_hdr)"
            using that ln by (subst nth_append) simp
          also have "\<dots> = ?old ! i" using that ol by (subst nth_drop) simp_all
          finally show ?thesis .
        qed
        with m'(2) show ?thesis unfolding agree_def nl ol by auto
      qed
      then have "cb_inv (take (an_sz a) m) [] g" using b unfolding built_def by blast
      from cb_inv_append_msg [OF this, of ?o] m'(1) have "cb_inv m [] g" by simp
      moreover have ml: "length (take (an_sz a) m) = an_sz a" using ag ol by (simp add: agree_def)
      have "body_at (take (an_sz a) m @ ?o) qs (all_rrs R @ [opt_rr u r v z])"
        by (rule body_snoc [OF bd [OF ag]]) (use opt_bytes_at [OF ml] ml in simp)
      ultimately show ?thesis using m'(1) by simp
    qed
    have lc: "length ?c = length (an_buf a2)" 
    proof -
      have "length ?b = length (an_buf a2)" using l by (intro length_patch) simp
      with ln l h show ?thesis by simp
    qed
    have "built ?H g (?a3\<lparr>an_buf := ?c\<rparr>)"
      using main b lc l x(3) 2(3) unfolding built_def by auto
    then have "content f qs ?R g (?a3\<lparr>an_buf := ?c\<rparr>)"
      using main f h ln all_rrs_add [of S_ADDITIONAL R] unfolding content_def by (auto simp: last_sect_def)
    then show ?thesis using eq x(4) dc by (intro exI [of _ True] exI [of _ "?a3\<lparr>an_buf := ?c\<rparr>"]) auto
  qed
qed

end
