(* ===== verification/Name_Hash.thy ===== *)
theory Name_Hash
  imports Names
begin

unbundle bit_operations_syntax

section \<open>The hash table of cached names (hash.c, hash.h)\<close>

text \<open>
  1024 chains of entries. An entry holds a pointer to a cache entry (modelled by its address)
  and the long hash of its name; a chain is ordered by the long hash. \<open>qname\<close> is what the
  code reads as \<^verbatim>\<open>he->data->qname\<close>: the name stored at an address. A location
  (\<^verbatim>\<open>dns_hash_loc_t\<close>) points to a link of a chain: the bucket and the number of entries before it.
  The functions that delete cache entries (\<^verbatim>\<open>free_dns_hash\<close> and its variants) need
  \<^verbatim>\<open>del_cent\<close> and are with the cache.
\<close>

definition HASH_SZ :: nat where "HASH_SZ = 10"
definition HASH_NUM_BUCKETS :: nat where "HASH_NUM_BUCKETS = 2 ^ HASH_SZ"
definition HASH_BITMASK :: u32 where "HASH_BITMASK = of_nat HASH_NUM_BUCKETS - 1"

subsection \<open>The hash function\<close>

text \<open>One byte \<open>c\<close> at index \<open>i\<close> is added to the short and to the long hash.\<close>

definition hash_add :: "nat \<Rightarrow> byte \<Rightarrow> u32 \<times> u64 \<Rightarrow> u32 \<times> u64" where
  "hash_add i c h = (fst h + push_bit (i mod (HASH_SZ - 5)) (ucast c),
                     snd h + push_bit (i mod (8 * 8 - 7)) (ucast c))"

fun hash_label :: "nat \<Rightarrow> byte list \<Rightarrow> nat \<Rightarrow> u32 \<times> u64 \<Rightarrow> (byte list \<times> nat \<times> u32 \<times> u64) option" where
  "hash_label 0 str i h = Some (str, i, h)"
| "hash_label (Suc lb) [] i h = None"
| "hash_label (Suc lb) (c # str) i h = hash_label lb str (i + 1) (hash_add i (toupper c) h)"

lemma hash_label_length: "hash_label lb str i h = Some (str', i', h') \<Longrightarrow> length str' \<le> length str"
  by (induction lb str i h rule: hash_label.induct) auto

function hash_loop :: "byte list \<Rightarrow> nat \<Rightarrow> u32 \<times> u64 \<Rightarrow> (u32 \<times> u64) option" where
  "hash_loop [] i h = None"
| "hash_loop (lb # str) i h =
     (if lb = 0 then Some h
      else do {
        (str', i', h') \<leftarrow> hash_label (unat lb) str (i + 1) (hash_add i lb h);
        hash_loop str' i' h' })"
  by pat_completeness auto
termination
  by (relation "measure (\<lambda>(str, i, h). length str)") (auto dest: hash_label_length)

definition fold_bits :: "u32 \<Rightarrow> u32" where
  "fold_bits s = (s AND HASH_BITMASK) + drop_bit HASH_SZ (s AND (NOT HASH_BITMASK))"

definition dns_hash :: "byte list \<Rightarrow> (nat \<times> u64) option" where
  "dns_hash str = do {
     (s, r) \<leftarrow> hash_loop str 0 (0, 0);
     Some (unat (fold_bits (fold_bits s) AND HASH_BITMASK), r) }"

subsection \<open>The table\<close>

record hent =
  he_rhash :: u64
  he_data :: nat

type_synonym htable = "hent list list"

record hash_loc =
  loc_bucket :: nat
  loc_pos :: nat
  loc_rhash :: u64

record hash_pos =
  hp_bucket :: nat
  hp_ent :: "hent list"   \<comment> \<open>the entry pointed to and those after it\<close>

definition mk_dns_hash :: htable where
  "mk_dns_hash = replicate HASH_NUM_BUCKETS []"

fun chain_find :: "(nat \<Rightarrow> byte list option) \<Rightarrow> byte list \<Rightarrow> u64 \<Rightarrow> hent list \<Rightarrow> nat \<Rightarrow> (nat option \<times> nat) option" where
  "chain_find qname key rh [] pos = Some (None, pos)"
| "chain_find qname key rh (he # hes) pos =
     (if he_rhash he \<le> rh
      then do {
        found \<leftarrow> (if he_rhash he = rh
                  then do { nm \<leftarrow> qname (he_data he); rhnicmp key nm }
                  else Some False);
        if found then Some (Some (he_data he), pos)
        else chain_find qname key rh hes (pos + 1) }
      else Some (None, pos))"

definition dns_lookup ::
  "(nat \<Rightarrow> byte list option) \<Rightarrow> htable \<Rightarrow> byte list \<Rightarrow> (nat option \<times> hash_loc) option" where
  "dns_lookup qname T key = do {
     (idx, rh) \<leftarrow> dns_hash key;
     chain \<leftarrow> rd T idx;
     (r, pos) \<leftarrow> chain_find qname key rh chain 0;
     Some (r, \<lparr>loc_bucket = idx, loc_pos = pos, loc_rhash = rh\<rparr>) }"

text \<open>\<open>mem\<close>: \<^verbatim>\<open>malloc\<close> found memory. The first component is the C result.\<close>

definition add_dns_hash :: "htable \<Rightarrow> nat \<Rightarrow> hash_loc \<Rightarrow> bool \<Rightarrow> (bool \<times> htable) option" where
  "add_dns_hash T data loc mem =
     (if \<not> mem then Some (False, T)
      else do {
        chain \<leftarrow> rd T (loc_bucket loc);
        if loc_pos loc > length chain then None
        else do {
          T' \<leftarrow> wr T (loc_bucket loc)
            (take (loc_pos loc) chain @
             \<lparr>he_rhash = loc_rhash loc, he_data = data\<rparr> # drop (loc_pos loc) chain);
          Some (True, T') } })"

definition remove_at :: "htable \<Rightarrow> nat \<Rightarrow> nat \<Rightarrow> (nat \<times> htable) option" where
  "remove_at T idx pos = do {
     chain \<leftarrow> rd T idx;
     he \<leftarrow> rd chain pos;
     T' \<leftarrow> wr T idx (take pos chain @ drop (pos + 1) chain);
     Some (he_data he, T') }"

definition del_dns_hash_ent :: "htable \<Rightarrow> hash_loc \<Rightarrow> (nat \<times> htable) option" where
  "del_dns_hash_ent T loc = remove_at T (loc_bucket loc) (loc_pos loc)"

definition del_dns_hash ::
  "(nat \<Rightarrow> byte list option) \<Rightarrow> htable \<Rightarrow> byte list \<Rightarrow> (nat option \<times> htable) option" where
  "del_dns_hash qname T key = do {
     (idx, rh) \<leftarrow> dns_hash key;
     chain \<leftarrow> rd T idx;
     (r, pos) \<leftarrow> chain_find qname key rh chain 0;
     (case r of
        None \<Rightarrow> Some (None, T)
      | Some _ \<Rightarrow> do { (data, T') \<leftarrow> remove_at T idx pos; Some (Some data, T') }) }"

text \<open>
  Iteration. The position of a \<^verbatim>\<open>fetch_next\<close> keeps the entry after the one returned last;
  entries already returned may be deleted meanwhile.
\<close>

function scan_buckets :: "htable \<Rightarrow> nat \<Rightarrow> (nat \<times> hash_pos) option" where
  "scan_buckets T i =
     (if i < HASH_NUM_BUCKETS \<and> i < length T
      then (case T ! i of
              [] \<Rightarrow> scan_buckets T (i + 1)
            | he # hes \<Rightarrow> Some (he_data he, \<lparr>hp_bucket = i, hp_ent = hes\<rparr>))
      else None)"
  by pat_completeness auto
termination
  by (relation "measure (\<lambda>(T, i). length T - i)") auto

declare scan_buckets.simps [simp del]

definition fetch_first :: "htable \<Rightarrow> (nat \<times> hash_pos) option" where
  "fetch_first T = scan_buckets T 0"

definition fetch_next :: "htable \<Rightarrow> hash_pos \<Rightarrow> (nat \<times> hash_pos) option" where
  "fetch_next T pos =
     (case hp_ent pos of
        he # hes \<Rightarrow> Some (he_data he, pos\<lparr>hp_ent := hes\<rparr>)
      | [] \<Rightarrow> scan_buckets T (hp_bucket pos + 1))"

subsection \<open>Properties of the hash function\<close>

lemma hash_label_ok:
  "hash_label (length l) (l @ r) i h = Some (r, i + length l,
     fold (\<lambda>(j, c). hash_add (i + j) c) (zip [0..<length l] (map toupper l)) h)"
proof (induction l arbitrary: i h)
  case (Cons c l)
  have z: "zip [0..<length (c # l)] (map toupper (c # l)) =
      (0, toupper c) # map (\<lambda>(j, d). (Suc j, d)) (zip [0..<length l] (map toupper l))"
    by (simp add: upt_conv_Cons map_Suc_upt [symmetric] zip_map1 del: upt_Suc)
  show ?case
    by (simp only: z) (simp add: Cons.IH fold_map comp_def split_beta)
qed simp

lemma ci_eq_toupper: "ci_eq a b \<longleftrightarrow> map toupper a = map toupper b"
proof -
  have "ci_eq a b \<longleftrightarrow> list_all2 (\<lambda>x y. tolower x = tolower y) a b"
    unfolding ci_eq_def by (simp add: list.rel_eq [symmetric] list.rel_map)
  also have "\<dots> \<longleftrightarrow> map toupper a = map toupper b"
    unfolding tolower_eq_iff_toupper_eq by (simp add: list.rel_eq [symmetric] list.rel_map)
  finally show ?thesis .
qed

lemma hash_label_ci:
  assumes "ci_eq a b"
  shows "\<exists>h'. hash_label (length a) (a @ r) i h = Some (r, i + length a, h') \<and>
    hash_label (length b) (b @ r') i h = Some (r', i + length a, h')"
  using assms hash_label_ok [of a r i h] hash_label_ok [of b r' i h] ci_eq_length [OF assms]
  by (simp add: ci_eq_toupper)

lemma hash_loop_ci:
  assumes "name_eq ls ms" "list_all wf_label ls" "list_all wf_label ms"
  shows "\<exists>h'. hash_loop (wire ls @ r) i h = Some h' \<and> hash_loop (wire ms @ r') i h = Some h'"
  using assms
proof (induction ls arbitrary: ms i h)
  case (Cons l ls)
  then obtain m ms' where ms: "ms = m # ms'" by (cases ms) auto
  with Cons.prems have e: "ci_eq l m" "name_eq ls ms'" "wf_label l" "wf_label m"
    "list_all wf_label ls" "list_all wf_label ms'" by auto
  note len = ci_eq_length [OF e(1)]
  let ?h = "hash_add i (of_nat (length m)) h"
  from hash_label_ci [OF e(1), of "wire ls @ r" "i + 1" ?h "wire ms' @ r'"] obtain h'
    where h: "hash_label (length l) (l @ wire ls @ r) (i + 1) ?h = Some (wire ls @ r, i + 1 + length l, h')"
      "hash_label (length m) (m @ wire ms' @ r') (i + 1) ?h = Some (wire ms' @ r', i + 1 + length l, h')" by blast
  from Cons.IH [OF e(2,5,6), of "i + 1 + length l" h'] obtain h2
    where "hash_loop (wire ls @ r) (i + 1 + length l) h' = Some h2"
      "hash_loop (wire ms' @ r') (i + 1 + length l) h' = Some h2" by blast
  with h ms len e(3,4) show ?case by (auto simp: wf_label_length_byte)
qed simp

lemma dns_hash_bucket: "dns_hash str = Some (idx, rh) \<Longrightarrow> idx < HASH_NUM_BUCKETS"
proof -
  assume "dns_hash str = Some (idx, rh)"
  then obtain s where "idx = unat (s AND HASH_BITMASK)"
    by (auto simp: dns_hash_def elim!: bind_eq_SomeE split: prod.splits)
  moreover have "unat (s AND HASH_BITMASK) \<le> unat HASH_BITMASK"
    using word_and_le1 [of s HASH_BITMASK] by (simp add: word_le_nat_alt ac_simps)
  ultimately show ?thesis by (simp add: HASH_BITMASK_def HASH_NUM_BUCKETS_def HASH_SZ_def)
qed

lemma dns_hash_ci:
  assumes "name_eq ls ms" "list_all wf_label ls" "list_all wf_label ms"
  shows "\<exists>idx rh. dns_hash (wire ls @ r) = Some (idx, rh) \<and> dns_hash (wire ms @ r') = Some (idx, rh) \<and>
    idx < HASH_NUM_BUCKETS"
proof -
  from hash_loop_ci [OF assms, of r 0 "(0, 0)" r'] obtain s rh
    where h: "hash_loop (wire ls @ r) 0 (0, 0) = Some (s, rh)" "hash_loop (wire ms @ r') 0 (0, 0) = Some (s, rh)"
    by (metis surj_pair)
  then have "dns_hash (wire ls @ r) = Some (unat (fold_bits (fold_bits s) AND HASH_BITMASK), rh)"
    "dns_hash (wire ms @ r') = Some (unat (fold_bits (fold_bits s) AND HASH_BITMASK), rh)"
    by (simp_all add: dns_hash_def)
  with dns_hash_bucket [OF this(1)] show ?thesis by blast
qed

text \<open>
  C11: names that are equal up to case get the same bucket and the same long hash, and the
  bucket is always inside the table.
\<close>

theorem dns_hash_respects_case:
  assumes "wf_name ls" and "wf_name ms" and "name_eq ls ms"
  shows "\<exists>idx rh. dns_hash (wire ls @ r) = Some (idx, rh) \<and> dns_hash (wire ms @ r') = Some (idx, rh) \<and>
    idx < HASH_NUM_BUCKETS"
  using dns_hash_ci [OF assms(3)] assms(1,2) by (simp add: wf_nameD)

theorem dns_hash_respects_case_witness:
  "\<exists>idx rh. dns_hash (wire [[97, 66], [99]] @ []) = Some (idx, rh) \<and>
    dns_hash (wire [[65, 98], [67]] @ [1]) = Some (idx, rh) \<and> idx < HASH_NUM_BUCKETS"
  by (rule dns_hash_respects_case)
    (simp_all add: wf_name_def wf_label_def DNSNAMEBUFSIZE_def tolower_def)

subsection \<open>The invariant of the table\<close>

definition ent_is :: "(nat \<Rightarrow> byte list option) \<Rightarrow> label list \<Rightarrow> hent \<Rightarrow> bool" where
  \<comment> \<open>the entry is for a name equal to \<open>nm\<close>\<close>
  "ent_is qname nm e \<longleftrightarrow>
     (\<exists>ls. list_all wf_label ls \<and> qname (he_data e) = Some (wire ls) \<and> name_eq ls nm)"

definition ent_ok :: "(nat \<Rightarrow> byte list option) \<Rightarrow> nat \<Rightarrow> hent \<Rightarrow> bool" where
  "ent_ok qname idx e \<longleftrightarrow>
     (\<exists>ls. list_all wf_label ls \<and> qname (he_data e) = Some (wire ls) \<and> dns_hash (wire ls) = Some (idx, he_rhash e))"

definition chain_ok :: "(nat \<Rightarrow> byte list option) \<Rightarrow> nat \<Rightarrow> hent list \<Rightarrow> bool" where
  "chain_ok qname idx chain \<longleftrightarrow> list_all (ent_ok qname idx) chain \<and> sorted (map he_rhash chain) \<and>
     sorted_wrt (\<lambda>e f. \<forall>nm. ent_is qname nm e \<longrightarrow> \<not> ent_is qname nm f) chain"

definition htable_ok :: "(nat \<Rightarrow> byte list option) \<Rightarrow> htable \<Rightarrow> bool" where
  "htable_ok qname T \<longleftrightarrow> length T = HASH_NUM_BUCKETS \<and> (\<forall>i < length T. chain_ok qname i (T ! i))"

definition ht_has :: "(nat \<Rightarrow> byte list option) \<Rightarrow> htable \<Rightarrow> label list \<Rightarrow> nat \<Rightarrow> bool" where
  "ht_has qname T nm a \<longleftrightarrow> (\<exists>e \<in> set (concat T). he_data e = a \<and> ent_is qname nm e)"

lemma wire_inj: "list_all wf_label ls \<Longrightarrow> list_all wf_label ms \<Longrightarrow> wire ls = wire ms \<Longrightarrow> ls = ms"
proof (induction ls arbitrary: ms)
  case Nil
  then show ?case by (cases ms) (auto dest: wf_label_length_byte)
next
  case (Cons l ls)
  then obtain m ms' where ms: "ms = m # ms'" by (cases ms) (auto dest: wf_label_length_byte)
  with Cons.prems have e: "(of_nat (length l) :: byte) = of_nat (length m)" "l @ wire ls = m @ wire ms'"
    "wf_label l" "wf_label m" "list_all wf_label ls" "list_all wf_label ms'" by auto
  have "length l = length m"
    using wf_label_length_byte(1) [OF e(3)] wf_label_length_byte(1) [OF e(4)] unfolding e(1) by simp
  with e(2) have "l = m" "wire ls = wire ms'" by simp_all
  with Cons.IH [OF e(5,6)] ms show ?case by simp
qed

lemma ent_is_hash:
  assumes "ent_ok qname idx e" "ent_is qname nm e" "list_all wf_label nm"
  shows "dns_hash (wire nm @ r) = Some (idx, he_rhash e)"
proof -
  from assms(1) obtain ls where l: "list_all wf_label ls" "qname (he_data e) = Some (wire ls)"
    "dns_hash (wire ls) = Some (idx, he_rhash e)" unfolding ent_ok_def by blast
  from assms(2) l have "name_eq ls nm" unfolding ent_is_def using wire_inj by fastforce
  from dns_hash_ci [OF this l(1) assms(3), of "[]" r] l(3) show ?thesis by auto
qed

lemma ent_is_cong: "name_eq nm nm' \<Longrightarrow> ent_is qname nm e \<longleftrightarrow> ent_is qname nm' e"
  unfolding ent_is_def using name_eq_trans name_eq_sym by blast

lemma ent_is_same: "ent_is qname nm e \<Longrightarrow> ent_is qname nm' e \<Longrightarrow> name_eq nm nm'"
  unfolding ent_is_def using wire_inj name_eq_trans name_eq_sym by (metis option.inject)

lemma chain_find_spec:
  assumes "list_all (ent_ok qname idx) chain" "sorted (map he_rhash chain)"
    and "list_all wf_label nm" "dns_hash (wire nm @ r) = Some (idx, rh)"
  shows "(\<exists>pre e post. chain = pre @ e # post \<and> (\<forall>x\<in>set pre. \<not> ent_is qname nm x) \<and> ent_is qname nm e \<and>
      chain_find qname (wire nm @ r) rh chain pos = Some (Some (he_data e), pos + length pre)) \<or>
    (\<exists>pre post. chain = pre @ post \<and> (\<forall>x\<in>set chain. \<not> ent_is qname nm x) \<and>
      (\<forall>x\<in>set pre. he_rhash x \<le> rh) \<and> (\<forall>x\<in>set post. rh < he_rhash x) \<and>
      chain_find qname (wire nm @ r) rh chain pos = Some (None, pos + length pre))"
  using assms
proof (induction chain arbitrary: pos)
  case Nil
  then show ?case by simp
next
  case (Cons e chain)
  from Cons.prems(1) obtain ls where l: "list_all wf_label ls" "qname (he_data e) = Some (wire ls)"
    unfolding ent_ok_def by auto
  have is_e: "ent_is qname nm e \<longleftrightarrow> name_eq nm ls"
    unfolding ent_is_def using l wire_inj name_eq_sym by fastforce
  have cmp: "rhnicmp (wire nm @ r) (wire ls) = Some (name_eq nm ls)"
    using rhnicmp_wire [OF Cons.prems(3) l(1), of r "[]"] by simp
  have hash: "he_rhash e = rh" if "ent_is qname nm e"
    using ent_is_hash [OF _ that Cons.prems(3)] Cons.prems(1,4) by fastforce
  consider (here) "ent_is qname nm e" | (skip) "\<not> ent_is qname nm e" "he_rhash e \<le> rh" | (stop) "\<not> he_rhash e \<le> rh"
    by blast
  then show ?case
  proof cases
    case here
    then have "chain_find qname (wire nm @ r) rh (e # chain) pos = Some (Some (he_data e), pos)"
      using hash is_e cmp l by simp
    with here show ?thesis by (intro disjI1 exI [of _ "[]"]) auto
  next
    case skip
    then have step: "chain_find qname (wire nm @ r) rh (e # chain) pos = chain_find qname (wire nm @ r) rh chain (pos + 1)"
      using is_e cmp l by auto
    from Cons.prems have "list_all (ent_ok qname idx) chain" "sorted (map he_rhash chain)" by auto
    from Cons.IH [OF this Cons.prems(3,4), of "pos + 1"] show ?thesis
    proof (elim disjE exE conjE)
      fix pre e' post
      assume a: "chain = pre @ e' # post" "\<forall>x\<in>set pre. \<not> ent_is qname nm x" "ent_is qname nm e'"
        "chain_find qname (wire nm @ r) rh chain (pos + 1) = Some (Some (he_data e'), pos + 1 + length pre)"
      show ?thesis
        by (intro disjI1 exI [of _ "e # pre"] exI [of _ e'] exI [of _ post]) (use a step skip in auto)
    next
      fix pre post
      assume a: "chain = pre @ post" "\<forall>x\<in>set chain. \<not> ent_is qname nm x" "\<forall>x\<in>set pre. he_rhash x \<le> rh"
        "\<forall>x\<in>set post. rh < he_rhash x"
        "chain_find qname (wire nm @ r) rh chain (pos + 1) = Some (None, pos + 1 + length pre)"
      show ?thesis
        by (intro disjI2 exI [of _ "e # pre"] exI [of _ post]) (use a step skip in auto)
    qed
  next
    case stop
    have lt: "\<forall>x\<in>set (e # chain). rh < he_rhash x"
      using Cons.prems(2) stop by auto
    have "\<forall>x\<in>set (e # chain). \<not> ent_is qname nm x"
    proof
      fix x assume x: "x \<in> set (e # chain)"
      then have "ent_ok qname idx x" using Cons.prems(1) by (auto simp: list_all_iff)
      with x lt ent_is_hash [OF this _ Cons.prems(3), of r] Cons.prems(4) show "\<not> ent_is qname nm x"
        by fastforce
    qed
    with lt stop show ?thesis by (intro disjI2 exI [of _ "[]"] exI [of _ "e # chain"]) auto
  qed
qed

lemma htable_okD:
  assumes "htable_ok qname T" "i < HASH_NUM_BUCKETS"
  shows "rd T i = Some (T ! i)" "chain_ok qname i (T ! i)" "i < length T"
  using assms by (auto simp: htable_ok_def rd_def)

lemma ht_has_bucket:
  assumes "htable_ok qname T" "list_all wf_label nm" "dns_hash (wire nm @ r) = Some (idx, rh)"
  shows "ht_has qname T nm a \<longleftrightarrow> (\<exists>e \<in> set (T ! idx). he_data e = a \<and> ent_is qname nm e)"
proof
  assume "ht_has qname T nm a"
  then obtain j e where j: "j < length T" "e \<in> set (T ! j)" "he_data e = a" "ent_is qname nm e"
    unfolding ht_has_def by (auto simp: in_set_conv_nth) (metis in_set_conv_nth)
  then have "ent_ok qname j e"
    using assms(1) by (auto simp: htable_ok_def chain_ok_def list_all_iff)
  from ent_is_hash [OF this j(4) assms(2), of r] assms(3) j show "\<exists>e \<in> set (T ! idx). he_data e = a \<and> ent_is qname nm e"
    by auto
next
  assume "\<exists>e \<in> set (T ! idx). he_data e = a \<and> ent_is qname nm e"
  moreover have "idx < length T" using dns_hash_bucket [OF assms(3)] assms(1) by (simp add: htable_ok_def)
  ultimately show "ht_has qname T nm a" unfolding ht_has_def by (auto intro: nth_mem)
qed

lemma dns_lookup_cases:
  assumes "htable_ok qname T" "list_all wf_label nm"
  obtains (hit) idx rh pre e post where "dns_hash (wire nm @ r) = Some (idx, rh)" "idx < length T"
      "T ! idx = pre @ e # post" "ent_is qname nm e" "\<forall>a. ht_has qname T nm a \<longleftrightarrow> a = he_data e"
      "chain_find qname (wire nm @ r) rh (T ! idx) 0 = Some (Some (he_data e), length pre)"
      "dns_lookup qname T (wire nm @ r) =
        Some (Some (he_data e), \<lparr>loc_bucket = idx, loc_pos = length pre, loc_rhash = rh\<rparr>)"
  | (miss) idx rh pre post where "dns_hash (wire nm @ r) = Some (idx, rh)" "idx < length T"
      "T ! idx = pre @ post" "\<forall>a. \<not> ht_has qname T nm a" "\<forall>x\<in>set (T ! idx). \<not> ent_is qname nm x"
      "\<forall>x\<in>set pre. he_rhash x \<le> rh" "\<forall>x\<in>set post. rh < he_rhash x"
      "chain_find qname (wire nm @ r) rh (T ! idx) 0 = Some (None, length pre)"
      "dns_lookup qname T (wire nm @ r) =
        Some (None, \<lparr>loc_bucket = idx, loc_pos = length pre, loc_rhash = rh\<rparr>)"
proof -
  from dns_hash_ci [OF name_eq_refl assms(2,2), of r] obtain idx rh
    where h: "dns_hash (wire nm @ r) = Some (idx, rh)" "idx < HASH_NUM_BUCKETS" by blast
  note ok = htable_okD [OF assms(1) h(2)]
  have c: "list_all (ent_ok qname idx) (T ! idx)" "sorted (map he_rhash (T ! idx))"
    and dist: "sorted_wrt (\<lambda>e f. \<forall>nm. ent_is qname nm e \<longrightarrow> \<not> ent_is qname nm f) (T ! idx)"
    using ok(2) by (simp_all add: chain_ok_def)
  from chain_find_spec [OF c assms(2) h(1), of 0] show thesis
  proof (elim disjE exE conjE)
    fix pre e post
    assume a: "T ! idx = pre @ e # post" "ent_is qname nm e" "\<forall>x\<in>set pre. \<not> ent_is qname nm x"
      "chain_find qname (wire nm @ r) rh (T ! idx) 0 = Some (Some (he_data e), 0 + length pre)"
    have "\<forall>x\<in>set post. \<not> ent_is qname nm x"
      using dist a(2) unfolding a(1) by (auto simp: sorted_wrt_append)
    then have "\<forall>a. ht_has qname T nm a \<longleftrightarrow> a = he_data e"
      unfolding ht_has_bucket [OF assms h(1)] a(1) using a(2,3) by auto
    with hit [OF h(1) ok(3) a(1,2)] a(4) h ok(1) show thesis by (simp add: dns_lookup_def)
  next
    fix pre post
    assume a: "T ! idx = pre @ post" "\<forall>x\<in>set (T ! idx). \<not> ent_is qname nm x"
      "\<forall>x\<in>set pre. he_rhash x \<le> rh" "\<forall>x\<in>set post. rh < he_rhash x"
      "chain_find qname (wire nm @ r) rh (T ! idx) 0 = Some (None, 0 + length pre)"
    have "\<forall>a. \<not> ht_has qname T nm a"
      unfolding ht_has_bucket [OF assms h(1)] using a(2) by auto
    with miss [OF h(1) ok(3) a(1) _ a(2-4)] a(5) h ok(1) show thesis by (simp add: dns_lookup_def)
  qed
qed

lemma set_concat_nth: "set (concat xs) = (\<Union>i \<in> {..<length xs}. set (xs ! i))"
proof -
  have "set xs = (\<lambda>i. xs ! i) ` {..<length xs}" by (auto simp: set_conv_nth)
  then show ?thesis by (simp add: set_concat)
qed

lemma ht_has_split:
  assumes "idx < length T"
  shows "ht_has qname T nm a \<longleftrightarrow>
    (\<exists>e \<in> (\<Union>i \<in> {..<length T} - {idx}. set (T ! i)) \<union> set (T ! idx). he_data e = a \<and> ent_is qname nm e)"
proof -
  have "set (concat T) = (\<Union>i \<in> {..<length T} - {idx}. set (T ! i)) \<union> set (T ! idx)"
    unfolding set_concat_nth using assms by auto
  then show ?thesis unfolding ht_has_def by simp
qed

lemma ht_has_update:
  assumes "idx < length T"
  shows "ht_has qname (T[idx := c]) nm a \<longleftrightarrow>
    (\<exists>e \<in> (\<Union>i \<in> {..<length T} - {idx}. set (T ! i)) \<union> set c. he_data e = a \<and> ent_is qname nm e)"
  using ht_has_split [of idx "T[idx := c]" qname nm a] assms by simp

lemma chain_ok_delete: "chain_ok qname i (pre @ e # post) \<Longrightarrow> chain_ok qname i (pre @ post)"
  by (simp add: chain_ok_def sorted_wrt_append sorted_append)

lemma ent_is_not_same:
  assumes "\<not> ent_is qname nm x" "qname (he_data n) = Some (wire nm)" "list_all wf_label nm"
  shows "\<not> (ent_is qname k x \<and> ent_is qname k n)"
  using assms ent_is_same ent_is_cong by (metis ent_is_def name_eq_refl)

lemma chain_ok_insert:
  assumes "chain_ok qname i (pre @ post)" "\<forall>x\<in>set (pre @ post). \<not> ent_is qname nm x"
    and "\<forall>x\<in>set pre. he_rhash x \<le> rh" "\<forall>x\<in>set post. rh < he_rhash x"
    and "qname a = Some (wire nm)" "list_all wf_label nm" "dns_hash (wire nm) = Some (i, rh)"
  shows "chain_ok qname i (pre @ \<lparr>he_rhash = rh, he_data = a\<rparr> # post)"
proof -
  let ?n = "\<lparr>he_rhash = rh, he_data = a\<rparr>"
  have "ent_ok qname i ?n" using assms(5-7) unfolding ent_ok_def by fastforce
  moreover have "\<not> (ent_is qname k x \<and> ent_is qname k ?n)" if "x \<in> set (pre @ post)" for k x
    using ent_is_not_same [of qname nm x ?n] assms that by simp
  ultimately show ?thesis
    using assms(1,3,4) by (fastforce simp: chain_ok_def sorted_wrt_append sorted_append less_imp_le)
qed

lemma htable_ok_update:
  assumes "htable_ok qname T" "chain_ok qname idx c"
  shows "htable_ok qname (T[idx := c])"
proof -
  have "chain_ok qname i (T[idx := c] ! i)" if "i < length T" for i
    using assms that by (cases "i = idx") (simp_all add: htable_ok_def)
  with assms show ?thesis by (simp add: htable_ok_def)
qed

lemma ht_has_delete:
  assumes "htable_ok qname T" "idx < length T" "T ! idx = pre @ e # post" "ent_is qname nm e"
  shows "ht_has qname (T[idx := pre @ post]) k a \<longleftrightarrow> ht_has qname T k a \<and> \<not> name_eq nm k"
proof -
  have new: "ht_has qname (T[idx := pre @ post]) k a \<longleftrightarrow>
      (\<exists>x \<in> (\<Union>i \<in> {..<length T} - {idx}. set (T ! i)) \<union> (set pre \<union> set post). he_data x = a \<and> ent_is qname k x)"
    using ht_has_update [OF assms(2), of qname "pre @ post" k a] by (simp only: set_append)
  have old: "ht_has qname T k a \<longleftrightarrow>
      (\<exists>x \<in> (\<Union>i \<in> {..<length T} - {idx}. set (T ! i)) \<union> (set pre \<union> set post) \<union> {e}. he_data x = a \<and> ent_is qname k x)"
    unfolding ht_has_split [OF assms(2)] assms(3) by auto
  have oks: "\<And>i. i < length T \<Longrightarrow> chain_ok qname i (T ! i)" using assms(1) by (simp add: htable_ok_def)
  have ch: "chain_ok qname idx (pre @ e # post)" using oks [OF assms(2)] assms(3) by simp
  have "\<not> ent_is qname k x" if "name_eq nm k" "x \<in> (\<Union>i \<in> {..<length T} - {idx}. set (T ! i)) \<union> (set pre \<union> set post)" for x
  proof
    assume "ent_is qname k x"
    then have x: "ent_is qname nm x" using ent_is_cong [OF that(1)] by simp
    from assms(4) obtain ls where n: "list_all wf_label ls" "name_eq ls nm" unfolding ent_is_def by blast
    have ls: "list_all wf_label ls" "ent_is qname ls x" "ent_is qname ls e"
      using n(1) x assms(4) unfolding ent_is_cong [OF n(2)] by blast+
    from that(2) show False
    proof
      assume "x \<in> (\<Union>i \<in> {..<length T} - {idx}. set (T ! i))"
      then obtain i where i: "i < length T" "i \<noteq> idx" "x \<in> set (T ! i)" by auto
      have "ent_ok qname i x" "ent_ok qname idx e"
        using oks [OF i(1)] i(3) ch by (auto simp: chain_ok_def list_all_iff)
      from ent_is_hash [OF this(1) ls(2,1), of "[]"] ent_is_hash [OF this(2) ls(3,1), of "[]"] i(2) show False by simp
    next
      assume "x \<in> set pre \<union> set post"
      with ch ls(2,3) show False by (auto simp: chain_ok_def sorted_wrt_append)
    qed
  qed
  moreover have "ent_is qname k e \<longleftrightarrow> name_eq nm k"
    using ent_is_same [OF assms(4)] ent_is_cong [of nm k] assms(4) by blast
  ultimately show ?thesis unfolding new old by blast
qed

lemma ht_has_insert:
  assumes "idx < length T" "T ! idx = pre @ post" "qname a = Some (wire nm)" "list_all wf_label nm"
  shows "ht_has qname (T[idx := pre @ \<lparr>he_rhash = rh, he_data = a\<rparr> # post]) k b \<longleftrightarrow>
    ht_has qname T k b \<or> (b = a \<and> name_eq nm k)"
proof -
  let ?n = "\<lparr>he_rhash = rh, he_data = a\<rparr>"
  have new: "ht_has qname (T[idx := pre @ ?n # post]) k b \<longleftrightarrow>
      (\<exists>x \<in> (\<Union>i \<in> {..<length T} - {idx}. set (T ! i)) \<union> (set pre \<union> set post) \<union> {?n}. he_data x = b \<and> ent_is qname k x)"
    unfolding ht_has_update [OF assms(1)] by auto
  have old: "ht_has qname T k b \<longleftrightarrow>
      (\<exists>x \<in> (\<Union>i \<in> {..<length T} - {idx}. set (T ! i)) \<union> (set pre \<union> set post). he_data x = b \<and> ent_is qname k x)"
    unfolding ht_has_split [OF assms(1)] assms(2) by auto
  have "ent_is qname k ?n \<longleftrightarrow> name_eq nm k"
  proof
    assume "ent_is qname k ?n"
    moreover have "ent_is qname nm ?n" using assms(3,4) by (auto simp: ent_is_def)
    ultimately show "name_eq nm k" using ent_is_same by blast
  qed (use assms(3,4) in \<open>auto simp: ent_is_def\<close>)
  then show ?thesis unfolding new old by auto
qed

subsection \<open>Lookup, insertion and deletion\<close>

text \<open>
  C12: in a well-formed table \<^verbatim>\<open>dns_lookup\<close> (which never reads outside a name or the table)
  returns the address of the one entry whose name equals the key up to case, and null exactly
  when there is none: stopping at the first larger long hash loses nothing.
\<close>

theorem dns_lookup_correct:
  assumes "htable_ok qname T" and "wf_name nm"
  shows "\<exists>res loc. dns_lookup qname T (wire nm @ r) = Some (res, loc) \<and>
    (\<forall>a. res = Some a \<longleftrightarrow> ht_has qname T nm a) \<and> (res = None \<longleftrightarrow> (\<forall>a. \<not> ht_has qname T nm a))"
  by (cases rule: dns_lookup_cases [OF assms(1) wf_nameD [OF assms(2)], of r]) auto

lemma htable_ok_mk [simp]: "htable_ok qname mk_dns_hash"
  by (simp add: htable_ok_def mk_dns_hash_def chain_ok_def)

lemma ht_has_mk [simp]: "\<not> ht_has qname mk_dns_hash nm a"
  by (simp add: ht_has_def mk_dns_hash_def)

lemma lookup_mk: "list_all wf_label nm \<Longrightarrow> \<exists>loc. dns_lookup qname mk_dns_hash (wire nm @ r) = Some (None, loc)"
  by (rule dns_lookup_cases [OF htable_ok_mk]) auto

lemma dns_lookup_None:
  assumes "htable_ok qname T" "list_all wf_label nm" "dns_lookup qname T (wire nm @ r) = Some (None, loc)"
  obtains idx rh pre post where "T ! idx = pre @ post" "idx < length T" "dns_hash (wire nm) = Some (idx, rh)"
    "\<forall>x\<in>set (T ! idx). \<not> ent_is qname nm x" "\<forall>x\<in>set pre. he_rhash x \<le> rh" "\<forall>x\<in>set post. rh < he_rhash x"
    "loc = \<lparr>loc_bucket = idx, loc_pos = length pre, loc_rhash = rh\<rparr>"
proof (cases rule: dns_lookup_cases [OF assms(1,2), of r])
  case (2 idx rh pre post)
  note miss = 2
  have "dns_hash (wire nm) = Some (idx, rh)"
    using dns_hash_ci [OF name_eq_refl assms(2,2), of r "[]"] miss(1) by auto
  with miss that assms(3) show ?thesis by auto
qed (use assms(3) in auto)

lemma add_dns_hash_ok:
  assumes "htable_ok qname T" "list_all wf_label nm" "qname a = Some (wire nm)"
    and "dns_lookup qname T (wire nm @ r) = Some (None, loc)"
  shows "\<exists>T'. add_dns_hash T a loc True = Some (True, T') \<and> htable_ok qname T' \<and>
    (\<forall>k b. ht_has qname T' k b \<longleftrightarrow> ht_has qname T k b \<or> (b = a \<and> name_eq nm k)) \<and>
    (\<exists>idx pre post. idx < length T \<and> T ! idx = pre @ post \<and>
      T' = T[idx := pre @ \<lparr>he_rhash = loc_rhash loc, he_data = a\<rparr> # post])"
proof -
  obtain idx rh pre post where p: "T ! idx = pre @ post" "idx < length T"
    "dns_hash (wire nm) = Some (idx, rh)" "\<forall>x\<in>set (T ! idx). \<not> ent_is qname nm x"
    "\<forall>x\<in>set pre. he_rhash x \<le> rh" "\<forall>x\<in>set post. rh < he_rhash x"
    "loc = \<lparr>loc_bucket = idx, loc_pos = length pre, loc_rhash = rh\<rparr>"
    by (rule dns_lookup_None [OF assms(1,2,4)]) (rule that)
  let ?T = "T[idx := pre @ \<lparr>he_rhash = rh, he_data = a\<rparr> # post]"
  have "add_dns_hash T a loc True = Some (True, ?T)"
    using p(1,2,7) by (simp add: add_dns_hash_def mem_simps)
  moreover have c: "chain_ok qname idx (pre @ post)" using assms(1) p(1,2) by (metis htable_ok_def)
  have "htable_ok qname ?T"
    by (rule htable_ok_update [OF assms(1) chain_ok_insert [OF c p(4) [unfolded p(1)] p(5,6) assms(3,2) p(3)]])
  moreover have "\<forall>k b. ht_has qname ?T k b \<longleftrightarrow> ht_has qname T k b \<or> (b = a \<and> name_eq nm k)"
    using ht_has_insert [where qname = qname and a = a, OF p(2,1) assms(3,2), of rh] by blast
  moreover have "rh = loc_rhash loc" using p(7) by simp
  ultimately show ?thesis using p(1,2) by blast
qed

lemma one_entry_table:
  assumes "list_all wf_label nm" "qname a = Some (wire nm)"
  shows "\<exists>T. htable_ok qname T \<and> (\<forall>k b. ht_has qname T k b \<longleftrightarrow> b = a \<and> name_eq nm k)"
proof -
  from lookup_mk [OF assms(1), of qname "[]"] obtain loc where "dns_lookup qname mk_dns_hash (wire nm @ []) = Some (None, loc)" ..
  from add_dns_hash_ok [OF htable_ok_mk assms this] show ?thesis by auto
qed

theorem dns_lookup_correct_witness:
  "\<exists>T. map_option fst (dns_lookup (\<lambda>_. Some (wire [[97]])) T (wire [[65]] @ [])) = Some (Some 5)"
proof -
  have "list_all wf_label [[97]]" by (simp add: wf_label_def)
  from one_entry_table [OF this, of "\<lambda>_. Some (wire [[97]])" 5] obtain T
    where T: "htable_ok (\<lambda>_. Some (wire [[97]])) T" "ht_has (\<lambda>_. Some (wire [[97]])) T [[65]] 5"
    by (auto simp: tolower_def)
  have "wf_name [[65]]" by (simp add: wf_name_def wf_label_def DNSNAMEBUFSIZE_def)
  from dns_lookup_correct [OF T(1) this, of "[]"] T(2) show ?thesis by fastforce
qed

text \<open>
  C13: a name that \<^verbatim>\<open>dns_lookup\<close> does not find can be added with \<^verbatim>\<open>add_dns_hash\<close> at the location it
  returned: the table stays well-formed, and afterwards the new entry is found under every
  spelling of its name and every other name is found as before; without memory nothing changes.
\<close>

theorem add_dns_hash_correct:
  assumes "htable_ok qname T" and "wf_name nm" and "qname a = Some (wire nm)"
    and "dns_lookup qname T (wire nm @ r) = Some (None, loc)"
  shows "\<exists>T'. add_dns_hash T a loc True = Some (True, T') \<and> htable_ok qname T' \<and>
    (\<forall>k. wf_name k \<longrightarrow> map_option fst (dns_lookup qname T' (wire k)) =
       (if name_eq nm k then Some (Some a) else map_option fst (dns_lookup qname T (wire k)))) \<and>
    add_dns_hash T a loc False = Some (False, T)"
proof -
  from add_dns_hash_ok [OF assms(1) wf_nameD [OF assms(2)] assms(3,4)] obtain T'
    where T': "add_dns_hash T a loc True = Some (True, T')" "htable_ok qname T'"
      "\<And>k b. ht_has qname T' k b \<longleftrightarrow> ht_has qname T k b \<or> (b = a \<and> name_eq nm k)" by blast
  have none: "\<not> ht_has qname T nm b" for b
    by (cases rule: dns_lookup_cases [OF assms(1) wf_nameD [OF assms(2)], of r]) (use assms(4) in auto)
  have "map_option fst (dns_lookup qname T' (wire k)) =
      (if name_eq nm k then Some (Some a) else map_option fst (dns_lookup qname T (wire k)))" if k: "wf_name k" for k
  proof -
    have nk: "\<not> ht_has qname T k b" if "name_eq nm k" for b
      using none [of b] ent_is_cong [OF that, of qname] unfolding ht_has_def by blast
    show ?thesis
      by (cases rule: dns_lookup_cases [OF T'(2) wf_nameD [OF k], of "[]"];
          cases rule: dns_lookup_cases [OF assms(1) wf_nameD [OF k], of "[]"])
        (use T'(3) [of k] nk in auto)
  qed
  with T' show ?thesis by (auto simp: add_dns_hash_def)
qed

theorem add_dns_hash_correct_witness:
  "\<exists>loc T'. add_dns_hash mk_dns_hash 5 loc True = Some (True, T') \<and>
    map_option fst (dns_lookup (\<lambda>_. Some (wire [[97]])) T' (wire [[65]])) = Some (Some 5)"
proof -
  have wf: "wf_name [[97]]" "wf_name [[65]]" "name_eq [[97]] [[65]]"
    by (simp_all add: wf_name_def wf_label_def DNSNAMEBUFSIZE_def tolower_def)
  from lookup_mk [OF wf_nameD [OF wf(1)], of "\<lambda>_. Some (wire [[97]])" "[]"] obtain loc
    where l: "dns_lookup (\<lambda>_. Some (wire [[97]])) mk_dns_hash (wire [[97]] @ []) = Some (None, loc)" ..
  from add_dns_hash_correct [OF htable_ok_mk wf(1) _ l, of 5] obtain T' where
    T': "add_dns_hash mk_dns_hash 5 loc True = Some (True, T')"
      "\<forall>k. wf_name k \<longrightarrow> map_option fst (dns_lookup (\<lambda>_. Some (wire [[97]])) T' (wire k)) =
        (if name_eq [[97]] k then Some (Some 5)
         else map_option fst (dns_lookup (\<lambda>_. Some (wire [[97]])) mk_dns_hash (wire k)))" by blast
  from T'(2) [rule_format, OF wf(2)] wf(3) T'(1) show ?thesis unfolding if_P [OF wf(3)] by blast
qed

text \<open>
  C14: \<^verbatim>\<open>del_dns_hash\<close> removes exactly the entry of the given name and returns its address (null
  if there is none), keeps the table well-formed and leaves every other name to be found as before.
\<close>

theorem del_dns_hash_correct:
  assumes "htable_ok qname T" and "wf_name nm"
  shows "\<exists>res loc T'. dns_lookup qname T (wire nm @ r) = Some (res, loc) \<and>
    del_dns_hash qname T (wire nm @ r) = Some (res, T') \<and> htable_ok qname T' \<and>
    (\<forall>k. wf_name k \<longrightarrow> map_option fst (dns_lookup qname T' (wire k)) =
       (if name_eq nm k then Some None else map_option fst (dns_lookup qname T (wire k)))) \<and>
    (res \<noteq> None \<longrightarrow> map_option snd (del_dns_hash_ent T loc) = Some T')"
proof -
  note wf = wf_nameD [OF assms(2)]
  have found: "map_option fst (dns_lookup qname T1 (wire k)) =
      (if name_eq nm k then Some None else map_option fst (dns_lookup qname T (wire k)))"
    if k: "wf_name k" and T1: "htable_ok qname T1"
      and has: "\<And>a. ht_has qname T1 k a \<longleftrightarrow> ht_has qname T k a \<and> \<not> name_eq nm k" for T1 k
    by (cases rule: dns_lookup_cases [OF T1 wf_nameD [OF k], of "[]"];
        cases rule: dns_lookup_cases [OF assms(1) wf_nameD [OF k], of "[]"]) (use has in auto)
  show ?thesis
  proof (cases rule: dns_lookup_cases [OF assms(1) wf, of r])
    case (1 idx rh pre e post)
    note hit = 1
    let ?T = "T[idx := pre @ post]"
    have rm: "remove_at T idx (length pre) = Some (he_data e, ?T)"
      using hit(2,3) by (simp add: remove_at_def mem_simps)
    have ok: "htable_ok qname ?T"
      using assms(1) hit(2,3) chain_ok_delete by (intro htable_ok_update) (metis htable_ok_def)+
    from rm hit have "del_dns_hash qname T (wire nm @ r) = Some (Some (he_data e), ?T)"
      by (simp add: del_dns_hash_def rd_def)
    moreover have "del_dns_hash_ent T \<lparr>loc_bucket = idx, loc_pos = length pre, loc_rhash = rh\<rparr> = Some (he_data e, ?T)"
      using rm by (simp add: del_dns_hash_ent_def)
    ultimately show ?thesis
      using hit(7) ok found [OF _ ok ht_has_delete [OF assms(1) hit(2,3,4)]] by auto
  next
    case (2 idx rh pre post)
    note miss = 2
    then have "del_dns_hash qname T (wire nm @ r) = Some (None, T)"
      by (simp add: del_dns_hash_def rd_def)
    moreover have "ht_has qname T k a \<longleftrightarrow> ht_has qname T k a \<and> \<not> name_eq nm k" for k a
      using miss(4) ent_is_cong unfolding ht_has_def by blast
    ultimately show ?thesis using miss(9) assms(1) found [OF _ assms(1)] by auto
  qed
qed

theorem del_dns_hash_correct_witness:
  "\<exists>T T'. del_dns_hash (\<lambda>_. Some (wire [[97]])) T (wire [[65]] @ []) = Some (Some 5, T') \<and>
    map_option fst (dns_lookup (\<lambda>_. Some (wire [[97]])) T' (wire [[97]])) = Some None"
proof -
  let ?q = "\<lambda>_ :: nat. Some (wire [[97]])"
  have wf: "wf_name [[97]]" "wf_name [[65]]" "name_eq [[65]] [[97]]"
    by (simp_all add: wf_name_def wf_label_def DNSNAMEBUFSIZE_def tolower_def)
  from one_entry_table [OF wf_nameD [OF wf(1)], of ?q 5] obtain T
    where T: "htable_ok ?q T" "\<And>k b. ht_has ?q T k b \<longleftrightarrow> b = 5 \<and> name_eq [[97]] k" by auto
  from del_dns_hash_correct [OF T(1) wf(2), of "[]"] obtain res loc T'
    where d: "dns_lookup ?q T (wire [[65]] @ []) = Some (res, loc)"
      "del_dns_hash ?q T (wire [[65]] @ []) = Some (res, T')"
      "\<forall>k. wf_name k \<longrightarrow> map_option fst (dns_lookup ?q T' (wire k)) =
       (if name_eq [[65]] k then Some None else map_option fst (dns_lookup ?q T (wire k)))" by auto
  have "res = Some 5"
    by (cases rule: dns_lookup_cases [OF T(1) wf_nameD [OF wf(2)], of "[]"])
      (use d(1) T(2) name_eq_sym [OF wf(3)] in auto)
  moreover have "map_option fst (dns_lookup ?q T' (wire [[97]])) = Some None"
    using d(3) [rule_format, OF wf(1)] wf(3) by simp
  ultimately show ?thesis using d(2) by blast
qed

subsection \<open>Iteration\<close>

definition remaining :: "htable \<Rightarrow> hash_pos \<Rightarrow> hent list" where
  "remaining T pos = hp_ent pos @ concat (drop (hp_bucket pos + 1) T)"

lemma scan_buckets_spec:
  assumes "length T = HASH_NUM_BUCKETS"
  shows "case scan_buckets T i of
      None \<Rightarrow> concat (drop i T) = []
    | Some (a, pos) \<Rightarrow> (\<exists>e. concat (drop i T) = e # remaining T pos \<and> he_data e = a)"
  using assms
proof (induction T i rule: scan_buckets.induct)
  case (1 T i)
  show ?case
  proof (cases "i < length T")
    case True
    note d = nth_drop_Cons [OF True]
    show ?thesis
    proof (cases "T ! i")
      case Nil
      with 1 True d show ?thesis by (subst scan_buckets.simps) (simp split: option.splits prod.splits)
    next
      case (Cons e es)
      with 1 True d show ?thesis by (subst scan_buckets.simps) (simp add: remaining_def)
    qed
  next
    case False
    with 1 show ?thesis by (subst scan_buckets.simps) simp
  qed
qed

text \<open>A loop with \<^verbatim>\<open>fetch_first\<close> and \<^verbatim>\<open>fetch_next\<close>, of at most \<open>n\<close> steps.\<close>

fun fetch_loop :: "htable \<Rightarrow> (nat \<times> hash_pos) option \<Rightarrow> nat \<Rightarrow> nat list option" where
  "fetch_loop T None n = Some []"
| "fetch_loop T (Some (a, pos)) 0 = None"
| "fetch_loop T (Some (a, pos)) (Suc n) = map_option ((#) a) (fetch_loop T (fetch_next T pos) n)"

lemma fetch_next_spec:
  assumes "length T = HASH_NUM_BUCKETS"
  shows "case fetch_next T pos of
      None \<Rightarrow> remaining T pos = []
    | Some (a, pos') \<Rightarrow> (\<exists>e. remaining T pos = e # remaining T pos' \<and> he_data e = a)"
proof (cases "hp_ent pos")
  case Nil
  with scan_buckets_spec [OF assms, of "hp_bucket pos + 1"] show ?thesis
    by (simp add: fetch_next_def remaining_def split: option.splits prod.splits)
next
  case (Cons e es)
  then show ?thesis by (simp add: fetch_next_def remaining_def)
qed

lemma fetch_loop_remaining:
  assumes "length T = HASH_NUM_BUCKETS" "length (remaining T pos) \<le> n"
  shows "fetch_loop T (fetch_next T pos) n = Some (map he_data (remaining T pos))"
  using assms(2)
proof (induction n arbitrary: pos)
  case 0
  with fetch_next_spec [OF assms(1), of pos] show ?case by (auto split: option.splits)
next
  case (Suc n)
  show ?case
  proof (cases "fetch_next T pos")
    case None
    with fetch_next_spec [OF assms(1), of pos] show ?thesis by simp
  next
    case (Some p)
    obtain a pos' where p: "p = (a, pos')" by (cases p)
    with Some fetch_next_spec [OF assms(1), of pos] obtain e where
      "remaining T pos = e # remaining T pos'" "he_data e = a" by auto
    with Suc Some p show ?thesis by simp
  qed
qed

text \<open>
  C15: \<^verbatim>\<open>fetch_first\<close> and \<^verbatim>\<open>fetch_next\<close> visit every entry of the table exactly once, bucket by
  bucket and in chain order, and then return null: as many steps as there are entries are enough.
\<close>

theorem fetch_visits_all:
  assumes "htable_ok qname T" and "length (concat T) \<le> n"
  shows "fetch_loop T (fetch_first T) n = Some (map he_data (concat T))"
proof -
  have len: "length T = HASH_NUM_BUCKETS" using assms(1) by (simp add: htable_ok_def)
  show ?thesis
  proof (cases "fetch_first T")
    case None
    with scan_buckets_spec [OF len, of 0] show ?thesis by (simp add: fetch_first_def)
  next
    case (Some p)
    obtain a pos where p: "p = (a, pos)" by (cases p)
    with Some scan_buckets_spec [OF len, of 0] obtain e where e: "concat T = e # remaining T pos" "he_data e = a"
      by (auto simp: fetch_first_def)
    with assms(2) obtain m where n: "n = Suc m" "length (remaining T pos) \<le> m" by (cases n) auto
    with Some p e fetch_loop_remaining [OF len n(2)] show ?thesis by simp
  qed
qed

theorem fetch_visits_all_witness:
  "\<exists>T. fetch_loop T (fetch_first T) (length (concat T)) = Some (map he_data (concat T)) \<and>
    ht_has (\<lambda>_. Some (wire [[97]])) T [[97]] 5"
proof -
  have "list_all wf_label [[97]]" by (simp add: wf_label_def)
  from one_entry_table [OF this, of "\<lambda>_. Some (wire [[97]])" 5] obtain T
    where T: "htable_ok (\<lambda>_. Some (wire [[97]])) T" "ht_has (\<lambda>_. Some (wire [[97]])) T [[97]] 5" by auto
  from fetch_visits_all [OF T(1) order_refl] T(2) show ?thesis by blast
qed

subsection \<open>The interface: a finite map indexed by names\<close>

text \<open>
  What the cache relies on: a store of objects, each known under one name, that is searched
  without regard to case. A name is put into the store only after a search did not find it.
\<close>

locale name_index =
  fixes inv :: "'s \<Rightarrow> bool"
    and known :: "'a \<Rightarrow> label list \<Rightarrow> bool"
    and get :: "'s \<Rightarrow> label list \<Rightarrow> 'a option"
    and put :: "'s \<Rightarrow> label list \<Rightarrow> 'a \<Rightarrow> 's"
    and del :: "'s \<Rightarrow> label list \<Rightarrow> 's"
  assumes inv_put: "inv s \<Longrightarrow> wf_name n \<Longrightarrow> known a n \<Longrightarrow> get s n = None \<Longrightarrow> inv (put s n a)"
    and get_put: "inv s \<Longrightarrow> wf_name n \<Longrightarrow> known a n \<Longrightarrow> get s n = None \<Longrightarrow> wf_name k \<Longrightarrow>
      get (put s n a) k = (if name_eq n k then Some a else get s k)"
    and inv_del: "inv s \<Longrightarrow> wf_name n \<Longrightarrow> inv (del s n)"
    and get_del: "inv s \<Longrightarrow> wf_name n \<Longrightarrow> wf_name k \<Longrightarrow>
      get (del s n) k = (if name_eq n k then None else get s k)"

datatype 'a index_op = Put "label list" 'a | Del "label list"

text \<open>A client of the interface: it puts an object only if its name is not found.\<close>

fun index_step :: "('s \<Rightarrow> label list \<Rightarrow> 'a option) \<Rightarrow> ('s \<Rightarrow> label list \<Rightarrow> 'a \<Rightarrow> 's) \<Rightarrow> ('s \<Rightarrow> label list \<Rightarrow> 's) \<Rightarrow>
    'a index_op \<Rightarrow> 's \<Rightarrow> 's" where
  "index_step get put del (Put n a) s = (if get s n = None then put s n a else s)"
| "index_step get put del (Del n) s = del s n"

text \<open>The abstract store: a function of names, up to case.\<close>

fun abs_step :: "'a index_op \<Rightarrow> (label list \<Rightarrow> 'a option) \<Rightarrow> (label list \<Rightarrow> 'a option)" where
  "abs_step (Put n a) f = (if f n = None then (\<lambda>k. if name_eq n k then Some a else f k) else f)"
| "abs_step (Del n) f = (\<lambda>k. if name_eq n k then None else f k)"

fun op_ok :: "('a \<Rightarrow> label list \<Rightarrow> bool) \<Rightarrow> 'a index_op \<Rightarrow> bool" where
  "op_ok known (Put n a) = (wf_name n \<and> known a n)"
| "op_ok known (Del n) = wf_name n"

context name_index begin

lemma step_refines:
  assumes "inv s" "op_ok known oper" "\<forall>k. wf_name k \<longrightarrow> get s k = f k"
  shows "inv (index_step get put del oper s) \<and>
    (\<forall>k. wf_name k \<longrightarrow> get (index_step get put del oper s) k = abs_step oper f k)"
proof (cases oper)
  case (Put n a)
  with assms show ?thesis using inv_put get_put by auto
next
  case (Del n)
  with assms show ?thesis using inv_del get_del by auto
qed

lemma run_refines:
  assumes "inv s" "list_all (op_ok known) ops" "\<forall>k. wf_name k \<longrightarrow> get s k = f k"
  shows "inv (fold (index_step get put del) ops s) \<and>
    (\<forall>k. wf_name k \<longrightarrow> get (fold (index_step get put del) ops s) k = fold abs_step ops f k)"
  using assms
proof (induction ops arbitrary: s f)
  case (Cons oper ops)
  from Cons.prems have o: "op_ok known oper" "list_all (op_ok known) ops" by auto
  note st = step_refines [OF Cons.prems(1) o(1) Cons.prems(3)]
  from Cons.IH [OF conjunct1 [OF st] o(2) conjunct2 [OF st]] show ?case by simp
qed simp

end

definition ht_get :: "(nat \<Rightarrow> byte list option) \<Rightarrow> htable \<Rightarrow> label list \<Rightarrow> nat option" where
  "ht_get qname T n = (case dns_lookup qname T (wire n) of Some (r, _) \<Rightarrow> r | None \<Rightarrow> None)"

definition ht_put :: "(nat \<Rightarrow> byte list option) \<Rightarrow> htable \<Rightarrow> label list \<Rightarrow> nat \<Rightarrow> htable" where
  "ht_put qname T n a =
     (case dns_lookup qname T (wire n) of
        Some (_, loc) \<Rightarrow> (case add_dns_hash T a loc True of Some (_, T') \<Rightarrow> T' | None \<Rightarrow> T)
      | None \<Rightarrow> T)"

definition ht_del :: "(nat \<Rightarrow> byte list option) \<Rightarrow> htable \<Rightarrow> label list \<Rightarrow> htable" where
  "ht_del qname T n = (case del_dns_hash qname T (wire n) of Some (_, T') \<Rightarrow> T' | None \<Rightarrow> T)"

lemma ht_get_has:
  assumes "htable_ok qname T" "wf_name n"
  shows "ht_get qname T n = Some a \<longleftrightarrow> ht_has qname T n a"
  by (cases rule: dns_lookup_cases [OF assms(1) wf_nameD [OF assms(2)], of "[]"]) (auto simp: ht_get_def)

lemma ht_get_eqI:
  assumes "\<And>a. ht_get qname T n = Some a \<longleftrightarrow> x = Some a"
  shows "ht_get qname T n = x"
  using assms by (metis option.exhaust)

lemma ht_put_ok:
  assumes "htable_ok qname T" "wf_name n" "qname a = Some (wire n)" "ht_get qname T n = None"
  shows "htable_ok qname (ht_put qname T n a) \<and>
    (\<forall>k b. ht_has qname (ht_put qname T n a) k b \<longleftrightarrow> ht_has qname T k b \<or> (b = a \<and> name_eq n k))"
proof -
  obtain loc where l: "dns_lookup qname T (wire n @ []) = Some (None, loc)"
    by (rule dns_lookup_cases [OF assms(1) wf_nameD [OF assms(2)], of "[]"])
      (use assms(4) in \<open>auto simp: ht_get_def\<close>)
  from add_dns_hash_ok [OF assms(1) wf_nameD [OF assms(2)] assms(3) l] l show ?thesis
    by (auto simp: ht_put_def)
qed

lemma ht_del_ok:
  assumes "htable_ok qname T" "wf_name n"
  shows "htable_ok qname (ht_del qname T n) \<and>
    (\<forall>k b. ht_has qname (ht_del qname T n) k b \<longleftrightarrow> ht_has qname T k b \<and> \<not> name_eq n k)"
proof (cases rule: dns_lookup_cases [OF assms(1) wf_nameD [OF assms(2)], of "[]"])
  case (1 idx rh pre e post)
  then have "ht_del qname T n = T[idx := pre @ post]"
    by (simp add: ht_del_def del_dns_hash_def remove_at_def rd_def wr_def)
  moreover have "chain_ok qname idx (pre @ e # post)" using assms(1) 1(2,3) by (metis htable_ok_def)
  from htable_ok_update [OF assms(1) chain_ok_delete [OF this]] have "htable_ok qname (T[idx := pre @ post])" .
  ultimately show ?thesis using ht_has_delete [OF assms(1) 1(2,3,4)] by simp
next
  case (2 idx rh pre post)
  then have "ht_del qname T n = T" by (simp add: ht_del_def del_dns_hash_def rd_def)
  moreover have "ht_has qname T k b \<longleftrightarrow> ht_has qname T k b \<and> \<not> name_eq n k" for k b
    using 2(4) ent_is_cong unfolding ht_has_def by blast
  ultimately show ?thesis using assms(1) by simp
qed

interpretation hidx: name_index "htable_ok qname" "\<lambda>a n. qname a = Some (wire n)" "ht_get qname" "ht_put qname" "ht_del qname"
  for qname
proof
  fix T n a k
  assume a: "htable_ok qname T" "wf_name n"
  {
    assume b: "qname a = Some (wire n)" "ht_get qname T n = None"
    note p = ht_put_ok [OF a b]
    then show ok: "htable_ok qname (ht_put qname T n a)" by simp
    assume k: "wf_name k"
    have none: "name_eq n k \<Longrightarrow> \<not> ht_has qname T k c" for c
      using ht_get_has [OF a] b(2) ent_is_cong unfolding ht_has_def by fastforce
    show "ht_get qname (ht_put qname T n a) k = (if name_eq n k then Some a else ht_get qname T k)"
      by (rule ht_get_eqI) (use p none ht_get_has [OF ok k] ht_get_has [OF a(1) k] in auto)
  next
    note d = ht_del_ok [OF a]
    then show ok: "htable_ok qname (ht_del qname T n)" by simp
    assume k: "wf_name k"
    show "ht_get qname (ht_del qname T n) k = (if name_eq n k then None else ht_get qname T k)"
      by (rule ht_get_eqI) (use d ht_get_has [OF ok k] ht_get_has [OF a(1) k] in auto)
  }
qed

text \<open>
  C16: the table of \<^verbatim>\<open>hash.c\<close> implements a map from names (up to case) to cache entries: any
  sequence of guarded insertions and deletions, from the empty table on, keeps the table
  well-formed, and every later lookup gives what the abstract map gives.
\<close>

theorem hash_table_refines_map:
  assumes "list_all (op_ok (\<lambda>a n. qname a = Some (wire n))) ops" and "wf_name k"
  shows "let T = fold (index_step (ht_get qname) (ht_put qname) (ht_del qname)) ops mk_dns_hash
    in htable_ok qname T \<and> ht_get qname T k = fold abs_step ops (\<lambda>_. None) k"
proof -
  have "ht_get qname mk_dns_hash n = None" if "wf_name n" for n
    using lookup_mk [OF wf_nameD [OF that], of qname "[]"] by (auto simp: ht_get_def)
  with hidx.run_refines [OF htable_ok_mk assms(1), of "\<lambda>_. None"] assms(2) show ?thesis
    by (simp add: Let_def)
qed

theorem hash_table_refines_map_witness:
  "ht_get (\<lambda>a. Some (wire (if a = 0 then [[97]] else [[98]])))
     (fold (index_step (ht_get (\<lambda>a. Some (wire (if a = 0 then [[97]] else [[98]]))))
              (ht_put (\<lambda>a. Some (wire (if a = 0 then [[97]] else [[98]]))))
              (ht_del (\<lambda>a. Some (wire (if a = 0 then [[97]] else [[98]])))))
        [Put [[97]] 0, Put [[98]] 1, Del [[65]]] mk_dns_hash) [[66]] = Some 1"
proof -
  let ?q = "\<lambda>a :: nat. Some (wire (if a = 0 then [[97]] else [[98]]))"
  have "list_all (op_ok (\<lambda>a n. ?q a = Some (wire n))) [Put [[97]] 0, Put [[98]] 1, Del [[65]]]" "wf_name [[66]]"
    by (simp_all add: wf_name_def wf_label_def DNSNAMEBUFSIZE_def)
  from hash_table_refines_map [OF this]
  have "ht_get ?q (fold (index_step (ht_get ?q) (ht_put ?q) (ht_del ?q)) [Put [[97]] 0, Put [[98]] 1, Del [[65]]] mk_dns_hash) [[66]]
      = fold abs_step [Put [[97]] 0, Put [[98]] 1, Del [[65]]] (\<lambda>_. None) [[66]]"
    unfolding Let_def by blast
  also have "\<dots> = Some 1" by (simp add: tolower_def)
  finally show ?thesis .
qed

end
