(* ===== verification/Cache_Data.thy ===== *)
theory Cache_Data
  imports Rr_Types Name_Hash
begin

unbundle bit_operations_syntax

section \<open>Cache entries (cache.h, cache.c)\<close>

text \<open>
  The data of the cache and the operations on a single cache entry (\<^verbatim>\<open>dns_cent_t\<close>). An entry
  is a record; the union of the fields for negative and for existing domains is a datatype,
  so that reading the member that is not stored gives \<^term>\<open>None\<close>. An RR set is a record with
  its list of record data; the pointer to its node in the list of RR sets is the number of the
  node. Sizes are those of an LP64 target. \<open>time_t\<close> and the byte counts are unbounded
  integers; every call of \<^verbatim>\<open>malloc\<close> takes its outcome from \<open>c_mem\<close> (all succeed once it is
  used up). \<^verbatim>\<open>time(NULL)\<close> is a parameter \<open>now\<close>, one value for the whole operation.
\<close>

subsection \<open>Flags\<close>

definition CF_NEGATIVE :: u16 where "CF_NEGATIVE = 1"
definition CF_LOCAL :: u16 where "CF_LOCAL = 2"
definition CF_AUTH :: u16 where "CF_AUTH = 4"
definition CF_NOCACHE :: u16 where "CF_NOCACHE = 8"
definition CF_ADDITIONAL :: u16 where "CF_ADDITIONAL = 16"
definition CF_NOPURGE :: u16 where "CF_NOPURGE = 32"
definition CF_ROOTSERV :: u16 where "CF_ROOTSERV = 64"

definition DF_NEGATIVE :: u16 where "DF_NEGATIVE = 1"
definition DF_LOCAL :: u16 where "DF_LOCAL = 2"
definition DF_AUTH :: u16 where "DF_AUTH = 4"
definition DF_NOCACHE :: u16 where "DF_NOCACHE = 8"
definition DF_WILD :: u16 where "DF_WILD = 16"

definition cundef :: nat where "cundef = 0xff"

lemmas flag_defs = CF_NEGATIVE_def CF_LOCAL_def CF_AUTH_def CF_NOCACHE_def CF_ADDITIONAL_def
  CF_NOPURGE_def CF_ROOTSERV_def DF_NEGATIVE_def DF_LOCAL_def DF_AUTH_def DF_NOCACHE_def DF_WILD_def

lemma fset_flag_bit [flag_simps]:
  "fset f CF_NEGATIVE \<longleftrightarrow> bit f 0" "fset f CF_LOCAL \<longleftrightarrow> bit f 1" "fset f CF_AUTH \<longleftrightarrow> bit f 2"
  "fset f CF_NOCACHE \<longleftrightarrow> bit f 3" "fset f CF_ADDITIONAL \<longleftrightarrow> bit f 4" "fset f CF_NOPURGE \<longleftrightarrow> bit f 5"
  "fset f CF_ROOTSERV \<longleftrightarrow> bit f 6"
  "fset f DF_NEGATIVE \<longleftrightarrow> bit f 0" "fset f DF_LOCAL \<longleftrightarrow> bit f 1" "fset f DF_AUTH \<longleftrightarrow> bit f 2"
  "fset f DF_NOCACHE \<longleftrightarrow> bit f 3" "fset f DF_WILD \<longleftrightarrow> bit f 4"
  using fset_bit [of 0 f] fset_bit [of 1 f] fset_bit [of 2 f] fset_bit [of 3 f] fset_bit [of 4 f]
    fset_bit [of 5 f] fset_bit [of 6 f]
  by (simp_all add: flag_defs)

subsection \<open>The state\<close>

definition CACHE_LAT :: int where "CACHE_LAT = 120"

definition CLAT_ADJ :: "time_t \<Rightarrow> time_t" where
  "CLAT_ADJ ttl = (if ttl < CACHE_LAT then CACHE_LAT else ttl)"

definition sizeof_rr_bucket :: int where "sizeof_rr_bucket = 16"
definition sizeof_rr_set :: int where "sizeof_rr_set = 40"
definition sizeof_dns_cent :: int where "sizeof_dns_cent = 104"
definition sizeof_ptr :: int where "sizeof_ptr = 8"

type_synonym rr_bucket = "byte list"   \<comment> \<open>\<^verbatim>\<open>data\<close>; \<^verbatim>\<open>rdlen\<close> is its length\<close>

record rr_set =
  rs_lent :: "nat option"
  rs_ttl :: time_t
  rs_ts :: time_t
  rs_flags :: u16
  rs_rrs :: "rr_bucket list"

datatype cent_union =
    NegPart "nat option" time_t time_t                              \<comment> \<open>\<^verbatim>\<open>neg.lent\<close>, \<^verbatim>\<open>neg.ttl\<close>, \<^verbatim>\<open>neg.ts\<close>\<close>
  | RRPart "rr_set option list" "rr_set option list option"   \<comment> \<open>\<^verbatim>\<open>rr.rrmu\<close>, \<^verbatim>\<open>rr.rrext\<close>\<close>

record dns_cent =
  ce_qname :: "byte list"
  ce_cs :: int
  ce_num_rrs :: int
  ce_flags :: u16
  ce_un :: cent_union
  ce_c_ns :: nat
  ce_c_soa :: nat

record rr_lent =
  le_id :: nat
  le_cent :: nat
  le_idx :: "nat option"   \<comment> \<open>\<^term>\<open>None\<close>: \<^verbatim>\<open>rrset\<close> is null and \<^verbatim>\<open>idx\<close> is -1\<close>

record cache =
  c_heap :: "nat \<Rightarrow> dns_cent option"
  c_tab :: htable
  c_rrl :: "rr_lent list"
  c_size :: int
  c_num :: int
  c_insert_sort :: bool
  c_mem :: "bool list"
  c_brk :: nat

definition malloc :: "cache \<Rightarrow> bool \<times> cache" where
  "malloc c = (case c_mem c of [] \<Rightarrow> (True, c) | b # bs \<Rightarrow> (b, c\<lparr>c_mem := bs\<rparr>))"

definition is_neg :: "dns_cent \<Rightarrow> bool" where
  "is_neg ce \<longleftrightarrow> fset (ce_flags ce) DF_NEGATIVE"

definition timedout :: "time_t \<Rightarrow> rr_set \<Rightarrow> bool" where
  "timedout now rs \<longleftrightarrow> rs_ts rs + CLAT_ADJ (rs_ttl rs) < now"

text \<open>The members of the union.\<close>

definition neg_part :: "dns_cent \<Rightarrow> (nat option \<times> time_t \<times> time_t) option" where
  "neg_part ce = (case ce_un ce of NegPart l ttl ts \<Rightarrow> Some (l, ttl, ts) | RRPart _ _ \<Rightarrow> None)"

definition rr_part :: "dns_cent \<Rightarrow> (rr_set option list \<times> rr_set option list option) option" where
  "rr_part ce = (case ce_un ce of NegPart _ _ _ \<Rightarrow> None | RRPart mu ext \<Rightarrow> Some (mu, ext))"

definition timedout_nxdom :: "time_t \<Rightarrow> dns_cent \<Rightarrow> bool option" where
  "timedout_nxdom now ce = do { (l, ttl, ts) \<leftarrow> neg_part ce; Some (ts + CLAT_ADJ ttl < now) }"

text \<open>\<^verbatim>\<open>RRARR_LEN\<close>, \<^verbatim>\<open>RRARR_INDEX_TESTEXT\<close>, \<^verbatim>\<open>RRARR_INDEX\<close> and the assignment through \<^verbatim>\<open>RRARR_INDEX_PA\<close>.\<close>

definition rrarr_len :: "dns_cent \<Rightarrow> nat option" where
  "rrarr_len ce =
     (if is_neg ce then Some 0
      else do { (mu, ext) \<leftarrow> rr_part ce; Some (if ext \<noteq> None then NRRTOT else NRRMU) })"

definition rrarr_index_testext :: "dns_cent \<Rightarrow> nat \<Rightarrow> rr_set option option" where
  "rrarr_index_testext ce i =
     (if is_neg ce then Some None
      else do {
        (mu, ext) \<leftarrow> rr_part ce;
        if i < NRRMU then rd mu i
        else (case ext of None \<Rightarrow> Some None | Some e \<Rightarrow> rd e (i - NRRMU)) })"

definition rrarr_index :: "dns_cent \<Rightarrow> nat \<Rightarrow> rr_set option option" where
  "rrarr_index ce i = do {
     (mu, ext) \<leftarrow> rr_part ce;
     if i < NRRMU then rd mu i else do { e \<leftarrow> ext; rd e (i - NRRMU) } }"

definition rrarr_set :: "dns_cent \<Rightarrow> nat \<Rightarrow> rr_set option \<Rightarrow> dns_cent option" where
  "rrarr_set ce i rs = do {
     (mu, ext) \<leftarrow> rr_part ce;
     if i < NRRMU then do { mu' \<leftarrow> wr mu i rs; Some (ce\<lparr>ce_un := RRPart mu' ext\<rparr>) }
     else do { e \<leftarrow> ext; e' \<leftarrow> wr e (i - NRRMU) rs; Some (ce\<lparr>ce_un := RRPart mu (Some e')\<rparr>) } }"

text \<open>Access by record type: \<^verbatim>\<open>getrrset\<close>, \<^verbatim>\<open>getrrset_eff\<close>, \<^verbatim>\<open>have_rr\<close>.\<close>

definition getrrset_idx :: "dns_cent \<Rightarrow> nat \<Rightarrow> rr_set option option" where
  "getrrset_idx ce idx = do {
     (mu, ext) \<leftarrow> rr_part ce;
     if idx < NRRMU then rd mu idx
     else if idx - NRRMU < NRREXT
     then (case ext of None \<Rightarrow> Some None | Some e \<Rightarrow> rd e (idx - NRRMU))
     else Some None }"

definition getrrset :: "dns_cent \<Rightarrow> int \<Rightarrow> rr_set option option" where
  "getrrset ce tp =
     (if \<not> is_neg ce \<and> tp - T_MIN \<ge> 0 \<and> tp - T_MIN < int T_NUM
      then do { idx \<leftarrow> rd rrlkuptab (nat (tp - T_MIN)); getrrset_idx ce idx }
      else Some None)"

definition getrrset_eff :: "dns_cent \<Rightarrow> int \<Rightarrow> rr_set option option" where
  "getrrset_eff ce tp =
     (if tp - T_MIN < 0 then None
      else do { idx \<leftarrow> rd rrlkuptab (nat (tp - T_MIN)); getrrset_idx ce idx })"

definition have_rr :: "dns_cent \<Rightarrow> int \<Rightarrow> bool option" where
  "have_rr ce tp =
     (if is_neg ce then Some False
      else do { rs \<leftarrow> getrrset_eff ce tp; Some (case rs of None \<Rightarrow> False | Some r \<Rightarrow> rs_rrs r \<noteq> []) })"

text \<open>\<^verbatim>\<open>GET_RRSMU\<close>, as in \<^verbatim>\<open>getrrset_NS\<close> and \<^verbatim>\<open>getrrset_SOA\<close>.\<close>

definition get_rrsmu :: "dns_cent \<Rightarrow> nat \<Rightarrow> rr_set option option" where
  "get_rrsmu ce i = (if \<not> is_neg ce then do { (mu, ext) \<leftarrow> rr_part ce; rd mu i } else Some None)"

definition getrrset_A :: "dns_cent \<Rightarrow> rr_set option option" where "getrrset_A ce = get_rrsmu ce 0"
definition getrrset_NS :: "dns_cent \<Rightarrow> rr_set option option" where "getrrset_NS ce = get_rrsmu ce 1"
definition getrrset_SOA :: "dns_cent \<Rightarrow> rr_set option option" where "getrrset_SOA ce = get_rrsmu ce 3"
definition getrrset_AAAA :: "dns_cent \<Rightarrow> rr_set option option" where "getrrset_AAAA ce = get_rrsmu ce 7"

subsection \<open>Building entries\<close>

text \<open>Operations return the C result, the entry and the cache.\<close>

definition remove_rrl :: "nat \<Rightarrow> cache \<Rightarrow> cache" where
  "remove_rrl l c = c\<lparr>c_rrl := filter (\<lambda>le. le_id le \<noteq> l) (c_rrl c)\<rparr>"

definition empty_rrs :: "nat \<Rightarrow> rr_set option list" where
  "empty_rrs n = replicate n None"

definition init_cent ::
  "byte list \<Rightarrow> time_t \<Rightarrow> time_t \<Rightarrow> u16 \<Rightarrow> cache \<Rightarrow> (dns_cent option \<times> cache) option" where
  "init_cent qname ttl ts flags c = do {
     namesz \<leftarrow> rhnlen qname;
     let (ok, c) = malloc c;
     if \<not> ok then Some (None, c)
     else Some (Some
       \<lparr>ce_qname = take namesz qname,
        ce_cs = sizeof_dns_cent + int namesz,
        ce_num_rrs = 0,
        ce_flags = flags,
        ce_un = (if fset flags DF_NEGATIVE then NegPart None ttl ts else RRPart (empty_rrs NRRMU) None),
        ce_c_ns = cundef,
        ce_c_soa = cundef\<rparr>, c) }"

text \<open>\<^verbatim>\<open>create_rr\<close>: the new record data, or null.\<close>

definition create_rr :: "nat \<Rightarrow> byte list \<Rightarrow> cache \<Rightarrow> (rr_bucket option \<times> cache) option" where
  "create_rr dlen data c = do {
     let (ok, c) = malloc c;
     if \<not> ok then Some (None, c)
     else if dlen \<le> length data then Some (Some (take dlen data), c) else None }"

text \<open>The first part of \<^verbatim>\<open>add_cent_rrset_by_index\<close>: the domain is not negative any more.\<close>

definition unnegate :: "dns_cent \<Rightarrow> cache \<Rightarrow> (dns_cent \<times> cache) option" where
  "unnegate ce c =
     (if is_neg ce then do {
        (l, ttl, ts) \<leftarrow> neg_part ce;
        let c = (case l of Some l \<Rightarrow> remove_rrl l c | None \<Rightarrow> c);
        Some (ce\<lparr>ce_flags := ce_flags ce AND NOT DF_NEGATIVE, ce_un := RRPart (empty_rrs NRRMU) None\<rparr>, c) }
      else Some (ce, c))"

text \<open>The second part: storage for the less frequently used types.\<close>

definition alloc_rrext :: "dns_cent \<Rightarrow> nat \<Rightarrow> cache \<Rightarrow> (bool \<times> dns_cent \<times> cache) option" where
  "alloc_rrext ce idx c =
     (if idx < NRRMU then Some (True, ce, c)
      else do {
        pdnsd_assert (idx - NRRMU < NRREXT);
        (mu, ext) \<leftarrow> rr_part ce;
        (case ext of
           Some e \<Rightarrow> Some (True, ce, c)
         | None \<Rightarrow>
             let (ok, c) = malloc c
             in if \<not> ok then Some (False, ce, c)
                else Some (True, ce\<lparr>ce_un := RRPart mu (Some (empty_rrs NRREXT)),
                             ce_cs := ce_cs ce + sizeof_ptr * int NRREXT\<rparr>, c)) })"

definition add_cent_rrset_by_index ::
  "dns_cent \<Rightarrow> nat \<Rightarrow> time_t \<Rightarrow> time_t \<Rightarrow> u16 \<Rightarrow> cache \<Rightarrow> (bool \<times> dns_cent \<times> cache) option" where
  "add_cent_rrset_by_index ce idx ttl ts flags c = do {
     (ce, c) \<leftarrow> unnegate ce c;
     (ok, ce, c) \<leftarrow> alloc_rrext ce idx c;
     if \<not> ok then Some (False, ce, c)
     else do {
       let (ok, c) = malloc c;
       if \<not> ok then do { ce \<leftarrow> rrarr_set ce idx None; Some (False, ce, c) }
       else do {
         ce \<leftarrow> rrarr_set ce idx (Some \<lparr>rs_lent = None, rs_ttl = ttl, rs_ts = ts, rs_flags = flags, rs_rrs = []\<rparr>);
         Some (True, ce\<lparr>ce_cs := ce_cs ce + sizeof_rr_set, ce_num_rrs := ce_num_rrs ce + 1\<rparr>, c) } } }"

definition add_cent_rrset_by_type ::
  "dns_cent \<Rightarrow> int \<Rightarrow> time_t \<Rightarrow> time_t \<Rightarrow> u16 \<Rightarrow> cache \<Rightarrow> (bool \<times> dns_cent \<times> cache) option" where
  "add_cent_rrset_by_type ce tp ttl ts flags c = do {
     pdnsd_assert (tp - T_MIN \<ge> 0 \<and> tp - T_MIN < int T_NUM);
     idx \<leftarrow> rd rrlkuptab (nat (tp - T_MIN));
     add_cent_rrset_by_index ce idx ttl ts flags c }"

text \<open>
  \<^verbatim>\<open>*rtail\<close> is the position of the record after which the new one is appended, or null; the
  new value is returned as well.
\<close>

definition add_cent_rr_int ::
  "dns_cent \<Rightarrow> nat \<Rightarrow> time_t \<Rightarrow> time_t \<Rightarrow> u16 \<Rightarrow> nat \<Rightarrow> byte list \<Rightarrow> nat option \<Rightarrow> cache \<Rightarrow>
   (bool \<times> nat option \<times> dns_cent \<times> cache) option" where
  "add_cent_rr_int ce idx ttl ts flags dlen data rtail c = do {
     (rr, c) \<leftarrow> create_rr dlen data c;
     (case rr of
        None \<Rightarrow> Some (False, rtail, ce, c)
      | Some rr \<Rightarrow> (case rtail of
          None \<Rightarrow> do {
            rs \<leftarrow> rrarr_index_testext ce idx;
            (ok, ce, c) \<leftarrow> (case rs of
                None \<Rightarrow> add_cent_rrset_by_index ce idx ttl ts flags c
              | Some _ \<Rightarrow> Some (True, ce, c));
            if \<not> ok then Some (False, rtail, ce, c)
            else do {
              rs \<leftarrow> rrarr_index ce idx;
              rs \<leftarrow> rs;
              ce \<leftarrow> rrarr_set ce idx (Some (rs\<lparr>rs_rrs := rr # rs_rrs rs\<rparr>));
              Some (True, Some 0, ce\<lparr>ce_cs := ce_cs ce + (sizeof_rr_bucket + int (length rr))\<rparr>, c) } }
        | Some k \<Rightarrow> do {
            rs \<leftarrow> rrarr_index ce idx;
            rs \<leftarrow> rs;
            if k \<ge> length (rs_rrs rs) then None
            else do {
              ce \<leftarrow> rrarr_set ce idx
                (Some (rs\<lparr>rs_rrs := take (k + 1) (rs_rrs rs) @ rr # drop (k + 1) (rs_rrs rs)\<rparr>));
              Some (True, Some (k + 1), ce\<lparr>ce_cs := ce_cs ce + (sizeof_rr_bucket + int (length rr))\<rparr>, c) } })) }"

text \<open>The scan for a duplicate: \<^term>\<open>None\<close> if the record is there, otherwise \<^verbatim>\<open>rtail\<close>.\<close>

fun dup_scan :: "rr_bucket list \<Rightarrow> nat \<Rightarrow> nat \<Rightarrow> byte list \<Rightarrow> nat option \<Rightarrow> nat option option" where
  "dup_scan [] pos dlen data rtail = Some rtail"
| "dup_scan (rrb # rrs) pos dlen data rtail =
     (if length rrb = dlen \<and> rrb = take dlen data then None
      else dup_scan rrs (pos + 1) dlen data (Some pos))"

definition add_cent_rr ::
  "dns_cent \<Rightarrow> int \<Rightarrow> time_t \<Rightarrow> time_t \<Rightarrow> u16 \<Rightarrow> nat \<Rightarrow> byte list \<Rightarrow> cache \<Rightarrow> (bool \<times> dns_cent \<times> cache) option" where
  "add_cent_rr ce tp ttl ts flags dlen data c =
     (if fset (ce_flags ce) DF_LOCAL \<and> \<not> fset flags CF_LOCAL then Some (True, ce, c)
      else do {
        pdnsd_assert (tp - T_MIN \<ge> 0 \<and> tp - T_MIN < int T_NUM);
        idx \<leftarrow> rd rrlkuptab (nat (tp - T_MIN));
        pdnsd_assert (idx < NRRTOT);
        rs \<leftarrow> rrarr_index_testext ce idx;
        (case rs of
           None \<Rightarrow> do {
             (ok, _, ce, c) \<leftarrow> add_cent_rr_int ce idx ttl ts flags dlen data None c;
             Some (ok, ce, c) }
         | Some rs \<Rightarrow> do {
             let rs = (if ttl < rs_ttl rs then rs\<lparr>rs_ttl := ttl\<rparr> else rs);
             ce \<leftarrow> rrarr_set ce idx (Some rs);
             (case dup_scan (rs_rrs rs) 0 dlen data None of
                None \<Rightarrow> Some (True, ce, c)
              | Some rtail \<Rightarrow> do {
                  (ok, _, ce, c) \<leftarrow> add_cent_rr_int ce idx ttl ts flags dlen data rtail c;
                  Some (ok, ce, c) }) }) })"

subsection \<open>Deleting\<close>

definition rr_bytes :: "rr_bucket \<Rightarrow> int" where
  "rr_bytes rr = sizeof_rr_bucket + int (length rr)"

definition del_rrset :: "rr_set \<Rightarrow> cache \<Rightarrow> int \<times> cache" where
  "del_rrset rs c =
     (sizeof_rr_set + (\<Sum>rr\<leftarrow>rs_rrs rs. rr_bytes rr),
      (case rs_lent rs of Some l \<Rightarrow> remove_rrl l c | None \<Rightarrow> c))"

definition del_cent_rrset_by_index :: "dns_cent \<Rightarrow> nat \<Rightarrow> cache \<Rightarrow> (int \<times> dns_cent \<times> cache) option" where
  "del_cent_rrset_by_index ce i c = do {
     rs \<leftarrow> rrarr_index_testext ce i;
     (case rs of
        None \<Rightarrow> Some (0, ce, c)
      | Some rs \<Rightarrow> do {
          let (rv, c) = del_rrset rs c;
          ce \<leftarrow> rrarr_set ce i None;
          Some (rv, ce\<lparr>ce_num_rrs := ce_num_rrs ce - 1, ce_cs := ce_cs ce - rv,
                     ce_flags := ce_flags ce AND NOT DF_AUTH\<rparr>, c) }) }"

text \<open>\<open>del_rrsets\<close> deletes all RR sets of an array and adds up the sizes.\<close>

fun del_rrsets :: "rr_set option list \<Rightarrow> cache \<Rightarrow> int \<times> cache" where
  "del_rrsets [] c = (0, c)"
| "del_rrsets (None # rss) c = del_rrsets rss c"
| "del_rrsets (Some rs # rss) c =
     (let (n, c) = del_rrset rs c; (m, c) = del_rrsets rss c in (n + m, c))"

definition free_cent :: "dns_cent \<Rightarrow> cache \<Rightarrow> cache option" where
  "free_cent ce c =
     (if is_neg ce then do {
        (l, ttl, ts) \<leftarrow> neg_part ce;
        Some (case l of Some l \<Rightarrow> remove_rrl l c | None \<Rightarrow> c) }
      else do {
        (mu, ext) \<leftarrow> rr_part ce;
        let (_, c) = del_rrsets mu c;
        Some (case ext of None \<Rightarrow> c | Some e \<Rightarrow> snd (del_rrsets e c)) })"

definition negate_cent :: "dns_cent \<Rightarrow> time_t \<Rightarrow> time_t \<Rightarrow> cache \<Rightarrow> (dns_cent \<times> cache) option" where
  "negate_cent ce ttl ts c = do {
     (ce, c) \<leftarrow>
       (if \<not> is_neg ce then do {
          (mu, ext) \<leftarrow> rr_part ce;
          let (n, c) = del_rrsets mu c;
          let (m, c) = (case ext of None \<Rightarrow> (0, c)
                        | Some e \<Rightarrow> (let (m, c) = del_rrsets e c in (m + sizeof_ptr * int NRREXT, c)));
          Some (ce\<lparr>ce_cs := ce_cs ce - n - m, ce_num_rrs := 0,
                   ce_flags := ce_flags ce OR DF_NEGATIVE, ce_un := NegPart None 0 0\<rparr>, c) }
        else Some (ce, c));
     (l, _, _) \<leftarrow> neg_part ce;
     Some (ce\<lparr>ce_un := NegPart l ttl ts\<rparr>, c) }"

subsection \<open>Copying\<close>

text \<open>The loop over the records of a set: the copied records and whether memory was found.\<close>

fun copy_rrs :: "rr_bucket list \<Rightarrow> cache \<Rightarrow> bool \<times> rr_bucket list \<times> cache" where
  "copy_rrs [] c = (True, [], c)"
| "copy_rrs (rr # rrs) c =
     (let (ok, c) = malloc c
      in if \<not> ok then (False, [], c)
         else let (ok, rrs', c) = copy_rrs rrs c in (ok, rr # rrs', c))"

definition copy_rrset :: "rr_set \<Rightarrow> cache \<Rightarrow> rr_set option \<times> cache" where
  "copy_rrset rs c =
     (let (ok, c) = malloc c
      in if \<not> ok then (None, c)
         else let (ok, rrs, c) = copy_rrs (rs_rrs rs) c; rsc = rs\<lparr>rs_lent := None, rs_rrs := rrs\<rparr>
              in if ok then (Some rsc, c) else (None, snd (del_rrset rsc c)))"

text \<open>The loop of \<^verbatim>\<open>copy_cent\<close> over the RR sets, from index \<open>i\<close> on.\<close>

fun copy_rrsets :: "dns_cent \<Rightarrow> nat \<Rightarrow> nat \<Rightarrow> dns_cent \<Rightarrow> cache \<Rightarrow> (bool \<times> dns_cent \<times> cache) option" where
  "copy_rrsets ce i 0 copy c = Some (True, copy, c)"
| "copy_rrsets ce i (Suc n) copy c = do {
     rs \<leftarrow> rrarr_index ce i;
     (case rs of
        None \<Rightarrow> copy_rrsets ce (i + 1) n copy c
      | Some rs \<Rightarrow>
          let (ok, c) = malloc c
          in if \<not> ok then do { copy \<leftarrow> rrarr_set copy i None; Some (False, copy, c) }
             else let (ok, rrs, c) = copy_rrs (rs_rrs rs) c
                  in do {
                    copy \<leftarrow> rrarr_set copy i (Some (rs\<lparr>rs_lent := None, rs_rrs := rrs\<rparr>));
                    if \<not> ok then Some (False, copy, c) else copy_rrsets ce (i + 1) n copy c }) }"

definition copy_cent :: "dns_cent \<Rightarrow> cache \<Rightarrow> (dns_cent option \<times> cache) option" where
  "copy_cent ce c =
     (let (ok, c) = malloc c
      in if \<not> ok then Some (None, c)
         else do {
           namesz \<leftarrow> rhnlen (ce_qname ce);
           let (ok, c) = malloc c;
           if \<not> ok then Some (None, c)
           else do {
             let copy = \<lparr>ce_qname = take namesz (ce_qname ce), ce_cs = ce_cs ce, ce_num_rrs = ce_num_rrs ce,
                         ce_flags = ce_flags ce, ce_un = RRPart (empty_rrs NRRMU) None,
                         ce_c_ns = ce_c_ns ce, ce_c_soa = ce_c_soa ce\<rparr>;
             if is_neg ce then do {
               (l, ttl, ts) \<leftarrow> neg_part ce;
               Some (Some (copy\<lparr>ce_un := NegPart None ttl ts\<rparr>), c) }
             else do {
               (mu, ext) \<leftarrow> rr_part ce;
               let (ok, c) = (if ext \<noteq> None then malloc c else (True, c));
               if \<not> ok then do { c \<leftarrow> free_cent copy c; Some (None, c) }
               else do {
                 let copy = (if ext \<noteq> None
                             then copy\<lparr>ce_un := RRPart (empty_rrs NRRMU) (Some (empty_rrs NRREXT))\<rparr> else copy);
                 (ok, copy, c) \<leftarrow> copy_rrsets ce 0 (if ext \<noteq> None then NRRTOT else NRRMU) copy c;
                 if \<not> ok then do { c \<leftarrow> free_cent copy c; Some (None, c) }
                 else Some (Some copy, c) } } } })"

subsection \<open>Reading back what was stored\<close>

lemma rd_wr:
  assumes "wr xs i v = Some xs'"
  shows "rd xs' j = (if j = i then Some v else rd xs j)"
  using assms by (auto simp: wr_def rd_def split: if_splits)

lemma rrarr_set_index:
  assumes "rrarr_set ce i v = Some ce'"
  shows "rrarr_index ce' j = (if j = i then Some v else rrarr_index ce j)"
  using assms unfolding rrarr_set_def rrarr_index_def rr_part_def
  by (cases "ce_un ce") (auto simp: rd_wr split: if_splits option.splits elim!: bind_eq_SomeE)

lemma rrarr_set_rest:
  assumes "rrarr_set ce i v = Some ce'"
  shows "ce' = ce\<lparr>ce_un := ce_un ce'\<rparr>" "neg_part ce' = None" "neg_part ce = None"
  using assms unfolding rrarr_set_def rr_part_def neg_part_def
  by (cases "ce_un ce"; auto split: if_splits elim!: bind_eq_SomeE)+

end
