(* ===== verification/Cache_List.thy ===== *)
theory Cache_List
  imports Cache_Data "HOL-Library.Multiset"
begin

section \<open>The list of RR sets by age (cache.c)\<close>

text \<open>
  \<^verbatim>\<open>rrset_l\<close> is a doubly linked list of nodes, each for one RR set or one negative entry; the
  model keeps the nodes in list order and numbers them. A node reads its time stamp through its
  pointer to the entry. \<^verbatim>\<open>insert_rrl\<close> either inserts by time stamp or appends
  (\<^verbatim>\<open>insert_sort\<close>), \<^verbatim>\<open>sort_rrl\<close> is a bottom-up merge sort; the lemmas show that both ways
  give the list sorted by time stamp, equal stamps in order of arrival.
\<close>

definition get_rrlent_ts :: "cache \<Rightarrow> rr_lent \<Rightarrow> time_t option" where
  "get_rrlent_ts c le = do {
     ce \<leftarrow> c_heap c (le_cent le);
     (case le_idx le of
        Some i \<Rightarrow> do { rs \<leftarrow> rrarr_index ce i; rs \<leftarrow> rs; Some (rs_ts rs) }
      | None \<Rightarrow> do { (l, ttl, ts) \<leftarrow> neg_part ce; Some ts }) }"

text \<open>The search from the tail: the nodes are given in reverse order.\<close>

fun insert_back :: "(rr_lent \<Rightarrow> time_t option) \<Rightarrow> time_t \<Rightarrow> rr_lent \<Rightarrow> rr_lent list \<Rightarrow> rr_lent list option" where
  "insert_back f ts ne [] = Some [ne]"
| "insert_back f ts ne (le # les) = do {
     t \<leftarrow> f le;
     if ts \<ge> t then Some (ne # le # les)
     else map_option ((#) le) (insert_back f ts ne les) }"

definition set_lent :: "dns_cent \<Rightarrow> nat option \<Rightarrow> nat option \<Rightarrow> dns_cent option" where
  "set_lent ce idx l = (case idx of
     Some i \<Rightarrow> do { rs \<leftarrow> rrarr_index ce i; rs \<leftarrow> rs; rrarr_set ce i (Some (rs\<lparr>rs_lent := l\<rparr>)) }
   | None \<Rightarrow> do { (_, ttl, ts) \<leftarrow> neg_part ce; Some (ce\<lparr>ce_un := NegPart l ttl ts\<rparr>) })"

definition lent_local :: "dns_cent \<Rightarrow> nat option \<Rightarrow> bool option" where
  "lent_local ce idx = (case idx of
     Some i \<Rightarrow> do { rs \<leftarrow> rrarr_index ce i; rs \<leftarrow> rs; Some (fset (rs_flags rs) CF_LOCAL \<or> fset (ce_flags ce) DF_LOCAL) }
   | None \<Rightarrow> Some (fset (ce_flags ce) DF_LOCAL))"

text \<open>\<^verbatim>\<open>insert_rrl\<close> for the entry at address \<open>a\<close> and its RR set \<open>idx\<close> (\<^term>\<open>None\<close>: the whole entry).\<close>

definition insert_rrl :: "nat \<Rightarrow> nat option \<Rightarrow> cache \<Rightarrow> (bool \<times> cache) option" where
  "insert_rrl a idx c = do {
     ce \<leftarrow> c_heap c a;
     loc \<leftarrow> lent_local ce idx;
     if loc then Some (True, c)
     else do {
       let (ok, c) = malloc c;
       if \<not> ok then Some (False, c)
       else do {
         let ne = \<lparr>le_id = c_brk c, le_cent = a, le_idx = idx\<rparr>;
         rrl \<leftarrow> (if c_insert_sort c
                 then do {
                   ts \<leftarrow> get_rrlent_ts c ne;
                   map_option rev (insert_back (get_rrlent_ts c) ts ne (rev (c_rrl c))) }
                 else Some (c_rrl c @ [ne]));
         ce \<leftarrow> set_lent ce idx (Some (le_id ne));
         Some (True, c\<lparr>c_rrl := rrl, c_heap := (c_heap c)(a \<mapsto> ce), c_brk := c_brk c + 1\<rparr>) } } }"

fun listmerge :: "(rr_lent \<Rightarrow> time_t option) \<Rightarrow> rr_lent list \<Rightarrow> rr_lent list \<Rightarrow> rr_lent list option" where
  "listmerge f [] q = Some q"
| "listmerge f p [] = Some p"
| "listmerge f (p # ps) (q # qs) = do {
     tp \<leftarrow> f p;
     tq \<leftarrow> f q;
     if tp \<le> tq then map_option ((#) p) (listmerge f ps (q # qs))
     else map_option ((#) q) (listmerge f (p # ps) qs) }"

definition NTMPSORT :: nat where "NTMPSORT = 32"

text \<open>
  The loop over \<^verbatim>\<open>counter\<close>: \<open>tmp\<close> is the filled part of the array from position \<open>k\<close> on,
  the empty list is the null pointer. The result is that part afterwards.
\<close>

fun sort_carry :: "(rr_lent \<Rightarrow> time_t option) \<Rightarrow> nat \<Rightarrow> rr_lent list list \<Rightarrow> rr_lent list \<Rightarrow> rr_lent list list option" where
  "sort_carry f k [] carry = do { pdnsd_assert (k \<noteq> NTMPSORT); Some [carry] }"
| "sort_carry f k (t # tmp) carry =
     (if t = [] then Some (carry # tmp)
      else do {
        carry \<leftarrow> listmerge f t carry;
        map_option ((#) []) (sort_carry f (k + 1) tmp carry) })"

fun sort_fill :: "(rr_lent \<Rightarrow> time_t option) \<Rightarrow> rr_lent list list \<Rightarrow> rr_lent list \<Rightarrow> rr_lent list list option" where
  "sort_fill f tmp [] = Some tmp"
| "sort_fill f tmp (le # rem) = do { tmp \<leftarrow> sort_carry f 0 tmp [le]; sort_fill f tmp rem }"

fun sort_collect :: "(rr_lent \<Rightarrow> time_t option) \<Rightarrow> rr_lent list list \<Rightarrow> rr_lent list \<Rightarrow> rr_lent list option" where
  "sort_collect f [] carry = Some carry"
| "sort_collect f (t # tmp) carry = do { carry \<leftarrow> listmerge f t carry; sort_collect f tmp carry }"

definition sort_rrl :: "cache \<Rightarrow> cache option" where
  "sort_rrl c =
     (if length (c_rrl c) \<ge> 2
      then do {
        tmp \<leftarrow> sort_fill (get_rrlent_ts c) [] (c_rrl c);
        rrl \<leftarrow> (case tmp of [] \<Rightarrow> None | t # tmp \<Rightarrow> sort_collect (get_rrlent_ts c) tmp t);
        Some (c\<lparr>c_rrl := rrl\<rparr>) }
      else Some c)"

subsection \<open>An example cache\<close>

text \<open>Two negative entries, the older one second in the list; used by the witnesses below.\<close>

definition example_neg :: "time_t \<Rightarrow> dns_cent" where
  "example_neg ts = \<lparr>ce_qname = [0], ce_cs = 105, ce_num_rrs = 0, ce_flags = DF_NEGATIVE,
     ce_un = NegPart None 60 ts, ce_c_ns = cundef, ce_c_soa = cundef\<rparr>"

definition example_cache :: "rr_lent list \<Rightarrow> cache" where
  "example_cache rrl = \<lparr>c_heap = (\<lambda>a. if a < 3 then Some (example_neg (10 - int a)) else None),
     c_tab = mk_dns_hash, c_rrl = rrl, c_size = 0, c_num = 0, c_insert_sort = True, c_mem = [], c_brk = 9\<rparr>"

definition example_lent :: "nat \<Rightarrow> rr_lent" where
  "example_lent a = \<lparr>le_id = a, le_cent = a, le_idx = None\<rparr>"

lemma example_ts: "a < 3 \<Longrightarrow> get_rrlent_ts (example_cache rrl) \<lparr>le_id = n, le_cent = a, le_idx = None\<rparr> = Some (10 - int a)"
  by (simp add: get_rrlent_ts_def example_cache_def neg_part_def example_neg_def)

subsection \<open>Merging and sorting\<close>

text \<open>Stability: the elements of each key appear in the given order.\<close>

definition same_keys :: "('a \<Rightarrow> int) \<Rightarrow> 'a list \<Rightarrow> 'a list \<Rightarrow> bool" where
  "same_keys g xs ys \<longleftrightarrow> (\<forall>k. filter (\<lambda>x. g x = k) xs = filter (\<lambda>x. g x = k) ys)"

lemma same_keys_refl [simp]: "same_keys g xs xs"
  by (simp add: same_keys_def)

lemma same_keys_mset: "same_keys g xs ys \<Longrightarrow> mset xs = mset ys"
proof (rule multiset_eqI)
  fix x assume "same_keys g xs ys"
  then have "filter (\<lambda>y. g y = g x) xs = filter (\<lambda>y. g y = g x) ys" by (simp add: same_keys_def)
  then have "count (mset (filter (\<lambda>y. g y = g x) xs)) x = count (mset (filter (\<lambda>y. g y = g x) ys)) x" by simp
  then show "count (mset xs) x = count (mset ys) x" by simp
qed

lemma same_keys_sort:
  assumes "same_keys g xs ys" "sorted (map g xs)"
  shows "xs = sort_key g ys"
proof (rule properties_for_sort_key [symmetric])
  show "mset xs = mset ys" using same_keys_mset [OF assms(1)] .
  show "\<And>k. k \<in> set xs \<Longrightarrow> filter (\<lambda>x. g k = g x) xs = filter (\<lambda>x. g k = g x) ys"
    using assms(1) by (simp add: same_keys_def eq_commute)
qed (rule assms(2))

lemma filter_none_below:
  assumes "\<forall>y\<in>set ys. k < g y"
  shows "filter (\<lambda>x. g x = (k :: int)) ys = []"
  using assms by (auto simp: filter_empty_conv)

lemma listmerge_sorted:
  assumes "\<forall>x\<in>set p \<union> set q. f x = Some (g x)" "sorted (map g p)" "sorted (map g q)"
  shows "\<exists>r. listmerge f p q = Some r \<and> sorted (map g r) \<and> same_keys g r (p @ q)"
  using assms
proof (induction f p q rule: listmerge.induct)
  case (3 f p ps q qs)
  have gp: "f p = Some (g p)" "f q = Some (g q)" using "3.prems" by auto
  show ?case
  proof (cases "g p \<le> g q")
    case True
    have "\<forall>x\<in>set ps \<union> set (q # qs). f x = Some (g x)" "sorted (map g ps)" "sorted (map g (q # qs))"
      using "3.prems" by auto
    from "3.IH"(1) [OF gp True this] obtain r where r: "listmerge f ps (q # qs) = Some r"
      "sorted (map g r)" "same_keys g r (ps @ q # qs)" by blast
    have "set r = set ps \<union> set (q # qs)" using same_keys_mset [OF r(3)] by (metis set_append set_mset_mset)
    then have "\<forall>x\<in>set r. g p \<le> g x" using "3.prems" True by auto
    with r gp True show ?thesis by (auto simp: same_keys_def)
  next
    case False
    have "\<forall>x\<in>set (p # ps) \<union> set qs. f x = Some (g x)" "sorted (map g (p # ps))" "sorted (map g qs)"
      using "3.prems" by auto
    from "3.IH"(2) [OF gp False this] obtain r where r: "listmerge f (p # ps) qs = Some r"
      "sorted (map g r)" "same_keys g r ((p # ps) @ qs)" by blast
    have sr: "set r = set (p # ps) \<union> set qs" using same_keys_mset [OF r(3)] by (metis set_append set_mset_mset)
    then have "\<forall>x\<in>set r. g q \<le> g x" using "3.prems" False by auto
    moreover have "filter (\<lambda>x. g x = g q) (p # ps) = []"
      using "3.prems" False by (intro filter_none_below) auto
    then have "same_keys g (q # r) ((p # ps) @ q # qs)"
      using r(3) unfolding same_keys_def by (auto simp: filter_empty_conv)
    ultimately show ?thesis using r gp False by auto
  qed
qed auto

lemma same_keys_append: "same_keys g a a' \<Longrightarrow> same_keys g b b' \<Longrightarrow> same_keys g (a @ b) (a' @ b')"
  by (simp add: same_keys_def)

lemma same_keys_trans: "same_keys g a b \<Longrightarrow> same_keys g b c \<Longrightarrow> same_keys g a c"
  by (simp add: same_keys_def)

text \<open>
  The array during the sort: position \<open>i\<close> is empty or holds a sorted list of \<open>2 ^ i\<close> nodes; the
  nodes at higher positions came before those at lower ones.
\<close>

definition tmp_ok :: "(rr_lent \<Rightarrow> int) \<Rightarrow> nat \<Rightarrow> rr_lent list list \<Rightarrow> bool" where
  "tmp_ok g k tmp \<longleftrightarrow>
     (\<forall>i < length tmp. sorted (map g (tmp ! i)) \<and> (tmp ! i \<noteq> [] \<longrightarrow> length (tmp ! i) = 2 ^ (k + i)))
     \<and> (tmp \<noteq> [] \<longrightarrow> last tmp \<noteq> [])"

lemma tmp_ok_Cons:
  "tmp_ok g k (t # tmp) \<longleftrightarrow> sorted (map g t) \<and> (t \<noteq> [] \<longrightarrow> length t = 2 ^ k) \<and>
     (if tmp = [] then t \<noteq> [] else tmp_ok g (k + 1) tmp)"
  unfolding tmp_ok_def length_Cons All_less_Suc2 nth_Cons_0 nth_Cons_Suc by (cases tmp) auto

lemma sort_carry_ok:
  assumes "\<forall>x \<in> set (concat tmp) \<union> set carry. f x = Some (g x)"
    and "tmp_ok g k tmp" "sorted (map g carry)" "length carry = 2 ^ k" "k + length tmp \<le> NTMPSORT"
    and "length (concat tmp) + length carry < 2 ^ NTMPSORT"
  shows "\<exists>tmp'. sort_carry f k tmp carry = Some tmp' \<and> tmp_ok g k tmp' \<and> tmp' \<noteq> [] \<and>
    k + length tmp' \<le> NTMPSORT \<and> same_keys g (concat (rev tmp')) (concat (rev tmp) @ carry)"
  using assms
proof (induction tmp arbitrary: k carry)
  case Nil
  have "k \<noteq> NTMPSORT" using Nil.prems(4,6) by auto
  with Nil show ?case by (auto simp: tmp_ok_def)
next
  case (Cons t tmp)
  show ?case
  proof (cases "t = []")
    case True
    have "tmp \<noteq> []" using Cons.prems(2) True by (auto simp: tmp_ok_Cons)
    then have "tmp_ok g k (carry # tmp)" using Cons.prems(2-4) True by (simp add: tmp_ok_Cons)
    with True Cons.prems show ?thesis by simp
  next
    case False
    have t: "sorted (map g t)" "length t = 2 ^ k" "tmp = [] \<or> tmp_ok g (k + 1) tmp"
      using Cons.prems(2) False by (auto simp: tmp_ok_Cons split: if_splits)
    then have tmp: "tmp_ok g (k + 1) tmp" by (auto simp: tmp_ok_def)
    have fx: "\<forall>x\<in>set t \<union> set carry. f x = Some (g x)" using Cons.prems(1) by auto
    from listmerge_sorted [OF fx t(1) Cons.prems(3)] obtain r where r: "listmerge f t carry = Some r"
      "sorted (map g r)" "same_keys g r (t @ carry)" by blast
    have len: "length r = 2 ^ (k + 1)" "set r = set t \<union> set carry"
      using arg_cong [OF same_keys_mset [OF r(3)], of size] arg_cong [OF same_keys_mset [OF r(3)], of set_mset]
        t(2) Cons.prems(4) by simp_all
    have "\<forall>x \<in> set (concat tmp) \<union> set r. f x = Some (g x)" using Cons.prems(1) len(2) by auto
    moreover have "k + 1 + length tmp \<le> NTMPSORT" using Cons.prems(5) by simp
    moreover have "length (concat tmp) + length r < 2 ^ NTMPSORT"
      using Cons.prems(4,6) t(2) len(1) by simp
    ultimately obtain tmp' where c: "sort_carry f (k + 1) tmp r = Some tmp'" "tmp_ok g (k + 1) tmp'" "tmp' \<noteq> []"
      "k + 1 + length tmp' \<le> NTMPSORT" "same_keys g (concat (rev tmp')) (concat (rev tmp) @ r)"
      using Cons.IH [of r "k + 1"] tmp r(2) len(1) by blast
    have "tmp_ok g k ([] # tmp')" using c(2,3) by (simp add: tmp_ok_Cons)
    moreover have "same_keys g (concat (rev ([] # tmp'))) (concat (rev (t # tmp)) @ carry)"
      using same_keys_trans [OF c(5) same_keys_append [OF same_keys_refl r(3)]] by simp
    ultimately show ?thesis using c r False by simp
  qed
qed

lemma sort_fill_ok:
  assumes "\<forall>x \<in> set (concat tmp) \<union> set rem. f x = Some (g x)"
    and "tmp_ok g 0 tmp" "length tmp \<le> NTMPSORT" "length (concat tmp) + length rem < 2 ^ NTMPSORT"
  shows "\<exists>tmp'. sort_fill f tmp rem = Some tmp' \<and> tmp_ok g 0 tmp' \<and> (rem \<noteq> [] \<or> tmp \<noteq> [] \<longrightarrow> tmp' \<noteq> []) \<and>
    same_keys g (concat (rev tmp')) (concat (rev tmp) @ rem)"
  using assms
proof (induction rem arbitrary: tmp)
  case (Cons le rem)
  from sort_carry_ok [of tmp "[le]" f g 0] Cons.prems obtain tmp1 where c: "sort_carry f 0 tmp [le] = Some tmp1"
    "tmp_ok g 0 tmp1" "tmp1 \<noteq> []" "length tmp1 \<le> NTMPSORT"
    "same_keys g (concat (rev tmp1)) (concat (rev tmp) @ [le])" by auto
  note m = same_keys_mset [OF c(5)]
  have "set (concat tmp1) = set (concat tmp) \<union> {le}" "length (concat tmp1) = length (concat tmp) + 1"
    using arg_cong [OF m, of set_mset] arg_cong [OF m, of size]
    by (simp_all add: length_concat rev_map [symmetric] sum_list_rev)
  with Cons.IH [of tmp1] Cons.prems c obtain tmp' where f: "sort_fill f tmp1 rem = Some tmp'" "tmp_ok g 0 tmp'"
    "tmp' \<noteq> []" "same_keys g (concat (rev tmp')) (concat (rev tmp1) @ rem)" by auto
  from same_keys_trans [OF f(4) same_keys_append [OF c(5) same_keys_refl]] f(1-3) c(1) show ?case by simp
qed simp

lemma sort_collect_ok:
  assumes "\<forall>x \<in> set (concat tmp) \<union> set carry. f x = Some (g x)"
    and "\<forall>t \<in> set tmp. sorted (map g t)" "sorted (map g carry)"
  shows "\<exists>r. sort_collect f tmp carry = Some r \<and> sorted (map g r) \<and> same_keys g r (concat (rev tmp) @ carry)"
  using assms
proof (induction tmp arbitrary: carry)
  case (Cons t tmp)
  have "\<forall>x\<in>set t \<union> set carry. f x = Some (g x)" "sorted (map g t)" using Cons.prems by auto
  from listmerge_sorted [OF this Cons.prems(3)] obtain r where r: "listmerge f t carry = Some r"
    "sorted (map g r)" "same_keys g r (t @ carry)" by blast
  have "set r = set t \<union> set carry" using arg_cong [OF same_keys_mset [OF r(3)], of set_mset] by simp
  with Cons.IH [of r] Cons.prems r obtain r' where c: "sort_collect f tmp r = Some r'" "sorted (map g r')"
    "same_keys g r' (concat (rev tmp) @ r)" by auto
  from same_keys_trans [OF c(3) same_keys_append [OF same_keys_refl r(3)]] c r show ?case by simp
qed simp

lemma sort_rrl_ok:
  assumes "\<forall>le \<in> set (c_rrl c). get_rrlent_ts c le = Some (ts le)" and "length (c_rrl c) < 2 ^ 32"
  shows "sort_rrl c = Some (c\<lparr>c_rrl := sort_key ts (c_rrl c)\<rparr>)"
proof (cases "length (c_rrl c) \<ge> 2")
  case True
  have fx: "\<forall>x \<in> set (concat []) \<union> set (c_rrl c). get_rrlent_ts c x = Some (ts x)" using assms(1) by simp
  have len: "length (concat [] :: rr_lent list) + length (c_rrl c) < 2 ^ NTMPSORT" "length ([] :: rr_lent list list) \<le> NTMPSORT"
    using assms(2) by (simp_all add: NTMPSORT_def)
  have "tmp_ok ts 0 []" by (simp add: tmp_ok_def)
  from sort_fill_ok [OF fx this len(2,1)] obtain tmp0 where f0: "sort_fill (get_rrlent_ts c) [] (c_rrl c) = Some tmp0"
    "tmp_ok ts 0 tmp0" "c_rrl c \<noteq> [] \<longrightarrow> tmp0 \<noteq> []" "same_keys ts (concat (rev tmp0)) (c_rrl c)" by auto
  have "c_rrl c \<noteq> []" using True by auto
  with f0(3) obtain t tmp where "tmp0 = t # tmp" by (cases tmp0) auto
  with f0 have f: "sort_fill (get_rrlent_ts c) [] (c_rrl c) = Some (t # tmp)"
    "tmp_ok ts 0 (t # tmp)" "same_keys ts (concat (rev (t # tmp))) (c_rrl c)" by simp_all
  have "set (concat (t # tmp)) = set (c_rrl c)"
    using arg_cong [OF same_keys_mset [OF f(3)], of set_mset] by auto
  then have "\<forall>x \<in> set (concat tmp) \<union> set t. get_rrlent_ts c x = Some (ts x)" using assms(1) by auto
  moreover have "\<forall>t' \<in> set (t # tmp). sorted (map ts t')" using f(2) by (auto simp: tmp_ok_def in_set_conv_nth simp del: set_simps)
  ultimately obtain r where r: "sort_collect (get_rrlent_ts c) tmp t = Some r" "sorted (map ts r)"
    "same_keys ts r (concat (rev tmp) @ t)" using sort_collect_ok [of tmp t "get_rrlent_ts c" ts] by auto
  have "same_keys ts r (c_rrl c)" using same_keys_trans [OF r(3)] f(3) by simp
  from same_keys_sort [OF this r(2)] f(1) r(1) True show ?thesis by (simp add: sort_rrl_def)
next
  case False
  then have "c_rrl c = [] \<or> (\<exists>x. c_rrl c = [x])" by (cases "c_rrl c" rule: list.exhaust [OF _ list.exhaust]) (auto simp: not_le less_Suc_eq length_Suc_conv)
  then show ?thesis using False by (auto simp: sort_rrl_def)
qed

text \<open>
  C23: \<^verbatim>\<open>sort_rrl\<close> terminates without tripping its assertion on every list of fewer than
  \<open>2 ^ 32\<close> nodes, and the list becomes the stable sort of the old one by time stamp: a permutation,
  ascending, with nodes of equal stamp in their old order. Nothing else of the cache changes.
\<close>

theorem sort_rrl_stable_sort:
  assumes "\<forall>le \<in> set (c_rrl c). get_rrlent_ts c le = Some (ts le)" and "length (c_rrl c) < 2 ^ 32"
  shows "sort_rrl c = Some (c\<lparr>c_rrl := sort_key ts (c_rrl c)\<rparr>)"
  by (rule sort_rrl_ok [OF assms])

theorem sort_rrl_stable_sort_witness:
  "sort_rrl (example_cache [example_lent 0, example_lent 2, example_lent 1]) =
   Some (example_cache [example_lent 2, example_lent 1, example_lent 0])"
proof -
  let ?c = "example_cache [example_lent 0, example_lent 2, example_lent 1]" and ?ts = "\<lambda>le. 10 - int (le_cent le)"
  have "\<forall>le \<in> set (c_rrl ?c). get_rrlent_ts ?c le = Some (?ts le)"
    using example_ts by (simp add: example_cache_def [of rrl for rrl] example_lent_def)
  moreover have "length (c_rrl ?c) < 2 ^ 32" by (simp add: example_cache_def)
  ultimately have "sort_rrl ?c = Some (?c\<lparr>c_rrl := sort_key ?ts (c_rrl ?c)\<rparr>)" by (rule sort_rrl_stable_sort)
  then show ?thesis by (simp add: example_cache_def example_lent_def)
qed

lemma insert_back_sorted:
  assumes "\<forall>x \<in> set xs. f x = Some (g x)" "sorted (map g xs)"
  shows "map_option rev (insert_back f (g ne) ne (rev xs)) = Some (sort_key g (xs @ [ne]))"
proof -
  have "\<exists>r. insert_back f (g ne) ne (rev xs) = Some r \<and> same_keys g (rev r) (xs @ [ne]) \<and> sorted (map g (rev r))"
    using assms
  proof (induction xs rule: rev_induct)
    case (snoc x xs)
    have fx: "f x = Some (g x)" and xs: "\<forall>x \<in> set xs. f x = Some (g x)" "sorted (map g xs)" "\<forall>y\<in>set xs. g y \<le> g x"
      using snoc.prems by (auto simp: sorted_append)
    show ?case
    proof (cases "g x \<le> g ne")
      case True
      with xs have "\<forall>y\<in>set xs. g y \<le> g ne" by auto
      with fx True xs show ?thesis by (auto simp: sorted_append)
    next
      case False
      from snoc.IH [OF xs(1,2)] obtain r where r: "insert_back f (g ne) ne (rev xs) = Some r"
        "same_keys g (rev r) (xs @ [ne])" "sorted (map g (rev r))" by blast
      have "set r = set xs \<union> {ne}" using arg_cong [OF same_keys_mset [OF r(2)], of set_mset] by simp
      with xs(3) False have "sorted (map g (rev r @ [x]))" using r(3) by (auto simp: sorted_append)
      moreover have "same_keys g (rev r @ [x]) (xs @ [x] @ [ne])"
        using r(2) False unfolding same_keys_def by auto
      ultimately show ?thesis using r fx False by simp
    qed
  qed simp
  then show ?thesis using same_keys_sort by fastforce
qed

lemma sort_key_snoc: "sort_key (g :: 'a \<Rightarrow> int) (sort_key g xs @ [x]) = sort_key g (xs @ [x])"
proof (rule same_keys_sort)
  have "same_keys g (sort_key g xs) xs"
    unfolding same_keys_def using filter_sort by (metis (mono_tags, lifting) filter_sort sort_key_stable)
  then have "same_keys g (sort_key g xs @ [x]) (xs @ [x])" by (rule same_keys_append) simp
  moreover have "same_keys g (sort_key g (sort_key g xs @ [x])) (sort_key g xs @ [x])"
    unfolding same_keys_def by (metis (mono_tags, lifting) sort_key_stable)
  ultimately show "same_keys g (sort_key g (sort_key g xs @ [x])) (xs @ [x])" using same_keys_trans by blast
qed simp


lemma set_lent_ts:
  assumes "set_lent ce idx l = Some ce'" "c_heap c a = Some ce"
  shows "get_rrlent_ts (c\<lparr>c_heap := (c_heap c)(a \<mapsto> ce')\<rparr>) le = get_rrlent_ts c le"
proof (cases "le_cent le = a")
  case True
  show ?thesis
  proof (cases idx)
    case None
    with assms(1) obtain l0 ttl ts where "ce_un ce = NegPart l0 ttl ts" "ce' = ce\<lparr>ce_un := NegPart l ttl ts\<rparr>"
      by (auto simp: set_lent_def neg_part_def split: cent_union.splits)
    with True assms(2) show ?thesis
      by (simp add: get_rrlent_ts_def neg_part_def rrarr_index_def rr_part_def split: option.splits)
  next
    case (Some i)
    with assms(1) obtain rs where rs: "rrarr_index ce i = Some (Some rs)"
      "rrarr_set ce i (Some (rs\<lparr>rs_lent := l\<rparr>)) = Some ce'"
      by (auto simp: set_lent_def elim!: bind_eq_SomeE)
    show ?thesis
      using True assms(2) rs(1) rrarr_set_index [OF rs(2)] rrarr_set_rest(2,3) [OF rs(2)]
      by (auto simp: get_rrlent_ts_def split: option.splits)
  qed
qed (simp add: get_rrlent_ts_def)

lemma get_rrlent_ts_heap: "c_heap c' = c_heap c \<Longrightarrow> get_rrlent_ts c' le = get_rrlent_ts c le"
  by (simp add: get_rrlent_ts_def)

lemma set_lent_defined:
  assumes "c_heap c a = Some ce" "get_rrlent_ts c \<lparr>le_id = n, le_cent = a, le_idx = idx\<rparr> = Some t"
  shows "\<exists>ce'. set_lent ce idx l = Some ce'"
proof (cases idx)
  case None
  with assms show ?thesis
    by (auto simp: get_rrlent_ts_def set_lent_def elim!: bind_eq_SomeE)
next
  case (Some i)
  with assms obtain rs where rs: "rrarr_index ce i = Some (Some rs)"
    by (auto simp: get_rrlent_ts_def elim!: bind_eq_SomeE)
  then have "\<exists>ce'. rrarr_set ce i (Some (rs\<lparr>rs_lent := l\<rparr>)) = Some ce'"
    unfolding rrarr_index_def rrarr_set_def
    by (auto simp: rd_def wr_def split: if_splits option.splits elim!: bind_eq_SomeE)
  with rs Some show ?thesis by (simp add: set_lent_def)
qed

text \<open>
  C24: inserting a node by time stamp into a sorted list, from the tail, gives the same list as
  appending it and sorting later with \<^verbatim>\<open>sort_rrl\<close>: the result is sorted, the new node comes
  after all nodes that are not younger. So a cache read from disk with \<^verbatim>\<open>insert_sort\<close> off has the
  same list as one built with insertion.
\<close>

theorem insert_rrl_is_append_and_sort:
  fixes c :: cache and a :: nat and idx :: "nat option"
  defines "ne \<equiv> \<lparr>le_id = c_brk c, le_cent = a, le_idx = idx\<rparr>"
  assumes "c_heap c a = Some ce" and "lent_local ce idx = Some False" and "c_mem c = []"
    and "\<forall>le \<in> set (ne # c_rrl c). get_rrlent_ts c le = Some (ts le)" and "sorted (map ts (c_rrl c))"
    and "length (c_rrl c) < 2 ^ 32 - 1"
  shows "\<exists>c1 c2. insert_rrl a idx (c\<lparr>c_insert_sort := True\<rparr>) = Some (True, c1) \<and>
    insert_rrl a idx (c\<lparr>c_insert_sort := False\<rparr>) = Some (True, c2) \<and>
    c_rrl c1 = sort_key ts (c_rrl c @ [ne]) \<and> c_rrl c2 = c_rrl c @ [ne] \<and>
    sort_rrl c2 = Some (c1\<lparr>c_insert_sort := False\<rparr>)"
proof -
  let ?c = "\<lambda>b. c\<lparr>c_insert_sort := b\<rparr>"
  have ts_ne: "get_rrlent_ts c ne = Some (ts ne)" using assms(5) by simp
  obtain ce' where ce': "set_lent ce idx (Some (c_brk c)) = Some ce'"
    using set_lent_defined [OF assms(2) ts_ne [unfolded ne_def]] by metis
  have eq: "get_rrlent_ts (?c b) = get_rrlent_ts c" for b
    by (rule ext, rule get_rrlent_ts_heap) simp
  have ib: "map_option rev (insert_back (get_rrlent_ts c) (ts ne) ne (rev (c_rrl c))) = Some (sort_key ts (c_rrl c @ [ne]))"
    by (rule insert_back_sorted) (use assms(5,6) in auto)
  have m: "malloc (?c b) = (True, ?c b)" for b using assms(4) by (simp add: malloc_def)
  let ?c1 = "(?c True)\<lparr>c_rrl := sort_key ts (c_rrl c @ [ne]), c_heap := (c_heap c)(a \<mapsto> ce'), c_brk := c_brk c + 1\<rparr>"
  let ?c2 = "(?c False)\<lparr>c_rrl := c_rrl c @ [ne], c_heap := (c_heap c)(a \<mapsto> ce'), c_brk := c_brk c + 1\<rparr>"
  have 1: "insert_rrl a idx (?c True) = Some (True, ?c1)"
    using assms(2,3) ce' ts_ne ib unfolding insert_rrl_def
    by (auto simp: m eq ne_def)
  have 2: "insert_rrl a idx (?c False) = Some (True, ?c2)"
    using assms(2,3) ce' unfolding insert_rrl_def by (simp add: m ne_def)
  have "get_rrlent_ts ?c2 le = get_rrlent_ts c le" for le
    using set_lent_ts [OF ce' assms(2), of le]
      get_rrlent_ts_heap [of ?c2 "c\<lparr>c_heap := (c_heap c)(a \<mapsto> ce')\<rparr>" le] by simp
  then have "\<forall>le \<in> set (c_rrl ?c2). get_rrlent_ts ?c2 le = Some (ts le)" using assms(5) by auto
  moreover have "length (c_rrl ?c2) < 2 ^ 32" using assms(7) by simp
  ultimately have "sort_rrl ?c2 = Some (?c2\<lparr>c_rrl := sort_key ts (c_rrl ?c2)\<rparr>)"
    by (rule sort_rrl_ok)
  then show ?thesis using 1 2 by simp
qed

theorem insert_rrl_is_append_and_sort_witness:
  "\<exists>c1 c2. insert_rrl 1 None ((example_cache [example_lent 2, example_lent 0])\<lparr>c_insert_sort := True\<rparr>) = Some (True, c1) \<and>
    insert_rrl 1 None ((example_cache [example_lent 2, example_lent 0])\<lparr>c_insert_sort := False\<rparr>) = Some (True, c2) \<and>
    map le_cent (c_rrl c1) = [2, 1, 0] \<and> sort_rrl c2 = Some (c1\<lparr>c_insert_sort := False\<rparr>)"
proof -
  let ?c = "example_cache [example_lent 2, example_lent 0]" and ?ts = "\<lambda>le. 10 - int (le_cent le)"
  have 1: "c_heap ?c 1 = Some (example_neg 9)" "lent_local (example_neg 9) None = Some False" "c_mem ?c = []"
    by (simp_all add: example_cache_def example_neg_def lent_local_def flag_simps DF_NEGATIVE_def)
  have 2: "\<forall>le \<in> set (\<lparr>le_id = c_brk ?c, le_cent = 1, le_idx = None\<rparr> # c_rrl ?c). get_rrlent_ts ?c le = Some (?ts le)"
  proof -
    have "c_rrl ?c = [example_lent 2, example_lent 0]" by (simp add: example_cache_def)
    then show ?thesis using example_ts [of 1] example_ts [of 2] example_ts [of 0] by (simp add: example_lent_def)
  qed
  have 3: "sorted (map ?ts (c_rrl ?c))" "length (c_rrl ?c) < 2 ^ 32 - 1"
    by (simp_all add: example_cache_def example_lent_def)
  from insert_rrl_is_append_and_sort [OF 1 2 3] obtain c1 c2 where
    r: "insert_rrl 1 None (?c\<lparr>c_insert_sort := True\<rparr>) = Some (True, c1)"
      "insert_rrl 1 None (?c\<lparr>c_insert_sort := False\<rparr>) = Some (True, c2)"
      "c_rrl c1 = sort_key ?ts (c_rrl ?c @ [\<lparr>le_id = c_brk ?c, le_cent = 1, le_idx = None\<rparr>])"
      "sort_rrl c2 = Some (c1\<lparr>c_insert_sort := False\<rparr>)" by blast
  from r(3) have "map le_cent (c_rrl c1) = [2, 1, 0]" by (simp add: example_cache_def example_lent_def)
  with r(1,2,4) show ?thesis by (intro exI conjI)
qed

end
