(* ===== verification/Cache_Ops.thy ===== *)
theory Cache_Ops
  imports Cache_List Compress
begin

unbundle bit_operations_syntax

section \<open>Operations of the cache (cache.c, hash.c)\<close>

text \<open>
  The operations on cached entries: purging, deletion, conflict resolution, insertion and
  lookup. Each runs under the cache lock (see \<open>Cache_Lock\<close>), so it is modelled as one step; where
  the code gives the lock up in between, a parameter stands for what other threads do there.
  An entry of the cache is named by its address in \<open>c_heap\<close>.
\<close>

record conf =
  cf_min_ttl :: time_t
  cf_max_ttl :: time_t
  cf_neg_ttl :: time_t
  cf_perm_cache :: int

definition MCSZ :: int where "MCSZ = 10240"

definition qname_of :: "cache \<Rightarrow> nat \<Rightarrow> byte list option" where
  "qname_of c a = map_option ce_qname (c_heap c a)"

definition put_cent :: "nat \<Rightarrow> dns_cent \<Rightarrow> cache \<Rightarrow> cache" where
  "put_cent a ce c = c\<lparr>c_heap := (c_heap c)(a \<mapsto> ce)\<rparr>"

definition cache_lookup :: "cache \<Rightarrow> byte list \<Rightarrow> (nat option \<times> hash_loc) option" where
  "cache_lookup c name = dns_lookup (qname_of c) (c_tab c) name"

subsection \<open>Deleting entries\<close>

definition del_cent :: "nat \<Rightarrow> cache \<Rightarrow> cache option" where
  "del_cent a c = do {
     ce \<leftarrow> c_heap c a;
     let c = c\<lparr>c_size := c_size c - ce_cs ce\<rparr>;
     c \<leftarrow> free_cent ce c;
     Some (c\<lparr>c_heap := (c_heap c)(a := None), c_num := c_num c - 1\<rparr>) }"

text \<open>\<^verbatim>\<open>loc\<close> may be null; a wrong or missing hash entry is only logged.\<close>

definition del_cache_ent :: "nat \<Rightarrow> hash_loc option \<Rightarrow> cache \<Rightarrow> cache option" where
  "del_cache_ent a loc c = do {
     T \<leftarrow> (case loc of
             Some l \<Rightarrow> map_option snd (del_dns_hash_ent (c_tab c) l)
           | None \<Rightarrow> do { ce \<leftarrow> c_heap c a;
                         map_option snd (del_dns_hash (qname_of c) (c_tab c) (ce_qname ce)) });
     del_cent a (c\<lparr>c_tab := T\<rparr>) }"

definition del_cache :: "byte list \<Rightarrow> cache \<Rightarrow> cache option" where
  "del_cache name c = do {
     (r, T) \<leftarrow> del_dns_hash (qname_of c) (c_tab c) name;
     (case r of
        None \<Rightarrow> Some c
      | Some a \<Rightarrow> del_cent a (c\<lparr>c_tab := T\<rparr>)) }"

fun del_cents :: "nat list \<Rightarrow> cache \<Rightarrow> cache option" where
  "del_cents [] c = Some c"
| "del_cents (a # as) c = do { c \<leftarrow> del_cent a c; del_cents as c }"

definition free_dns_hash_bucket :: "nat \<Rightarrow> cache \<Rightarrow> cache option" where
  "free_dns_hash_bucket i c = do {
     chain \<leftarrow> rd (c_tab c) i;
     del_cents (map he_data chain) (c\<lparr>c_tab := (c_tab c)[i := []]\<rparr>) }"

text \<open>An element of an include/exclude list.\<close>

record slist =
  sl_exact :: bool
  sl_included :: bool   \<comment> \<open>\<^verbatim>\<open>rule==C_INCLUDED\<close>\<close>
  sl_domain :: "byte list"

fun slist_selects :: "byte list \<Rightarrow> slist list \<Rightarrow> bool option" where
  "slist_selects name [] = Some False"
| "slist_selects name (sl # sla) = do {
     (_, nrem, lrem) \<leftarrow> domain_match name (sl_domain sl);
     if lrem = 0 \<and> (\<not> sl_exact sl \<or> nrem = 0) then Some (sl_included sl)
     else slist_selects name sla }"

text \<open>The chain is walked with a pointer to the current link: \<open>pre\<close> is what stays before it.\<close>

fun free_selected_walk :: "nat \<Rightarrow> slist list \<Rightarrow> hent list \<Rightarrow> hent list \<Rightarrow> cache \<Rightarrow> cache option" where
  "free_selected_walk i sla pre [] c = Some c"
| "free_selected_walk i sla pre (he # hes) c = do {
     ce \<leftarrow> c_heap c (he_data he);
     sel \<leftarrow> slist_selects (ce_qname ce) sla;
     if sel
     then do {
       c \<leftarrow> del_cent (he_data he) (c\<lparr>c_tab := (c_tab c)[i := pre @ hes]\<rparr>);
       free_selected_walk i sla pre hes c }
     else free_selected_walk i sla (pre @ [he]) hes c }"

definition free_dns_hash_selected :: "nat \<Rightarrow> slist list \<Rightarrow> cache \<Rightarrow> cache option" where
  "free_dns_hash_selected i sla c = do {
     chain \<leftarrow> rd (c_tab c) i;
     free_selected_walk i sla [] chain c }"

fun free_buckets :: "nat \<Rightarrow> nat \<Rightarrow> cache \<Rightarrow> cache option" where
  "free_buckets i 0 c = Some c"
| "free_buckets i (Suc n) c = do { c \<leftarrow> free_dns_hash_bucket i c; free_buckets (i + 1) n c }"

definition free_dns_hash :: "cache \<Rightarrow> cache option" where
  "free_dns_hash c = free_buckets 0 HASH_NUM_BUCKETS c"

text \<open>
  \<^verbatim>\<open>empty_cache\<close>: \<open>sla\<close> may be null; \<open>got_lock\<close> is the result of \<^verbatim>\<open>timedlock_cache_rw\<close> and
  \<open>yield i\<close> what other threads do while the lock is given up after bucket \<open>i\<close>.
\<close>

fun empty_loop :: "slist list option \<Rightarrow> (nat \<Rightarrow> cache \<Rightarrow> cache) \<Rightarrow> nat \<Rightarrow> nat \<Rightarrow> cache \<Rightarrow> cache option" where
  "empty_loop sla yield i 0 c = Some c"
| "empty_loop sla yield i (Suc n) c = do {
     c \<leftarrow> (case sla of Some l \<Rightarrow> free_dns_hash_selected i l c | None \<Rightarrow> free_dns_hash_bucket i c);
     empty_loop sla yield (i + 1) n (if n = 0 then c else yield i c) }"

definition empty_cache :: "slist list option \<Rightarrow> bool \<Rightarrow> (nat \<Rightarrow> cache \<Rightarrow> cache) \<Rightarrow> cache \<Rightarrow> (bool \<times> cache) option" where
  "empty_cache sla got_lock yield c =
     (if \<not> got_lock then Some (False, c)
      else map_option (Pair True) (empty_loop sla yield 0 HASH_NUM_BUCKETS c))"

definition destroy_cache :: "bool \<Rightarrow> cache \<Rightarrow> cache option" where
  "destroy_cache got_lock c = (if \<not> got_lock then Some c else free_dns_hash c)"

subsection \<open>Purging\<close>

definition purgeable :: "time_t \<Rightarrow> rr_set \<Rightarrow> bool" where
  "purgeable now rs \<longleftrightarrow>
     \<not> (fset (rs_flags rs) CF_NOPURGE \<or> fset (rs_flags rs) CF_LOCAL) \<and> timedout now rs"

definition purge_del :: "nat \<Rightarrow> nat \<Rightarrow> cache \<Rightarrow> cache option" where
  \<comment> \<open>\<^verbatim>\<open>cache_size -= del_cent_rrset_by_index(cent,idx)\<close>\<close>
  "purge_del a i c = do {
     ce \<leftarrow> c_heap c a;
     (n, ce, c) \<leftarrow> del_cent_rrset_by_index ce i c;
     Some ((put_cent a ce c)\<lparr>c_size := c_size c - n\<rparr>) }"

definition purge_rrset :: "time_t \<Rightarrow> nat \<Rightarrow> nat \<Rightarrow> bool \<Rightarrow> cache \<Rightarrow> (bool \<times> cache) option" where
  "purge_rrset now a idx test c = do {
     ce \<leftarrow> c_heap c a;
     rs \<leftarrow> rrarr_index_testext ce idx;
     (case rs of
        None \<Rightarrow> Some (False, c)
      | Some rs \<Rightarrow>
          if purgeable now rs
          then if \<not> test then map_option (Pair True) (purge_del a idx c) else Some (True, c)
          else Some (False, c)) }"

text \<open>The loop over the indices: number of deletions, sets left, sets left in \<^verbatim>\<open>rrext\<close>.\<close>

fun purge_loop :: "time_t \<Rightarrow> nat \<Rightarrow> bool \<Rightarrow> nat \<Rightarrow> nat \<Rightarrow> cache \<Rightarrow> (int \<times> nat \<times> nat \<times> cache) option" where
  "purge_loop now a test i 0 c = Some (0, 0, 0, c)"
| "purge_loop now a test i (Suc n) c = do {
     ce \<leftarrow> c_heap c a;
     rs \<leftarrow> rrarr_index ce i;
     (case rs of
        None \<Rightarrow> purge_loop now a test (i + 1) n c
      | Some rs \<Rightarrow>
          if purgeable now rs
          then do {
            c \<leftarrow> (if \<not> test then purge_del a i c else Some c);
            (rv, k, e, c) \<leftarrow> purge_loop now a test (i + 1) n c;
            Some (rv + 1, k, e, c) }
          else do {
            (rv, k, e, c) \<leftarrow> purge_loop now a test (i + 1) n c;
            Some (rv, k + 1, (if i \<ge> NRRMU then e + 1 else e), c) }) }"

definition purge_all_rrsets :: "time_t \<Rightarrow> nat \<Rightarrow> bool \<Rightarrow> cache \<Rightarrow> (int \<times> nat \<times> cache) option" where
  "purge_all_rrsets now a test c = do {
     ce \<leftarrow> c_heap c a;
     if is_neg ce then Some (0, 0, c)
     else do {
       ilim \<leftarrow> rrarr_len ce;
       (rv, numrrs, numrrext, c) \<leftarrow> purge_loop now a test 0 ilim c;
       ce \<leftarrow> c_heap c a;
       (mu, ext) \<leftarrow> rr_part ce;
       if ext \<noteq> None \<and> numrrext = 0
       then Some (rv + 1, numrrs,
              if \<not> test
              then (put_cent a (ce\<lparr>ce_un := RRPart mu None, ce_cs := ce_cs ce - sizeof_ptr * int NRREXT\<rparr>) c)
                     \<lparr>c_size := c_size c - sizeof_ptr * int NRREXT\<rparr>
              else c)
       else Some (rv, numrrs, c) } }"

text \<open>
  The test for a stale \<^verbatim>\<open>c_ns\<close> or \<^verbatim>\<open>c_soa\<close>: \<open>cnt\<close> is the field, \<open>get\<close> is
  \<^verbatim>\<open>getrrset_NS\<close> or \<^verbatim>\<open>getrrset_SOA\<close>.
\<close>

definition stale_ref :: "time_t \<Rightarrow> (dns_cent \<Rightarrow> rr_set option option) \<Rightarrow> dns_cent \<Rightarrow> nat \<Rightarrow> nat \<Rightarrow> cache \<Rightarrow> bool option" where
  "stale_ref now get ce cnt scnt c = do {
     rs \<leftarrow> (if cnt = scnt then get ce
            else if cnt < scnt
            then do {
              nm \<leftarrow> skipsegs (ce_qname ce) (scnt - cnt);
              (r, _) \<leftarrow> cache_lookup c nm;
              (case r of None \<Rightarrow> Some None | Some b \<Rightarrow> do { ce' \<leftarrow> c_heap c b; get ce' }) }
            else Some None);
     Some (case rs of
             None \<Rightarrow> True
           | Some rs \<Rightarrow> rs_rrs rs = [] \<or> (\<not> fset (rs_flags rs) CF_LOCAL \<and> timedout now rs)) }"

definition purge_refs :: "time_t \<Rightarrow> nat \<Rightarrow> bool \<Rightarrow> int \<Rightarrow> cache \<Rightarrow> (int \<times> cache) option" where
  "purge_refs now a test npurge c = do {
     ce \<leftarrow> c_heap c a;
     scnt \<leftarrow> rhnsegcnt (ce_qname ce);
     stale \<leftarrow> (if ce_c_ns ce \<noteq> cundef then stale_ref now getrrset_NS ce (ce_c_ns ce) scnt c else Some False);
     let c = (if stale \<and> \<not> test then put_cent a (ce\<lparr>ce_c_ns := cundef\<rparr>) c else c);
     let npurge = (if stale then npurge + 1 else npurge);
     ce \<leftarrow> c_heap c a;
     stale \<leftarrow> (if ce_c_soa ce \<noteq> cundef then stale_ref now getrrset_SOA ce (ce_c_soa ce) scnt c else Some False);
     let c = (if stale \<and> \<not> test then put_cent a (ce\<lparr>ce_c_soa := cundef\<rparr>) c else c);
     Some (if stale then npurge + 1 else npurge, c) }"

definition no_longer_needed :: "time_t \<Rightarrow> dns_cent \<Rightarrow> bool option" where
  "no_longer_needed now ce =
     (if \<not> is_neg ce then Some True
      else if fset (ce_flags ce) DF_LOCAL then Some False
      else timedout_nxdom now ce)"

definition purge_cent :: "time_t \<Rightarrow> nat \<Rightarrow> bool \<Rightarrow> bool \<Rightarrow> cache \<Rightarrow> (int \<times> cache) option" where
  "purge_cent now a delete test c = do {
     (npurge, numrrs, c) \<leftarrow> purge_all_rrsets now a test c;
     ce \<leftarrow> c_heap c a;
     gone \<leftarrow> (if delete \<and> numrrs = 0 then no_longer_needed now ce else Some False);
     if gone
     then do { c \<leftarrow> (if \<not> test then del_cache_ent a None c else Some c); Some (-1, c) }
     else if \<not> fset (ce_flags ce) DF_LOCAL then purge_refs now a test npurge c
     else Some (npurge, c) }"

text \<open>
  The two walks of \<^verbatim>\<open>purge_cache\<close>. The nodes still to visit are given as a list; a node that
  was freed before it is visited would be a use after free and gives \<^term>\<open>None\<close>.
\<close>

fun purge_walk1 :: "time_t \<Rightarrow> int \<Rightarrow> bool \<Rightarrow> rr_lent list \<Rightarrow> cache \<Rightarrow> cache option" where
  "purge_walk1 now sz lazy [] c = Some c"
| "purge_walk1 now sz lazy (le # les) c =
     (if lazy \<and> \<not> c_size c > sz then Some c
      else if le \<notin> set (c_rrl c) then None
      else do {
        ce \<leftarrow> c_heap c (le_cent le);
        loc \<leftarrow> lent_local ce (le_idx le);
        c \<leftarrow> (if loc then Some c
              else do {
                c \<leftarrow> (case le_idx le of
                       Some i \<Rightarrow> map_option snd (purge_rrset now (le_cent le) i False c)
                     | None \<Rightarrow> Some c);
                ce \<leftarrow> c_heap c (le_cent le);
                gone \<leftarrow> (if ce_num_rrs ce = 0 then no_longer_needed now ce else Some False);
                if gone then del_cache_ent (le_cent le) None c else Some c });
        purge_walk1 now sz lazy les c })"

fun purge_walk2 :: "int \<Rightarrow> rr_lent list \<Rightarrow> cache \<Rightarrow> cache option" where
  "purge_walk2 sz [] c = Some c"
| "purge_walk2 sz (le # les) c =
     (if \<not> c_size c > sz then Some c
      else if le \<notin> set (c_rrl c) then None
      else do {
        ce \<leftarrow> c_heap c (le_cent le);
        loc \<leftarrow> lent_local ce (le_idx le);
        c \<leftarrow> (if loc then Some c
              else do {
                c \<leftarrow> (case le_idx le of Some i \<Rightarrow> purge_del (le_cent le) i c | None \<Rightarrow> Some c);
                ce \<leftarrow> c_heap c (le_cent le);
                if ce_num_rrs ce = 0 then del_cache_ent (le_cent le) None c else Some c });
        purge_walk2 sz les c })"

definition purge_cache :: "time_t \<Rightarrow> int \<Rightarrow> bool \<Rightarrow> cache \<Rightarrow> cache option" where
  "purge_cache now sz lazy c = do {
     c \<leftarrow> purge_walk1 now sz lazy (c_rrl c) c;
     if c_size c \<le> sz then Some c
     else do {
       c \<leftarrow> (if \<not> c_insert_sort c then map_option (\<lambda>c. c\<lparr>c_insert_sort := True\<rparr>) (sort_rrl c) else Some c);
       purge_walk2 sz (c_rrl c) c } }"

end
