(* ===== verification/Cache_Add.thy ===== *)
theory Cache_Add
  imports Cache_Ops
begin

unbundle bit_operations_syntax

section \<open>Adding to the cache and looking up (cache.c)\<close>

text \<open>
  \<^verbatim>\<open>cr_check_add\<close>, \<^verbatim>\<open>add_cache\<close> with its merge of new and old RR sets, and the lookup
  functions. The gotos of \<^verbatim>\<open>add_cache\<close> are the constructors of \<open>add_result\<close>.
\<close>

subsection \<open>Flags of a server\<close>

definition mk_flag_val :: "bool \<Rightarrow> bool \<Rightarrow> bool \<Rightarrow> u16" where
  "mk_flag_val purge nocache rootserver =
     (let fl = 0;
          fl = (if \<not> purge then fl OR CF_NOPURGE else fl);
          fl = (if nocache then fl OR CF_NOCACHE else fl)
      in if rootserver then fl OR CF_ROOTSERV else fl)"

subsection \<open>Conflict resolution\<close>

text \<open>A stored set conflicts with a new one of index \<open>idx\<close>.\<close>

definition set_conflicts :: "nat \<Rightarrow> nat \<Rightarrow> rr_set \<Rightarrow> bool" where
  "set_conflicts idx i rs \<longleftrightarrow> \<not> fset (rs_flags rs) CF_NEGATIVE \<and> rr_conflict idx i"

text \<open>
  The first loop: \<^term>\<open>None\<close> if a conflicting set is local, otherwise the number of conflicts
  and the sum of their remaining lifetimes.
\<close>

fun conflict_scan :: "time_t \<Rightarrow> dns_cent \<Rightarrow> nat \<Rightarrow> nat \<Rightarrow> nat \<Rightarrow> int \<Rightarrow> time_t \<Rightarrow> (int \<times> time_t) option option" where
  "conflict_scan now ce idx i 0 ncf nttl = Some (Some (ncf, nttl))"
| "conflict_scan now ce idx i (Suc n) ncf nttl = do {
     rs \<leftarrow> rrarr_index ce i;
     (case rs of
        None \<Rightarrow> conflict_scan now ce idx (i + 1) n ncf nttl
      | Some rs \<Rightarrow>
          if set_conflicts idx i rs
          then if fset (rs_flags rs) CF_LOCAL then Some None
               else let rttl = rs_ttl rs + rs_ts rs - now
                    in conflict_scan now ce idx (i + 1) n (ncf + 1) (if rttl > 0 then nttl + rttl else nttl)
          else conflict_scan now ce idx (i + 1) n ncf nttl) }"

fun conflict_remove :: "nat \<Rightarrow> nat \<Rightarrow> nat \<Rightarrow> nat \<Rightarrow> cache \<Rightarrow> cache option" where
  "conflict_remove a idx i 0 c = Some c"
| "conflict_remove a idx i (Suc n) c = do {
     ce \<leftarrow> c_heap c a;
     rs \<leftarrow> rrarr_index ce i;
     c \<leftarrow> (case rs of
             Some rs \<Rightarrow>
               if set_conflicts idx i rs
               then do { (_, ce, c) \<leftarrow> del_cent_rrset_by_index ce i c; Some (put_cent a ce c) }
               else Some c
           | None \<Rightarrow> Some c);
     conflict_remove a idx (i + 1) n c }"

definition cr_check_add :: "time_t \<Rightarrow> nat \<Rightarrow> nat \<Rightarrow> time_t \<Rightarrow> time_t \<Rightarrow> u16 \<Rightarrow> cache \<Rightarrow> (bool \<times> cache) option" where
  "cr_check_add now a idx ttl ts flags c =
     (if fset flags CF_NEGATIVE then Some (True, c)
      else do {
        ce \<leftarrow> c_heap c a;
        ilim \<leftarrow> rrarr_len ce;
        _ \<leftarrow> rd rr_info idx;
        if \<not> fset flags CF_LOCAL
        then
          if fset (ce_flags ce) DF_LOCAL then Some (False, c)
          else do {
            r \<leftarrow> conflict_scan now ce idx 0 ilim 0 0;
            (case r of
               None \<Rightarrow> Some (False, c)
             | Some (ncf, nttl) \<Rightarrow>
                 if ncf = 0 then Some (True, c)
                 else if ttl > nttl div ncf
                 then map_option (Pair True) (conflict_remove a idx 0 ilim c)
                 else Some (False, c)) }
        else map_option (Pair True) (conflict_remove a idx 0 ilim c) })"

subsection \<open>Limits on the time to live\<close>

definition limit_ttl :: "time_t \<Rightarrow> time_t \<Rightarrow> time_t \<Rightarrow> time_t" where
  "limit_ttl min_ttl max_ttl ttl =
     (if ttl < min_ttl then min_ttl else if ttl > max_ttl then max_ttl else ttl)"

definition adjust_ttl :: "conf \<Rightarrow> rr_set \<Rightarrow> rr_set" where
  "adjust_ttl g rs =
     (if fset (rs_flags rs) CF_NOCACHE
      then rs\<lparr>rs_flags := rs_flags rs AND NOT CF_NOCACHE, rs_ttl := 0\<rparr>
      else rs\<lparr>rs_ttl := limit_ttl
             (if fset (rs_flags rs) CF_NEGATIVE \<and> cf_neg_ttl g < cf_min_ttl g then cf_neg_ttl g else cf_min_ttl g)
             (cf_max_ttl g) (rs_ttl rs)\<rparr>)"

definition adjust_dom_ttl :: "conf \<Rightarrow> dns_cent \<Rightarrow> dns_cent option" where
  "adjust_dom_ttl g ce = do {
     (l, ttl, ts) \<leftarrow> neg_part ce;
     Some (if fset (ce_flags ce) DF_NOCACHE
           then ce\<lparr>ce_flags := ce_flags ce AND NOT DF_NOCACHE, ce_un := NegPart l 0 ts\<rparr>
           else ce\<lparr>ce_un := NegPart l (limit_ttl
             (if cf_neg_ttl g < cf_min_ttl g then cf_neg_ttl g else cf_min_ttl g) (cf_max_ttl g) ttl) ts\<rparr>) }"

subsection \<open>add_cache\<close>

datatype add_result =
    Purge_cache cache        \<comment> \<open>go on to \<^verbatim>\<open>purge_cache_return\<close>\<close>
  | Unlock_return cache      \<comment> \<open>one of the returns without purging\<close>
  | Retry cache

text \<open>The loop over the RR sets of a new entry: \<^verbatim>\<open>adjust_ttl\<close> and \<^verbatim>\<open>insert_rrl\<close>.\<close>

fun insert_sets :: "conf \<Rightarrow> nat \<Rightarrow> nat \<Rightarrow> nat \<Rightarrow> cache \<Rightarrow> (bool \<times> cache) option" where
  "insert_sets g a i 0 c = Some (True, c)"
| "insert_sets g a i (Suc n) c = do {
     ce \<leftarrow> c_heap c a;
     rs \<leftarrow> rrarr_index ce i;
     (case rs of
        None \<Rightarrow> insert_sets g a (i + 1) n c
      | Some rs \<Rightarrow> do {
          ce \<leftarrow> rrarr_set ce i (Some (adjust_ttl g rs));
          (ok, c) \<leftarrow> insert_rrl a (Some i) (put_cent a ce c);
          if \<not> ok then Some (False, c) else insert_sets g a (i + 1) n c }) }"

definition add_cache_new :: "conf \<Rightarrow> dns_cent \<Rightarrow> hash_loc \<Rightarrow> cache \<Rightarrow> add_result option" where
  "add_cache_new g cent loc c =
     (if ce_num_rrs cent = 0 \<and> \<not> is_neg cent then Some (Purge_cache c)
      else do {
        (copy, c) \<leftarrow> copy_cent cent c;
        (case copy of
           None \<Rightarrow> Some (Unlock_return c)
         | Some ce \<Rightarrow> do {
             let a = c_brk c;
             let c = (put_cent a ce c)\<lparr>c_brk := c_brk c + 1\<rparr>;
             (ok, c) \<leftarrow>
               (if \<not> is_neg ce
                then do { ilim \<leftarrow> rrarr_len ce; insert_sets g a 0 ilim c }
                else do { ce \<leftarrow> adjust_dom_ttl g ce; insert_rrl a None (put_cent a ce c) });
             (ok, c) \<leftarrow>
               (if \<not> ok then Some (False, c)
                else do {
                  let (mem, c) = malloc c;
                  (ok, T) \<leftarrow> add_dns_hash (c_tab c) a loc mem;
                  Some (ok, c\<lparr>c_tab := T\<rparr>) });
             ce \<leftarrow> c_heap c a;
             if \<not> ok then do {
               c \<leftarrow> free_cent ce c;
               Some (Unlock_return (c\<lparr>c_heap := (c_heap c)(a := None)\<rparr>)) }
             else Some (Purge_cache (c\<lparr>c_num := c_num c + 1, c_size := c_size c + ce_cs ce\<rparr>)) }) })"

text \<open>Whether the old set keeps its place.\<close>

definition old_precedes :: "time_t \<Rightarrow> rr_set \<Rightarrow> rr_set \<Rightarrow> bool" where
  "old_precedes now new old \<longleftrightarrow>
     (\<not> fset (rs_flags new) CF_LOCAL \<and> fset (rs_flags old) CF_LOCAL) \<or>
     (fset (rs_flags new) CF_ADDITIONAL \<and>
      (\<not> fset (rs_flags old) CF_ADDITIONAL \<or>
       (\<not> fset (rs_flags new) CF_ROOTSERV \<and> fset (rs_flags old) CF_ROOTSERV)) \<and>
      \<not> timedout now old)"

fun add_rrs :: "nat \<Rightarrow> nat \<Rightarrow> rr_set \<Rightarrow> rr_bucket list \<Rightarrow> nat option \<Rightarrow> cache \<Rightarrow> (bool \<times> cache) option" where
  "add_rrs a i rs [] rtail c = Some (True, c)"
| "add_rrs a i rs (rr # rrs) rtail c = do {
     ce \<leftarrow> c_heap c a;
     (ok, rtail, ce, c) \<leftarrow> add_cent_rr_int ce i (rs_ttl rs) (rs_ts rs) (rs_flags rs) (length rr) rr rtail c;
     let c = put_cent a ce c;
     if \<not> ok then Some (False, c) else add_rrs a i rs rrs rtail c }"

text \<open>One RR set of the new entry; the result tells whether memory was found.\<close>

definition replace_rrset :: "conf \<Rightarrow> time_t \<Rightarrow> nat \<Rightarrow> nat \<Rightarrow> rr_set \<Rightarrow> cache \<Rightarrow> (bool \<times> cache) option" where
  "replace_rrset g now a i rs c = do {
     ce \<leftarrow> c_heap c a;
     (_, ce, c) \<leftarrow> del_cent_rrset_by_index ce i c;
     (ok, c) \<leftarrow> cr_check_add now a i (rs_ttl rs) (rs_ts rs) (rs_flags rs) (put_cent a ce c);
     if \<not> ok then Some (True, c)
     else do {
       ce \<leftarrow> c_heap c a;
       (ok, ce, c) \<leftarrow> add_cent_rrset_by_index ce i (rs_ttl rs) (rs_ts rs) (rs_flags rs) c;
       let c = put_cent a ce c;
       if \<not> ok then Some (False, c)
       else do {
         (ok, c) \<leftarrow> add_rrs a i rs (rs_rrs rs) None c;
         (ok, c) \<leftarrow>
           (if \<not> ok then Some (False, c)
            else do {
              ce \<leftarrow> c_heap c a;
              new \<leftarrow> rrarr_index ce i;
              new \<leftarrow> new;
              ce \<leftarrow> rrarr_set ce i (Some (adjust_ttl g new));
              insert_rrl a (Some i) (put_cent a ce c) });
         if \<not> ok then do {
           ce \<leftarrow> c_heap c a;
           (_, ce, c) \<leftarrow> del_cent_rrset_by_index ce i c;
           Some (False, put_cent a ce c) }
         else Some (True, c) } } }"

fun merge_sets :: "conf \<Rightarrow> time_t \<Rightarrow> nat \<Rightarrow> dns_cent \<Rightarrow> nat \<Rightarrow> nat \<Rightarrow> cache \<Rightarrow> (bool \<times> cache) option" where
  "merge_sets g now a cent i 0 c = Some (True, c)"
| "merge_sets g now a cent i (Suc n) c = do {
     new \<leftarrow> rrarr_index cent i;
     (case new of
        None \<Rightarrow> merge_sets g now a cent (i + 1) n c
      | Some new \<Rightarrow> do {
          ce \<leftarrow> c_heap c a;
          old \<leftarrow> rrarr_index_testext ce i;
          (ok, c) \<leftarrow>
            (if (case old of None \<Rightarrow> False | Some old \<Rightarrow> old_precedes now new old)
             then Some (True, c)
             else replace_rrset g now a i new c);
          if \<not> ok then Some (False, c) else merge_sets g now a cent (i + 1) n c }) }"

definition merge_cnt :: "nat \<Rightarrow> nat \<Rightarrow> nat" where
  "merge_cnt old new = (if new \<noteq> cundef \<and> (old = cundef \<or> old < new) then new else old)"

definition add_cache_merge :: "conf \<Rightarrow> time_t \<Rightarrow> dns_cent \<Rightarrow> nat \<Rightarrow> cache \<Rightarrow> add_result option" where
  "add_cache_merge g now cent a c = do {
     (_, c) \<leftarrow> purge_cent now a False False c;
     ce \<leftarrow> c_heap c a;
     let c = c\<lparr>c_size := c_size c - ce_cs ce\<rparr>;
     ilim \<leftarrow> rrarr_len cent;
     (ok, c) \<leftarrow> merge_sets g now a cent 0 ilim c;
     ce \<leftarrow> c_heap c a;
     if \<not> ok then Some (Unlock_return (c\<lparr>c_size := c_size c + ce_cs ce\<rparr>))
     else do {
       let ce = ce\<lparr>ce_flags := ce_flags ce OR (ce_flags cent AND (DF_AUTH OR DF_WILD)),
                   ce_c_ns := merge_cnt (ce_c_ns ce) (ce_c_ns cent),
                   ce_c_soa := merge_cnt (ce_c_soa ce) (ce_c_soa cent)\<rparr>;
       let c = put_cent a ce c;
       Some (Purge_cache (c\<lparr>c_size := c_size c + ce_cs ce\<rparr>)) } }"

text \<open>The test for local records before a negative entry replaces an entry.\<close>

fun has_local_set :: "dns_cent \<Rightarrow> nat \<Rightarrow> nat \<Rightarrow> bool option" where
  "has_local_set ce i 0 = Some False"
| "has_local_set ce i (Suc n) = do {
     rs \<leftarrow> rrarr_index ce i;
     if (case rs of None \<Rightarrow> False | Some rs \<Rightarrow> fset (rs_flags rs) CF_LOCAL) then Some True
     else has_local_set ce (i + 1) n }"

definition add_cache_step :: "conf \<Rightarrow> time_t \<Rightarrow> dns_cent \<Rightarrow> cache \<Rightarrow> add_result option" where
  "add_cache_step g now cent c = do {
     (r, loc) \<leftarrow> cache_lookup c (ce_qname cent);
     (case r of
        None \<Rightarrow> add_cache_new g cent loc c
      | Some a \<Rightarrow>
          if is_neg cent
          then do {
            ce \<leftarrow> c_heap c a;
            ilim \<leftarrow> rrarr_len ce;
            loc_set \<leftarrow> has_local_set ce 0 ilim;
            if loc_set then Some (Unlock_return c)
            else do { c \<leftarrow> del_cache_ent a (Some loc) c; Some (Retry c) } }
          else add_cache_merge g now cent a c) }"

text \<open>\<open>n\<close> bounds the number of retries; two rounds are enough, as the lemmas show.\<close>

fun add_cache_loop :: "nat \<Rightarrow> conf \<Rightarrow> time_t \<Rightarrow> dns_cent \<Rightarrow> cache \<Rightarrow> cache option" where
  "add_cache_loop 0 g now cent c = None"
| "add_cache_loop (Suc n) g now cent c = do {
     r \<leftarrow> add_cache_step g now cent c;
     (case r of
        Purge_cache c \<Rightarrow> purge_cache now (cf_perm_cache g * 1024 + MCSZ) True c
      | Unlock_return c \<Rightarrow> Some c
      | Retry c \<Rightarrow> add_cache_loop n g now cent c) }"

definition add_cache :: "conf \<Rightarrow> time_t \<Rightarrow> dns_cent \<Rightarrow> cache \<Rightarrow> cache option" where
  "add_cache g now cent c = add_cache_loop 2 g now cent c"

subsection \<open>Changing entries in place\<close>

fun invalidate_sets :: "dns_cent \<Rightarrow> nat \<Rightarrow> nat \<Rightarrow> dns_cent option" where
  "invalidate_sets ce i 0 = Some ce"
| "invalidate_sets ce i (Suc n) = do {
     rs \<leftarrow> rrarr_index ce i;
     ce \<leftarrow> (case rs of
              None \<Rightarrow> Some ce
            | Some rs \<Rightarrow> rrarr_set ce i (Some (rs\<lparr>rs_ts := 0, rs_flags := rs_flags rs AND NOT CF_AUTH\<rparr>)));
     invalidate_sets ce (i + 1) n }"

definition invalidate_record :: "byte list \<Rightarrow> cache \<Rightarrow> cache option" where
  "invalidate_record name c = do {
     (r, _) \<leftarrow> cache_lookup c name;
     (case r of
        None \<Rightarrow> Some c
      | Some a \<Rightarrow> do {
          ce \<leftarrow> c_heap c a;
          ce \<leftarrow> (if \<not> is_neg ce
                 then do { ilim \<leftarrow> rrarr_len ce; invalidate_sets ce 0 ilim }
                 else do { (l, ttl, _) \<leftarrow> neg_part ce; Some (ce\<lparr>ce_un := NegPart l ttl 0\<rparr>) });
          Some (put_cent a (ce\<lparr>ce_flags := ce_flags ce AND NOT DF_AUTH\<rparr>) c) }) }"

definition set_cent_flags :: "byte list \<Rightarrow> u16 \<Rightarrow> cache \<Rightarrow> (bool \<times> cache) option" where
  "set_cent_flags name flags c = do {
     (r, _) \<leftarrow> cache_lookup c name;
     (case r of
        None \<Rightarrow> Some (False, c)
      | Some a \<Rightarrow> do {
          ce \<leftarrow> c_heap c a;
          Some (True, put_cent a (ce\<lparr>ce_flags := ce_flags ce OR flags\<rparr>) c) }) }"

subsection \<open>Lookup\<close>

text \<open>
  The loop of \<^verbatim>\<open>getlocalowner\<close> over the ancestors of a name; the argument is the part of the
  name the pointer stands at, the result the part returned.
\<close>

function localowner_loop :: "cache \<Rightarrow> int \<Rightarrow> byte list \<Rightarrow> byte list option option" where
  "localowner_loop c tp nm = do {
     lb \<leftarrow> rd nm 0;
     if lb = 0 then Some None
     else do {
       (r, _) \<leftarrow> cache_lookup c nm;
       (case r of
          None \<Rightarrow> localowner_loop c tp (drop (unat lb + 1) nm)
        | Some a \<Rightarrow> do {
            ce \<leftarrow> c_heap c a;
            if \<not> fset (ce_flags ce) DF_LOCAL then Some None
            else do {
              h \<leftarrow> have_rr ce tp;
              if h then Some (Some nm) else localowner_loop c tp (drop (unat lb + 1) nm) } }) } }"
  by pat_completeness auto
termination
  by (relation "measure (\<lambda>(c, tp, nm). length nm)") (auto simp: rd_def split: if_splits)

declare localowner_loop.simps [simp del]

definition getlocalowner :: "byte list \<Rightarrow> int \<Rightarrow> cache \<Rightarrow> byte list option option" where
  "getlocalowner name tp c = do {
     lb \<leftarrow> rd name 0;
     if lb = 0 then Some None else localowner_loop c tp (drop (unat lb + 1) name) }"

datatype wild = No_wild | W_wild | W_neg | W_locnerr

text \<open>The search up the name hierarchy of \<^verbatim>\<open>lookup_cache\<close>.\<close>

function wild_loop :: "cache \<Rightarrow> byte list \<Rightarrow> (nat option \<times> wild) option" where
  "wild_loop c nm = do {
     lb \<leftarrow> rd nm 0;
     if lb = 0 then Some (None, No_wild)
     else do {
       (r, _) \<leftarrow> cache_lookup c nm;
       (case r of
          None \<Rightarrow> wild_loop c (drop (unat lb + 1) nm)
        | Some a \<Rightarrow> do {
            ce \<leftarrow> c_heap c a;
            if is_neg ce then Some (Some a, W_neg)
            else if fset (ce_flags ce) DF_WILD
            then do {
              (_, buf) \<leftarrow> rhncpy (replicate (DNSNAMEBUFSIZE - 2) 0) nm;
              (r, _) \<leftarrow> cache_lookup c (1 # 42 # buf);
              Some (r, if r \<noteq> None then W_wild else No_wild) }
            else if fset (ce_flags ce) DF_LOCAL then Some (Some a, W_locnerr)
            else Some (None, No_wild) }) } }"
  by pat_completeness auto
termination
  by (relation "measure (\<lambda>(c, nm). length nm)") (auto simp: rd_def split: if_splits)

declare wild_loop.simps [simp del]

text \<open>\<open>wild\<close>: whether the caller passed a pointer for it.\<close>

definition lookup_find :: "byte list \<Rightarrow> bool \<Rightarrow> cache \<Rightarrow> (nat option \<times> wild) option" where
  "lookup_find name wild c = do {
     (r, _) \<leftarrow> cache_lookup c name;
     if wild \<and> r = None
     then do {
       lb \<leftarrow> rd name 0;
       if lb = 0 then Some (None, No_wild) else wild_loop c (drop (unat lb + 1) name) }
     else Some (r, No_wild) }"

text \<open>
  \<open>others\<close> is what other threads do to the cache between the release of the read lock and the
  write lock. The result is the copy, \<^verbatim>\<open>*wild\<close> and the cache.
\<close>

definition lookup_cache ::
  "time_t \<Rightarrow> byte list \<Rightarrow> bool \<Rightarrow> (cache \<Rightarrow> cache) \<Rightarrow> cache \<Rightarrow> (dns_cent option \<times> wild \<times> cache) option" where
  "lookup_cache now name wild others c = do {
     (r, w) \<leftarrow> lookup_find name wild c;
     (case r of
        None \<Rightarrow> Some (None, w, c)
      | Some a \<Rightarrow> do {
          (purge, _) \<leftarrow> purge_cent now a True True c;
          if purge = 0
          then do {
            ce \<leftarrow> c_heap c a;
            (copy, c) \<leftarrow> copy_cent ce c;
            Some (copy, w, c) }
          else do {
            let c = others c;
            (r, w) \<leftarrow> lookup_find name wild c;
            (case r of
               None \<Rightarrow> Some (None, w, c)
             | Some a \<Rightarrow> do {
                 (purge, c) \<leftarrow> purge_cent now a True False c;
                 if purge < 0 then Some (None, w, c)
                 else do {
                   ce \<leftarrow> c_heap c a;
                   (copy, c) \<leftarrow> copy_cent ce c;
                   Some (copy, w, c) } }) } }) }"

definition lookup_cache_local_rrset :: "byte list \<Rightarrow> int \<Rightarrow> cache \<Rightarrow> (rr_set option \<times> cache) option" where
  "lookup_cache_local_rrset name tp c = do {
     (r, _) \<leftarrow> cache_lookup c name;
     (case r of
        None \<Rightarrow> Some (None, c)
      | Some a \<Rightarrow> do {
          ce \<leftarrow> c_heap c a;
          rs \<leftarrow> getrrset ce tp;
          Some (case rs of
                  Some rs \<Rightarrow> if fset (rs_flags rs) CF_LOCAL then copy_rrset rs c else (None, c)
                | None \<Rightarrow> (None, c)) }) }"

end
