(* ===== verification/Cache_Cent.thy ===== *)
theory Cache_Cent
  imports Cache_Add
begin

unbundle bit_operations_syntax

section \<open>Well-formed cache entries\<close>

text \<open>
  The invariant of a single cache entry: the union member agrees with the \<^verbatim>\<open>DF_NEGATIVE\<close> flag, the
  arrays have their lengths, \<^verbatim>\<open>cs\<close> is the number of bytes the entry takes and \<^verbatim>\<open>num_rrs\<close> the
  number of its RR sets. For such entries the accessors of \<open>Cache_Data\<close> are functions of the view
  \<open>sets\<close>, and each operation is described by what it does to that view.
\<close>

named_theorems cent_simps \<open>accessors of well-formed entries\<close>

subsection \<open>The RR sets of an entry\<close>

definition sets :: "dns_cent \<Rightarrow> nat \<Rightarrow> rr_set option" where
  "sets ce i = (case ce_un ce of
     NegPart _ _ _ \<Rightarrow> None
   | RRPart mu ext \<Rightarrow>
       if i < NRRMU then mu ! i
       else if i < NRRTOT then (case ext of None \<Rightarrow> None | Some e \<Rightarrow> e ! (i - NRRMU)) else None)"

definition has_ext :: "dns_cent \<Rightarrow> bool" where
  "has_ext ce \<longleftrightarrow> (case ce_un ce of NegPart _ _ _ \<Rightarrow> False | RRPart mu ext \<Rightarrow> ext \<noteq> None)"

definition nsets :: "dns_cent \<Rightarrow> nat" where
  "nsets ce = (if is_neg ce then 0 else if has_ext ce then NRRTOT else NRRMU)"

definition neg_lent :: "dns_cent \<Rightarrow> nat option" where
  "neg_lent ce = (case ce_un ce of NegPart l _ _ \<Rightarrow> l | RRPart _ _ \<Rightarrow> None)"

definition cent_wf :: "dns_cent \<Rightarrow> bool" where
  "cent_wf ce \<longleftrightarrow> (case ce_un ce of
     NegPart _ _ _ \<Rightarrow> is_neg ce
   | RRPart mu ext \<Rightarrow> \<not> is_neg ce \<and> length mu = NRRMU \<and> (\<forall>e. ext = Some e \<longrightarrow> length e = NRREXT))"

definition put_set :: "dns_cent \<Rightarrow> nat \<Rightarrow> rr_set option \<Rightarrow> dns_cent" where
  "put_set ce i v = (case ce_un ce of
     NegPart _ _ _ \<Rightarrow> ce
   | RRPart mu ext \<Rightarrow>
       if i < NRRMU then ce\<lparr>ce_un := RRPart (mu[i := v]) ext\<rparr>
       else ce\<lparr>ce_un := RRPart mu (map_option (\<lambda>e. e[i - NRRMU := v]) ext)\<rparr>)"

lemma cent_wf_neg: "cent_wf ce \<Longrightarrow> is_neg ce \<Longrightarrow> \<exists>l ttl ts. ce_un ce = NegPart l ttl ts"
  by (auto simp: cent_wf_def split: cent_union.splits)

lemma cent_wf_pos:
  "cent_wf ce \<Longrightarrow> \<not> is_neg ce \<Longrightarrow>
   \<exists>mu ext. ce_un ce = RRPart mu ext \<and> length mu = NRRMU \<and> (\<forall>e. ext = Some e \<longrightarrow> length e = NRREXT)"
  by (auto simp: cent_wf_def split: cent_union.splits)

lemma is_neg_flags [simp]: "is_neg (ce\<lparr>ce_un := u\<rparr>) = is_neg ce" "is_neg (ce\<lparr>ce_cs := n\<rparr>) = is_neg ce"
  "is_neg (ce\<lparr>ce_num_rrs := n\<rparr>) = is_neg ce" "is_neg (ce\<lparr>ce_c_ns := k\<rparr>) = is_neg ce" "is_neg (ce\<lparr>ce_c_soa := k\<rparr>) = is_neg ce"
  by (simp_all add: is_neg_def)

lemma is_neg_upd [simp]: "is_neg (ce\<lparr>ce_flags := f\<rparr>) = fset f DF_NEGATIVE"
  by (simp add: is_neg_def)

lemma is_neg_fold [simp]: "fset (ce_flags ce) DF_NEGATIVE = is_neg ce"
  by (simp add: is_neg_def)

lemma neg_flag_AND [simp]:
  "fset (f AND NOT DF_AUTH) DF_NEGATIVE = fset f DF_NEGATIVE"
  "\<not> fset (f AND NOT DF_NEGATIVE) DF_NEGATIVE"
  "fset (f AND NOT DF_NOCACHE) DF_NEGATIVE = fset f DF_NEGATIVE"
  "fset (f OR (g AND (DF_AUTH OR DF_WILD))) DF_NEGATIVE = fset f DF_NEGATIVE"
  "fset (f AND NOT DF_AUTH) DF_LOCAL = fset f DF_LOCAL"
  "fset (f AND NOT DF_NEGATIVE) DF_LOCAL = fset f DF_LOCAL"
  "fset (f AND NOT DF_NOCACHE) DF_LOCAL = fset f DF_LOCAL"
  "fset (f OR (g AND (DF_AUTH OR DF_WILD))) DF_LOCAL = fset f DF_LOCAL"
  unfolding flag_simps by (simp_all add: DF_AUTH_def DF_NEGATIVE_def DF_NOCACHE_def DF_WILD_def bit_simps)

lemma neg_nsets [cent_simps]: "is_neg ce \<Longrightarrow> nsets ce = 0"
  by (simp add: nsets_def)

lemma nsets_le: "nsets ce \<le> NRRTOT"
  by (simp add: nsets_def nrr_defs)

lemma neg_sets: "cent_wf ce \<Longrightarrow> is_neg ce \<Longrightarrow> sets ce i = None"
  by (auto simp: sets_def dest: cent_wf_neg)

lemma sets_beyond: "cent_wf ce \<Longrightarrow> nsets ce \<le> i \<Longrightarrow> sets ce i = None"
  by (auto simp: sets_def nsets_def has_ext_def cent_wf_def nrr_defs split: cent_union.splits option.splits if_splits)

lemma sets_Some_less: "cent_wf ce \<Longrightarrow> sets ce i = Some rs \<Longrightarrow> i < nsets ce \<and> \<not> is_neg ce"
  using sets_beyond [of ce i] neg_sets [of ce i] by (cases "i < nsets ce") auto

lemma rrarr_len_wf [cent_simps]: "cent_wf ce \<Longrightarrow> rrarr_len ce = Some (nsets ce)"
  by (auto simp: rrarr_len_def rr_part_def nsets_def has_ext_def cent_wf_def split: cent_union.splits)

lemma testext_wf [cent_simps]: "cent_wf ce \<Longrightarrow> i < NRRTOT \<Longrightarrow> rrarr_index_testext ce i = Some (sets ce i)"
  by (auto simp: rrarr_index_testext_def rr_part_def sets_def cent_wf_def rd_def nrr_defs split: cent_union.splits option.splits)

lemma rrarr_index_wf [cent_simps]: "cent_wf ce \<Longrightarrow> i < nsets ce \<Longrightarrow> rrarr_index ce i = Some (sets ce i)"
  by (auto simp: rrarr_index_def rr_part_def sets_def nsets_def has_ext_def cent_wf_def rd_def nrr_defs
      split: cent_union.splits option.splits if_splits)

lemma rrarr_set_wf [cent_simps]: "cent_wf ce \<Longrightarrow> i < nsets ce \<Longrightarrow> rrarr_set ce i v = Some (put_set ce i v)"
  by (auto simp: rrarr_set_def rr_part_def put_set_def nsets_def has_ext_def cent_wf_def wr_def nrr_defs
      split: cent_union.splits option.splits if_splits)

lemma put_set_fields [simp]:
  "ce_qname (put_set ce i v) = ce_qname ce" "ce_cs (put_set ce i v) = ce_cs ce"
  "ce_num_rrs (put_set ce i v) = ce_num_rrs ce" "ce_flags (put_set ce i v) = ce_flags ce"
  "ce_c_ns (put_set ce i v) = ce_c_ns ce" "ce_c_soa (put_set ce i v) = ce_c_soa ce"
  "is_neg (put_set ce i v) = is_neg ce" "has_ext (put_set ce i v) = has_ext ce"
  "nsets (put_set ce i v) = nsets ce" "neg_lent (put_set ce i v) = neg_lent ce"
  by (auto simp: put_set_def nsets_def has_ext_def neg_lent_def split: cent_union.splits)

lemma put_set_wf [simp, intro]: "cent_wf ce \<Longrightarrow> cent_wf (put_set ce i v)"
  by (auto simp: cent_wf_def put_set_def split: cent_union.splits)

lemma sets_put_set: "cent_wf ce \<Longrightarrow> i < nsets ce \<Longrightarrow> sets (put_set ce i v) = (sets ce)(i := v)"
  by (rule ext)
    (auto simp: sets_def put_set_def nsets_def has_ext_def cent_wf_def nrr_defs nth_list_update
      split: cent_union.splits option.splits if_splits)

text \<open>The view does not depend on the other fields.\<close>

lemma sets_fields [simp]:
  "sets (ce\<lparr>ce_cs := n\<rparr>) = sets ce" "sets (ce\<lparr>ce_num_rrs := n\<rparr>) = sets ce" "sets (ce\<lparr>ce_flags := f\<rparr>) = sets ce"
  "sets (ce\<lparr>ce_c_ns := k\<rparr>) = sets ce" "sets (ce\<lparr>ce_c_soa := k\<rparr>) = sets ce"
  by (auto simp: sets_def)

lemma has_ext_fields [simp]:
  "has_ext (ce\<lparr>ce_cs := n\<rparr>) = has_ext ce" "has_ext (ce\<lparr>ce_num_rrs := n\<rparr>) = has_ext ce"
  "has_ext (ce\<lparr>ce_flags := f\<rparr>) = has_ext ce" "has_ext (ce\<lparr>ce_c_ns := k\<rparr>) = has_ext ce" "has_ext (ce\<lparr>ce_c_soa := k\<rparr>) = has_ext ce"
  by (auto simp: has_ext_def)

lemma neg_lent_fields [simp]:
  "neg_lent (ce\<lparr>ce_cs := n\<rparr>) = neg_lent ce" "neg_lent (ce\<lparr>ce_num_rrs := n\<rparr>) = neg_lent ce"
  "neg_lent (ce\<lparr>ce_flags := f\<rparr>) = neg_lent ce" "neg_lent (ce\<lparr>ce_c_ns := k\<rparr>) = neg_lent ce" "neg_lent (ce\<lparr>ce_c_soa := k\<rparr>) = neg_lent ce"
  by (auto simp: neg_lent_def)

lemma cent_wf_fields [simp]:
  "cent_wf (ce\<lparr>ce_cs := n\<rparr>) = cent_wf ce" "cent_wf (ce\<lparr>ce_num_rrs := n\<rparr>) = cent_wf ce"
  "cent_wf (ce\<lparr>ce_c_ns := k\<rparr>) = cent_wf ce" "cent_wf (ce\<lparr>ce_c_soa := k\<rparr>) = cent_wf ce"
  by (auto simp: cent_wf_def split: cent_union.splits)

lemma cent_wf_flags: "(fset f DF_NEGATIVE \<longleftrightarrow> is_neg ce) \<Longrightarrow> cent_wf (ce\<lparr>ce_flags := f\<rparr>) = cent_wf ce"
  by (auto simp: cent_wf_def split: cent_union.splits)

lemma nsets_fields [simp]:
  "nsets (ce\<lparr>ce_cs := n\<rparr>) = nsets ce" "nsets (ce\<lparr>ce_num_rrs := n\<rparr>) = nsets ce"
  "nsets (ce\<lparr>ce_c_ns := k\<rparr>) = nsets ce" "nsets (ce\<lparr>ce_c_soa := k\<rparr>) = nsets ce"
  by (auto simp: nsets_def)

subsection \<open>Bytes and number of RR sets\<close>

definition set_bytes :: "rr_set option \<Rightarrow> int" where
  "set_bytes v = (case v of None \<Rightarrow> 0 | Some rs \<Rightarrow> sizeof_rr_set + (\<Sum>rr\<leftarrow>rs_rrs rs. rr_bytes rr))"

definition set_count :: "rr_set option \<Rightarrow> int" where
  "set_count v = (case v of None \<Rightarrow> 0 | Some _ \<Rightarrow> 1)"

definition cent_bytes :: "dns_cent \<Rightarrow> int" where
  "cent_bytes ce = sizeof_dns_cent + int (length (ce_qname ce)) + (if has_ext ce then sizeof_ptr * int NRREXT else 0) +
     (\<Sum>i<NRRTOT. set_bytes (sets ce i))"

definition cent_count :: "dns_cent \<Rightarrow> int" where
  "cent_count ce = (\<Sum>i<NRRTOT. set_count (sets ce i))"

definition name_ok :: "byte list \<Rightarrow> bool" where
  "name_ok nm \<longleftrightarrow> (\<exists>ls. wf_name ls \<and> nm = wire ls)"

definition cent_ok :: "dns_cent \<Rightarrow> bool" where
  "cent_ok ce \<longleftrightarrow> cent_wf ce \<and> name_ok (ce_qname ce) \<and> ce_cs ce = cent_bytes ce \<and> ce_num_rrs ce = cent_count ce"

lemma cent_okD: "cent_ok ce \<Longrightarrow> cent_wf ce" "cent_ok ce \<Longrightarrow> name_ok (ce_qname ce)"
  "cent_ok ce \<Longrightarrow> ce_cs ce = cent_bytes ce" "cent_ok ce \<Longrightarrow> ce_num_rrs ce = cent_count ce"
  by (simp_all add: cent_ok_def)

lemma sum_fun_upd:
  fixes f :: "'a \<Rightarrow> int" and n :: nat
  assumes "i < n"
  shows "(\<Sum>j<n. f ((s(i := v)) j)) = (\<Sum>j<n. f (s j)) - f (s i) + f v"
proof -
  have "(\<Sum>j<n. f (t j)) = f (t i) + (\<Sum>j\<in>{..<n} - {i}. f (t j))" for t
    using assms by (simp add: sum.remove [of "{..<n}" i])
  moreover have "(\<Sum>j\<in>{..<n} - {i}. f ((s(i := v)) j)) = (\<Sum>j\<in>{..<n} - {i}. f (s j))"
    by (rule sum.cong) auto
  ultimately show ?thesis by simp
qed

lemma put_set_bytes:
  assumes "cent_wf ce" "i < nsets ce"
  shows "cent_bytes (put_set ce i v) = cent_bytes ce - set_bytes (sets ce i) + set_bytes v"
    "cent_count (put_set ce i v) = cent_count ce - set_count (sets ce i) + set_count v"
  using assms sum_fun_upd [of i NRRTOT set_bytes "sets ce" v] sum_fun_upd [of i NRRTOT set_count "sets ce" v] nsets_le [of ce]
  by (simp_all add: cent_bytes_def cent_count_def sets_put_set)

lemma bytes_fields [simp]:
  "cent_bytes (ce\<lparr>ce_cs := n\<rparr>) = cent_bytes ce" "cent_bytes (ce\<lparr>ce_num_rrs := n\<rparr>) = cent_bytes ce"
  "cent_bytes (ce\<lparr>ce_flags := f\<rparr>) = cent_bytes ce" "cent_bytes (ce\<lparr>ce_c_ns := k\<rparr>) = cent_bytes ce" "cent_bytes (ce\<lparr>ce_c_soa := k\<rparr>) = cent_bytes ce"
  "cent_count (ce\<lparr>ce_cs := n\<rparr>) = cent_count ce" "cent_count (ce\<lparr>ce_num_rrs := n\<rparr>) = cent_count ce"
  "cent_count (ce\<lparr>ce_flags := f\<rparr>) = cent_count ce" "cent_count (ce\<lparr>ce_c_ns := k\<rparr>) = cent_count ce" "cent_count (ce\<lparr>ce_c_soa := k\<rparr>) = cent_count ce"
  by (simp_all add: cent_bytes_def cent_count_def)

lemma set_count_nonneg: "0 \<le> set_count v"
  by (simp add: set_count_def split: option.splits)

lemma cent_count_0: "cent_wf ce \<Longrightarrow> cent_count ce = 0 \<longleftrightarrow> (\<forall>i. sets ce i = None)"
proof -
  assume wf: "cent_wf ce"
  have "cent_count ce = 0 \<longleftrightarrow> (\<forall>i<NRRTOT. set_count (sets ce i) = 0)"
    unfolding cent_count_def by (subst sum_nonneg_eq_0_iff) (auto simp: set_count_nonneg)
  also have "\<dots> \<longleftrightarrow> (\<forall>i. sets ce i = None)"
    using sets_beyond [OF wf] nsets_le [of ce] by (fastforce simp: set_count_def split: option.splits)
  finally show ?thesis .
qed

subsection \<open>The operations on the view\<close>

definition unlink :: "nat option \<Rightarrow> cache \<Rightarrow> cache" where
  "unlink l c = (case l of Some l \<Rightarrow> remove_rrl l c | None \<Rightarrow> c)"

lemma unlink_None [simp]: "unlink None c = c"
  by (simp add: unlink_def)

lemma unlink_fields [simp]:
  "c_heap (unlink l c) = c_heap c" "c_tab (unlink l c) = c_tab c" "c_size (unlink l c) = c_size c"
  "c_num (unlink l c) = c_num c" "c_insert_sort (unlink l c) = c_insert_sort c" "c_mem (unlink l c) = c_mem c"
  "c_brk (unlink l c) = c_brk c"
  by (simp_all add: unlink_def remove_rrl_def split: option.splits)

lemma unlink_rrl: "c_rrl (unlink l c) = filter (\<lambda>le. Some (le_id le) \<noteq> l) (c_rrl c)"
  by (auto simp: unlink_def remove_rrl_def split: option.splits)

lemma del_cent_rrset_wf [cent_simps]:
  assumes "cent_wf ce" "i < NRRTOT"
  shows "del_cent_rrset_by_index ce i c = Some (case sets ce i of
      None \<Rightarrow> (0, ce, c)
    | Some rs \<Rightarrow> (set_bytes (Some rs),
        (put_set ce i None)\<lparr>ce_num_rrs := ce_num_rrs ce - 1, ce_cs := ce_cs ce - set_bytes (Some rs),
          ce_flags := ce_flags ce AND NOT DF_AUTH\<rparr>, unlink (rs_lent rs) c))"
proof (cases "sets ce i")
  case None
  with assms show ?thesis by (simp add: del_cent_rrset_by_index_def cent_simps)
next
  case (Some rs)
  with sets_Some_less [OF assms(1) Some] assms show ?thesis
    by (simp add: del_cent_rrset_by_index_def cent_simps del_rrset_def set_bytes_def unlink_def)
qed

text \<open>The entry left by \<^verbatim>\<open>del_cent_rrset_by_index\<close>.\<close>

definition drop_set :: "dns_cent \<Rightarrow> nat \<Rightarrow> dns_cent" where
  "drop_set ce i = (case sets ce i of None \<Rightarrow> ce
     | Some rs \<Rightarrow> (put_set ce i None)\<lparr>ce_num_rrs := ce_num_rrs ce - 1, ce_cs := ce_cs ce - set_bytes (Some rs),
          ce_flags := ce_flags ce AND NOT DF_AUTH\<rparr>)"

definition set_lent_of :: "dns_cent \<Rightarrow> nat \<Rightarrow> nat option" where
  "set_lent_of ce i = (case sets ce i of None \<Rightarrow> None | Some rs \<Rightarrow> rs_lent rs)"

lemma del_cent_rrset_drop [cent_simps]:
  assumes "cent_wf ce" "i < NRRTOT"
  shows "del_cent_rrset_by_index ce i c = Some (set_bytes (sets ce i), drop_set ce i, unlink (set_lent_of ce i) c)"
  using del_cent_rrset_wf [OF assms] by (auto simp: drop_set_def set_lent_of_def set_bytes_def split: option.splits)

declare del_cent_rrset_wf [cent_simps del]

lemma drop_set_props:
  assumes "cent_wf ce"
  shows "cent_wf (drop_set ce i)" "sets (drop_set ce i) = (sets ce)(i := None)"
    "is_neg (drop_set ce i) = is_neg ce" "has_ext (drop_set ce i) = has_ext ce" "nsets (drop_set ce i) = nsets ce"
    "ce_qname (drop_set ce i) = ce_qname ce" "neg_lent (drop_set ce i) = neg_lent ce"
    "ce_cs (drop_set ce i) = ce_cs ce - set_bytes (sets ce i)"
    "ce_c_ns (drop_set ce i) = ce_c_ns ce" "ce_c_soa (drop_set ce i) = ce_c_soa ce"
    "fset (ce_flags (drop_set ce i)) DF_LOCAL = fset (ce_flags ce) DF_LOCAL"
proof -
  have n: "is_neg (drop_set ce i) = is_neg ce"
    by (simp add: drop_set_def split: option.splits)
  then show "is_neg (drop_set ce i) = is_neg ce" .
  show "cent_wf (drop_set ce i)" "sets (drop_set ce i) = (sets ce)(i := None)"
    using assms sets_Some_less [OF assms, of i]
    by (auto simp: drop_set_def sets_put_set cent_wf_flags split: option.splits)
  show "has_ext (drop_set ce i) = has_ext ce" by (simp add: drop_set_def split: option.splits)
  with n show "nsets (drop_set ce i) = nsets ce" by (simp add: nsets_def)
  show "fset (ce_flags (drop_set ce i)) DF_LOCAL = fset (ce_flags ce) DF_LOCAL"
    by (simp add: drop_set_def split: option.splits)
qed (simp_all add: drop_set_def set_bytes_def split: option.splits)

lemma drop_set_ok: "cent_ok ce \<Longrightarrow> cent_ok (drop_set ce i)"
proof (cases "sets ce i")
  case None
  then show "cent_ok ce \<Longrightarrow> cent_ok (drop_set ce i)" by (simp add: drop_set_def)
next
  case (Some rs)
  assume ok: "cent_ok ce"
  note wf = cent_okD(1) [OF ok]
  note less = sets_Some_less [OF wf Some]
  have "cent_bytes (drop_set ce i) = cent_bytes ce - set_bytes (Some rs)" "cent_count (drop_set ce i) = cent_count ce - 1"
    using put_set_bytes [OF wf, of i None] less Some by (simp_all add: drop_set_def set_bytes_def set_count_def)
  with ok Some drop_set_props(1,6) [OF wf, of i] show ?thesis
    by (simp add: cent_ok_def drop_set_def)
qed


subsection \<open>Adding RR sets and records\<close>

lemma malloc_eq: "malloc c = (case c_mem c of [] \<Rightarrow> (True, c) | b # bs \<Rightarrow> (b, c\<lparr>c_mem := bs\<rparr>))"
  by (simp add: malloc_def)

lemma mallocE:
  obtains ok m where "malloc c = (ok, c\<lparr>c_mem := m\<rparr>)" "c_mem c = [] \<longrightarrow> ok \<and> m = []"
  by (cases "c_mem c") (auto simp: malloc_def)

lemma mem_mem [simp]: "c\<lparr>c_mem := m, c_mem := m'\<rparr> = c\<lparr>c_mem := m'\<rparr>"
  by simp

text \<open>The fields that adding and deleting RR sets leave alone.\<close>

definition same_head :: "dns_cent \<Rightarrow> dns_cent \<Rightarrow> bool" where
  "same_head ce ce' \<longleftrightarrow> ce_qname ce' = ce_qname ce \<and> ce_c_ns ce' = ce_c_ns ce \<and> ce_c_soa ce' = ce_c_soa ce \<and>
     fset (ce_flags ce') DF_LOCAL = fset (ce_flags ce) DF_LOCAL"

lemma same_head_refl [simp, intro!]: "same_head ce ce"
  by (simp add: same_head_def)

lemma same_head_trans [trans]: "same_head a b \<Longrightarrow> same_head b c \<Longrightarrow> same_head a c"
  by (simp add: same_head_def)

lemma same_head_drop: "cent_wf ce \<Longrightarrow> same_head ce (drop_set ce i)"
  by (simp add: same_head_def drop_set_props)

definition unneg :: "dns_cent \<Rightarrow> dns_cent" where
  "unneg ce = (if is_neg ce
     then ce\<lparr>ce_flags := ce_flags ce AND NOT DF_NEGATIVE, ce_un := RRPart (empty_rrs NRRMU) None\<rparr> else ce)"

lemma neg_lent_pos: "cent_wf ce \<Longrightarrow> \<not> is_neg ce \<Longrightarrow> neg_lent ce = None"
  by (auto simp: neg_lent_def dest: cent_wf_pos)

lemma unnegate_wf: "cent_wf ce \<Longrightarrow> unnegate ce c = Some (unneg ce, unlink (neg_lent ce) c)"
  using cent_wf_neg [of ce] neg_lent_pos [of ce]
  by (auto simp: unnegate_def unneg_def neg_part_def neg_lent_def unlink_def)

lemma empty_sets: "sets (ce\<lparr>ce_un := RRPart (empty_rrs NRRMU) None\<rparr>) i = None"
  "sets (ce\<lparr>ce_un := RRPart (empty_rrs NRRMU) (Some (empty_rrs NRREXT))\<rparr>) i = None"
  by (auto simp: sets_def empty_rrs_def nrr_defs)

lemma unneg_props:
  assumes "cent_wf ce"
  shows "cent_wf (unneg ce)" "\<not> is_neg (unneg ce)" "sets (unneg ce) = sets ce" "same_head ce (unneg ce)"
    "neg_lent (unneg ce) = None" "ce_cs (unneg ce) = ce_cs ce" "ce_num_rrs (unneg ce) = ce_num_rrs ce"
    "has_ext (unneg ce) = has_ext ce" "ce_qname (unneg ce) = ce_qname ce"
  using assms cent_wf_neg [OF assms] neg_sets [OF assms] empty_sets neg_lent_pos [OF assms]
  by (auto simp: unneg_def cent_wf_def same_head_def empty_rrs_def neg_lent_def has_ext_def fun_eq_iff)

lemma unneg_ok: "cent_ok ce \<Longrightarrow> cent_ok (unneg ce)"
  using unneg_props [of ce] by (simp add: cent_ok_def cent_bytes_def cent_count_def)

lemma alloc_rrext_ok:
  assumes "cent_ok ce" "\<not> is_neg ce" "i < NRRTOT"
  shows "\<exists>ok ce' m. alloc_rrext ce i c = Some (ok, ce', c\<lparr>c_mem := m\<rparr>) \<and> (c_mem c = [] \<longrightarrow> ok \<and> m = []) \<and>
    cent_ok ce' \<and> \<not> is_neg ce' \<and> sets ce' = sets ce \<and> (ok \<longrightarrow> i < nsets ce') \<and> same_head ce ce' \<and>
    ce_flags ce' = ce_flags ce"
proof (cases "i < nsets ce")
  case True
  then have "alloc_rrext ce i c = Some (True, ce, c\<lparr>c_mem := c_mem c\<rparr>)"
    using cent_wf_pos [OF cent_okD(1) [OF assms(1)] assms(2)] assms(3)
    by (auto simp: alloc_rrext_def nsets_def has_ext_def rr_part_def nrr_defs split: if_splits option.splits)
  with True assms show ?thesis by blast
next
  case False
  from cent_wf_pos [OF cent_okD(1) [OF assms(1)] assms(2)] False assms(2,3) obtain mu where
    un: "ce_un ce = RRPart mu None" "length mu = NRRMU" "\<not> i < NRRMU" "i - NRRMU < NRREXT"
    by (auto simp: nsets_def has_ext_def nrr_defs split: if_splits)
  obtain ok m where m: "malloc c = (ok, c\<lparr>c_mem := m\<rparr>)" "c_mem c = [] \<longrightarrow> ok \<and> m = []" by (rule mallocE)
  let ?ce = "ce\<lparr>ce_un := RRPart mu (Some (empty_rrs NRREXT)), ce_cs := ce_cs ce + sizeof_ptr * int NRREXT\<rparr>"
  have s: "sets ?ce = sets ce" using un(1) by (auto simp: sets_def empty_rrs_def nrr_defs fun_eq_iff)
  have "cent_ok ?ce"
    using assms(1,2) un(1,2) s unfolding cent_ok_def cent_bytes_def cent_count_def
    by (simp add: cent_wf_def has_ext_def empty_rrs_def)
  moreover have "i < nsets ?ce" using assms(2,3) by (simp add: nsets_def has_ext_def)
  moreover have "alloc_rrext ce i c = Some (if ok then (True, ?ce, c\<lparr>c_mem := m\<rparr>) else (False, ce, c\<lparr>c_mem := m\<rparr>))"
    using un m by (simp add: alloc_rrext_def rr_part_def)
  ultimately show ?thesis using assms m(2) s by (cases ok) (auto simp: same_head_def)
qed

definition new_set :: "time_t \<Rightarrow> time_t \<Rightarrow> u16 \<Rightarrow> rr_set" where
  "new_set ttl ts flags = \<lparr>rs_lent = None, rs_ttl = ttl, rs_ts = ts, rs_flags = flags, rs_rrs = []\<rparr>"

lemma put_set_ok:
  assumes "cent_ok ce" "i < nsets ce"
    and "d = set_bytes v - set_bytes (sets ce i)" "n = set_count v - set_count (sets ce i)"
  shows "cent_ok ((put_set ce i v)\<lparr>ce_cs := ce_cs ce + d, ce_num_rrs := ce_num_rrs ce + n\<rparr>)"
  using assms put_set_bytes [OF cent_okD(1) [OF assms(1)] assms(2), of v] by (auto simp: cent_ok_def)

lemma put_set_ok_same:
  assumes "cent_ok ce" "i < nsets ce" "set_bytes v = set_bytes (sets ce i)" "set_count v = set_count (sets ce i)"
  shows "cent_ok (put_set ce i v)"
  using assms put_set_bytes [OF cent_okD(1) [OF assms(1)] assms(2), of v] by (auto simp: cent_ok_def)

lemma put_set_None_same: "cent_wf ce \<Longrightarrow> i < nsets ce \<Longrightarrow> sets ce i = None \<Longrightarrow> sets (put_set ce i None) = sets ce"
  by (auto simp: sets_put_set)

lemma add_cent_rrset_ok:
  assumes "cent_ok ce" "i < NRRTOT" "sets ce i = None"
  shows "\<exists>ok ce' m. add_cent_rrset_by_index ce i ttl ts flags c = Some (ok, ce', (unlink (neg_lent ce) c)\<lparr>c_mem := m\<rparr>) \<and>
    (c_mem c = [] \<longrightarrow> ok \<and> m = []) \<and> cent_ok ce' \<and> \<not> is_neg ce' \<and> same_head ce ce' \<and>
    ce_flags ce' = (ce_flags (unneg ce)) \<and>
    sets ce' = (if ok then (sets ce)(i := Some (new_set ttl ts flags)) else sets ce)"
proof -
  note wf = cent_okD(1) [OF assms(1)]
  note u = unneg_props [OF wf]
  let ?c = "unlink (neg_lent ce) c"
  from alloc_rrext_ok [OF unneg_ok [OF assms(1)] u(2) assms(2), of ?c] obtain ok ce1 m where
    a: "alloc_rrext (unneg ce) i ?c = Some (ok, ce1, ?c\<lparr>c_mem := m\<rparr>)" "c_mem c = [] \<longrightarrow> ok \<and> m = []"
      "cent_ok ce1" "\<not> is_neg ce1" "sets ce1 = sets ce" "ok \<longrightarrow> i < nsets ce1" "same_head (unneg ce) ce1"
      "ce_flags ce1 = ce_flags (unneg ce)"
    unfolding u(3) by auto
  have head: "same_head ce ce1" using same_head_trans [OF u(4) a(7)] .
  note unn = unnegate_wf [OF wf, of c]
  show ?thesis
  proof (cases ok)
    case False
    with a unn head have "add_cent_rrset_by_index ce i ttl ts flags c = Some (False, ce1, ?c\<lparr>c_mem := m\<rparr>)"
      by (simp add: add_cent_rrset_by_index_def)
    with False a head show ?thesis by auto
  next
    case True
    with a have i: "i < nsets ce1" by simp
    note wf1 = cent_okD(1) [OF a(3)]
    have n1: "sets ce1 i = None" using a(5) assms(3) by simp
    obtain ok2 m2 where m: "malloc (?c\<lparr>c_mem := m\<rparr>) = (ok2, ?c\<lparr>c_mem := m2\<rparr>)" "m = [] \<longrightarrow> ok2 \<and> m2 = []"
      by (rule mallocE [of "?c\<lparr>c_mem := m\<rparr>"]) auto
    let ?new = "(put_set ce1 i (Some (new_set ttl ts flags)))\<lparr>ce_cs := ce_cs ce1 + sizeof_rr_set, ce_num_rrs := ce_num_rrs ce1 + 1\<rparr>"
    have eq: "add_cent_rrset_by_index ce i ttl ts flags c =
        Some (if ok2 then (True, ?new, ?c\<lparr>c_mem := m2\<rparr>) else (False, put_set ce1 i None, ?c\<lparr>c_mem := m2\<rparr>))"
      using a(1) unn True m i wf1 by (simp add: add_cent_rrset_by_index_def cent_simps new_set_def)
    have "cent_ok ?new"
      by (rule put_set_ok [OF a(3) i]) (simp_all add: n1 set_bytes_def set_count_def new_set_def)
    moreover have "cent_ok (put_set ce1 i None)"
      by (rule put_set_ok_same [OF a(3) i]) (simp_all add: n1)
    moreover have "same_head ce ?new" "same_head ce (put_set ce1 i None)" using head by (simp_all add: same_head_def)
    moreover have "sets ?new = (sets ce)(i := Some (new_set ttl ts flags))" "sets (put_set ce1 i None) = sets ce"
      using sets_put_set [OF wf1 i] put_set_None_same [OF wf1 i n1] a(5) by simp_all
    ultimately show ?thesis using eq m(2) a(2,4,8) True by (cases ok2) auto
  qed
qed

text \<open>Appending one record to a set that exists.\<close>

definition tail_pos :: "rr_bucket list \<Rightarrow> nat option" where
  "tail_pos rrs = (if rrs = [] then None else Some (length rrs - 1))"

lemma create_rr_length: "create_rr (length rr) rr c = Some (if fst (malloc c) then Some rr else None, snd (malloc c))"
  by (simp add: create_rr_def split_beta)

lemma add_cent_rr_int_ok:
  assumes "cent_ok ce" "i < NRRTOT" "sets ce i = Some rs"
  shows "\<exists>ok ce' m. add_cent_rr_int ce i ttl ts flags (length rr) rr (tail_pos (rs_rrs rs)) c =
      Some (ok, (if ok then tail_pos (rs_rrs rs @ [rr]) else tail_pos (rs_rrs rs)), ce', c\<lparr>c_mem := m\<rparr>) \<and>
    (c_mem c = [] \<longrightarrow> ok \<and> m = []) \<and> cent_ok ce' \<and> is_neg ce' = is_neg ce \<and> same_head ce ce' \<and>
    ce_flags ce' = ce_flags ce \<and> neg_lent ce' = neg_lent ce \<and>
    sets ce' = (if ok then (sets ce)(i := Some (rs\<lparr>rs_rrs := rs_rrs rs @ [rr]\<rparr>)) else sets ce)"
proof -
  note wf = cent_okD(1) [OF assms(1)]
  note i = sets_Some_less [OF wf assms(3)]
  obtain ok m where m: "malloc c = (ok, c\<lparr>c_mem := m\<rparr>)" "c_mem c = [] \<longrightarrow> ok \<and> m = []" by (rule mallocE)
  let ?rs = "rs\<lparr>rs_rrs := rs_rrs rs @ [rr]\<rparr>"
  let ?ce = "(put_set ce i (Some ?rs))\<lparr>ce_cs := ce_cs ce + rr_bytes rr\<rparr>"
  have cr: "create_rr (length rr) rr c = Some (if ok then Some rr else None, c\<lparr>c_mem := m\<rparr>)"
    using m(1) by (simp add: create_rr_length)
  have eq: "add_cent_rr_int ce i ttl ts flags (length rr) rr (tail_pos (rs_rrs rs)) c =
      Some (if ok then (True, tail_pos (rs_rrs rs @ [rr]), ?ce, c\<lparr>c_mem := m\<rparr>) else (False, tail_pos (rs_rrs rs), ce, c\<lparr>c_mem := m\<rparr>))"
  proof (cases "rs_rrs rs")
    case Nil
    with cr i assms wf show ?thesis
      by (simp add: add_cent_rr_int_def tail_pos_def cent_simps rr_bytes_def)
  next
    case (Cons x xs)
    with cr i assms wf show ?thesis
      by (simp add: add_cent_rr_int_def tail_pos_def cent_simps rr_bytes_def)
  qed
  have "cent_ok ((put_set ce i (Some ?rs))\<lparr>ce_cs := ce_cs ce + rr_bytes rr, ce_num_rrs := ce_num_rrs ce + 0\<rparr>)"
    by (rule put_set_ok [OF assms(1)]) (use i assms(3) in \<open>simp_all add: set_bytes_def set_count_def\<close>)
  then have "cent_ok ?ce" by (simp add: cent_ok_def)
  moreover have "sets ?ce = (sets ce)(i := Some ?rs)" using sets_put_set [OF wf] i by simp
  ultimately show ?thesis using eq assms(1) m(2) by (cases ok) (auto simp: same_head_def)
qed


subsection \<open>Freeing and copying\<close>

text \<open>The nodes of an entry: of its RR sets, or of the whole entry.\<close>

definition lent_of :: "dns_cent \<Rightarrow> nat option \<Rightarrow> nat option" where
  "lent_of ce idx = (case idx of None \<Rightarrow> neg_lent ce | Some i \<Rightarrow> set_lent_of ce i)"

definition drop_lents :: "dns_cent \<Rightarrow> rr_lent list \<Rightarrow> rr_lent list" where
  "drop_lents ce rrl = filter (\<lambda>le. \<forall>idx. lent_of ce idx \<noteq> Some (le_id le)) rrl"

lemma filter_rrl_id [simp]: "c\<lparr>c_rrl := c_rrl c\<rparr> = c"
  by simp

lemma unlink_eq: "unlink l c = c\<lparr>c_rrl := filter (\<lambda>le. Some (le_id le) \<noteq> l) (c_rrl c)\<rparr>"
  by (cases l) (simp_all add: unlink_def remove_rrl_def)

lemma rrl_upd_cong: "(\<And>le. P le \<longleftrightarrow> Q le) \<Longrightarrow> c\<lparr>c_rrl := filter P rrl\<rparr> = c\<lparr>c_rrl := filter Q rrl\<rparr>"
  by presburger

lemma del_rrsets_eq:
  "snd (del_rrsets rss c) = c\<lparr>c_rrl := filter (\<lambda>le. \<forall>rs. Some rs \<in> set rss \<longrightarrow> rs_lent rs \<noteq> Some (le_id le)) (c_rrl c)\<rparr>"
proof (induction rss c rule: del_rrsets.induct)
  case (3 rs rss c)
  let ?c = "snd (del_rrset rs c)"
  have c: "?c = c\<lparr>c_rrl := filter (\<lambda>le. Some (le_id le) \<noteq> rs_lent rs) (c_rrl c)\<rparr>"
    unfolding unlink_eq [symmetric] by (simp add: del_rrset_def unlink_def)
  have "snd (del_rrsets (Some rs # rss) c) = snd (del_rrsets rss ?c)"
    by (simp add: split_beta Let_def)
  also have "\<dots> = ?c\<lparr>c_rrl := filter (\<lambda>le. \<forall>rs. Some rs \<in> set rss \<longrightarrow> rs_lent rs \<noteq> Some (le_id le)) (c_rrl ?c)\<rparr>"
    by (rule 3) (simp_all add: prod_eq_iff)
  also have "\<dots> = c\<lparr>c_rrl := filter (\<lambda>le. Some (le_id le) \<noteq> rs_lent rs \<and>
      (\<forall>rs. Some rs \<in> set rss \<longrightarrow> rs_lent rs \<noteq> Some (le_id le))) (c_rrl c)\<rparr>"
    unfolding c by (simp add: conj_commute)
  also have "\<dots> = c\<lparr>c_rrl := filter (\<lambda>le. \<forall>r. Some r \<in> set (Some rs # rss) \<longrightarrow> rs_lent r \<noteq> Some (le_id le)) (c_rrl c)\<rparr>"
    by (rule rrl_upd_cong) (auto dest: sym)
  finally show ?case .
qed simp_all

lemma set_rd_conv: "x \<in> set xs \<longleftrightarrow> (\<exists>i<length xs. xs ! i = x)"
  by (auto simp: in_set_conv_nth)

lemma sets_members:
  assumes "ce_un ce = RRPart mu ext" "length mu = NRRMU" "\<forall>e. ext = Some e \<longrightarrow> length e = NRREXT"
  shows "(\<exists>i. sets ce i = Some rs) \<longleftrightarrow> Some rs \<in> set mu \<or> (\<exists>e. ext = Some e \<and> Some rs \<in> set e)"
proof
  assume "\<exists>i. sets ce i = Some rs"
  then show "Some rs \<in> set mu \<or> (\<exists>e. ext = Some e \<and> Some rs \<in> set e)"
    using assms by (auto simp: sets_def nrr_defs set_rd_conv split: if_splits option.splits)
next
  assume "Some rs \<in> set mu \<or> (\<exists>e. ext = Some e \<and> Some rs \<in> set e)"
  then show "\<exists>i. sets ce i = Some rs"
  proof
    assume "Some rs \<in> set mu"
    then obtain i where "i < NRRMU" "mu ! i = Some rs" using assms(2) by (auto simp: set_rd_conv)
    then have "sets ce i = Some rs" using assms(1) by (simp add: sets_def)
    then show ?thesis ..
  next
    assume "\<exists>e. ext = Some e \<and> Some rs \<in> set e"
    then obtain e i where "ext = Some e" "i < NRREXT" "e ! i = Some rs" using assms(3) by (auto simp: set_rd_conv)
    then have "sets ce (i + NRRMU) = Some rs" using assms(1) by (simp add: sets_def nrr_defs)
    then show ?thesis ..
  qed
qed

lemma lent_of_pos: "neg_lent ce = None \<Longrightarrow> (\<forall>idx. lent_of ce idx \<noteq> Some l) \<longleftrightarrow> (\<forall>rs. (\<exists>i. sets ce i = Some rs) \<longrightarrow> rs_lent rs \<noteq> Some l)"
proof -
  assume n: "neg_lent ce = None"
  have "(\<exists>idx. lent_of ce idx = Some l) \<longleftrightarrow> (\<exists>i. set_lent_of ce i = Some l)"
    unfolding lent_of_def using n by (auto split: option.splits intro: exI [of _ "Some i" for i])
  also have "\<dots> \<longleftrightarrow> (\<exists>rs i. sets ce i = Some rs \<and> rs_lent rs = Some l)"
    unfolding set_lent_of_def by (auto split: option.splits)
  finally show ?thesis by blast
qed

lemma lent_of_neg:
  assumes "cent_wf ce" "is_neg ce"
  shows "lent_of ce idx = (if idx = None then neg_lent ce else None)"
  using neg_sets [OF assms] by (auto simp: lent_of_def set_lent_of_def split: option.splits)

lemma free_cent_wf:
  assumes "cent_wf ce"
  shows "free_cent ce c = Some (c\<lparr>c_rrl := drop_lents ce (c_rrl c)\<rparr>)"
proof (cases "is_neg ce")
  case True
  with cent_wf_neg [OF assms True] show ?thesis
    by (auto simp: free_cent_def neg_part_def drop_lents_def lent_of_neg [OF assms True] neg_lent_def remove_rrl_def
        split: option.splits intro!: arg_cong [of _ _ "\<lambda>r. c\<lparr>c_rrl := r\<rparr>"] filter_cong)
next
  case False
  from cent_wf_pos [OF assms False] obtain mu ext where un: "ce_un ce = RRPart mu ext" "length mu = NRRMU"
    "\<forall>e. ext = Some e \<longrightarrow> length e = NRREXT" by blast
  note n = neg_lent_pos [OF assms False]
  have "drop_lents ce rrl = filter (\<lambda>le. (\<forall>rs. Some rs \<in> set mu \<longrightarrow> rs_lent rs \<noteq> Some (le_id le)) \<and>
      (\<forall>e rs. ext = Some e \<longrightarrow> Some rs \<in> set e \<longrightarrow> rs_lent rs \<noteq> Some (le_id le))) rrl" for rrl
    unfolding drop_lents_def lent_of_pos [OF n] sets_members [OF un] by (rule filter_cong) blast+
  then show ?thesis
    using False un(1) by (cases ext) (simp_all add: free_cent_def rr_part_def split_beta Let_def del_rrsets_eq)
qed

definition strip :: "rr_set \<Rightarrow> rr_set" where
  "strip rs = rs\<lparr>rs_lent := None\<rparr>"

definition no_lents :: "dns_cent \<Rightarrow> bool" where
  "no_lents ce \<longleftrightarrow> (\<forall>idx. lent_of ce idx = None)"

lemma free_cent_no_lents: "cent_wf ce \<Longrightarrow> no_lents ce \<Longrightarrow> free_cent ce c = Some c"
  by (simp add: free_cent_wf drop_lents_def no_lents_def)

lemma copy_rrs_ok:
  "\<exists>ok rrs' m. copy_rrs rrs c = (ok, rrs', c\<lparr>c_mem := m\<rparr>) \<and> (c_mem c = [] \<longrightarrow> ok \<and> m = []) \<and> (ok \<longrightarrow> rrs' = rrs)"
proof (induction rrs arbitrary: c)
  case Nil
  show ?case by (intro exI [of _ True] exI [of _ "[]"] exI [of _ "c_mem c"]) simp
next
  case (Cons rr rrs)
  obtain ok m where m: "malloc c = (ok, c\<lparr>c_mem := m\<rparr>)" "c_mem c = [] \<longrightarrow> ok \<and> m = []" by (rule mallocE)
  from Cons.IH [of "c\<lparr>c_mem := m\<rparr>"] obtain ok2 rrs' m2 where
    "copy_rrs rrs (c\<lparr>c_mem := m\<rparr>) = (ok2, rrs', c\<lparr>c_mem := m2\<rparr>)" "m = [] \<longrightarrow> ok2 \<and> m2 = []" "ok2 \<longrightarrow> rrs' = rrs" by auto
  with m show ?case by (cases ok) auto
qed

lemma put_set_un: "put_set ce i v = ce\<lparr>ce_un := ce_un (put_set ce i v)\<rparr>"
  by (auto simp: put_set_def split: cent_union.splits)

lemma copy_rrsets_ok:
  assumes "cent_wf ce" "\<not> is_neg ce" "cent_wf cp" "nsets cp = nsets ce" "i + n \<le> nsets ce" "\<not> is_neg cp"
    and "\<forall>j. sets cp j = (if j < i then map_option strip (sets ce j) else None)"
  shows "\<exists>ok cp' m. copy_rrsets ce i n cp c = Some (ok, cp', c\<lparr>c_mem := m\<rparr>) \<and> (c_mem c = [] \<longrightarrow> ok \<and> m = []) \<and>
    cent_wf cp' \<and> cp' = cp\<lparr>ce_un := ce_un cp'\<rparr> \<and> nsets cp' = nsets cp \<and> has_ext cp' = has_ext cp \<and>
    (\<forall>j rs. sets cp' j = Some rs \<longrightarrow> rs_lent rs = None) \<and>
    (ok \<longrightarrow> (\<forall>j. sets cp' j = (if j < i + n then map_option strip (sets ce j) else None)))"
  using assms(3-7)
proof (induction n arbitrary: i cp c)
  case 0
  have "rs_lent rs = None" if "sets cp j = Some rs" for j rs
  proof -
    have "sets cp j = (if j < i then map_option strip (sets ce j) else None)" using "0.prems"(5) by blast
    with that show ?thesis by (auto simp: strip_def split: if_splits)
  qed
  then have "\<forall>j rs. sets cp j = Some rs \<longrightarrow> rs_lent rs = None" by blast
  with "0.prems"(1,2,5) show ?case
    by (intro exI [of _ True] exI [of _ cp] exI [of _ "c_mem c"] conjI) simp_all
next
  case (Suc n)
  have i: "i < nsets ce" "i < nsets cp" using Suc.prems(2,3) by simp_all
  have lents: "rs_lent rs = None" if "sets cp j = Some rs" for j rs
  proof -
    have "sets cp j = (if j < i then map_option strip (sets ce j) else None)" using Suc.prems(5) by blast
    with that show ?thesis by (auto simp: strip_def split: if_splits)
  qed
  show ?case
  proof (cases "sets ce i")
    case None
    have "\<forall>j. sets cp j = (if j < i + 1 then map_option strip (sets ce j) else None)"
      using Suc.prems(5) None by (auto simp: less_Suc_eq)
    with Suc.IH [of cp "i + 1" c] Suc.prems None i(1) assms(1) show ?thesis by (simp add: cent_simps)
  next
    case (Some rs)
    obtain ok m where m: "malloc c = (ok, c\<lparr>c_mem := m\<rparr>)" "c_mem c = [] \<longrightarrow> ok \<and> m = []" by (rule mallocE)
    show ?thesis
    proof (cases ok)
      case False
      have "copy_rrsets ce i (Suc n) cp c = Some (False, put_set cp i None, c\<lparr>c_mem := m\<rparr>)"
        using Some m(1) False i assms(1) Suc.prems(1) by (simp add: cent_simps)
      moreover have "sets (put_set cp i None) = sets cp"
        by (rule put_set_None_same [OF Suc.prems(1) i(2)]) (use Suc.prems(5) in simp)
      moreover have "c_mem c \<noteq> []" using m(2) False by simp
      ultimately show ?thesis using Suc.prems(1) lents put_set_un [of cp i None] by auto
    next
      case True
      from copy_rrs_ok [of "rs_rrs rs" "c\<lparr>c_mem := m\<rparr>"] obtain ok2 rrs' m2 where
        r: "copy_rrs (rs_rrs rs) (c\<lparr>c_mem := m\<rparr>) = (ok2, rrs', c\<lparr>c_mem := m2\<rparr>)" "m = [] \<longrightarrow> ok2 \<and> m2 = []"
          "ok2 \<longrightarrow> rrs' = rs_rrs rs" by auto
      let ?cp = "put_set cp i (Some (rs\<lparr>rs_lent := None, rs_rrs := rrs'\<rparr>))"
      have eq: "copy_rrsets ce i (Suc n) cp c =
          (if ok2 then copy_rrsets ce (i + 1) n ?cp (c\<lparr>c_mem := m2\<rparr>) else Some (False, ?cp, c\<lparr>c_mem := m2\<rparr>))"
        using Some m(1) True i assms(1) Suc.prems(1) r(1) by (simp add: cent_simps)
      have s: "sets ?cp = (sets cp)(i := Some (rs\<lparr>rs_lent := None, rs_rrs := rrs'\<rparr>))"
        by (rule sets_put_set [OF Suc.prems(1) i(2)])
      show ?thesis
      proof (cases ok2)
        case False
        have "c_mem c \<noteq> []" using m(2) r(2) False by auto
        moreover have "rs_lent rs' = None" if "sets ?cp j = Some rs'" for j rs'
          using that lents unfolding s by (auto split: if_splits)
        ultimately show ?thesis using eq False Suc.prems(1) put_set_un [of cp i] by auto
      next
        case ok2: True
        then have "rs\<lparr>rs_lent := None, rs_rrs := rrs'\<rparr> = strip rs" using r(3) by (simp add: strip_def)
        then have "\<forall>j. sets ?cp j = (if j < i + 1 then map_option strip (sets ce j) else None)"
          using Suc.prems(5) Some s by (auto simp: less_Suc_eq)
        with Suc.IH [of ?cp "i + 1" "c\<lparr>c_mem := m2\<rparr>"] Suc.prems obtain ok3 cp' m3 where
          f: "copy_rrsets ce (i + 1) n ?cp (c\<lparr>c_mem := m2\<rparr>) = Some (ok3, cp', c\<lparr>c_mem := m3\<rparr>)"
            "m2 = [] \<longrightarrow> ok3 \<and> m3 = []" "cent_wf cp'" "cp' = ?cp\<lparr>ce_un := ce_un cp'\<rparr>" "nsets cp' = nsets cp" "has_ext cp' = has_ext cp"
            "\<forall>j rs. sets cp' j = Some rs \<longrightarrow> rs_lent rs = None"
            "ok3 \<longrightarrow> (\<forall>j. sets cp' j = (if j < i + 1 + n then map_option strip (sets ce j) else None))" by auto
        from put_set_un obtain u where u: "?cp = cp\<lparr>ce_un := u\<rparr>" by blast
        have "cp' = cp\<lparr>ce_un := ce_un cp'\<rparr>" using f(4) unfolding u by simp
        moreover have "i + Suc n = i + 1 + n" by simp
        moreover have "c_mem c = [] \<longrightarrow> ok3 \<and> m3 = []" using f(2) m(2) r(2) by auto
        moreover have "copy_rrsets ce i (Suc n) cp c = Some (ok3, cp', c\<lparr>c_mem := m3\<rparr>)" using eq ok2 f(1) by simp
        ultimately show ?thesis using f(3,5-8)
          by (intro exI [of _ ok3] exI [of _ cp'] exI [of _ m3] conjI) simp_all
      qed
    qed
  qed
qed

text \<open>A copy is the entry without its nodes.\<close>

definition strip_cent :: "dns_cent \<Rightarrow> dns_cent" where
  "strip_cent ce = ce\<lparr>ce_un := (case ce_un ce of
     NegPart l ttl ts \<Rightarrow> NegPart None ttl ts
   | RRPart mu ext \<Rightarrow> RRPart (map (map_option strip) mu) (map_option (map (map_option strip)) ext))\<rparr>"

lemma strip_cent_fields [simp]:
  "ce_qname (strip_cent ce) = ce_qname ce" "ce_cs (strip_cent ce) = ce_cs ce"
  "ce_num_rrs (strip_cent ce) = ce_num_rrs ce" "ce_flags (strip_cent ce) = ce_flags ce"
  "ce_c_ns (strip_cent ce) = ce_c_ns ce" "ce_c_soa (strip_cent ce) = ce_c_soa ce"
  "is_neg (strip_cent ce) = is_neg ce" "has_ext (strip_cent ce) = has_ext ce" "nsets (strip_cent ce) = nsets ce"
  "neg_lent (strip_cent ce) = None"
  by (auto simp: strip_cent_def has_ext_def nsets_def neg_lent_def split: cent_union.splits)

lemma strip_cent_wf [simp]: "cent_wf ce \<Longrightarrow> cent_wf (strip_cent ce)"
  by (auto simp: cent_wf_def strip_cent_def split: cent_union.splits)

lemma sets_strip: "cent_wf ce \<Longrightarrow> sets (strip_cent ce) i = map_option strip (sets ce i)"
  by (auto simp: sets_def strip_cent_def cent_wf_def nrr_defs split: cent_union.splits option.splits)

lemma set_bytes_strip [simp]: "set_bytes (map_option strip v) = set_bytes v" "set_count (map_option strip v) = set_count v"
  by (simp_all add: set_bytes_def set_count_def strip_def split: option.splits)

lemma strip_cent_ok: "cent_ok ce \<Longrightarrow> cent_ok (strip_cent ce)"
  by (simp add: cent_ok_def cent_bytes_def cent_count_def sets_strip)

lemma strip_no_lents: "cent_wf ce \<Longrightarrow> no_lents (strip_cent ce)"
  by (auto simp: no_lents_def lent_of_def set_lent_of_def sets_strip strip_def split: option.splits)

lemma cent_un_eqI:
  assumes "cent_wf a" "cent_wf b" "\<not> is_neg a" "\<not> is_neg b" "has_ext a = has_ext b" "\<forall>i. sets a i = sets b i"
  shows "ce_un a = ce_un b"
proof -
  from cent_wf_pos [OF assms(1,3)] obtain mu ext where a: "ce_un a = RRPart mu ext" "length mu = NRRMU"
    "\<forall>e. ext = Some e \<longrightarrow> length e = NRREXT" by blast
  from cent_wf_pos [OF assms(2,4)] obtain mu' ext' where b: "ce_un b = RRPart mu' ext'" "length mu' = NRRMU"
    "\<forall>e. ext' = Some e \<longrightarrow> length e = NRREXT" by blast
  have "mu ! i = mu' ! i" if "i < NRRMU" for i
    using assms(6) [rule_format, of i] that a(1) b(1) by (simp add: sets_def)
  then have "mu = mu'" using a(2) b(2) by (intro nth_equalityI) simp_all
  moreover have "ext = ext'"
  proof (cases ext)
    case None
    with assms(5) a b show ?thesis by (auto simp: has_ext_def)
  next
    case (Some e)
    with assms(5) a b obtain e' where e': "ext' = Some e'" by (auto simp: has_ext_def)
    have "e ! i = e' ! i" if "i < NRREXT" for i
      using assms(6) [rule_format, of "i + NRRMU"] that a(1) b(1) Some e' by (simp add: sets_def nrr_defs)
    then have "e = e'" using a(3) b(3) Some e' by (intro nth_equalityI) simp_all
    with Some e' show ?thesis by simp
  qed
  ultimately show ?thesis using a b by simp
qed

lemma name_ok_rhnlen: "name_ok nm \<Longrightarrow> rhnlen (nm @ r) = Some (length nm)"
  unfolding name_ok_def using rhnlen_wire wf_nameD by blast

lemma no_lentsI:
  assumes "cent_wf ce" "\<not> is_neg ce" "\<forall>j rs. sets ce j = Some rs \<longrightarrow> rs_lent rs = None"
  shows "no_lents ce"
  using assms(3) neg_lent_pos [OF assms(1,2)]
  by (auto simp: no_lents_def lent_of_def set_lent_of_def split: option.splits)

text \<open>The start of a copy: the head of the entry and empty arrays.\<close>

definition copy_base :: "dns_cent \<Rightarrow> bool \<Rightarrow> dns_cent" where
  "copy_base ce e = ce\<lparr>ce_un := RRPart (empty_rrs NRRMU) (if e then Some (empty_rrs NRREXT) else None)\<rparr>"

lemma copy_base_props:
  assumes "\<not> is_neg ce"
  shows "cent_wf (copy_base ce e)" "\<not> is_neg (copy_base ce e)" "has_ext (copy_base ce e) = e"
    "nsets (copy_base ce e) = (if e then NRRTOT else NRRMU)" "sets (copy_base ce e) j = None"
    "no_lents (copy_base ce e)"
proof -
  show n: "\<not> is_neg (copy_base ce e)" using assms by (simp add: copy_base_def)
  show h: "has_ext (copy_base ce e) = e" by (simp add: copy_base_def has_ext_def)
  show "nsets (copy_base ce e) = (if e then NRRTOT else NRRMU)" using n h by (simp add: nsets_def)
  show w: "cent_wf (copy_base ce e)" using n by (auto simp: cent_wf_def copy_base_def empty_rrs_def)
  show s: "sets (copy_base ce e) j = None" for j using empty_sets by (cases e) (simp_all add: copy_base_def)
  show "no_lents (copy_base ce e)" using s by (intro no_lentsI w n) simp
qed

lemma copy_pos:
  assumes "cent_wf ce" "\<not> is_neg ce" "rhnlen (ce_qname ce) = Some (length (ce_qname ce))"
    "malloc c = (True, c1)" "malloc c1 = (True, c2)"
    and "(if has_ext ce then malloc c2 else (True, c2)) = (ok3, c3)"
    and "ok3 \<Longrightarrow> copy_rrsets ce 0 (nsets ce) (copy_base ce (has_ext ce)) c3 = Some (ok4, cp, c4)"
    and "ok3 \<Longrightarrow> free_cent cp c4 = Some c4"
  shows "copy_cent ce c = Some (if \<not> ok3 then (None, c3) else if \<not> ok4 then (None, c4) else (Some cp, c4))"
proof -
  from cent_wf_pos [OF assms(1,2)] obtain mu ext where un: "ce_un ce = RRPart mu ext" by blast
  have h: "has_ext ce = (ext \<noteq> None)" and n: "nsets ce = (if ext \<noteq> None then NRRTOT else NRRMU)"
    using un assms(2) by (auto simp: has_ext_def nsets_def)
  have base: "\<lparr>ce_qname = ce_qname ce, ce_cs = ce_cs ce, ce_num_rrs = ce_num_rrs ce, ce_flags = ce_flags ce,
      ce_un = u, ce_c_ns = ce_c_ns ce, ce_c_soa = ce_c_soa ce\<rparr> = ce\<lparr>ce_un := u\<rparr>" for u by simp
  have fb: "free_cent (ce\<lparr>ce_un := RRPart (empty_rrs NRRMU) None\<rparr>) c3 = Some c3"
    using free_cent_no_lents [OF copy_base_props(1,6) [OF assms(2), of False]] by (simp add: copy_base_def)
  note cr = assms(7) [unfolded n copy_base_def h]
  show ?thesis
  proof (cases ext)
    case None
    with assms(6) h have "ok3" "c3 = c2" by simp_all
    with cr assms(8) None show ?thesis
      unfolding copy_cent_def using assms(2,3,4,5) un
      by (simp add: base rr_part_def)
  next
    case (Some e)
    with assms(6) h have "malloc c2 = (ok3, c3)" by simp
    with cr assms(8) fb Some show ?thesis
      unfolding copy_cent_def using assms(2,3,4,5) un
      by (cases ok3) (simp_all add: base rr_part_def)
  qed
qed

lemma malloc_mem: "\<exists>ok m'. malloc (c\<lparr>c_mem := m\<rparr>) = (ok, c\<lparr>c_mem := m'\<rparr>) \<and> (m = [] \<longrightarrow> ok \<and> m' = [])"
proof (cases m)
  case Nil
  then show ?thesis by (intro exI [of _ True] exI [of _ "[]"]) (simp add: malloc_def)
next
  case (Cons b bs)
  then show ?thesis by (intro exI [of _ b] exI [of _ bs]) (simp add: malloc_def)
qed

lemma copy_cent_ok:
  assumes "cent_ok ce"
  shows "\<exists>r m. copy_cent ce c = Some (r, c\<lparr>c_mem := m\<rparr>) \<and> (c_mem c = [] \<longrightarrow> r \<noteq> None \<and> m = []) \<and>
    (\<forall>cp. r = Some cp \<longrightarrow> cp = strip_cent ce)"
proof -
  note wf = cent_okD(1) [OF assms]
  have len: "rhnlen (ce_qname ce) = Some (length (ce_qname ce))"
    using name_ok_rhnlen [OF cent_okD(2) [OF assms], of "[]"] by simp
  obtain ok1 m1 where m1: "malloc c = (ok1, c\<lparr>c_mem := m1\<rparr>)" "c_mem c = [] \<longrightarrow> ok1 \<and> m1 = []" by (rule mallocE)
  have mm: "\<exists>ok m'. malloc (c\<lparr>c_mem := m\<rparr>) = (ok, c\<lparr>c_mem := m'\<rparr>) \<and> (m = [] \<longrightarrow> ok \<and> m' = [])" for m
    using malloc_mem by blast
  from mm [of m1] obtain ok2 m2 where m2: "malloc (c\<lparr>c_mem := m1\<rparr>) = (ok2, c\<lparr>c_mem := m2\<rparr>)" "m1 = [] \<longrightarrow> ok2 \<and> m2 = []"
    by blast
  show ?thesis
  proof (cases "ok1 \<and> ok2")
    case False
    then have "copy_cent ce c = Some (None, c\<lparr>c_mem := (if ok1 then m2 else m1)\<rparr>)"
      using m1(1) m2(1) len by (cases ok1) (simp_all add: copy_cent_def)
    moreover have "c_mem c \<noteq> []" using False m1(2) m2(2) by auto
    ultimately show ?thesis by blast
  next
    case ok: True
    show ?thesis
    proof (cases "is_neg ce")
      case True
      from cent_wf_neg [OF wf True] obtain l ttl ts where un: "ce_un ce = NegPart l ttl ts" by blast
      have "copy_cent ce c = Some (Some (strip_cent ce), c\<lparr>c_mem := m2\<rparr>)"
        using ok m1(1) m2(1) len True un by (simp add: copy_cent_def neg_part_def strip_cent_def)
      then show ?thesis using m1(2) m2(2) by auto
    next
      case pos: False
      let ?cp = "copy_base ce (has_ext ce)"
      note base = copy_base_props [OF pos, of "has_ext ce"]
      have n: "nsets ?cp = nsets ce" using base(4) pos by (simp add: nsets_def)
      have "\<exists>ok3 m3. (if has_ext ce then malloc (c\<lparr>c_mem := m2\<rparr>) else (True, c\<lparr>c_mem := m2\<rparr>)) = (ok3, c\<lparr>c_mem := m3\<rparr>) \<and>
          (m2 = [] \<longrightarrow> ok3 \<and> m3 = [])"
        using mm [of m2] by (cases "has_ext ce") auto
      then obtain ok3 m3 where m3: "(if has_ext ce then malloc (c\<lparr>c_mem := m2\<rparr>) else (True, c\<lparr>c_mem := m2\<rparr>)) = (ok3, c\<lparr>c_mem := m3\<rparr>)"
          "m2 = [] \<longrightarrow> ok3 \<and> m3 = []" by blast
      have "\<forall>j. sets ?cp j = (if j < 0 then map_option strip (sets ce j) else None)" using base(5) by simp
      from copy_rrsets_ok [OF wf pos base(1) n _ base(2) this, of "nsets ce" "c\<lparr>c_mem := m3\<rparr>"]
      obtain ok4 cp m4 where f: "copy_rrsets ce 0 (nsets ce) ?cp (c\<lparr>c_mem := m3\<rparr>) = Some (ok4, cp, c\<lparr>c_mem := m4\<rparr>)"
        "m3 = [] \<longrightarrow> ok4 \<and> m4 = []" "cent_wf cp" "cp = ?cp\<lparr>ce_un := ce_un cp\<rparr>" "has_ext cp = has_ext ?cp"
        "\<forall>j rs. sets cp j = Some rs \<longrightarrow> rs_lent rs = None"
        "ok4 \<longrightarrow> (\<forall>j. sets cp j = (if j < nsets ce then map_option strip (sets ce j) else None))"
        by (simp del: all_simps) metis
      have neg: "\<not> is_neg cp" by (subst f(4)) (use base(2) in simp)
      have eq: "copy_cent ce c = Some (if \<not> ok3 then (None, c\<lparr>c_mem := m3\<rparr>)
          else if \<not> ok4 then (None, c\<lparr>c_mem := m4\<rparr>) else (Some cp, c\<lparr>c_mem := m4\<rparr>))"
        by (rule copy_pos [OF wf pos len _ _ m3(1) f(1)])
          (use m1(1) m2(1) ok free_cent_no_lents [OF f(3) no_lentsI [OF f(3) neg f(6)]] in simp_all)
      have cp: "cp = strip_cent ce" if "ok4"
      proof -
        have "\<forall>i. sets cp i = sets (strip_cent ce) i"
          using f(7) that sets_strip [OF wf] sets_beyond [OF wf] by (simp add: not_less)
        from cent_un_eqI [OF f(3) strip_cent_wf [OF wf] neg _ _ this] pos f(5) base(3)
        have "ce_un cp = ce_un (strip_cent ce)" by simp
        then show ?thesis by (subst f(4)) (simp add: strip_cent_def copy_base_def)
      qed
      show ?thesis
      proof (cases "ok3 \<and> ok4")
        case True
        with eq cp have "copy_cent ce c = Some (Some (strip_cent ce), c\<lparr>c_mem := m4\<rparr>)" by simp
        then show ?thesis using m1(2) m2(2) m3(2) f(2) by auto
      next
        case False
        then have "copy_cent ce c = Some (None, c\<lparr>c_mem := (if ok3 then m4 else m3)\<rparr>)" using eq by auto
        moreover have "c_mem c \<noteq> []" using False m1(2) m2(2) m3(2) f(2) by auto
        ultimately show ?thesis by blast
      qed
    qed
  qed
qed
end
