(* ===== verification/Cache_Inv.thy ===== *)
theory Cache_Inv
  imports Cache_Cent
begin

unbundle bit_operations_syntax

section \<open>The invariant of the cache\<close>

text \<open>
  The cache as a whole: every entry is well formed, the list by age holds exactly the nodes the
  entries point to, each once, the hash table holds exactly the entries, and the two counters are
  the bytes and the number of the entries. This theory states the invariant and shows that the
  operations on one entry keep it; \<open>Cache_Purge\<close> and \<open>Cache_Store\<close> do the rest.
\<close>

subsection \<open>Entries and the list by age\<close>

definition base :: "cache \<Rightarrow> bool" where
  "base c \<longleftrightarrow>
     (\<forall>a ce. c_heap c a = Some ce \<longrightarrow> cent_ok ce \<and> a < c_brk c) \<and>
     distinct (map le_id (c_rrl c)) \<and> (\<forall>le \<in> set (c_rrl c). le_id le < c_brk c) \<and>
     (\<forall>le. le \<in> set (c_rrl c) \<longleftrightarrow>
        (\<exists>ce. c_heap c (le_cent le) = Some ce \<and> lent_of ce (le_idx le) = Some (le_id le)))"

lemma baseD:
  assumes "base c"
  shows "c_heap c a = Some ce \<Longrightarrow> cent_ok ce" "c_heap c a = Some ce \<Longrightarrow> cent_wf ce" "c_heap c a = Some ce \<Longrightarrow> a < c_brk c"
    "distinct (map le_id (c_rrl c))" "le \<in> set (c_rrl c) \<Longrightarrow> le_id le < c_brk c"
    "le \<in> set (c_rrl c) \<longleftrightarrow> (\<exists>ce. c_heap c (le_cent le) = Some ce \<and> lent_of ce (le_idx le) = Some (le_id le))"
  using assms cent_okD(1) by (auto simp: base_def)

lemma base_node:
  assumes "base c" "c_heap c a = Some ce" "lent_of ce idx = Some l"
  shows "\<lparr>le_id = l, le_cent = a, le_idx = idx\<rparr> \<in> set (c_rrl c)"
  using baseD(6) [OF assms(1), of "\<lparr>le_id = l, le_cent = a, le_idx = idx\<rparr>"] assms(2,3) by simp

lemma base_same_id:
  assumes "base c" "le \<in> set (c_rrl c)" "le' \<in> set (c_rrl c)" "le_id le = le_id le'"
  shows "le = le'"
  using baseD(4) [OF assms(1)] assms(2-4) by (simp add: distinct_map inj_on_def)

lemma base_lent_unique:
  assumes "base c" "c_heap c a = Some ce" "lent_of ce idx = Some (le_id le)" "le \<in> set (c_rrl c)"
  shows "le_cent le = a \<and> le_idx le = idx"
proof -
  have "le = \<lparr>le_id = le_id le, le_cent = a, le_idx = idx\<rparr>"
    using base_same_id [OF assms(1,4) base_node [OF assms(1-3)]] by simp
  from arg_cong [OF this, of le_cent] arg_cong [OF this, of le_idx] show ?thesis by simp
qed

text \<open>The invariant from its four parts.\<close>

lemma baseI:
  assumes "\<And>a ce. c_heap c a = Some ce \<Longrightarrow> cent_ok ce \<and> a < c_brk c"
    and "distinct (map le_id (c_rrl c))" "\<And>le. le \<in> set (c_rrl c) \<Longrightarrow> le_id le < c_brk c"
    and "\<And>le. le \<in> set (c_rrl c) \<longleftrightarrow> (\<exists>ce. c_heap c (le_cent le) = Some ce \<and> lent_of ce (le_idx le) = Some (le_id le))"
  shows "base c"
  using assms unfolding base_def by blast

text \<open>Changing one entry and removing the nodes it does not point to any more.\<close>

lemma base_change:
  assumes b: "base c" "c_heap c a = Some ce" and ok: "cent_ok ce'"
    and l: "\<And>idx. lent_of ce' idx = (if idx \<in> K then None else lent_of ce idx)"
    and h: "c_heap c' = (c_heap c)(a \<mapsto> ce')" "c_brk c' = c_brk c"
      "c_rrl c' = filter (\<lambda>le. \<forall>idx \<in> K. lent_of ce idx \<noteq> Some (le_id le)) (c_rrl c)"
  shows "base c'"
proof -
  have "le \<in> set (c_rrl c') \<longleftrightarrow> (\<exists>ce. c_heap c' (le_cent le) = Some ce \<and> lent_of ce (le_idx le) = Some (le_id le))" for le
  proof (cases "le_cent le = a")
    case True
    then have m: "le \<in> set (c_rrl c) \<longleftrightarrow> lent_of ce (le_idx le) = Some (le_id le)"
      using baseD(6) [OF b(1), of le] b(2) by simp
    moreover have "(\<forall>idx \<in> K. lent_of ce idx \<noteq> Some (le_id le)) \<longleftrightarrow> le_idx le \<notin> K" if "le \<in> set (c_rrl c)"
      using base_lent_unique [OF b _ that] m that by metis
    ultimately show ?thesis using True l [of "le_idx le"] by (simp add: h) metis
  next
    case False
    then have "\<forall>idx \<in> K. lent_of ce idx \<noteq> Some (le_id le)" if "le \<in> set (c_rrl c)"
      using base_lent_unique [OF b _ that] by metis
    with False show ?thesis using baseD(6) [OF b(1), of le] by (simp add: h) metis
  qed
  moreover have "cent_ok ce2 \<and> a2 < c_brk c'" if "c_heap c' a2 = Some ce2" for a2 ce2
    using that b ok baseD(1,3) [OF b(1)] by (auto simp: h split: if_splits)
  moreover have "distinct (map le_id (c_rrl c'))" using baseD(4) [OF b(1)] by (simp add: h distinct_map_filter)
  moreover have "le_id le < c_brk c'" if "le \<in> set (c_rrl c')" for le using that baseD(5) [OF b(1)] by (simp add: h)
  ultimately show ?thesis by (intro baseI)
qed

lemma base_put:
  assumes "base c" "c_heap c a = Some ce" "cent_ok ce'" "\<And>idx. lent_of ce' idx = lent_of ce idx"
  shows "base (put_cent a ce' c)"
  by (rule base_change [OF assms(1-3), of "{}"]) (simp_all add: assms(4) put_cent_def)

lemma base_fields:
  assumes "base c" "c_heap c' = c_heap c" "c_brk c' = c_brk c" "c_rrl c' = c_rrl c"
  shows "base c'"
  using assms by (simp add: base_def)

lemma base_delete:
  assumes b: "base c" "c_heap c a = Some ce"
    and h: "c_heap c' = (c_heap c)(a := None)" "c_brk c' = c_brk c" "c_rrl c' = drop_lents ce (c_rrl c)"
  shows "base c'"
proof -
  have "le \<in> set (c_rrl c') \<longleftrightarrow> (\<exists>ce. c_heap c' (le_cent le) = Some ce \<and> lent_of ce (le_idx le) = Some (le_id le))" for le
    using baseD(6) [OF b(1), of le] base_lent_unique [OF b, of _ le] b(2) by (auto simp: h drop_lents_def)
  moreover have "cent_ok ce2 \<and> a2 < c_brk c'" if "c_heap c' a2 = Some ce2" for a2 ce2
    using that baseD(1,3) [OF b(1)] by (auto simp: h split: if_splits)
  moreover have "distinct (map le_id (c_rrl c'))" using baseD(4) [OF b(1)] by (simp add: h drop_lents_def distinct_map_filter)
  moreover have "le_id le < c_brk c'" if "le \<in> set (c_rrl c')" for le using that baseD(5) [OF b(1)] by (simp add: h drop_lents_def)
  ultimately show ?thesis by (intro baseI)
qed

lemma lent_of_drop:
  assumes "cent_wf ce"
  shows "lent_of (drop_set ce i) idx = (if idx \<in> {Some i} then None else lent_of ce idx)"
  using drop_set_props(2,7) [OF assms, of i] by (auto simp: lent_of_def set_lent_of_def split: option.splits)

lemma unlink_set_lent:
  "c_rrl (unlink (set_lent_of ce i) c) = filter (\<lambda>le. \<forall>idx \<in> {Some i}. lent_of ce idx \<noteq> Some (le_id le)) (c_rrl c)"
  by (auto simp: unlink_rrl lent_of_def intro!: filter_cong)

lemma base_drop_set:
  assumes "base c" "c_heap c a = Some ce"
    and "c_heap c' = (c_heap c)(a \<mapsto> drop_set ce i)" "c_brk c' = c_brk c" "c_rrl c' = c_rrl (unlink (set_lent_of ce i) c)"
  shows "base c'"
  by (rule base_change [OF assms(1,2) drop_set_ok [OF baseD(1) [OF assms(1,2)]] lent_of_drop [OF baseD(2) [OF assms(1,2)]]])
    (simp_all add: assms(3-5) unlink_set_lent)

subsection \<open>Inserting a node\<close>

lemma insert_back_mset:
  "insert_back f ts ne les = Some r \<Longrightarrow> mset r = add_mset ne (mset les)"
  by (induction les arbitrary: r) (auto split: if_splits elim!: bind_eq_SomeE)

definition node_slot :: "dns_cent \<Rightarrow> nat option \<Rightarrow> bool" where
  "node_slot ce idx \<longleftrightarrow> (case idx of None \<Rightarrow> is_neg ce | Some i \<Rightarrow> sets ce i \<noteq> None)"

definition with_lent :: "dns_cent \<Rightarrow> nat option \<Rightarrow> nat \<Rightarrow> dns_cent" where
  "with_lent ce idx l = (case idx of
     Some i \<Rightarrow> put_set ce i (map_option (\<lambda>rs. rs\<lparr>rs_lent := Some l\<rparr>) (sets ce i))
   | None \<Rightarrow> (case ce_un ce of NegPart _ ttl ts \<Rightarrow> ce\<lparr>ce_un := NegPart (Some l) ttl ts\<rparr> | _ \<Rightarrow> ce))"

lemma with_lent_all:
  assumes "cent_ok ce" "node_slot ce idx"
  shows "set_lent ce idx (Some l) = Some (with_lent ce idx l) \<and>
    cent_ok (with_lent ce idx l) \<and>
    lent_of (with_lent ce idx l) = (lent_of ce)(idx := Some l) \<and>
    map_option strip (sets (with_lent ce idx l) j) = map_option strip (sets ce j) \<and>
    same_head ce (with_lent ce idx l) \<and>
    ce_flags (with_lent ce idx l) = ce_flags ce \<and>
    is_neg (with_lent ce idx l) = is_neg ce \<and>
    ce_num_rrs (with_lent ce idx l) = ce_num_rrs ce \<and>
    ce_cs (with_lent ce idx l) = ce_cs ce \<and>
    ce_qname (with_lent ce idx l) = ce_qname ce"
proof -
  note wf = cent_okD(1) [OF assms(1)]
  show ?thesis
  proof (cases idx)
    case (Some i)
    with assms(2) obtain rs where rs: "sets ce i = Some rs" by (auto simp: node_slot_def)
    note i = sets_Some_less [OF wf rs]
    let ?ce = "put_set ce i (Some (rs\<lparr>rs_lent := Some l\<rparr>))"
    have ok: "cent_ok ?ce"
      by (rule put_set_ok_same [OF assms(1)]) (use i rs in \<open>simp_all add: set_bytes_def set_count_def\<close>)
    have s: "sets ?ce = (sets ce)(i \<mapsto> rs\<lparr>rs_lent := Some l\<rparr>)" using sets_put_set [OF wf] i by simp
    then have "lent_of ?ce = (lent_of ce)(Some i := Some l)"
      by (auto simp: lent_of_def set_lent_of_def fun_eq_iff split: option.splits)
    with ok s i rs wf Some show ?thesis
      by (auto simp: set_lent_def with_lent_def cent_simps same_head_def strip_def)
  next
    case None
    with assms(2) have neg: "is_neg ce" by (simp add: node_slot_def)
    with cent_wf_neg [OF wf] obtain l0 ttl ts where un: "ce_un ce = NegPart l0 ttl ts" by blast
    let ?ce = "ce\<lparr>ce_un := NegPart (Some l) ttl ts\<rparr>"
    have s: "sets ?ce = sets ce" using un by (auto simp: sets_def fun_eq_iff)
    have "cent_ok ?ce"
      using assms(1) un s neg by (simp add: cent_ok_def cent_wf_def cent_bytes_def cent_count_def has_ext_def)
    moreover have "lent_of ?ce = (lent_of ce)(None := Some l)"
      by (auto simp: lent_of_def set_lent_of_def s neg_lent_def fun_eq_iff split: option.splits)
    ultimately show ?thesis
      using None un s by (simp add: set_lent_def with_lent_def neg_part_def same_head_def)
  qed
qed

lemma with_lent_props:
  assumes "cent_ok ce" "node_slot ce idx"
  shows "set_lent ce idx (Some l) = Some (with_lent ce idx l)"
    "cent_ok (with_lent ce idx l)"
    "lent_of (with_lent ce idx l) = (lent_of ce)(idx := Some l)"
    "map_option strip (sets (with_lent ce idx l) j) = map_option strip (sets ce j)"
    "same_head ce (with_lent ce idx l)"
    "ce_flags (with_lent ce idx l) = ce_flags ce"
    "is_neg (with_lent ce idx l) = is_neg ce"
    "ce_num_rrs (with_lent ce idx l) = ce_num_rrs ce"
    "ce_cs (with_lent ce idx l) = ce_cs ce"
    "ce_qname (with_lent ce idx l) = ce_qname ce"
  using with_lent_all [OF assms] by blast+

lemma strip_cent_with_lent:
  assumes "cent_ok ce" "node_slot ce idx" shows "strip_cent (with_lent ce idx l) = strip_cent ce"
proof -
  note wf = cent_okD(1) [OF assms(1)]
  note p = with_lent_props [OF assms, of l]
  have "ce_un (strip_cent (with_lent ce idx l)) = ce_un (strip_cent ce)"
  proof (cases "is_neg ce")
    case True
    with assms(2) neg_sets [OF wf True] have "idx = None" by (cases idx) (auto simp: node_slot_def)
    with cent_wf_neg [OF wf True] show ?thesis by (auto simp: with_lent_def strip_cent_def)
  next
    case False
    with assms(2) obtain i where i: "idx = Some i" by (cases idx) (auto simp: node_slot_def)
    show ?thesis
      by (rule cent_un_eqI)
        (use p wf False i sets_strip [OF wf] sets_strip [OF cent_okD(1) [OF p(2)]] cent_okD(1) [OF p(2)]
          in \<open>simp_all add: with_lent_def\<close>)
  qed
  then have "strip_cent (with_lent ce idx l) = (with_lent ce idx l)\<lparr>ce_un := ce_un (strip_cent ce)\<rparr>"
    by (simp add: strip_cent_def)
  then show ?thesis using p(6,8,9,10) p(5) by (simp add: strip_cent_def same_head_def)
qed

text \<open>Entries that differ in their nodes only.\<close>

lemma strip_eqD:
  assumes "strip_cent ce' = strip_cent ce" "cent_wf ce" "cent_wf ce'"
  shows "ce_qname ce' = ce_qname ce" "ce_cs ce' = ce_cs ce" "ce_num_rrs ce' = ce_num_rrs ce" "ce_flags ce' = ce_flags ce"
    "ce_c_ns ce' = ce_c_ns ce" "ce_c_soa ce' = ce_c_soa ce" "is_neg ce' = is_neg ce" "nsets ce' = nsets ce"
    "map_option strip (sets ce' i) = map_option strip (sets ce i)" "same_head ce ce'"
proof -
  note e = arg_cong [OF assms(1)]
  show *: "ce_qname ce' = ce_qname ce" "ce_cs ce' = ce_cs ce" "ce_num_rrs ce' = ce_num_rrs ce" "ce_flags ce' = ce_flags ce"
    "ce_c_ns ce' = ce_c_ns ce" "ce_c_soa ce' = ce_c_soa ce"
    using e [of ce_qname] e [of ce_cs] e [of ce_num_rrs] e [of ce_flags] e [of ce_c_ns] e [of ce_c_soa] by simp_all
  then show "is_neg ce' = is_neg ce" by (simp only: is_neg_def)
  show "nsets ce' = nsets ce" using e [of nsets] by simp
  show "map_option strip (sets ce' i) = map_option strip (sets ce i)"
    using e [of "\<lambda>x. sets x i"] by (simp add: sets_strip assms(2,3))
  show "same_head ce ce'" using * by (simp add: same_head_def)
qed

subsection \<open>Steps on one entry\<close>

definition same_name :: "dns_cent \<Rightarrow> dns_cent \<Rightarrow> bool" where
  "same_name ce ce' \<longleftrightarrow> ce_qname ce' = ce_qname ce \<and> fset (ce_flags ce') DF_LOCAL = fset (ce_flags ce) DF_LOCAL"

lemma same_name_refl [simp, intro!]: "same_name ce ce"
  by (simp add: same_name_def)

lemma same_name_trans [trans]: "same_name x y \<Longrightarrow> same_name y z \<Longrightarrow> same_name x z"
  by (simp add: same_name_def)

lemma same_head_name: "same_head ce ce' \<Longrightarrow> same_name ce ce'"
  by (simp add: same_head_def same_name_def)

definition frame :: "nat \<Rightarrow> cache \<Rightarrow> cache \<Rightarrow> bool" where
  "frame a c c' \<longleftrightarrow> (\<forall>b. b \<noteq> a \<longrightarrow> c_heap c' b = c_heap c b) \<and> c_tab c' = c_tab c \<and> c_num c' = c_num c \<and>
     c_brk c \<le> c_brk c' \<and> c_insert_sort c' = c_insert_sort c"

definition ent_step :: "nat \<Rightarrow> cache \<Rightarrow> cache \<Rightarrow> bool" where
  "ent_step a c c' \<longleftrightarrow> base c' \<and> frame a c c' \<and>
     (\<exists>ce ce'. c_heap c a = Some ce \<and> c_heap c' a = Some ce' \<and> same_name ce ce')"

lemma frame_refl [simp, intro!]: "frame a c c"
  by (simp add: frame_def)

lemma frame_trans: "frame a c c' \<Longrightarrow> frame a c' c'' \<Longrightarrow> frame a c c''"
  by (simp add: frame_def)

lemma ent_step_refl: "base c \<Longrightarrow> c_heap c a = Some ce \<Longrightarrow> ent_step a c c"
  by (simp add: ent_step_def)

lemma ent_step_trans [trans]:
  assumes "ent_step a c c'" "ent_step a c' c''" shows "ent_step a c c''"
proof -
  from assms obtain x y z where "c_heap c a = Some x" "c_heap c' a = Some y" "c_heap c'' a = Some z"
    "same_name x y" "same_name y z" unfolding ent_step_def by force
  with assms same_name_trans [of x y z] frame_trans [of a c c' c''] show ?thesis unfolding ent_step_def by blast
qed

lemma ent_step_base: "ent_step a c c' \<Longrightarrow> base c'"
  by (simp add: ent_step_def)

lemma ent_step_heap: "ent_step a c c' \<Longrightarrow> c_heap c a = Some ce \<Longrightarrow> \<exists>ce'. c_heap c' a = Some ce' \<and> same_name ce ce'"
  by (auto simp: ent_step_def)

lemma ent_step_mem:
  assumes "base c" "c_heap c a = Some ce" "c' = c\<lparr>c_mem := m\<rparr>" shows "ent_step a c c'"
  using assms base_fields [OF assms(1), of c'] by (auto simp: ent_step_def frame_def)

lemma insert_back_defined:
  "\<forall>x\<in>set les. f x \<noteq> None \<Longrightarrow> \<exists>r. insert_back f ts ne les = Some r"
  by (induction les) auto

lemma base_ts:
  assumes "base c" "c_heap c (le_cent le) = Some ce" "node_slot ce (le_idx le)"
  shows "\<exists>t. get_rrlent_ts c le = Some t"
proof (cases "le_idx le")
  case None
  with assms cent_wf_neg [OF baseD(2) [OF assms(1,2)]] show ?thesis
    by (auto simp: get_rrlent_ts_def node_slot_def neg_part_def)
next
  case (Some i)
  with assms(3) obtain rs where rs: "sets ce i = Some rs" by (auto simp: node_slot_def)
  note wf = baseD(2) [OF assms(1,2)]
  from sets_Some_less [OF wf rs] rs Some assms(2) wf show ?thesis
    by (simp add: get_rrlent_ts_def cent_simps)
qed

lemma lent_slot: "cent_wf ce \<Longrightarrow> lent_of ce idx = Some l \<Longrightarrow> node_slot ce idx"
  by (cases "is_neg ce") (auto simp: node_slot_def lent_of_def set_lent_of_def neg_lent_pos split: option.splits)

lemma lent_local_wf:
  assumes "cent_wf ce" "node_slot ce idx"
  shows "lent_local ce idx = Some (fset (ce_flags ce) DF_LOCAL \<or>
    (\<exists>i rs. idx = Some i \<and> sets ce i = Some rs \<and> fset (rs_flags rs) CF_LOCAL))"
proof (cases idx)
  case (Some i)
  with assms(2) obtain rs where rs: "sets ce i = Some rs" by (auto simp: node_slot_def)
  with sets_Some_less [OF assms(1) rs] Some assms(1) show ?thesis by (auto simp: lent_local_def cent_simps)
qed (simp add: lent_local_def)

lemma insert_rrl_ok:
  assumes b: "base c" "c_heap c a = Some ce" and s: "node_slot ce idx" "lent_of ce idx = None"
  shows "\<exists>ok c' ce'. insert_rrl a idx c = Some (ok, c') \<and> ent_step a c c' \<and> c_heap c' a = Some ce' \<and>
    strip_cent ce' = strip_cent ce \<and> c_size c' = c_size c \<and> (c_mem c = [] \<longrightarrow> ok \<and> c_mem c' = []) \<and>
    (\<forall>j. j \<noteq> idx \<longrightarrow> lent_of ce' j = lent_of ce j) \<and> cent_ok ce'"
proof -
  note ok = baseD(1) [OF b] and wf = baseD(2) [OF b]
  obtain loc where loc: "lent_local ce idx = Some loc" using lent_local_wf [OF wf s(1)] by blast
  show ?thesis
  proof (cases loc)
    case True
    with loc b ent_step_refl [OF b] ok have
      "insert_rrl a idx c = Some (True, c) \<and> ent_step a c c \<and> cent_ok ce" by (simp add: insert_rrl_def)
    with b show ?thesis by blast
  next
    case False
    obtain mem m where m: "malloc c = (mem, c\<lparr>c_mem := m\<rparr>)" "c_mem c = [] \<longrightarrow> mem \<and> m = []" by (rule mallocE)
    let ?c = "c\<lparr>c_mem := m\<rparr>"
    show ?thesis
    proof (cases mem)
      case False
      with \<open>\<not> loc\<close> loc b m ok have "insert_rrl a idx c = Some (False, ?c) \<and> cent_ok ce \<and> c_mem c \<noteq> []"
        by (simp add: insert_rrl_def)
      moreover have "ent_step a c ?c" by (rule ent_step_mem [OF b refl])
      moreover have "c_heap ?c a = Some ce" "c_size ?c = c_size c" using b(2) by simp_all
      ultimately show ?thesis by blast
    next
      case True
      let ?ne = "\<lparr>le_id = c_brk c, le_cent = a, le_idx = idx\<rparr>"
      note p = with_lent_props [OF ok s(1), of "c_brk c"]
      have ts: "\<exists>t. get_rrlent_ts ?c le = Some t" if "le = ?ne \<or> le \<in> set (c_rrl c)" for le
      proof -
        have "\<exists>t. get_rrlent_ts c le = Some t"
          using that base_ts [OF b(1), of ?ne] b(2) s(1) baseD(6) [OF b(1), of le] lent_slot baseD(2) [OF b(1)]
            base_ts [OF b(1), of le] by (metis rr_lent.select_convs(2,3))
        then show ?thesis using get_rrlent_ts_heap [of ?c c] by simp
      qed
      have "\<exists>r. (if c_insert_sort c then do { ts \<leftarrow> get_rrlent_ts ?c ?ne;
            map_option rev (insert_back (get_rrlent_ts ?c) ts ?ne (rev (c_rrl c))) }
          else Some (c_rrl c @ [?ne])) = Some r \<and> mset r = add_mset ?ne (mset (c_rrl c))"
      proof (cases "c_insert_sort c")
        case True
        from ts [of ?ne] obtain t where t: "get_rrlent_ts ?c ?ne = Some t" by blast
        have "\<forall>x\<in>set (rev (c_rrl c)). get_rrlent_ts ?c x \<noteq> None" using ts by auto
        from insert_back_defined [OF this] obtain r where
          "insert_back (get_rrlent_ts ?c) t ?ne (rev (c_rrl c)) = Some r" by blast
        with True t insert_back_mset [OF this] show ?thesis by simp
      qed simp
      then obtain r where r: "(if c_insert_sort c then do { ts \<leftarrow> get_rrlent_ts ?c ?ne;
            map_option rev (insert_back (get_rrlent_ts ?c) ts ?ne (rev (c_rrl c))) }
          else Some (c_rrl c @ [?ne])) = Some r" "mset r = add_mset ?ne (mset (c_rrl c))" by blast
      let ?ce = "with_lent ce idx (c_brk c)"
      let ?c' = "c\<lparr>c_mem := m, c_rrl := r, c_heap := (c_heap c)(a \<mapsto> ?ce), c_brk := c_brk c + 1\<rparr>"
      have eq: "insert_rrl a idx c = Some (True, ?c')"
        using loc \<open>\<not> loc\<close> b(2) m(1) True r(1) p(1)
        by (cases "c_insert_sort c") (auto simp: insert_rrl_def Let_def elim!: bind_eq_SomeE)
      have set_r: "set r = insert ?ne (set (c_rrl c))" using r(2) by (metis set_mset_add_mset_insert set_mset_mset)
      have "base ?c'"
      proof (rule baseI)
        show "cent_ok ce2 \<and> a2 < c_brk ?c'" if "c_heap ?c' a2 = Some ce2" for a2 ce2
          using that p(2) baseD(1,3) [OF b(1)] b by (auto split: if_splits intro: less_SucI)
        have d: "distinct (map le_id (?ne # c_rrl c))" using baseD(4,5) [OF b(1)] by force
        have "mset (map le_id r) = mset (map le_id (?ne # c_rrl c))" using r(2) by simp
        from mset_eq_imp_distinct_iff [OF this] d show "distinct (map le_id (c_rrl ?c'))" by simp
        show "le_id le < c_brk ?c'" if "le \<in> set (c_rrl ?c')" for le
          using that baseD(5) [OF b(1), of le] set_r by auto
        show "le \<in> set (c_rrl ?c') \<longleftrightarrow>
            (\<exists>ce. c_heap ?c' (le_cent le) = Some ce \<and> lent_of ce (le_idx le) = Some (le_id le))" for le
        proof (cases "le_cent le = a \<and> le_idx le = idx")
          case True
          then have "le = ?ne \<longleftrightarrow> le_id le = c_brk c" by (cases le) simp
          moreover have "le \<notin> set (c_rrl c)" using True baseD(6) [OF b(1), of le] b(2) s(2) by simp
          ultimately show ?thesis using True p(3) set_r by (simp add: eq_commute)
        next
          case False
          then have "le \<noteq> ?ne" by auto
          moreover have "lent_of ?ce (le_idx le) = lent_of ce (le_idx le)" if "le_cent le = a" using False that p(3) by simp
          ultimately show ?thesis using False set_r baseD(6) [OF b(1), of le] b(2) by (cases "le_cent le = a") simp_all
        qed
      qed
      then have "ent_step a c ?c'" using b(2) same_head_name [OF p(5)] by (simp add: ent_step_def frame_def)
      moreover have "c_heap ?c' a = Some ?ce" "c_size ?c' = c_size c" "c_mem c = [] \<longrightarrow> c_mem ?c' = []" using m(2) by simp_all
      moreover have "\<forall>j. j \<noteq> idx \<longrightarrow> lent_of ?ce j = lent_of ce j" using p(3) by simp
      ultimately show ?thesis using eq p(2) strip_cent_with_lent [OF ok s(1)] by blast
    qed
  qed
qed

subsection \<open>The counters\<close>

definition ent_size :: "dns_cent option \<Rightarrow> int" where
  "ent_size v = (case v of None \<Rightarrow> 0 | Some ce \<Rightarrow> ce_cs ce)"

definition ent_one :: "dns_cent option \<Rightarrow> int" where
  "ent_one v = (case v of None \<Rightarrow> 0 | Some ce \<Rightarrow> 1)"

definition total :: "(dns_cent option \<Rightarrow> int) \<Rightarrow> cache \<Rightarrow> int" where
  "total f c = (\<Sum>a<c_brk c. f (c_heap c a))"

lemma ent_size_None [simp]: "ent_size None = 0" "ent_one None = 0" "ent_size (Some ce) = ce_cs ce" "ent_one (Some ce) = 1"
  by (simp_all add: ent_size_def ent_one_def)

lemma total_brk:
  assumes "base c" "f None = 0" "c_brk c \<le> n" shows "(\<Sum>a<n. f (c_heap c a)) = total f c"
  unfolding total_def
proof (rule sum.mono_neutral_right)
  show "\<forall>a\<in>{..<n} - {..<c_brk c}. f (c_heap c a) = 0"
    using baseD(3) [OF assms(1)] assms(2) by (metis DiffE lessThan_iff not_None_eq)
qed (use assms(3) in auto)

lemma total_frame:
  assumes "base c" "base c'" "f None = 0" "\<forall>b. b \<noteq> a \<longrightarrow> c_heap c' b = c_heap c b"
  shows "total f c' - f (c_heap c' a) = total f c - f (c_heap c a)"
proof -
  define n where "n = max (Suc a) (max (c_brk c) (c_brk c'))"
  have h: "c_heap c' = (c_heap c)(a := c_heap c' a)" using assms(4) by auto
  have "a < n" by (simp add: n_def)
  from sum_fun_upd [OF this, of f "c_heap c" "c_heap c' a"]
  have "(\<Sum>b<n. f (c_heap c' b)) = (\<Sum>b<n. f (c_heap c b)) - f (c_heap c a) + f (c_heap c' a)"
    using h by metis
  with total_brk [where f = f and c = c and n = n] total_brk [where f = f and c = c' and n = n] assms(1-3) show ?thesis by (simp add: n_def)
qed

subsection \<open>The hash table\<close>

definition tab_addrs :: "htable \<Rightarrow> nat set" where
  "tab_addrs T = he_data ` set (concat T)"

definition tab_ok :: "cache \<Rightarrow> bool" where
  "tab_ok c \<longleftrightarrow> htable_ok (qname_of c) (c_tab c) \<and> tab_addrs (c_tab c) = dom (c_heap c)"

definition cinv :: "cache \<Rightarrow> bool" where
  "cinv c \<longleftrightarrow> base c \<and> tab_ok c \<and> c_size c = total ent_size c \<and> c_num c = total ent_one c"

lemma cinvD:
  assumes "cinv c"
  shows "base c" "tab_ok c" "c_size c = total ent_size c" "c_num c = total ent_one c"
    "htable_ok (qname_of c) (c_tab c)" "tab_addrs (c_tab c) = dom (c_heap c)"
  using assms by (auto simp: cinv_def tab_ok_def)

lemma ent_step_qname:
  assumes "ent_step a c c'" shows "qname_of c' = qname_of c"
proof
  fix b
  from assms show "qname_of c' b = qname_of c b"
    by (cases "b = a") (auto simp: ent_step_def frame_def qname_of_def same_name_def)
qed

lemma ent_step_tab: "ent_step a c c' \<Longrightarrow> c_tab c' = c_tab c" "ent_step a c c' \<Longrightarrow> c_num c' = c_num c"
  by (simp_all add: ent_step_def frame_def)

lemma ent_step_dom:
  assumes "ent_step a c c'" shows "dom (c_heap c') = dom (c_heap c)"
proof -
  have "b \<in> dom (c_heap c') \<longleftrightarrow> b \<in> dom (c_heap c)" for b
    using assms by (cases "b = a") (auto simp: ent_step_def frame_def dom_def)
  then show ?thesis by blast
qed

lemma tab_ok_step: "ent_step a c c' \<Longrightarrow> tab_ok c \<Longrightarrow> tab_ok c'"
  by (simp add: tab_ok_def ent_step_qname ent_step_tab ent_step_dom)

lemma ent_step_total:
  assumes "base c" "ent_step a c c'" "f None = 0"
  shows "total f c' - f (c_heap c' a) = total f c - f (c_heap c a)"
  using assms by (intro total_frame) (auto simp: ent_step_def frame_def)

text \<open>A step on one entry keeps the whole invariant when it accounts for the change of its size.\<close>

lemma cinv_step:
  assumes "cinv c" "ent_step a c c'"
    and "c_size c' - ent_size (c_heap c' a) = c_size c - ent_size (c_heap c a)"
  shows "cinv c'"
proof -
  note b = cinvD(1) [OF assms(1)]
  have "ent_one (c_heap c' a) = ent_one (c_heap c a)" using assms(2) by (auto simp: ent_step_def)
  then show ?thesis
    using assms ent_step_total [OF b assms(2), of ent_size] ent_step_total [OF b assms(2), of ent_one]
      tab_ok_step [OF assms(2)] ent_step_base [OF assms(2)] ent_step_tab [OF assms(2)]
    by (simp add: cinv_def)
qed

lemma tab_addr_unique:
  assumes ok: "htable_ok q T" "i < length T" "T ! i = pre @ e # post"
    and e': "j < length T" "e' \<in> set (if j = i then pre @ post else T ! j)"
  shows "he_data e' \<noteq> he_data e"
proof
  assume eq: "he_data e' = he_data e"
  have c: "chain_ok q i (pre @ e # post)" "chain_ok q j (T ! j)" using ok e'(1) by (metis htable_ok_def)+
  have "e' \<in> set (T ! j)" using e'(2) ok(3) by (auto split: if_splits)
  with c obtain ls ls' where l: "list_all wf_label ls" "q (he_data e) = Some (wire ls)" "dns_hash (wire ls) = Some (i, he_rhash e)"
    "q (he_data e') = Some (wire ls')" "dns_hash (wire ls') = Some (j, he_rhash e')"
    by (auto simp: chain_ok_def list_all_iff ent_ok_def)
  with eq have "j = i" by simp
  have "ent_is q ls e" "ent_is q ls e'" using l eq by (auto simp: ent_is_def)
  moreover have "e' \<in> set pre \<or> e' \<in> set post" using e'(2) \<open>j = i\<close> by simp
  ultimately show False using c(1) by (auto simp: chain_ok_def sorted_wrt_append)
qed

lemma concat_update:
  assumes "i < length T"
  shows "e \<in> set (concat (T[i := ch])) \<longleftrightarrow> e \<in> set ch \<or> (\<exists>j<length T. j \<noteq> i \<and> e \<in> set (T ! j))"
  using assms unfolding set_concat_nth by (auto simp: nth_list_update split: if_splits)

lemma del_tab:
  assumes "htable_ok q T" "i < length T" "T ! i = pre @ e # post"
  shows "htable_ok q (T[i := pre @ post])" "tab_addrs (T[i := pre @ post]) = tab_addrs T - {he_data e}"
proof -
  have "chain_ok q i (T ! i)" using assms(1,2) by (simp add: htable_ok_def)
  then show "htable_ok q (T[i := pre @ post])"
    using htable_ok_update [OF assms(1) chain_ok_delete [of q i pre e post]] assms(3) by simp
  have "x \<in> set (concat T) \<longleftrightarrow> x = e \<or> x \<in> set (concat (T[i := pre @ post]))" for x
  proof -
    have "x \<in> set (concat T) \<longleftrightarrow> x \<in> set (T ! i) \<or> (\<exists>j<length T. j \<noteq> i \<and> x \<in> set (T ! j))"
      unfolding set_concat_nth using assms(2) by blast
    then show ?thesis unfolding concat_update [OF assms(2)] assms(3) by auto
  qed
  then have S: "set (concat T) = insert e (set (concat (T[i := pre @ post])))" by blast
  have "he_data x \<noteq> he_data e" if "x \<in> set (concat (T[i := pre @ post]))" for x
  proof -
    from that consider "x \<in> set (pre @ post)" | j where "j < length T" "j \<noteq> i" "x \<in> set (T ! j)"
      unfolding concat_update [OF assms(2)] by blast
    then show ?thesis
    proof cases
      case 1
      then show ?thesis using tab_addr_unique [OF assms, of i x] assms(2) by simp
    next
      case 2
      then show ?thesis using tab_addr_unique [OF assms, of j x] by simp
    qed
  qed
  then have "he_data e \<notin> tab_addrs (T[i := pre @ post])" unfolding tab_addrs_def by (metis imageE)
  moreover have "tab_addrs T = insert (he_data e) (tab_addrs (T[i := pre @ post]))"
    unfolding tab_addrs_def S image_insert by (rule refl)
  ultimately show "tab_addrs (T[i := pre @ post]) = tab_addrs T - {he_data e}" by simp
qed

lemma htable_ok_cong:
  assumes "\<And>a. a \<in> tab_addrs T \<Longrightarrow> q a = q' a" "htable_ok q T"
  shows "htable_ok q' T"
proof -
  have e: "ent_ok q i x = ent_ok q' i x" "ent_is q nm x = ent_is q' nm x" if "j < length T" "x \<in> set (T ! j)" for i j x nm
  proof -
    have "x \<in> set (concat T)" using that unfolding set_concat_nth by blast
    then have "he_data x \<in> tab_addrs T" unfolding tab_addrs_def by (rule imageI)
    with assms(1) show "ent_ok q i x = ent_ok q' i x" "ent_is q nm x = ent_is q' nm x"
      by (simp_all add: ent_ok_def ent_is_def)
  qed
  have "chain_ok q' i (T ! i)" if "i < length T" for i
  proof -
    have "sorted_wrt (\<lambda>e f. \<forall>nm. ent_is q nm e \<longrightarrow> \<not> ent_is q nm f) (T ! i)"
      using assms(2) that by (simp add: htable_ok_def chain_ok_def)
    then have "sorted_wrt (\<lambda>e f. \<forall>nm. ent_is q' nm e \<longrightarrow> \<not> ent_is q' nm f) (T ! i)"
      by (rule sorted_wrt_mono_rel [rotated]) (use e(2) [OF that] in auto)
    then show ?thesis using assms(2) that e(1) [OF that] by (auto simp: htable_ok_def chain_ok_def list_all_iff)
  qed
  with assms(2) show ?thesis by (simp add: htable_ok_def)
qed

text \<open>The names of the entries and the lookup of a name.\<close>

lemma name_ok_wire: "name_ok nm \<Longrightarrow> \<exists>ls. wf_name ls \<and> nm = wire ls"
  by (simp add: name_ok_def)

lemma ht_has_heap:
  assumes "tab_ok c"
  shows "ht_has (qname_of c) (c_tab c) nm a \<longleftrightarrow>
    (\<exists>ce ls. c_heap c a = Some ce \<and> list_all wf_label ls \<and> ce_qname ce = wire ls \<and> name_eq ls nm)"
proof -
  have "a \<in> tab_addrs (c_tab c) \<longleftrightarrow> (\<exists>ce. c_heap c a = Some ce)" using assms by (auto simp: tab_ok_def)
  then show ?thesis
    unfolding ht_has_def ent_is_def tab_addrs_def by (auto simp: qname_of_def)
qed

lemma cache_lookup_cases:
  assumes "base c" "tab_ok c" "wf_name nm"
  obtains (hit) a ce ls loc pre e post where "cache_lookup c (wire nm @ x) = Some (Some a, loc)" "c_heap c a = Some ce"
      "wf_name ls" "ce_qname ce = wire ls" "name_eq ls nm"
      "loc_bucket loc < length (c_tab c)" "c_tab c ! loc_bucket loc = pre @ e # post" "he_data e = a" "loc_pos loc = length pre"
      "\<And>b ce' ls'. c_heap c b = Some ce' \<Longrightarrow> ce_qname ce' = wire ls' \<Longrightarrow> list_all wf_label ls' \<Longrightarrow> name_eq ls' nm \<Longrightarrow> b = a"
  | (miss) loc where "cache_lookup c (wire nm @ x) = Some (None, loc)"
      "\<And>b ce' ls'. c_heap c b = Some ce' \<Longrightarrow> ce_qname ce' = wire ls' \<Longrightarrow> list_all wf_label ls' \<Longrightarrow> \<not> name_eq ls' nm"
proof -
  note ht = assms(2) [unfolded tab_ok_def, THEN conjunct1]
  show thesis
  proof (cases rule: dns_lookup_cases [OF ht wf_nameD [OF assms(3)], of x])
    case (1 idx rh pre e post)
    then have "ht_has (qname_of c) (c_tab c) nm (he_data e)" by simp
    then obtain ce ls where ce: "c_heap c (he_data e) = Some ce" "list_all wf_label ls" "ce_qname ce = wire ls" "name_eq ls nm"
      unfolding ht_has_heap [OF assms(2)] by blast
    from baseD(1) [OF assms(1) ce(1)] name_ok_wire [of "ce_qname ce"] obtain ls' where ls': "wf_name ls'" "ce_qname ce = wire ls'"
      by (auto simp: cent_ok_def)
    with ce(2,3) wire_inj wf_nameD have "ls' = ls" by metis
    with ce ls' 1 show thesis
      by (intro hit [of "he_data e" _ ce ls pre e post]) (auto simp: cache_lookup_def ht_has_heap [OF assms(2)])
  next
    case (2 idx rh pre post)
    then show thesis by (intro miss) (auto simp: cache_lookup_def ht_has_heap [OF assms(2)])
  qed
qed

subsection \<open>Deleting an entry\<close>

definition drop_ent :: "nat \<Rightarrow> dns_cent \<Rightarrow> htable \<Rightarrow> cache \<Rightarrow> cache" where
  "drop_ent a ce T c = c\<lparr>c_tab := T, c_size := c_size c - ce_cs ce, c_rrl := drop_lents ce (c_rrl c),
     c_heap := (c_heap c)(a := None), c_num := c_num c - 1\<rparr>"

lemma del_cent_eq:
  assumes "cent_wf ce" "c_heap c a = Some ce"
  shows "del_cent a (c\<lparr>c_tab := T\<rparr>) = Some (drop_ent a ce T c)"
  using assms by (simp add: del_cent_def free_cent_wf drop_ent_def)

lemma drop_ent_cinv:
  assumes "cinv c" "c_heap c a = Some ce" "htable_ok (qname_of c) T" "tab_addrs T = tab_addrs (c_tab c) - {a}"
  shows "cinv (drop_ent a ce T c)"
proof -
  let ?c = "drop_ent a ce T c"
  note i = cinvD [OF assms(1)]
  have b: "base ?c" by (rule base_delete [OF i(1) assms(2)]) (simp_all add: drop_ent_def)
  have dom: "tab_addrs T = dom (c_heap ?c)" using assms(4) i(6) by (auto simp: drop_ent_def)
  have "htable_ok (qname_of ?c) T"
    by (rule htable_ok_cong [OF _ assms(3)]) (use dom assms(4) in \<open>auto simp: qname_of_def drop_ent_def\<close>)
  with dom have "tab_ok ?c" by (simp add: tab_ok_def drop_ent_def)
  moreover have "total f ?c - f None = total f c - f (Some ce)" if "f None = 0" for f
    using total_frame [where f = f and c = c and c' = ?c and a = a] i(1) b that assms(2) by (simp add: drop_ent_def)
  from this [of ent_size] this [of ent_one] have "c_size ?c = total ent_size ?c" "c_num ?c = total ent_one ?c"
    using i(3,4) by (simp_all add: drop_ent_def)
  ultimately show ?thesis using b by (simp add: cinv_def)
qed

lemma del_cache_ent_None:
  assumes "cinv c" "c_heap c a = Some ce"
  shows "\<exists>T. del_cache_ent a None c = Some (drop_ent a ce T c) \<and> cinv (drop_ent a ce T c)"
proof -
  note i = cinvD [OF assms(1)] and wf = baseD(2) [OF cinvD(1) [OF assms(1)] assms(2)]
  from baseD(1) [OF i(1) assms(2)] name_ok_wire [of "ce_qname ce"] obtain ls where ls: "wf_name ls" "ce_qname ce = wire ls"
    by (auto simp: cent_ok_def)
  have has: "ht_has (qname_of c) (c_tab c) ls a"
    using ls assms(2) wf_nameD [OF ls(1)] unfolding ht_has_heap [OF i(2)] by blast
  show ?thesis
  proof (cases rule: dns_lookup_cases [OF i(5) wf_nameD [OF ls(1)], of "[]"])
    case (1 idx rh pre e post)
    with has have e: "he_data e = a" by simp
    let ?T = "(c_tab c)[idx := pre @ post]"
    have "remove_at (c_tab c) idx (length pre) = Some (a, ?T)"
      using 1(2,3) e by (simp add: remove_at_def mem_simps)
    with 1 have "del_dns_hash (qname_of c) (c_tab c) (wire ls) = Some (Some a, ?T)"
      using e by (simp add: del_dns_hash_def rd_def)
    then have "del_cache_ent a None c = Some (drop_ent a ce ?T c)"
      using assms(2) ls(2) del_cent_eq [OF wf assms(2)] by (simp add: del_cache_ent_def)
    moreover have "cinv (drop_ent a ce ?T c)"
      by (rule drop_ent_cinv [OF assms]) (use del_tab [OF i(5) 1(2,3)] e in simp_all)
    ultimately show ?thesis by blast
  next
    case (2 idx rh pre post)
    with has show ?thesis by simp
  qed
qed

lemma del_cache_ent_loc:
  assumes "cinv c" "c_heap c a = Some ce"
    and "loc_bucket loc < length (c_tab c)" "c_tab c ! loc_bucket loc = pre @ e # post" "he_data e = a" "loc_pos loc = length pre"
  shows "\<exists>T. del_cache_ent a (Some loc) c = Some (drop_ent a ce T c) \<and> cinv (drop_ent a ce T c)"
proof -
  note i = cinvD [OF assms(1)] and wf = baseD(2) [OF cinvD(1) [OF assms(1)] assms(2)]
  let ?T = "(c_tab c)[loc_bucket loc := pre @ post]"
  have "remove_at (c_tab c) (loc_bucket loc) (loc_pos loc) = Some (a, ?T)"
    using assms(3-6) by (simp add: remove_at_def mem_simps)
  then have "del_cache_ent a (Some loc) c = Some (drop_ent a ce ?T c)"
    using del_cent_eq [OF wf assms(2)] by (simp add: del_cache_ent_def del_dns_hash_ent_def)
  moreover have "cinv (drop_ent a ce ?T c)"
    by (rule drop_ent_cinv [OF assms(1,2)]) (use del_tab [OF i(5) assms(3,4)] assms(5) in simp_all)
  ultimately show ?thesis by blast
qed

end
