(* ===== verification/Cache_Purge.thy ===== *)
theory Cache_Purge
  imports Cache_Inv
begin

unbundle bit_operations_syntax

section \<open>Purging keeps the invariant\<close>

text \<open>
  What \<^verbatim>\<open>purge_cent\<close> and \<^verbatim>\<open>purge_cache\<close> do to a cache that satisfies the invariant: they run
  without touching freed memory, keep the invariant and every local RR set, and the trial run of
  \<^verbatim>\<open>purge_cent\<close> foretells the result of the real one.
\<close>

subsection \<open>Steps that only remove RR sets\<close>

definition purge_step :: "nat \<Rightarrow> cache \<Rightarrow> cache \<Rightarrow> bool" where
  "purge_step a c c' \<longleftrightarrow> ent_step a c c' \<and> c_mem c' = c_mem c \<and> set (c_rrl c') \<subseteq> set (c_rrl c) \<and>
     c_size c' - ent_size (c_heap c' a) = c_size c - ent_size (c_heap c a)"

lemma purge_step_refl: "base c \<Longrightarrow> c_heap c a = Some ce \<Longrightarrow> purge_step a c c"
  using ent_step_refl by (simp add: purge_step_def)

lemma purge_step_trans [trans]: "purge_step a c c' \<Longrightarrow> purge_step a c' c'' \<Longrightarrow> purge_step a c c''"
  unfolding purge_step_def using ent_step_trans by auto

lemma purge_step_cinv: "purge_step a c c' \<Longrightarrow> cinv c \<Longrightarrow> cinv c'"
  unfolding purge_step_def using cinv_step by blast

lemma purge_step_base: "purge_step a c c' \<Longrightarrow> base c'"
  unfolding purge_step_def using ent_step_base by blast

definition purged :: "nat \<Rightarrow> nat \<Rightarrow> dns_cent \<Rightarrow> cache \<Rightarrow> cache" where
  "purged a i ce c = (put_cent a (drop_set ce i) (unlink (set_lent_of ce i) c))\<lparr>c_size := c_size c - set_bytes (sets ce i)\<rparr>"

lemma purge_del_ok:
  assumes "base c" "c_heap c a = Some ce" "i < NRRTOT"
  shows "purge_del a i c = Some (purged a i ce c)" "purge_step a c (purged a i ce c)"
    "c_heap (purged a i ce c) a = Some (drop_set ce i)"
proof -
  note wf = baseD(2) [OF assms(1,2)]
  show "purge_del a i c = Some (purged a i ce c)"
    using assms(2,3) wf by (simp add: purge_del_def cent_simps purged_def)
  show h: "c_heap (purged a i ce c) a = Some (drop_set ce i)" by (simp add: purged_def put_cent_def)
  have "base (purged a i ce c)"
    by (rule base_drop_set [OF assms(1,2), of _ i]) (simp_all add: purged_def put_cent_def)
  then have "ent_step a c (purged a i ce c)"
    using assms(2) h same_head_name [OF same_head_drop [OF wf, of i]] by (simp add: ent_step_def frame_def purged_def put_cent_def)
  then show "purge_step a c (purged a i ce c)"
    using assms(2) drop_set_props(8) [OF wf, of i]
    by (auto simp: purge_step_def purged_def put_cent_def unlink_rrl)
qed

subsection \<open>All RR sets of an entry\<close>

definition stale_set :: "time_t \<Rightarrow> rr_set option \<Rightarrow> bool" where
  "stale_set now v \<longleftrightarrow> (\<exists>rs. v = Some rs \<and> purgeable now rs)"

fun purge_counts :: "time_t \<Rightarrow> (nat \<Rightarrow> rr_set option) \<Rightarrow> nat \<Rightarrow> nat \<Rightarrow> int \<times> nat \<times> nat" where
  "purge_counts now s i 0 = (0, 0, 0)"
| "purge_counts now s i (Suc n) =
     (let (rv, k, e) = purge_counts now s (i + 1) n
      in if s i = None then (rv, k, e)
         else if stale_set now (s i) then (rv + 1, k, e)
         else (rv, k + 1, if i \<ge> NRRMU then e + 1 else e))"

lemma purge_counts_cong: "\<forall>j\<ge>i. s j = t j \<Longrightarrow> purge_counts now s i n = purge_counts now t i n"
  by (induction n arbitrary: i) (auto simp: Let_def split: prod.splits)

lemma purge_counts_0:
  "purge_counts now s i n = (rv, k, e) \<Longrightarrow> 0 \<le> rv \<and> (rv = 0 \<longleftrightarrow> (\<forall>j\<in>{i..<i + n}. \<not> stale_set now (s j))) \<and>
     (k = 0 \<longleftrightarrow> (\<forall>j\<in>{i..<i + n}. s j = None \<or> stale_set now (s j))) \<and>
     (e = 0 \<longleftrightarrow> (\<forall>j\<in>{i..<i + n}. NRRMU \<le> j \<longrightarrow> s j = None \<or> stale_set now (s j)))"
proof (induction n arbitrary: i rv k e)
  case (Suc n)
  obtain rv' k' e' where r: "purge_counts now s (i + 1) n = (rv', k', e')" by (rule prod_cases3)
  have range: "{i..<i + Suc n} = insert i {i + 1..<i + 1 + n}" by auto
  have "s i = None \<Longrightarrow> \<not> stale_set now (s i)" by (simp add: stale_set_def)
  with Suc.IH [OF r] Suc.prems r show ?case unfolding range by (auto split: if_splits)
qed simp

lemma purge_loop_test:
  assumes "base c" "c_heap c a = Some ce"
  shows "i + n \<le> nsets ce \<Longrightarrow> purge_loop now a True i n c =
    (case purge_counts now (sets ce) i n of (rv, k, e) \<Rightarrow> Some (rv, k, e, c))"
proof (induction n arbitrary: i)
  case (Suc n)
  have "rrarr_index ce i = Some (sets ce i)" using Suc.prems baseD(2) [OF assms] by (simp add: cent_simps)
  with Suc.IH [of "i + 1"] Suc.prems assms(2) show ?case
    by (auto simp: stale_set_def Let_def split: option.splits prod.splits)
qed simp

lemma purge_loop_real:
  assumes "base c" "c_heap c a = Some ce" "i + n \<le> nsets ce"
  shows "\<exists>c' ce'. purge_loop now a False i n c =
      (case purge_counts now (sets ce) i n of (rv, k, e) \<Rightarrow> Some (rv, k, e, c')) \<and>
    purge_step a c c' \<and> c_heap c' a = Some ce' \<and> is_neg ce' = is_neg ce \<and> has_ext ce' = has_ext ce \<and>
    ce_c_ns ce' = ce_c_ns ce \<and> ce_c_soa ce' = ce_c_soa ce \<and> sets ce' = (\<lambda>j. if i \<le> j \<and> j < i + n \<and> stale_set now (sets ce j) then None else sets ce j) \<and>
    ((\<forall>j. i \<le> j \<and> j < i + n \<longrightarrow> \<not> stale_set now (sets ce j)) \<longrightarrow> c' = c)"
  using assms
proof (induction n arbitrary: i c ce)
  case 0
  have "(\<lambda>j. if i \<le> j \<and> j < i + 0 \<and> stale_set now (sets ce j) then None else sets ce j) = sets ce"
    by (intro ext if_not_P) linarith
  then show ?case using 0 purge_step_refl [OF 0(1,2)] by simp
next
  case (Suc n)
  note wf = baseD(2) [OF Suc.prems(1,2)]
  have idx: "rrarr_index ce i = Some (sets ce i)" using Suc.prems(3) wf by (simp add: cent_simps)
  show ?case
  proof (cases "stale_set now (sets ce i)")
    case True
    have i: "i < NRRTOT" using Suc.prems(3) nsets_le [of ce] by linarith
    note d = purge_del_ok [OF Suc.prems(1,2) i]
    note dp = drop_set_props [OF wf, of i]
    from Suc.IH [OF purge_step_base [OF d(2)] d(3), of "i + 1"] Suc.prems(3) dp(5) obtain c' ce' where
      r: "purge_loop now a False (i + 1) n (purged a i ce c) =
          (case purge_counts now (sets (drop_set ce i)) (i + 1) n of (rv, k, e) \<Rightarrow> Some (rv, k, e, c'))"
        "purge_step a (purged a i ce c) c'" "c_heap c' a = Some ce'" "is_neg ce' = is_neg (drop_set ce i)"
        "has_ext ce' = has_ext (drop_set ce i)"
        "ce_c_ns ce' = ce_c_ns (drop_set ce i)" "ce_c_soa ce' = ce_c_soa (drop_set ce i)"
        "sets ce' = (\<lambda>j. if i + 1 \<le> j \<and> j < i + 1 + n \<and> stale_set now (sets (drop_set ce i) j) then None else sets (drop_set ce i) j)"
      by auto
    have cnt: "purge_counts now (sets (drop_set ce i)) (i + 1) n = purge_counts now (sets ce) (i + 1) n"
      by (rule purge_counts_cong) (simp add: dp(2))
    have s: "sets ce' = (\<lambda>j. if i \<le> j \<and> j < i + Suc n \<and> stale_set now (sets ce j) then None else sets ce j)"
      unfolding r(8) dp(2) using True by (auto simp: fun_eq_iff stale_set_def)
    have "purge_loop now a False i (Suc n) c =
        (case purge_counts now (sets ce) i (Suc n) of (rv, k, e) \<Rightarrow> Some (rv, k, e, c'))"
      using idx Suc.prems(2) True d(1) r(1) cnt by (auto simp: stale_set_def split: prod.splits)
    moreover have "purge_step a c c'" using purge_step_trans [OF d(2) r(2)] .
    moreover have "\<exists>j. i \<le> j \<and> j < i + Suc n \<and> stale_set now (sets ce j)" using True by (intro exI [of _ i]) simp
    ultimately show ?thesis using r(3-7) s dp(3,4,9,10) by (intro exI [of _ c'] exI [of _ ce']) auto
  next
    case False
    from Suc.IH [OF Suc.prems(1,2), of "i + 1"] Suc.prems(3) obtain c' ce' where
      r: "purge_loop now a False (i + 1) n c =
          (case purge_counts now (sets ce) (i + 1) n of (rv, k, e) \<Rightarrow> Some (rv, k, e, c'))"
        "purge_step a c c'" "c_heap c' a = Some ce'" "is_neg ce' = is_neg ce" "has_ext ce' = has_ext ce"
        "ce_c_ns ce' = ce_c_ns ce" "ce_c_soa ce' = ce_c_soa ce"
        "sets ce' = (\<lambda>j. if i + 1 \<le> j \<and> j < i + 1 + n \<and> stale_set now (sets ce j) then None else sets ce j)"
        "(\<forall>j. i + 1 \<le> j \<and> j < i + 1 + n \<longrightarrow> \<not> stale_set now (sets ce j)) \<longrightarrow> c' = c"
      by auto
    have s: "sets ce' = (\<lambda>j. if i \<le> j \<and> j < i + Suc n \<and> stale_set now (sets ce j) then None else sets ce j)"
      unfolding r(8) using False by (auto simp: fun_eq_iff le_Suc_eq Suc_le_eq order.order_iff_strict)
    have "purge_loop now a False i (Suc n) c =
        (case purge_counts now (sets ce) i (Suc n) of (rv, k, e) \<Rightarrow> Some (rv, k, e, c'))"
      using idx Suc.prems(2) False r(1) by (auto simp: stale_set_def Let_def split: prod.splits option.splits)
    then show ?thesis using r(2-7,9) s by (intro exI [of _ c'] exI [of _ ce']) auto
  qed
qed

definition purge_sets :: "time_t \<Rightarrow> (nat \<Rightarrow> rr_set option) \<Rightarrow> nat \<Rightarrow> rr_set option" where
  "purge_sets now s j = (if stale_set now (s j) then None else s j)"

text \<open>Giving the array of the rarer types back.\<close>

lemma drop_ext_ok:
  assumes "cent_ok ce" "ce_un ce = RRPart mu (Some e)" "\<forall>j\<ge>NRRMU. sets ce j = None"
  defines "ce' \<equiv> ce\<lparr>ce_un := RRPart mu None, ce_cs := ce_cs ce - sizeof_ptr * int NRREXT\<rparr>"
  shows "cent_ok ce'" "sets ce' = sets ce" "lent_of ce' idx = lent_of ce idx" "is_neg ce' = is_neg ce"
proof -
  show s: "sets ce' = sets ce"
  proof
    fix j show "sets ce' j = sets ce j"
      using assms(2,3) by (cases "j < NRRMU") (auto simp: sets_def ce'_def not_less)
  qed
  show "is_neg ce' = is_neg ce" by (simp add: ce'_def)
  then show "cent_ok ce'"
    using assms(1,2) s by (auto simp: cent_ok_def cent_wf_def cent_bytes_def cent_count_def has_ext_def ce'_def)
  show "lent_of ce' idx = lent_of ce idx"
    using s assms(2) by (auto simp: lent_of_def set_lent_of_def neg_lent_def ce'_def split: option.splits)
qed

lemma purge_all_ok:
  assumes "base c" "c_heap c a = Some ce"
  shows "\<exists>rv k c' ce'. purge_all_rrsets now a True c = Some (rv, k, c) \<and>
    purge_all_rrsets now a False c = Some (rv, k, c') \<and> purge_step a c c' \<and> c_heap c' a = Some ce' \<and>
    is_neg ce' = is_neg ce \<and> sets ce' = purge_sets now (sets ce) \<and> ce_c_ns ce' = ce_c_ns ce \<and> ce_c_soa ce' = ce_c_soa ce \<and>
    0 \<le> rv \<and> (rv = 0 \<longrightarrow> c' = c) \<and> (k = 0 \<longleftrightarrow> (\<forall>j. sets ce' j = None))"
proof (cases "is_neg ce")
  case True
  have none: "sets ce j = None" for j using neg_sets [OF baseD(2) [OF assms] True] .
  then have "purge_sets now (sets ce) = sets ce" by (simp add: purge_sets_def fun_eq_iff)
  with True none assms purge_step_refl [OF assms] show ?thesis by (simp add: purge_all_rrsets_def)
next
  case False
  note wf = baseD(2) [OF assms]
  obtain rv k e where cnt: "purge_counts now (sets ce) 0 (nsets ce) = (rv, k, e)" by (rule prod_cases3)
  note zero = purge_counts_0 [OF cnt]
  from purge_loop_real [OF assms, of 0 "nsets ce" now] cnt obtain c1 ce1 where
    r: "purge_loop now a False 0 (nsets ce) c = Some (rv, k, e, c1)" "purge_step a c c1" "c_heap c1 a = Some ce1"
      "is_neg ce1 = is_neg ce" "has_ext ce1 = has_ext ce" "ce_c_ns ce1 = ce_c_ns ce \<and> ce_c_soa ce1 = ce_c_soa ce"
      "sets ce1 = (\<lambda>j. if j < nsets ce \<and> stale_set now (sets ce j) then None else sets ce j)"
      "(\<forall>j<nsets ce. \<not> stale_set now (sets ce j)) \<longrightarrow> c1 = c" by auto
  have s1: "sets ce1 = purge_sets now (sets ce)"
    unfolding r(7) purge_sets_def using sets_beyond [OF wf] by (auto simp: fun_eq_iff not_less)
  have t: "purge_loop now a True 0 (nsets ce) c = Some (rv, k, e, c)"
    using purge_loop_test [OF assms, of 0 "nsets ce" now] cnt by simp
  from cent_wf_pos [OF wf False] obtain mu ext where un: "ce_un ce = RRPart mu ext" by blast
  note wf1 = baseD(2) [OF purge_step_base [OF r(2)] r(3)]
  from cent_wf_pos [OF wf1] r(4) False obtain mu1 ext1 where un1: "ce_un ce1 = RRPart mu1 ext1" by auto
  have ext: "has_ext ce = (ext \<noteq> None)" "has_ext ce1 = (ext1 \<noteq> None)" using un un1 by (simp_all add: has_ext_def)
  have k: "k = 0 \<longleftrightarrow> (\<forall>j. sets ce1 j = None)"
  proof -
    have "k = 0 \<longleftrightarrow> (\<forall>j<nsets ce. sets ce1 j = None)" using zero by (auto simp: s1 purge_sets_def)
    then show ?thesis using sets_beyond [OF wf] by (metis s1 purge_sets_def not_le)
  qed
  note c_fields = r(6)
  show ?thesis
  proof (cases "ext \<noteq> None \<and> e = 0")
    case True
    then obtain x x1 where x: "ext = Some x" "ext1 = Some x1" using ext r(5) by auto
    have high: "\<forall>j\<ge>NRRMU. sets ce1 j = None"
    proof (intro allI impI)
      fix j assume "NRRMU \<le> j"
      then show "sets ce1 j = None" using zero True sets_beyond [OF wf, of j] by (cases "j < nsets ce") (auto simp: s1 purge_sets_def)
    qed
    let ?ce = "ce1\<lparr>ce_un := RRPart mu1 None, ce_cs := ce_cs ce1 - sizeof_ptr * int NRREXT\<rparr>"
    let ?c = "(put_cent a ?ce c1)\<lparr>c_size := c_size c1 - sizeof_ptr * int NRREXT\<rparr>"
    note d = drop_ext_ok [OF baseD(1) [OF purge_step_base [OF r(2)] r(3)] un1 [unfolded x] high]
    have "base (put_cent a ?ce c1)" by (rule base_put [OF purge_step_base [OF r(2)] r(3) d(1,3)])
    then have "base ?c" by (rule base_fields) simp_all
    then have "purge_step a c1 ?c"
      using r(3) by (auto simp: purge_step_def ent_step_def frame_def put_cent_def same_name_def)
    with purge_step_trans [OF r(2)] have "purge_step a c ?c" by blast
    moreover have "purge_all_rrsets now a False c = Some (rv + 1, k, ?c)"
      using assms(2) False wf r(1,3) un1 x True by (simp add: purge_all_rrsets_def cent_simps rr_part_def)
    moreover have "purge_all_rrsets now a True c = Some (rv + 1, k, c)"
      using assms(2) False wf t un x True by (simp add: purge_all_rrsets_def cent_simps rr_part_def)
    moreover have "c_heap ?c a = Some ?ce" by (simp add: put_cent_def)
    ultimately show ?thesis using d(2,4) s1 k c_fields r(4) zero by (intro exI [of _ "rv + 1"] exI [of _ k] exI [of _ ?c] exI [of _ ?ce]) auto
  next
    case noext: False
    have "purge_all_rrsets now a False c = Some (rv, k, c1)"
      using assms(2) False wf r(1,3) un1 ext r(5) noext by (auto simp: purge_all_rrsets_def cent_simps rr_part_def)
    moreover have "purge_all_rrsets now a True c = Some (rv, k, c)"
      using assms(2) False wf t un noext by (auto simp: purge_all_rrsets_def cent_simps rr_part_def)
    moreover have "rv = 0 \<longrightarrow> c1 = c" using r(8) zero by auto
    ultimately show ?thesis using r(2-4) s1 k c_fields zero by (intro exI [of _ rv] exI [of _ k] exI [of _ c1] exI [of _ ce1]) auto
  qed
qed

subsection \<open>The references to NS and SOA records\<close>

definition stale_val :: "time_t \<Rightarrow> rr_set option \<Rightarrow> bool" where
  "stale_val now v = (case v of None \<Rightarrow> True
     | Some rs \<Rightarrow> rs_rrs rs = [] \<or> (\<not> fset (rs_flags rs) CF_LOCAL \<and> timedout now rs))"

lemma stale_val_purge: "stale_val now (purge_sets now s j) = stale_val now (s j)"
  by (auto simp: stale_val_def purge_sets_def stale_set_def purgeable_def split: option.splits)

lemma getrrset_ref:
  assumes "cent_wf ce"
  shows "getrrset_NS ce = Some (sets ce 1)" "getrrset_SOA ce = Some (sets ce 3)"
  using assms cent_wf_pos [OF assms] neg_sets [OF assms]
  by (auto simp: getrrset_NS_def getrrset_SOA_def get_rrsmu_def rr_part_def rd_def sets_def nrr_defs)

text \<open>\<open>c1\<close> differs from \<open>c\<close> in the entry \<open>a\<close>, whose stale sets may be gone.\<close>

definition trimmed :: "time_t \<Rightarrow> nat \<Rightarrow> cache \<Rightarrow> cache \<Rightarrow> bool" where
  "trimmed now a c c1 \<longleftrightarrow> ent_step a c c1 \<and>
     (\<exists>ce ce1. c_heap c a = Some ce \<and> c_heap c1 a = Some ce1 \<and>
        (\<forall>j. stale_val now (sets ce1 j) = stale_val now (sets ce j)))"

lemma stale_ref_ok:
  assumes c: "base c" "tab_ok c" "trimmed now a c c1" and e: "c_heap c a = Some ce" "c_heap c1 a = Some ce1"
    and get: "\<And>x. cent_wf x \<Longrightarrow> get x = Some (sets x k)" and scnt: "rhnsegcnt (ce_qname ce) = Some scnt"
  shows "\<exists>b. stale_ref now get ce cnt scnt c = Some b \<and> stale_ref now get ce1 cnt scnt c1 = Some b"
proof -
  from c(3) have st: "ent_step a c c1" by (simp add: trimmed_def)
  have same: "stale_val now (sets y k) = stale_val now (sets x k)" if "c_heap c b = Some x" "c_heap c1 b = Some y" for b x y
    using that c(3) by (cases "b = a") (auto simp: trimmed_def ent_step_def frame_def)
  have q: "ce_qname ce1 = ce_qname ce" using st e by (auto simp: ent_step_def same_name_def)
  note wf = baseD(2) [OF c(1) e(1)] and wf1 = baseD(2) [OF ent_step_base [OF st] e(2)]
  have val: "(case v of None \<Rightarrow> True | Some rs \<Rightarrow> rs_rrs rs = [] \<or> \<not> fset (rs_flags rs) CF_LOCAL \<and> timedout now rs) = stale_val now v" for v
    by (simp add: stale_val_def)
  consider "cnt = scnt" | "cnt < scnt" | "scnt < cnt" by linarith
  then show ?thesis
  proof cases
    case 1
    with get [OF wf] get [OF wf1] same [OF e] show ?thesis by (simp add: stale_ref_def val)
  next
    case 2
    from baseD(1) [OF c(1) e(1)] name_ok_wire [of "ce_qname ce"] obtain ls where ls: "wf_name ls" "ce_qname ce = wire ls"
      by (auto simp: cent_ok_def)
    let ?nm = "drop (scnt - cnt) ls"
    have skip: "skipsegs (ce_qname ce) (scnt - cnt) = Some (wire ?nm)"
      using skipsegs_wire [OF wf_nameD [OF ls(1)], of "[]"] ls(2) by simp
    have "wf_name ?nm" using wf_name_suffix [of "take (scnt - cnt) ls" ?nm] ls(1) by simp
    from cache_lookup_cases [OF c(1,2) this, of "[]"] obtain r loc where
      lk: "cache_lookup c (wire ?nm) = Some (r, loc)" "\<forall>b. r = Some b \<longrightarrow> (\<exists>x. c_heap c b = Some x)"
      by (metis append_Nil2 option.distinct(1) option.inject)
    have lk1: "cache_lookup c1 (wire ?nm) = Some (r, loc)"
      using lk(1) ent_step_qname [OF st] ent_step_tab(1) [OF st] by (simp add: cache_lookup_def)
    show ?thesis
    proof (cases r)
      case None
      with 2 skip lk(1) lk1 q show ?thesis by (intro exI [of _ True]) (simp add: stale_ref_def)
    next
      case (Some b)
      with lk(2) obtain x where x: "c_heap c b = Some x" by blast
      then obtain y where y: "c_heap c1 b = Some y" using ent_step_dom [OF st] by (auto simp: dom_def)
      from get [OF baseD(2) [OF c(1) x]] get [OF baseD(2) [OF ent_step_base [OF st] y]] same [OF x y]
      show ?thesis using 2 skip lk(1) lk1 q Some x y by (simp add: stale_ref_def val)
    qed
  next
    case 3
    with q show ?thesis by (intro exI [of _ True]) (simp add: stale_ref_def)
  qed
qed

lemma set_ref_ok:
  assumes "base c" "c_heap c a = Some ce"
    and "ce' = ce\<lparr>ce_c_ns := m\<rparr> \<or> ce' = ce\<lparr>ce_c_soa := m\<rparr>"
  shows "purge_step a c (put_cent a ce' c)" "sets ce' = sets ce" "is_neg ce' = is_neg ce"
proof -
  note ok = baseD(1) [OF assms(1,2)]
  have ok': "cent_ok ce'" using ok assms(3) by (auto simp: cent_ok_def)
  show s: "sets ce' = sets ce" "is_neg ce' = is_neg ce" using assms(3) by auto
  have "lent_of ce' idx = lent_of ce idx" for idx
    using s assms(3) by (auto simp: lent_of_def set_lent_of_def split: option.splits)
  from base_put [OF assms(1,2) ok' this] show "purge_step a c (put_cent a ce' c)"
    using assms(2,3) by (auto simp: purge_step_def ent_step_def frame_def put_cent_def same_name_def)
qed

lemma put_cent_at [simp]: "c_heap (put_cent a ce c) a = Some ce"
  by (simp add: put_cent_def)

lemma trimmed_purge:
  assumes "trimmed now a c c1" "purge_step a c1 c2" "c_heap c1 a = Some x" "c_heap c2 a = Some y" "sets y = sets x"
  shows "trimmed now a c c2"
  using assms ent_step_trans by (auto simp: trimmed_def purge_step_def)

lemma purge_refs_ok:
  assumes c: "base c" "tab_ok c" "trimmed now a c c1"
    and e: "c_heap c a = Some ce" "c_heap c1 a = Some ce1" "ce_c_ns ce1 = ce_c_ns ce" "ce_c_soa ce1 = ce_c_soa ce"
  shows "\<exists>n c2 ce2. purge_refs now a True np c = Some (n, c) \<and> purge_refs now a False np c1 = Some (n, c2) \<and>
    purge_step a c1 c2 \<and> c_heap c2 a = Some ce2 \<and> sets ce2 = sets ce1 \<and> is_neg ce2 = is_neg ce1 \<and> np \<le> n \<and> (n = np \<longrightarrow> c2 = c1)"
proof -
  have st: "ent_step a c c1" using c(3) by (simp add: trimmed_def)
  have b1: "base c1" using ent_step_base [OF st] .
  have q: "ce_qname ce1 = ce_qname ce" using st e by (auto simp: ent_step_def same_name_def)
  from baseD(1) [OF c(1) e(1)] name_ok_wire [of "ce_qname ce"] obtain ls where ls: "wf_name ls" "ce_qname ce = wire ls"
    by (auto simp: cent_ok_def)
  have sc: "rhnsegcnt (ce_qname ce) = Some (length ls)"
    using rhnsegcnt_wire [OF wf_nameD [OF ls(1)], of "[]"] ls(2) by simp
  from stale_ref_ok [OF c e(1,2) getrrset_ref(1) sc, of "ce_c_ns ce"] obtain s1 where
    s1: "stale_ref now getrrset_NS ce (ce_c_ns ce) (length ls) c = Some s1"
      "stale_ref now getrrset_NS ce1 (ce_c_ns ce) (length ls) c1 = Some s1" by blast
  let ?t1 = "ce_c_ns ce \<noteq> cundef \<and> s1"
  let ?ce2 = "if ?t1 then ce1\<lparr>ce_c_ns := cundef\<rparr> else ce1"
  let ?c2 = "if ?t1 then put_cent a ?ce2 c1 else c1"
  have e2: "c_heap ?c2 a = Some ?ce2" using e(2) by (simp add: put_cent_def)
  have p2: "purge_step a c1 ?c2" "sets ?ce2 = sets ce1" "is_neg ?ce2 = is_neg ce1"
    using set_ref_ok [OF b1 e(2), of "ce1\<lparr>ce_c_ns := cundef\<rparr>" cundef] purge_step_refl [OF b1 e(2)] by auto
  from stale_ref_ok [OF c(1,2) trimmed_purge [OF c(3) p2(1) e(2) e2 p2(2)] e(1) e2 getrrset_ref(2) sc, of "ce_c_soa ce"]
  obtain s2 where s2: "stale_ref now getrrset_SOA ce (ce_c_soa ce) (length ls) c = Some s2"
      "stale_ref now getrrset_SOA ?ce2 (ce_c_soa ce) (length ls) ?c2 = Some s2" by blast
  let ?t2 = "ce_c_soa ce \<noteq> cundef \<and> s2"
  let ?ce3 = "if ?t2 then ?ce2\<lparr>ce_c_soa := cundef\<rparr> else ?ce2"
  let ?c3 = "if ?t2 then put_cent a ?ce3 ?c2 else ?c2"
  have b2: "base ?c2" using purge_step_base [OF p2(1)] .
  have e3: "c_heap ?c3 a = Some ?ce3" using e2 by (simp add: put_cent_def)
  have p3: "purge_step a ?c2 ?c3" "sets ?ce3 = sets ?ce2" "is_neg ?ce3 = is_neg ?ce2"
    using set_ref_ok [OF b2 e2, of "?ce2\<lparr>ce_c_soa := cundef\<rparr>" cundef] purge_step_refl [OF b2 e2] by auto
  let ?n = "np + of_bool ?t1 + of_bool ?t2"
  have "purge_refs now a True np c = Some (?n, c)"
    using e(1) sc s1(1) s2(1) by (auto simp: purge_refs_def)
  moreover have "purge_refs now a False np c1 = Some (?n, ?c3)"
    using e sc q s1(2) s2(2)
    by (cases "ce_c_ns ce = cundef"; cases "ce_c_soa ce = cundef"; cases s1; cases s2) (simp_all add: purge_refs_def)
  ultimately show ?thesis using purge_step_trans [OF p2(1) p3(1)] e3 p2(2,3) p3(2,3)
    by (intro exI [of _ ?n] exI [of _ ?c3] exI [of _ ?ce3]) auto
qed

subsection \<open>purge_cent\<close>

text \<open>The trial run and the real run side by side; \<open>c2\<close> is the cache after the real one.\<close>

lemma purge_cent_ok:
  assumes "cinv c" "c_heap c a = Some ce"
  shows "\<exists>n c2. purge_cent now a del True c = Some (n, c) \<and> purge_cent now a del False c = Some (n, c2) \<and> cinv c2 \<and>
    (if n < 0
     then n = -1 \<and> del \<and> (\<forall>j. sets ce j = None \<or> stale_set now (sets ce j)) \<and>
       (is_neg ce \<longrightarrow> \<not> fset (ce_flags ce) DF_LOCAL) \<and> c_heap c2 = (c_heap c)(a := None) \<and> c_brk c \<le> c_brk c2 \<and>
       c_mem c2 = c_mem c \<and> c_insert_sort c2 = c_insert_sort c
     else (\<exists>ce2. purge_step a c c2 \<and> c_heap c2 a = Some ce2 \<and> is_neg ce2 = is_neg ce \<and> sets ce2 = purge_sets now (sets ce)) \<and>
       (n = 0 \<longrightarrow> c2 = c))"
proof -
  note i = cinvD [OF assms(1)]
  from purge_all_ok [OF i(1) assms(2), of now] obtain rv k c1 ce1 where
    p: "purge_all_rrsets now a True c = Some (rv, k, c)" "purge_all_rrsets now a False c = Some (rv, k, c1)"
      "purge_step a c c1" "c_heap c1 a = Some ce1" "is_neg ce1 = is_neg ce" "sets ce1 = purge_sets now (sets ce)"
      "ce_c_ns ce1 = ce_c_ns ce" "ce_c_soa ce1 = ce_c_soa ce" "0 \<le> rv" "rv = 0 \<longrightarrow> c1 = c"
      "k = 0 \<longleftrightarrow> (\<forall>j. sets ce1 j = None)" by blast
  note b1 = purge_step_base [OF p(3)] and inv1 = purge_step_cinv [OF p(3) assms(1)]
  note wf = baseD(2) [OF i(1) assms(2)] and wf1 = baseD(2) [OF b1 p(4)]
  have loc: "fset (ce_flags ce1) DF_LOCAL = fset (ce_flags ce) DF_LOCAL"
    using p(3,4) assms(2) by (auto simp: purge_step_def ent_step_def same_name_def)
  have neg_un: "neg_part ce1 = neg_part ce" if "is_neg ce"
  proof -
    have "rv = 0" using p(1) that assms(2) by (simp add: purge_all_rrsets_def)
    with p(4,10) assms(2) show ?thesis by simp
  qed
  have "\<exists>g. no_longer_needed now ce = Some g \<and> no_longer_needed now ce1 = Some g \<and>
      (g \<and> is_neg ce \<longrightarrow> \<not> fset (ce_flags ce) DF_LOCAL)"
    using cent_wf_neg [OF wf] neg_un p(5) loc
    by (cases "is_neg ce") (auto simp: no_longer_needed_def timedout_nxdom_def neg_part_def)
  then obtain g where g: "no_longer_needed now ce = Some g" "no_longer_needed now ce1 = Some g"
    "g \<and> is_neg ce \<longrightarrow> \<not> fset (ce_flags ce) DF_LOCAL" by blast
  have st: "ent_step a c c1" using p(3) by (simp add: purge_step_def)
  have tr: "trimmed now a c c1"
    using st assms(2) p(4,6) by (auto simp: trimmed_def stale_val_purge)
  show ?thesis
  proof (cases "del \<and> k = 0 \<and> g")
    case True
    from del_cache_ent_None [OF inv1 p(4)] obtain T where
      d: "del_cache_ent a None c1 = Some (drop_ent a ce1 T c1)" "cinv (drop_ent a ce1 T c1)" by blast
    have "purge_cent now a del True c = Some (-1, c)" "purge_cent now a del False c = Some (-1, drop_ent a ce1 T c1)"
      using p(1,2,4) g(1,2) assms(2) True d(1) by (simp_all add: purge_cent_def)
    moreover have "\<forall>j. sets ce j = None \<or> stale_set now (sets ce j)"
      using True p(11) by (simp add: p(6) purge_sets_def disj_commute split: if_splits)
    moreover have "c_heap (drop_ent a ce1 T c1) = (c_heap c)(a := None)"
      using st by (auto simp: drop_ent_def ent_step_def frame_def fun_eq_iff)
    ultimately show ?thesis using True d(2) g(3) p(3) st
      by (intro exI [of _ "-1"] exI [of _ "drop_ent a ce1 T c1"]) (auto simp: drop_ent_def purge_step_def ent_step_def frame_def)
  next
    case False
    show ?thesis
    proof (cases "fset (ce_flags ce) DF_LOCAL")
      case True
      have "purge_cent now a del True c = Some (rv, c)" "purge_cent now a del False c = Some (rv, c1)"
        using p(1,2,4) g(1,2) assms(2) False True loc by (auto simp: purge_cent_def)
      with p inv1 show ?thesis by (intro exI [of _ rv] exI [of _ c1]) auto
    next
      case nl: False
      from purge_refs_ok [OF i(1,2) tr assms(2) p(4,7,8), of rv] obtain n c2 ce2 where
        r: "purge_refs now a True rv c = Some (n, c)" "purge_refs now a False rv c1 = Some (n, c2)"
          "purge_step a c1 c2" "c_heap c2 a = Some ce2" "sets ce2 = sets ce1" "is_neg ce2 = is_neg ce1" "rv \<le> n"
          "n = rv \<longrightarrow> c2 = c1" by blast
      have "purge_cent now a del True c = Some (n, c)" "purge_cent now a del False c = Some (n, c2)"
        using p(1,2,4) g(1,2) assms(2) False nl loc r(1,2) by (auto simp: purge_cent_def)
      moreover have "0 \<le> n" "n = 0 \<longrightarrow> c2 = c" using r(7,8) p(9,10) by auto
      moreover have "purge_step a c c2" using purge_step_trans [OF p(3) r(3)] .
      ultimately show ?thesis using r(4-6) p(5,6) purge_step_cinv [OF r(3) inv1]
        by (intro exI [of _ n] exI [of _ c2]) auto
    qed
  qed
qed

subsection \<open>Local RR sets\<close>

text \<open>The RR sets that come from the configuration or a hosts file, wherever their entry lies.\<close>

definition local_sets :: "cache \<Rightarrow> (byte list \<times> nat \<times> rr_set) set" where
  "local_sets c = {(ce_qname ce, i, strip rs) | a ce i rs.
     c_heap c a = Some ce \<and> sets ce i = Some rs \<and> fset (rs_flags rs) CF_LOCAL}"

definition keeps_local :: "dns_cent \<Rightarrow> dns_cent \<Rightarrow> bool" where
  "keeps_local ce ce' \<longleftrightarrow> (\<forall>i rs. sets ce i = Some rs \<and> fset (rs_flags rs) CF_LOCAL \<longrightarrow>
     (\<exists>rs'. sets ce' i = Some rs' \<and> strip rs' = strip rs))"

lemma strip_flags: "strip rs' = strip rs \<Longrightarrow> rs_flags rs' = rs_flags rs"
  by (drule arg_cong [where f = rs_flags]) (simp add: strip_def)

lemma keeps_local_refl [simp, intro!]: "keeps_local ce ce"
  by (simp add: keeps_local_def)

lemma keeps_local_trans: "keeps_local a b \<Longrightarrow> keeps_local b c \<Longrightarrow> keeps_local a c"
  unfolding keeps_local_def by (metis strip_flags)

lemma local_sets_step:
  assumes "ent_step a c c'" "c_heap c a = Some ce" "c_heap c' a = Some ce'" "keeps_local ce ce'"
  shows "local_sets c \<subseteq> local_sets c'"
proof
  fix x assume "x \<in> local_sets c"
  then obtain b ce0 i rs where x: "x = (ce_qname ce0, i, strip rs)" "c_heap c b = Some ce0" "sets ce0 i = Some rs"
    "fset (rs_flags rs) CF_LOCAL" by (auto simp: local_sets_def)
  show "x \<in> local_sets c'"
  proof (cases "b = a")
    case True
    with x assms(2) have "ce0 = ce" by simp
    with x assms(4) obtain rs' where "sets ce' i = Some rs'" "strip rs' = strip rs" by (auto simp: keeps_local_def)
    moreover have "ce_qname ce' = ce_qname ce" using assms(1-3) by (auto simp: ent_step_def same_name_def)
    ultimately have "x = (ce_qname ce', i, strip rs')" "c_heap c' a = Some ce'" "sets ce' i = Some rs'" "fset (rs_flags rs') CF_LOCAL"
      using x assms(3) \<open>ce0 = ce\<close> strip_flags [of rs' rs] by simp_all
    then show ?thesis unfolding local_sets_def by blast
  next
    case False
    with x assms(1) have "c_heap c' b = Some ce0" by (simp add: ent_step_def frame_def)
    with x show ?thesis unfolding local_sets_def by blast
  qed
qed

lemma local_sets_drop:
  assumes "c_heap c' = (c_heap c)(a := None)" "c_heap c a = Some ce"
    and "\<And>i rs. sets ce i = Some rs \<Longrightarrow> \<not> fset (rs_flags rs) CF_LOCAL"
  shows "local_sets c \<subseteq> local_sets c'"
proof
  fix x assume "x \<in> local_sets c"
  then obtain b ce0 i rs where x: "x = (ce_qname ce0, i, strip rs)" "c_heap c b = Some ce0" "sets ce0 i = Some rs"
    "fset (rs_flags rs) CF_LOCAL" by (auto simp: local_sets_def)
  with assms(2,3) have "b \<noteq> a" by auto
  with x(2) assms(1) have "c_heap c' b = Some ce0" by simp
  with x show "x \<in> local_sets c'" unfolding local_sets_def by blast
qed

lemma stale_not_local: "stale_set now (Some rs) \<Longrightarrow> \<not> fset (rs_flags rs) CF_LOCAL"
  by (simp add: stale_set_def purgeable_def)

lemma keeps_local_purge:
  assumes "sets ce' = purge_sets now (sets ce)" shows "keeps_local ce ce'"
  using assms stale_not_local by (auto simp: keeps_local_def purge_sets_def)

lemma keeps_local_drop:
  assumes "cent_wf ce" "\<And>rs. sets ce i = Some rs \<Longrightarrow> \<not> fset (rs_flags rs) CF_LOCAL"
  shows "keeps_local ce (drop_set ce i)"
  using assms(2) by (auto simp: keeps_local_def drop_set_props(2) [OF assms(1)])

lemma purge_cent_local:
  assumes "cinv c" "c_heap c a = Some ce" "purge_cent now a del False c = Some (n, c2)"
  shows "local_sets c \<subseteq> local_sets c2"
proof -
  from purge_cent_ok [OF assms(1,2), of now del] assms(3) have
    p: "if n < 0 then (\<forall>j. sets ce j = None \<or> stale_set now (sets ce j)) \<and> c_heap c2 = (c_heap c)(a := None)
      else \<exists>ce2. purge_step a c c2 \<and> c_heap c2 a = Some ce2 \<and> sets ce2 = purge_sets now (sets ce)"
    by (auto split: if_splits)
  show ?thesis
  proof (cases "n < 0")
    case True
    with p stale_not_local show ?thesis by (intro local_sets_drop [OF _ assms(2)]) (auto, metis option.distinct(1))
  next
    case False
    with p obtain ce2 where "purge_step a c c2" "c_heap c2 a = Some ce2" "sets ce2 = purge_sets now (sets ce)" by auto
    then show ?thesis using local_sets_step [OF _ assms(2)] keeps_local_purge by (auto simp: purge_step_def)
  qed
qed

subsection \<open>The walks of purge_cache\<close>

text \<open>The later entry has no set the earlier one does not have, up to the nodes.\<close>

definition fewer :: "dns_cent \<Rightarrow> dns_cent \<Rightarrow> bool" where
  "fewer ce ce' \<longleftrightarrow> (\<forall>j. sets ce' j = None \<or> map_option strip (sets ce' j) = map_option strip (sets ce j))"

lemma fewer_refl [simp, intro!]: "fewer ce ce"
  by (simp add: fewer_def)

lemma fewer_trans: "fewer a b \<Longrightarrow> fewer b c \<Longrightarrow> fewer a c"
  unfolding fewer_def by (metis option.map_disc_iff)

lemma fewer_Some: "fewer ce ce' \<Longrightarrow> sets ce' j = Some rs' \<Longrightarrow> \<exists>rs. sets ce j = Some rs \<and> strip rs = strip rs'"
  unfolding fewer_def by (metis (no_types, lifting) map_option_eq_Some option.distinct(1) option.simps(9))

lemma fewer_drop: "cent_wf ce \<Longrightarrow> fewer ce (drop_set ce i)"
  by (simp add: fewer_def drop_set_props(2))

definition heap_fewer :: "cache \<Rightarrow> cache \<Rightarrow> bool" where
  "heap_fewer c c' \<longleftrightarrow> (\<forall>a ce'. c_heap c' a = Some ce' \<longrightarrow>
     (\<exists>ce. c_heap c a = Some ce \<and> ce_qname ce' = ce_qname ce \<and> fewer ce ce'))"

lemma heap_fewer_refl [simp, intro!]: "heap_fewer c c"
  by (auto simp: heap_fewer_def)

lemma heap_fewer_trans:
  assumes "heap_fewer x y" "heap_fewer y z" shows "heap_fewer x z"
  unfolding heap_fewer_def
proof (intro allI impI)
  fix a ce'' assume "c_heap z a = Some ce''"
  with assms(2) obtain ce' where 1: "c_heap y a = Some ce'" "ce_qname ce'' = ce_qname ce'" "fewer ce' ce''"
    unfolding heap_fewer_def by blast
  from assms(1) 1(1) obtain ce where "c_heap x a = Some ce" "ce_qname ce' = ce_qname ce" "fewer ce ce'"
    unfolding heap_fewer_def by blast
  with 1 fewer_trans [of ce ce' ce''] show "\<exists>ce. c_heap x a = Some ce \<and> ce_qname ce'' = ce_qname ce \<and> fewer ce ce''" by simp
qed

lemma heap_fewer_step:
  assumes "ent_step a c c'" "c_heap c a = Some ce" "c_heap c' a = Some ce'" "fewer ce ce'"
  shows "heap_fewer c c'"
  unfolding heap_fewer_def
proof (intro allI impI)
  fix b x assume x: "c_heap c' b = Some x"
  show "\<exists>y. c_heap c b = Some y \<and> ce_qname x = ce_qname y \<and> fewer y x"
  proof (cases "b = a")
    case True
    with x assms show ?thesis by (auto simp: ent_step_def same_name_def)
  next
    case False
    with x assms(1) show ?thesis by (auto simp: ent_step_def frame_def)
  qed
qed

lemma heap_fewer_drop: "c_heap c' = (c_heap c)(a := None) \<Longrightarrow> heap_fewer c c'"
  by (auto simp: heap_fewer_def split: if_splits)

definition node_local :: "cache \<Rightarrow> rr_lent \<Rightarrow> bool" where
  "node_local c le \<longleftrightarrow> (\<exists>ce. c_heap c (le_cent le) = Some ce \<and> lent_local ce (le_idx le) = Some True)"

definition walk_rel :: "rr_lent \<Rightarrow> cache \<Rightarrow> cache \<Rightarrow> bool" where
  "walk_rel le c c' \<longleftrightarrow> cinv c' \<and> local_sets c \<subseteq> local_sets c' \<and> set (c_rrl c') \<subseteq> set (c_rrl c) \<and>
     set (c_rrl c) - {le} \<subseteq> set (c_rrl c') \<and> c_insert_sort c' = c_insert_sort c \<and> c_mem c' = c_mem c \<and>
     (\<forall>x\<in>set (c_rrl c'). node_local c' x = node_local c x) \<and> heap_fewer c c'"

lemma walk_rel_refl: "cinv c \<Longrightarrow> walk_rel le c c"
  by (auto simp: walk_rel_def)

lemma walk_rel_trans:
  assumes "walk_rel le c c'" "walk_rel le c' c''" shows "walk_rel le c c''"
proof -
  note d = assms [unfolded walk_rel_def]
  have 1: "local_sets c \<subseteq> local_sets c''" "set (c_rrl c'') \<subseteq> set (c_rrl c)" "set (c_rrl c) - {le} \<subseteq> set (c_rrl c'')"
    using d by blast+
  have 2: "c_insert_sort c'' = c_insert_sort c" "c_mem c'' = c_mem c" using d by simp_all
  have 3: "\<forall>x\<in>set (c_rrl c''). node_local c'' x = node_local c x" using d by (metis subsetD)
  have 4: "heap_fewer c c''" by (rule heap_fewer_trans [of c c']) (use d in blast)+
  have "cinv c''" using d by blast
  with 1 2 3 4 show ?thesis unfolding walk_rel_def by blast
qed

lemma node_local_eq:
  assumes "base c" "le \<in> set (c_rrl c)"
  shows "\<exists>ce. c_heap c (le_cent le) = Some ce \<and> lent_of ce (le_idx le) = Some (le_id le) \<and> node_slot ce (le_idx le) \<and>
    lent_local ce (le_idx le) = Some (node_local c le)"
proof -
  from assms obtain ce where ce: "c_heap c (le_cent le) = Some ce" "lent_of ce (le_idx le) = Some (le_id le)"
    using baseD(6) by blast
  note s = lent_slot [OF baseD(2) [OF assms(1) ce(1)] ce(2)]
  with ce lent_local_wf [OF baseD(2) [OF assms(1) ce(1)] s] show ?thesis by (auto simp: node_local_def)
qed

lemma walk_purged:
  assumes "cinv c" "le \<in> set (c_rrl c)" "le_idx le = Some i" "\<not> node_local c le" "c_heap c (le_cent le) = Some ce"
  shows "purge_del (le_cent le) i c = Some (purged (le_cent le) i ce c)" "walk_rel le c (purged (le_cent le) i ce c)"
    "le \<notin> set (c_rrl (purged (le_cent le) i ce c))" "c_heap (purged (le_cent le) i ce c) (le_cent le) = Some (drop_set ce i)"
proof -
  let ?a = "le_cent le" and ?c = "purged (le_cent le) i ce c"
  note b = cinvD(1) [OF assms(1)]
  note wf = baseD(2) [OF b assms(5)]
  from node_local_eq [OF b assms(2)] assms(3-5) have n: "lent_of ce (Some i) = Some (le_id le)"
    "node_slot ce (Some i)" "lent_local ce (Some i) = Some False" by auto
  from n(2) obtain rs where rs: "sets ce i = Some rs" by (auto simp: node_slot_def)
  have i: "i < NRRTOT" using sets_Some_less [OF wf rs] nsets_le [of ce] by simp
  have nl: "\<not> fset (ce_flags ce) DF_LOCAL" "\<not> fset (rs_flags rs) CF_LOCAL"
    using n(3) lent_local_wf [OF wf n(2)] rs by auto
  note d = purge_del_ok [OF b assms(5) i]
  show "purge_del ?a i c = Some ?c" "c_heap ?c ?a = Some (drop_set ce i)" by (rule d)+
  have rrl: "c_rrl ?c = filter (\<lambda>x. le_id x \<noteq> le_id le) (c_rrl c)"
    using n(1) by (simp add: purged_def put_cent_def unlink_rrl lent_of_def)
  then show "le \<notin> set (c_rrl ?c)" by simp
  have "node_local ?c x = node_local c x" if "x \<in> set (c_rrl ?c)" for x
  proof (cases "le_cent x = ?a")
    case False
    then show ?thesis using d(2) by (simp add: node_local_def purge_step_def ent_step_def frame_def)
  next
    case True
    from node_local_eq [OF purge_step_base [OF d(2)] that] True d(3) have
      x: "node_slot (drop_set ce i) (le_idx x)" "lent_local (drop_set ce i) (le_idx x) = Some (node_local ?c x)" by auto
    from that rrl have "x \<in> set (c_rrl c)" by simp
    from node_local_eq [OF b this] True assms(5) have
      y: "node_slot ce (le_idx x)" "lent_local ce (le_idx x) = Some (node_local c x)" by auto
    from x(1) have "le_idx x \<noteq> Some i" by (auto simp: node_slot_def drop_set_props(2) [OF wf])
    then show ?thesis
      using lent_local_wf [OF drop_set_props(1) [OF wf] x(1)] lent_local_wf [OF wf y(1)] x(2) y(2)
      by (auto simp: drop_set_props(2,11) [OF wf])
  qed
  moreover have "set (c_rrl c) - {le} \<subseteq> set (c_rrl ?c)"
    using base_same_id [OF b _ assms(2)] by (auto simp: rrl)
  moreover have "local_sets c \<subseteq> local_sets ?c"
    using local_sets_step [OF _ assms(5) d(3) keeps_local_drop [OF wf]] d(2) rs nl by (simp add: purge_step_def)
  moreover have "heap_fewer c ?c"
    by (rule heap_fewer_step [OF _ assms(5) d(3) fewer_drop [OF wf]]) (use d(2) in \<open>simp add: purge_step_def\<close>)
  moreover have "set (c_rrl ?c) \<subseteq> set (c_rrl c)" "c_insert_sort ?c = c_insert_sort c" "c_mem ?c = c_mem c"
    using d(2) by (simp_all add: purge_step_def ent_step_def frame_def)
  ultimately show "walk_rel le c ?c"
    using purge_step_cinv [OF d(2) assms(1)] unfolding walk_rel_def by blast
qed

lemma walk_drop_ent:
  assumes "cinv c" "c_heap c a = Some ce" "\<forall>i. sets ce i = None" "cinv (drop_ent a ce T c)"
    and "neg_lent ce = None \<or> le = \<lparr>le_id = the (neg_lent ce), le_cent = a, le_idx = None\<rparr>"
  shows "walk_rel le c (drop_ent a ce T c)" "\<forall>x\<in>set (c_rrl (drop_ent a ce T c)). le_cent x \<noteq> a"
proof -
  let ?c = "drop_ent a ce T c"
  note b = cinvD(1) [OF assms(1)] and b' = cinvD(1) [OF assms(4)]
  have h: "c_heap ?c = (c_heap c)(a := None)" by (simp add: drop_ent_def)
  show na: "\<forall>x\<in>set (c_rrl ?c). le_cent x \<noteq> a"
    using baseD(6) [OF b'] h by auto
  have "\<forall>x\<in>set (c_rrl ?c). node_local ?c x = node_local c x"
    using na h by (simp add: node_local_def)
  moreover have "set (c_rrl c) - {le} \<subseteq> set (c_rrl ?c)"
  proof
    fix x assume x: "x \<in> set (c_rrl c) - {le}"
    have "lent_of ce idx \<noteq> Some (le_id x)" for idx
    proof
      assume l: "lent_of ce idx = Some (le_id x)"
      with assms(3) have "idx = None" "neg_lent ce = Some (le_id x)"
        by (auto simp: lent_of_def set_lent_of_def split: option.splits)
      with base_same_id [OF b _ base_node [OF b assms(2) l], of x] x assms(5) show False by auto
    qed
    with x show "x \<in> set (c_rrl ?c)" by (simp add: drop_ent_def drop_lents_def)
  qed
  moreover have "local_sets c \<subseteq> local_sets ?c" by (rule local_sets_drop [OF h assms(2)]) (simp add: assms(3))
  ultimately show "walk_rel le c ?c"
    using assms(4) heap_fewer_drop [OF h] by (auto simp: walk_rel_def drop_ent_def drop_lents_def)
qed

end
