(* ===== verification/Cache_Walk.thy ===== *)
theory Cache_Walk
  imports Cache_Purge
begin

unbundle bit_operations_syntax

section \<open>purge_cache\<close>

text \<open>
  The two walks of \<^verbatim>\<open>purge_cache\<close> over the list by age. At every step only the node the walk
  stands at can vanish from the list, so the saved successor is never freed memory; local RR sets
  stay; the second walk stops only when the cache is small enough or nothing but local data is left.
\<close>

subsection \<open>One step of a walk\<close>

text \<open>The end of a step: the entry is deleted when it has no RR sets left.\<close>

lemma walk_finish:
  assumes "cinv c" "c_heap c a = Some ce"
    and "neg_lent ce = None \<or> le = \<lparr>le_id = the (neg_lent ce), le_cent = a, le_idx = None\<rparr>"
  shows "\<exists>c'. (if ce_num_rrs ce = 0 then del_cache_ent a None c else Some c) = Some c' \<and> walk_rel le c c' \<and>
    (ce_num_rrs ce = 0 \<longrightarrow> (\<forall>x\<in>set (c_rrl c'). le_cent x \<noteq> a))"
proof (cases "ce_num_rrs ce = 0")
  case True
  note ok = baseD(1) [OF cinvD(1) [OF assms(1)] assms(2)]
  from True have none: "\<forall>i. sets ce i = None" using cent_okD(4) [OF ok] cent_count_0 [OF cent_okD(1) [OF ok]] by simp
  from del_cache_ent_None [OF assms(1,2)] obtain T where
    d: "del_cache_ent a None c = Some (drop_ent a ce T c)" "cinv (drop_ent a ce T c)" by blast
  from walk_drop_ent [OF assms(1,2) none d(2) assms(3)] d(1) True show ?thesis by simp
qed (use assms(1) in \<open>simp add: walk_rel_refl\<close>)

lemma neg_node:
  assumes "base c" "le \<in> set (c_rrl c)" "le_idx le = None" "c_heap c (le_cent le) = Some ce"
  shows "is_neg ce" "ce_num_rrs ce = 0" "le = \<lparr>le_id = the (neg_lent ce), le_cent = le_cent le, le_idx = None\<rparr>"
proof -
  note ok = baseD(1) [OF assms(1,4)]
  from node_local_eq [OF assms(1,2)] assms(3,4) have n: "lent_of ce None = Some (le_id le)" "node_slot ce None" by auto
  then show neg: "is_neg ce" by (simp add: node_slot_def)
  show "ce_num_rrs ce = 0"
    using neg_sets [OF cent_okD(1) [OF ok] neg] cent_okD(4) [OF ok] cent_count_0 [OF cent_okD(1) [OF ok]] by simp
  show "le = \<lparr>le_id = the (neg_lent ce), le_cent = le_cent le, le_idx = None\<rparr>"
    using n(1) assms(3) by (cases le) (simp add: lent_of_def)
qed

text \<open>Removing the RR set of a node and then, maybe, its entry.\<close>

lemma walk_remove:
  assumes "cinv c" "le \<in> set (c_rrl c)" "le_idx le = Some i" "\<not> node_local c le" "c_heap c (le_cent le) = Some ce"
  shows "\<exists>c1 ce1 c'. purge_del (le_cent le) i c = Some c1 \<and> c_heap c1 (le_cent le) = Some ce1 \<and> \<not> is_neg ce1 \<and>
    (if ce_num_rrs ce1 = 0 then del_cache_ent (le_cent le) None c1 else Some c1) = Some c' \<and>
    walk_rel le c c' \<and> le \<notin> set (c_rrl c')"
proof -
  let ?a = "le_cent le"
  let ?c1 = "purged ?a i ce c"
  note b = cinvD(1) [OF assms(1)]
  note wf = baseD(2) [OF b assms(5)]
  note w = walk_purged [OF assms]
  from node_local_eq [OF b assms(2)] assms(3,5) have "node_slot ce (Some i)" by auto
  then obtain rs where "sets ce i = Some rs" by (auto simp: node_slot_def)
  from sets_Some_less [OF wf this] have pos: "\<not> is_neg (drop_set ce i)" by (simp add: drop_set_props(3) [OF wf])
  have inv1: "cinv ?c1" using w(2) by (simp add: walk_rel_def)
  have "neg_lent (drop_set ce i) = None" using neg_lent_pos [OF drop_set_props(1) [OF wf] pos] .
  with walk_finish [OF inv1 w(4), of le] obtain c' where
    f: "(if ce_num_rrs (drop_set ce i) = 0 then del_cache_ent ?a None ?c1 else Some ?c1) = Some c'" "walk_rel le ?c1 c'" by blast
  from walk_rel_trans [OF w(2) f(2)] have "walk_rel le c c'" .
  moreover have "le \<notin> set (c_rrl c')" using w(3) f(2) by (auto simp: walk_rel_def)
  ultimately show ?thesis using w(1,4) pos f(1) by blast
qed

definition step1 :: "time_t \<Rightarrow> rr_lent \<Rightarrow> cache \<Rightarrow> cache option" where
  "step1 now le c = do {
     ce \<leftarrow> c_heap c (le_cent le);
     loc \<leftarrow> lent_local ce (le_idx le);
     (if loc then Some c
      else do {
        c \<leftarrow> (case le_idx le of
               Some i \<Rightarrow> map_option snd (purge_rrset now (le_cent le) i False c)
             | None \<Rightarrow> Some c);
        ce \<leftarrow> c_heap c (le_cent le);
        gone \<leftarrow> (if ce_num_rrs ce = 0 then no_longer_needed now ce else Some False);
        if gone then del_cache_ent (le_cent le) None c else Some c }) }"

definition step2 :: "rr_lent \<Rightarrow> cache \<Rightarrow> cache option" where
  "step2 le c = do {
     ce \<leftarrow> c_heap c (le_cent le);
     loc \<leftarrow> lent_local ce (le_idx le);
     (if loc then Some c
      else do {
        c \<leftarrow> (case le_idx le of Some i \<Rightarrow> purge_del (le_cent le) i c | None \<Rightarrow> Some c);
        ce \<leftarrow> c_heap c (le_cent le);
        if ce_num_rrs ce = 0 then del_cache_ent (le_cent le) None c else Some c }) }"

lemma walk_Cons:
  "purge_walk1 now sz lazy (le # les) c =
     (if lazy \<and> \<not> c_size c > sz then Some c
      else if le \<notin> set (c_rrl c) then None
      else do { c \<leftarrow> step1 now le c; purge_walk1 now sz lazy les c })"
  "purge_walk2 sz (le # les) c =
     (if \<not> c_size c > sz then Some c
      else if le \<notin> set (c_rrl c) then None
      else do { c \<leftarrow> step2 le c; purge_walk2 sz les c })"
  by (simp_all add: step1_def step2_def split: option.splits)

declare purge_walk1.simps(2) [simp del] purge_walk2.simps(2) [simp del]

lemma step1_ok:
  assumes "cinv c" "le \<in> set (c_rrl c)"
  shows "\<exists>c'. step1 now le c = Some c' \<and> walk_rel le c c'"
proof -
  note b = cinvD(1) [OF assms(1)]
  from node_local_eq [OF b assms(2)] obtain ce where
    n: "c_heap c (le_cent le) = Some ce" "node_slot ce (le_idx le)" "lent_local ce (le_idx le) = Some (node_local c le)" by blast
  note ok = baseD(1) [OF b n(1)] and wf = baseD(2) [OF b n(1)]
  show ?thesis
  proof (cases "node_local c le")
    case True
    with n show ?thesis using walk_rel_refl [OF assms(1)] by (simp add: step1_def)
  next
    case nl: False
    show ?thesis
    proof (cases "le_idx le")
      case None
      note neg = neg_node [OF b assms(2) None n(1)]
      obtain g where g: "no_longer_needed now ce = Some g"
        using cent_wf_neg [OF wf neg(1)] neg(1) by (cases "fset (ce_flags ce) DF_LOCAL") (auto simp: no_longer_needed_def timedout_nxdom_def neg_part_def)
      show ?thesis
      proof (cases g)
        case True
        from walk_finish [OF assms(1) n(1), of le] neg obtain c' where
          "del_cache_ent (le_cent le) None c = Some c'" "walk_rel le c c'" by auto
        with n None nl neg(2) g True show ?thesis by (simp add: step1_def)
      next
        case False
        with n None nl neg(2) g walk_rel_refl [OF assms(1)] show ?thesis by (simp add: step1_def)
      qed
    next
      case (Some i)
      from n(2) Some obtain rs where rs: "sets ce i = Some rs" by (auto simp: node_slot_def)
      have i: "i < NRRTOT" using sets_Some_less [OF wf rs] nsets_le [of ce] by simp
      show ?thesis
      proof (cases "purgeable now rs")
        case True
        from walk_remove [OF assms Some nl n(1)] obtain c1 ce1 c' where
          r: "purge_del (le_cent le) i c = Some c1" "c_heap c1 (le_cent le) = Some ce1" "\<not> is_neg ce1"
            "(if ce_num_rrs ce1 = 0 then del_cache_ent (le_cent le) None c1 else Some c1) = Some c'" "walk_rel le c c'" by blast
        have "purge_rrset now (le_cent le) i False c = Some (True, c1)"
          using n(1) rs i wf True r(1) by (simp add: purge_rrset_def cent_simps)
        with n nl Some r show ?thesis by (auto simp: step1_def no_longer_needed_def)
      next
        case False
        have "purge_rrset now (le_cent le) i False c = Some (False, c)"
          using n(1) rs i wf False by (simp add: purge_rrset_def cent_simps)
        moreover have "ce_num_rrs ce \<noteq> 0" using cent_okD(4) [OF ok] cent_count_0 [OF wf] rs by auto
        ultimately show ?thesis using n nl Some walk_rel_refl [OF assms(1)] by (simp add: step1_def)
      qed
    qed
  qed
qed

lemma step2_ok:
  assumes "cinv c" "le \<in> set (c_rrl c)"
  shows "\<exists>c'. step2 le c = Some c' \<and> walk_rel le c c' \<and> (le \<in> set (c_rrl c') \<longrightarrow> node_local c' le)"
proof -
  note b = cinvD(1) [OF assms(1)]
  from node_local_eq [OF b assms(2)] obtain ce where
    n: "c_heap c (le_cent le) = Some ce" "node_slot ce (le_idx le)" "lent_local ce (le_idx le) = Some (node_local c le)" by blast
  show ?thesis
  proof (cases "node_local c le")
    case True
    with n show ?thesis using walk_rel_refl [OF assms(1)] by (simp add: step2_def)
  next
    case nl: False
    show ?thesis
    proof (cases "le_idx le")
      case None
      note neg = neg_node [OF b assms(2) None n(1)]
      from walk_finish [OF assms(1) n(1), of le] neg obtain c' where
        "del_cache_ent (le_cent le) None c = Some c'" "walk_rel le c c'" "\<forall>x\<in>set (c_rrl c'). le_cent x \<noteq> le_cent le" by auto
      with n None nl neg(2) show ?thesis by (auto simp: step2_def)
    next
      case (Some i)
      from walk_remove [OF assms Some nl n(1)] obtain c1 ce1 c' where
        "purge_del (le_cent le) i c = Some c1" "c_heap c1 (le_cent le) = Some ce1"
        "(if ce_num_rrs ce1 = 0 then del_cache_ent (le_cent le) None c1 else Some c1) = Some c'"
        "walk_rel le c c'" "le \<notin> set (c_rrl c')" by blast
      with n nl Some show ?thesis by (simp add: step2_def)
    qed
  qed
qed

subsection \<open>Both walks\<close>

definition walked :: "cache \<Rightarrow> cache \<Rightarrow> bool" where
  "walked c c' \<longleftrightarrow> cinv c' \<and> local_sets c \<subseteq> local_sets c' \<and> set (c_rrl c') \<subseteq> set (c_rrl c) \<and>
     c_insert_sort c' = c_insert_sort c \<and> c_mem c' = c_mem c \<and> (\<forall>x\<in>set (c_rrl c'). node_local c' x = node_local c x) \<and> heap_fewer c c'"

lemma walked_refl: "cinv c \<Longrightarrow> walked c c"
  by (simp add: walked_def)

lemma walked_step:
  assumes "walk_rel le c c1" "walked c1 c2" shows "walked c c2"
proof -
  note d = assms(1) [unfolded walk_rel_def] assms(2) [unfolded walked_def]
  have 1: "local_sets c \<subseteq> local_sets c2" "set (c_rrl c2) \<subseteq> set (c_rrl c)" using d by blast+
  have 2: "c_insert_sort c2 = c_insert_sort c" "c_mem c2 = c_mem c" using d by simp_all
  have 3: "\<forall>x\<in>set (c_rrl c2). node_local c2 x = node_local c x" using d by (metis subsetD)
  have 4: "heap_fewer c c2" by (rule heap_fewer_trans [of c c1]) (use d in blast)+
  have "cinv c2" using d by blast
  with 1 2 3 4 show ?thesis unfolding walked_def by blast
qed

lemma purge_walk1_ok:
  assumes "cinv c" "set les \<subseteq> set (c_rrl c)" "distinct les"
  shows "\<exists>c'. purge_walk1 now sz lazy les c = Some c' \<and> walked c c'"
  using assms
proof (induction les arbitrary: c)
  case (Cons le les)
  show ?case
  proof (cases "lazy \<and> \<not> c_size c > sz")
    case True
    with walked_refl [OF Cons.prems(1)] show ?thesis by (simp add: walk_Cons)
  next
    case False
    from step1_ok [OF Cons.prems(1), of le now] Cons.prems(2) obtain c1 where
      s: "step1 now le c = Some c1" "walk_rel le c c1" by auto
    have "set les \<subseteq> set (c_rrl c1)" using Cons.prems(2,3) s(2) by (auto simp: walk_rel_def)
    with Cons.IH [of c1] s(2) Cons.prems(3) obtain c' where
      "purge_walk1 now sz lazy les c1 = Some c'" "walked c1 c'" by (auto simp: walk_rel_def)
    with False s walked_step [OF s(2)] Cons.prems(2) show ?thesis by (auto simp: walk_Cons)
  qed
qed (simp add: walked_refl)

lemma purge_walk2_ok:
  assumes "cinv c" "set les \<subseteq> set (c_rrl c)" "distinct les"
  shows "\<exists>c'. purge_walk2 sz les c = Some c' \<and> walked c c' \<and>
    (c_size c' \<le> sz \<or> (\<forall>x\<in>set les \<inter> set (c_rrl c'). node_local c' x))"
  using assms
proof (induction les arbitrary: c)
  case (Cons le les)
  show ?case
  proof (cases "c_size c > sz")
    case False
    with walked_refl [OF Cons.prems(1)] show ?thesis by (simp add: walk_Cons)
  next
    case True
    from step2_ok [OF Cons.prems(1), of le] Cons.prems(2) obtain c1 where
      s: "step2 le c = Some c1" "walk_rel le c c1" "le \<in> set (c_rrl c1) \<longrightarrow> node_local c1 le" by auto
    have "set les \<subseteq> set (c_rrl c1)" using Cons.prems(2,3) s(2) by (auto simp: walk_rel_def)
    with Cons.IH [of c1] s(2) Cons.prems(3) obtain c' where
      w: "purge_walk2 sz les c1 = Some c'" "walked c1 c'"
        "c_size c' \<le> sz \<or> (\<forall>x\<in>set les \<inter> set (c_rrl c'). node_local c' x)" by (auto simp: walk_rel_def)
    have "le \<in> set (c_rrl c') \<longrightarrow> node_local c' le" using s(3) w(2) by (auto simp: walked_def)
    with True s w walked_step [OF s(2) w(2)] Cons.prems(2) show ?thesis by (auto simp: walk_Cons)
  qed
qed (simp add: walked_refl)

lemma node_ts:
  assumes "base c" "le \<in> set (c_rrl c)"
  shows "\<exists>t. get_rrlent_ts c le = Some t"
  using node_local_eq [OF assms] base_ts [OF assms(1)] by blast

lemma sort_rrl_cinv:
  assumes "cinv c" "length (c_rrl c) < 2 ^ 32"
  shows "\<exists>r. sort_rrl c = Some (c\<lparr>c_rrl := r\<rparr>) \<and> mset r = mset (c_rrl c)"
proof -
  define ts where "ts le = the (get_rrlent_ts c le)" for le
  have "\<forall>le\<in>set (c_rrl c). get_rrlent_ts c le = Some (ts le)"
    using node_ts [OF cinvD(1) [OF assms(1)]] by (auto simp: ts_def)
  from sort_rrl_ok [OF this assms(2)] show ?thesis by (intro exI [of _ "sort_key ts (c_rrl c)"]) simp
qed

lemma walked_reorder:
  assumes "cinv c" "mset r = mset (c_rrl c)"
  shows "walked (c\<lparr>c_rrl := r, c_insert_sort := s\<rparr>) (c\<lparr>c_rrl := r, c_insert_sort := s\<rparr>)"
    "local_sets (c\<lparr>c_rrl := r, c_insert_sort := s\<rparr>) = local_sets c"
    "node_local (c\<lparr>c_rrl := r, c_insert_sort := s\<rparr>) = node_local c" "heap_fewer (c\<lparr>c_rrl := r, c_insert_sort := s\<rparr>) x = heap_fewer c x"
proof -
  let ?c = "c\<lparr>c_rrl := r, c_insert_sort := s\<rparr>"
  have r: "set r = set (c_rrl c)" using assms(2) by (metis set_mset_mset)
  have "mset (map le_id r) = mset (map le_id (c_rrl c))" using assms(2) by simp
  from mset_eq_imp_distinct_iff [OF this] baseD(4) [OF cinvD(1) [OF assms(1)]] have "distinct (map le_id r)" by simp
  with r cinvD(1) [OF assms(1)] have "base ?c" by (simp add: base_def)
  moreover have "tab_ok ?c = tab_ok c" by (simp add: tab_ok_def qname_of_def [abs_def])
  ultimately have "cinv ?c" using assms(1) by (simp add: cinv_def total_def)
  then show "walked ?c ?c" by (rule walked_refl)
  show "local_sets ?c = local_sets c" "node_local ?c = node_local c"
    "heap_fewer ?c x = heap_fewer c x"
    by (simp_all add: local_sets_def node_local_def heap_fewer_def fun_eq_iff)
qed

subsection \<open>A cache with one entry\<close>

definition one_set :: rr_set where
  "one_set = \<lparr>rs_lent = Some 1, rs_ttl = 300, rs_ts = 0, rs_flags = 0, rs_rrs = [[127, 0, 0, 1]]\<rparr>"

definition one_cent :: dns_cent where
  "one_cent = \<lparr>ce_qname = [0], ce_cs = 165, ce_num_rrs = 1, ce_flags = 0,
     ce_un = RRPart (Some one_set # replicate (NRRMU - 1) None) None, ce_c_ns = cundef, ce_c_soa = cundef\<rparr>"

definition one_cache :: cache where
  "one_cache = \<lparr>c_heap = [0 \<mapsto> one_cent], c_tab = mk_dns_hash[0 := [\<lparr>he_rhash = 0, he_data = 0\<rparr>]],
     c_rrl = [\<lparr>le_id = 1, le_cent = 0, le_idx = Some 0\<rparr>], c_size = 165, c_num = 1, c_insert_sort = True,
     c_mem = [], c_brk = 2\<rparr>"

lemma one_cent_sets: "sets one_cent = [0 \<mapsto> one_set]"
  by (auto simp: sets_def one_cent_def nrr_defs fun_eq_iff nth_Cons split: nat.splits)

lemma one_cent_ok: "cent_ok one_cent"
proof -
  have neg: "\<not> is_neg one_cent" by (simp only: is_neg_def one_cent_def) (simp add: flag_simps)
  have wf: "cent_wf one_cent"
    using neg by (simp add: cent_wf_def) (simp add: one_cent_def nrr_defs)
  have "name_ok [0]" unfolding name_ok_def by (rule exI [of _ "[]"]) (simp add: wf_name_def DNSNAMEBUFSIZE_def)
  moreover have "(\<Sum>i<NRRTOT. set_bytes (sets one_cent i)) = 60"
  proof -
    have "0 < NRRTOT" by (simp add: nrr_defs)
    from sum_fun_upd [OF this, of set_bytes "\<lambda>_. None" "Some one_set"] show ?thesis
      unfolding one_cent_sets by (simp add: set_bytes_def one_set_def sizeof_rr_set_def rr_bytes_def sizeof_rr_bucket_def)
  qed
  moreover have "cent_count one_cent = 1"
  proof -
    have "0 < NRRTOT" by (simp add: nrr_defs)
    from sum_fun_upd [OF this, of set_count "\<lambda>_. None" "Some one_set"] show ?thesis
      unfolding cent_count_def one_cent_sets by (simp add: set_count_def)
  qed
  moreover have "\<not> has_ext one_cent" by (simp add: has_ext_def one_cent_def)
  ultimately show ?thesis
    using wf by (simp add: cent_ok_def cent_bytes_def) (simp add: one_cent_def sizeof_dns_cent_def)
qed

lemma one_cache_inv: "cinv one_cache"
proof -
  have l: "lent_of one_cent idx = (if idx = Some 0 then Some 1 else None)" for idx
  proof (cases idx)
    case None
    then show ?thesis by (simp add: lent_of_def neg_lent_def one_cent_def)
  qed (simp add: lent_of_def set_lent_of_def one_cent_sets one_set_def)
  have b: "base one_cache"
    using one_cent_ok l by (auto simp: base_def one_cache_def split: if_splits)
  have len: "length mk_dns_hash = HASH_NUM_BUCKETS" "0 < HASH_NUM_BUCKETS"
    by (simp_all add: mk_dns_hash_def HASH_NUM_BUCKETS_def)
  have h: "dns_hash (wire []) = Some (0, 0)"
    by (simp add: dns_hash_def hash_loop.simps rd_def fold_bits_def)
  have q: "qname_of one_cache 0 = Some (wire [])" by (simp add: qname_of_def one_cache_def one_cent_def)
  have "chain_ok (qname_of one_cache) 0 [\<lparr>he_rhash = 0, he_data = 0\<rparr>]"
    using q h by (auto simp: chain_ok_def ent_ok_def intro!: exI [of _ "[]"])
  from htable_ok_update [OF htable_ok_mk this] have ht: "htable_ok (qname_of one_cache) (c_tab one_cache)"
    by (simp add: one_cache_def)
  have "e \<in> set (concat (c_tab one_cache)) \<longleftrightarrow> e = \<lparr>he_rhash = 0, he_data = 0\<rparr>" for e
    using concat_update [of 0 mk_dns_hash e "[\<lparr>he_rhash = 0, he_data = 0\<rparr>]"] len
    by (simp del: set_concat add: one_cache_def) (auto simp: mk_dns_hash_def)
  then have "set (concat (c_tab one_cache)) = {\<lparr>he_rhash = 0, he_data = 0\<rparr>}" by blast
  then have "tab_addrs (c_tab one_cache) = dom (c_heap one_cache)" by (simp add: tab_addrs_def one_cache_def)
  with ht have t: "tab_ok one_cache" by (simp add: tab_ok_def)
  have "total f one_cache = f (Some one_cent)" if "f None = 0" for f
    using that by (simp add: total_def one_cache_def lessThan_Suc numeral_2_eq_2)
  from this [of ent_size] this [of ent_one] b t show ?thesis by (simp add: cinv_def) (simp add: one_cache_def one_cent_def)
qed

text \<open>
  C21: the trial run of \<^verbatim>\<open>purge_cent\<close> (with \<^verbatim>\<open>test\<close> set) changes nothing and returns exactly what the real
  run returns; the real run keeps the invariant of the cache and all local RR sets. It removes the
  entry, which then had only expired sets, exactly when it returns -1; otherwise the entry keeps
  exactly the sets that are not expired, and nothing at all changes when it returns 0.
\<close>

theorem purge_cent_test_foretells:
  assumes "cinv c" and "c_heap c a = Some ce"
  shows "\<exists>n c2. purge_cent now a del True c = Some (n, c) \<and> purge_cent now a del False c = Some (n, c2) \<and>
    cinv c2 \<and> local_sets c \<subseteq> local_sets c2 \<and>
    (n < 0 \<longrightarrow> c_heap c2 = (c_heap c)(a := None) \<and> (\<forall>i. purge_sets now (sets ce) i = None)) \<and>
    (n \<ge> 0 \<longrightarrow> (\<exists>ce2. c_heap c2 a = Some ce2 \<and> sets ce2 = purge_sets now (sets ce))) \<and> (n = 0 \<longrightarrow> c2 = c)"
proof -
  from purge_cent_ok [OF assms, of now del] obtain n c2 where
    p: "purge_cent now a del True c = Some (n, c)" "purge_cent now a del False c = Some (n, c2)" "cinv c2" and
    n: "if n < 0 then (\<forall>j. sets ce j = None \<or> stale_set now (sets ce j)) \<and> c_heap c2 = (c_heap c)(a := None)
      else (\<exists>ce2. c_heap c2 a = Some ce2 \<and> sets ce2 = purge_sets now (sets ce)) \<and> (n = 0 \<longrightarrow> c2 = c)"
    by (elim exE conjE) (rule that, assumption+, simp split: if_splits, blast)
  have "(n < 0 \<longrightarrow> c_heap c2 = (c_heap c)(a := None) \<and> (\<forall>i. purge_sets now (sets ce) i = None)) \<and>
    (n \<ge> 0 \<longrightarrow> (\<exists>ce2. c_heap c2 a = Some ce2 \<and> sets ce2 = purge_sets now (sets ce))) \<and> (n = 0 \<longrightarrow> c2 = c)"
  proof (cases "n < 0")
    case True
    with n show ?thesis by (auto simp: purge_sets_def)
  next
    case False
    with n show ?thesis by simp
  qed
  with p purge_cent_local [OF assms] show ?thesis by blast
qed

theorem purge_cent_test_foretells_witness:
  "\<exists>n c2. purge_cent 1000 0 True True one_cache = Some (n, one_cache) \<and> purge_cent 1000 0 True False one_cache = Some (n, c2) \<and>
    cinv c2 \<and> local_sets one_cache \<subseteq> local_sets c2 \<and> (n < 0 \<longrightarrow> c_heap c2 = (c_heap one_cache)(0 := None) \<and>
      (\<forall>i. purge_sets 1000 (sets one_cent) i = None)) \<and>
    (n \<ge> 0 \<longrightarrow> (\<exists>ce2. c_heap c2 0 = Some ce2 \<and> sets ce2 = purge_sets 1000 (sets one_cent))) \<and> (n = 0 \<longrightarrow> c2 = one_cache)"
  by (rule purge_cent_test_foretells [OF one_cache_inv, of 0 one_cent]) (simp add: one_cache_def)

lemma purge_cache_ok:
  assumes "cinv c" and "c_insert_sort c \<or> length (c_rrl c) < 2 ^ 32"
  shows "\<exists>c'. purge_cache now sz lazy c = Some c' \<and> cinv c' \<and> local_sets c \<subseteq> local_sets c' \<and>
    heap_fewer c c' \<and> set (c_rrl c') \<subseteq> set (c_rrl c) \<and> (c_size c' \<le> sz \<or> (\<forall>le\<in>set (c_rrl c'). node_local c' le)) \<and>
    (c_insert_sort c \<longrightarrow> c_insert_sort c')"
proof -
  have d: "distinct (c_rrl c)" using baseD(4) [OF cinvD(1) [OF assms(1)]] by (simp add: distinct_map)
  from purge_walk1_ok [OF assms(1) order_refl d] obtain c1 where
    w1: "purge_walk1 now sz lazy (c_rrl c) c = Some c1" "walked c c1" by blast
  have i1: "cinv c1" using w1(2) by (simp add: walked_def)
  show ?thesis
  proof (cases "c_size c1 \<le> sz")
    case True
    with w1 show ?thesis by (auto simp: purge_cache_def walked_def)
  next
    case False
    have d1: "distinct (c_rrl c1)" using baseD(4) [OF cinvD(1) [OF i1]] by (simp add: distinct_map)
    have len: "length (c_rrl c1) \<le> length (c_rrl c)"
      using w1(2) card_mono [of "set (c_rrl c)" "set (c_rrl c1)"] d d1 by (simp add: walked_def distinct_card)
    have "\<exists>r. (if \<not> c_insert_sort c1 then map_option (\<lambda>c. c\<lparr>c_insert_sort := True\<rparr>) (sort_rrl c1) else Some c1) =
        Some (c1\<lparr>c_rrl := r, c_insert_sort := True\<rparr>) \<and> mset r = mset (c_rrl c1)"
    proof (cases "c_insert_sort c1")
      case False
      with w1(2) assms(2) len sort_rrl_cinv [OF i1] show ?thesis by (auto simp: walked_def)
    qed (intro exI [of _ "c_rrl c1"], simp)
    then obtain r where s: "(if \<not> c_insert_sort c1 then map_option (\<lambda>c. c\<lparr>c_insert_sort := True\<rparr>) (sort_rrl c1) else Some c1) =
        Some (c1\<lparr>c_rrl := r, c_insert_sort := True\<rparr>)" "mset r = mset (c_rrl c1)" by blast
    let ?c = "c1\<lparr>c_rrl := r, c_insert_sort := True\<rparr>"
    note re = walked_reorder [OF i1 s(2), where s = True]
    have "distinct r" using d1 mset_eq_imp_distinct_iff [OF s(2)] by simp
    with purge_walk2_ok [of ?c r sz] re(1) obtain c2 where
      w2: "purge_walk2 sz r ?c = Some c2" "walked ?c c2" "c_size c2 \<le> sz \<or> (\<forall>x\<in>set r \<inter> set (c_rrl c2). node_local c2 x)"
      by (auto simp: walked_def)
    have "set (c_rrl c2) \<subseteq> set r" using w2(2) by (simp add: walked_def)
    moreover have "purge_cache now sz lazy c = Some c2" using w1(1) False s(1) w2(1) by (simp add: purge_cache_def)
    moreover have "set r = set (c_rrl c1)" using s(2) by (metis set_mset_mset)
    moreover have "heap_fewer c c2" using w1(2) w2(2) heap_fewer_trans re(4) by (metis walked_def)
    ultimately show ?thesis using w1(2) w2(2,3) re(2) by (auto simp: walked_def)
  qed
qed

text \<open>
  C20: \<^verbatim>\<open>purge_cache\<close> never touches a freed entry or node, keeps the invariant of the cache and
  every local RR set and only ever removes entries and RR sets; afterwards the cache is not larger
  than the limit, unless only local data is left in the list.
\<close>

theorem purge_cache_correct:
  assumes "cinv c" and "c_insert_sort c \<or> length (c_rrl c) < 2 ^ 32"
  shows "\<exists>c'. purge_cache now sz lazy c = Some c' \<and> cinv c' \<and> local_sets c \<subseteq> local_sets c' \<and>
    heap_fewer c c' \<and> set (c_rrl c') \<subseteq> set (c_rrl c) \<and> (c_size c' \<le> sz \<or> (\<forall>le\<in>set (c_rrl c'). node_local c' le))"
  using purge_cache_ok [OF assms] by blast

theorem purge_cache_correct_witness:
  "\<exists>c'. purge_cache 1000 0 True one_cache = Some c' \<and> cinv c' \<and> local_sets one_cache \<subseteq> local_sets c' \<and>
    heap_fewer one_cache c' \<and> set (c_rrl c') \<subseteq> set (c_rrl one_cache) \<and> (c_size c' \<le> 0 \<or> (\<forall>le\<in>set (c_rrl c'). node_local c' le))"
  by (rule purge_cache_correct [OF one_cache_inv]) (simp add: one_cache_def)

end
