(* ===== verification/Cache_Merge.thy ===== *)
theory Cache_Merge
  imports Cache_Walk
begin

unbundle bit_operations_syntax

section \<open>Conflict resolution and merging\<close>

text \<open>
  The steps by which \<^verbatim>\<open>add_cache\<close> changes an entry: removing and adding RR sets, resolving
  conflicts, replacing a set by a new one. Every step keeps the entry well formed and its nodes
  in the list, never removes a local set for the sake of one that is not, and never leaves two
  sets in an entry that exclude each other.
\<close>

subsection \<open>Steps that do not touch the counters\<close>

definition est :: "nat \<Rightarrow> cache \<Rightarrow> cache \<Rightarrow> bool" where
  "est a c c' \<longleftrightarrow> ent_step a c c' \<and> c_size c' = c_size c \<and> (c_mem c = [] \<longrightarrow> c_mem c' = [])"

lemma est_refl: "base c \<Longrightarrow> c_heap c a = Some ce \<Longrightarrow> est a c c"
  using ent_step_refl by (simp add: est_def)

lemma est_trans [trans]: "est a c c' \<Longrightarrow> est a c' c'' \<Longrightarrow> est a c c''"
  unfolding est_def using ent_step_trans by auto

lemma est_base: "est a c c' \<Longrightarrow> base c'"
  unfolding est_def using ent_step_base by blast

text \<open>An entry is replaced and nodes it no longer points to are unlinked.\<close>

lemma est_change:
  assumes b: "base c" "c_heap c a = Some ce" and ok: "cent_ok ce'" "same_head ce ce'"
    and l: "\<And>idx. lent_of ce' idx = (if idx \<in> K then None else lent_of ce idx)"
    and u: "u = None \<or> (\<exists>k. u = Some k \<and> (\<exists>idx \<in> K. lent_of ce idx = Some k))"
      "\<And>idx k. idx \<in> K \<Longrightarrow> lent_of ce idx = Some k \<Longrightarrow> u = Some k"
    and m: "c_mem c = [] \<longrightarrow> m = []"
  shows "est a c (put_cent a ce' ((unlink u c)\<lparr>c_mem := m\<rparr>))"
proof -
  let ?c = "put_cent a ce' ((unlink u c)\<lparr>c_mem := m\<rparr>)"
  have "c_rrl ?c = filter (\<lambda>le. \<forall>idx \<in> K. lent_of ce idx \<noteq> Some (le_id le)) (c_rrl c)"
    using u by (auto simp: put_cent_def unlink_rrl intro!: filter_cong)
  with base_change [OF b ok(1) l, of ?c] have "base ?c" by (simp add: put_cent_def)
  then show ?thesis using b(2) m same_head_name [OF ok(2)] by (simp add: est_def ent_step_def frame_def put_cent_def)
qed

lemma est_drop:
  assumes "base c" "c_heap c a = Some ce"
  shows "est a c (put_cent a (drop_set ce i) (unlink (set_lent_of ce i) c))"
proof -
  note wf = baseD(2) [OF assms]
  have "est a c (put_cent a (drop_set ce i) ((unlink (set_lent_of ce i) c)\<lparr>c_mem := c_mem c\<rparr>))"
    by (rule est_change [OF assms drop_set_ok [OF baseD(1) [OF assms]] same_head_drop [OF wf] lent_of_drop [OF wf]])
      (auto simp: lent_of_def)
  moreover have "(unlink (set_lent_of ce i) c)\<lparr>c_mem := c_mem c\<rparr> = unlink (set_lent_of ce i) c"
    by (simp add: unlink_eq)
  ultimately show ?thesis by simp
qed

subsection \<open>Sets that exclude each other\<close>

text \<open>No two sets of the entry conflict; sets that record a negative answer conflict with none.\<close>

definition compat :: "dns_cent \<Rightarrow> bool" where
  "compat ce \<longleftrightarrow> (\<forall>i j rs rs'. sets ce i = Some rs \<and> sets ce j = Some rs' \<and> i \<noteq> j \<and>
     \<not> fset (rs_flags rs) CF_NEGATIVE \<and> \<not> fset (rs_flags rs') CF_NEGATIVE \<longrightarrow> \<not> rr_conflict i j)"

lemma fewer_compat:
  assumes "fewer ce ce'" "compat ce" shows "compat ce'"
  unfolding compat_def
proof (intro allI impI, elim conjE)
  fix i j rs rs'
  assume h: "sets ce' i = Some rs" "sets ce' j = Some rs'" "i \<noteq> j"
    "\<not> fset (rs_flags rs) CF_NEGATIVE" "\<not> fset (rs_flags rs') CF_NEGATIVE"
  from fewer_Some [OF assms(1) h(1)] fewer_Some [OF assms(1) h(2)] obtain x y where
    x: "sets ce i = Some x" "strip x = strip rs" and y: "sets ce j = Some y" "strip y = strip rs'" by blast
  with h strip_flags [OF x(2)] strip_flags [OF y(2)] assms(2) show "\<not> rr_conflict i j" unfolding compat_def by metis
qed

subsection \<open>Removing the sets that conflict\<close>

definition conflicting :: "dns_cent \<Rightarrow> nat \<Rightarrow> nat \<Rightarrow> bool" where
  "conflicting ce idx j \<longleftrightarrow> (\<exists>rs. sets ce j = Some rs \<and> set_conflicts idx j rs)"

definition scan_res :: "dns_cent \<Rightarrow> nat \<Rightarrow> nat set \<Rightarrow> int \<Rightarrow> (int \<times> time_t) option \<Rightarrow> bool" where
  "scan_res ce idx J ncf r \<longleftrightarrow> (case r of None \<Rightarrow> True
     | Some (k, t) \<Rightarrow> ncf \<le> k \<and> (k = ncf \<longrightarrow> (\<forall>j\<in>J. \<not> conflicting ce idx j)) \<and>
         (\<forall>j\<in>J. \<forall>rs. sets ce j = Some rs \<and> set_conflicts idx j rs \<longrightarrow> \<not> fset (rs_flags rs) CF_LOCAL))"

lemma scan_res_skip: "\<not> conflicting ce idx i \<Longrightarrow> scan_res ce idx J k r \<Longrightarrow> scan_res ce idx (insert i J) k r"
  by (cases r) (auto simp: scan_res_def conflicting_def)

lemma scan_res_count:
  assumes "sets ce i = Some rs" "\<not> fset (rs_flags rs) CF_LOCAL" "scan_res ce idx J (k + 1) r"
  shows "scan_res ce idx (insert i J) k r"
  using assms by (cases r) (auto simp: scan_res_def)

lemma conflict_scan_ok:
  assumes "cent_wf ce"
  shows "i + n \<le> nsets ce \<Longrightarrow> \<exists>r. conflict_scan now ce idx i n ncf nttl = Some r \<and> scan_res ce idx {i..<i + n} ncf r"
proof (induction n arbitrary: i ncf nttl)
  case (Suc n)
  have idx: "rrarr_index ce i = Some (sets ce i)" using Suc.prems assms by (simp add: cent_simps)
  have range: "{i..<i + Suc n} = insert i {i + 1..<i + 1 + n}" by auto
  have ex: "\<exists>r. conflict_scan now ce idx (i + 1) n k t = Some r \<and> scan_res ce idx {i + 1..<i + 1 + n} k r" for k t
    using Suc.IH [of "i + 1" k t] Suc.prems by simp
  show ?case
  proof (cases "conflicting ce idx i")
    case False
    then have eq: "conflict_scan now ce idx i (Suc n) ncf nttl = conflict_scan now ce idx (i + 1) n ncf nttl"
      using idx by (auto simp: conflicting_def split: option.splits)
    with ex [of ncf nttl] scan_res_skip [OF False] show ?thesis unfolding range by metis
  next
    case True
    then obtain rs where rs: "sets ce i = Some rs" "set_conflicts idx i rs" by (auto simp: conflicting_def)
    show ?thesis
    proof (cases "fset (rs_flags rs) CF_LOCAL")
      case True
      with idx rs show ?thesis by (intro exI [of _ None]) (simp add: scan_res_def)
    next
      case False
      obtain t where eq: "conflict_scan now ce idx i (Suc n) ncf nttl = conflict_scan now ce idx (i + 1) n (ncf + 1) t"
        using idx rs False by (simp add: Let_def)
      with ex [of "ncf + 1" t] scan_res_count [OF rs(1) False] show ?thesis unfolding range by metis
    qed
  qed
qed (simp add: scan_res_def)

lemma conflict_remove_ok:
  assumes "base c" "c_heap c a = Some ce" "i + n \<le> nsets ce"
  shows "\<exists>c' ce'. conflict_remove a idx i n c = Some c' \<and> est a c c' \<and> c_heap c' a = Some ce' \<and> same_head ce ce' \<and>
    is_neg ce' = is_neg ce \<and> sets ce' = (\<lambda>j. if i \<le> j \<and> j < i + n \<and> conflicting ce idx j then None else sets ce j)"
  using assms
proof (induction n arbitrary: i c ce)
  case 0
  have "(\<lambda>j. if i \<le> j \<and> j < i + 0 \<and> conflicting ce idx j then None else sets ce j) = sets ce"
    by (intro ext if_not_P) linarith
  then show ?case using 0 est_refl [OF 0(1,2)] by simp
next
  case (Suc n)
  note wf = baseD(2) [OF Suc.prems(1,2)]
  have index: "rrarr_index ce i = Some (sets ce i)" using Suc.prems(3) wf by (simp add: cent_simps)
  show ?case
  proof (cases "conflicting ce idx i")
    case True
    then obtain rs where rs: "sets ce i = Some rs" "set_conflicts idx i rs" by (auto simp: conflicting_def)
    have i: "i < NRRTOT" using Suc.prems(3) nsets_le [of ce] by linarith
    let ?ce = "drop_set ce i"
    let ?c = "put_cent a ?ce (unlink (set_lent_of ce i) c)"
    note d = est_drop [OF Suc.prems(1,2), of i] and dp = drop_set_props [OF wf, of i]
    have eq: "conflict_remove a idx i (Suc n) c = conflict_remove a idx (i + 1) n ?c"
      using Suc.prems(2) index rs del_cent_rrset_drop [OF wf i] by simp
    from Suc.IH [OF est_base [OF d] put_cent_at, of "i + 1"] Suc.prems(3) dp(5) obtain c' ce' where
      r: "conflict_remove a idx (i + 1) n ?c = Some c'" "est a ?c c'" "c_heap c' a = Some ce'" "same_head ?ce ce'" "is_neg ce' = is_neg ?ce"
        "sets ce' = (\<lambda>j. if i + 1 \<le> j \<and> j < i + 1 + n \<and> conflicting ?ce idx j then None else sets ?ce j)" by auto
    have "sets ce' = (\<lambda>j. if i \<le> j \<and> j < i + Suc n \<and> conflicting ce idx j then None else sets ce j)"
      unfolding r(6) using True by (auto simp: fun_eq_iff conflicting_def dp(2))
    with eq r dp(3) est_trans [OF d r(2)] same_head_trans [OF same_head_drop [OF wf] r(4)] show ?thesis by auto
  next
    case False
    from Suc.IH [OF Suc.prems(1,2), of "i + 1"] Suc.prems(3) obtain c' ce' where
      r: "conflict_remove a idx (i + 1) n c = Some c'" "est a c c'" "c_heap c' a = Some ce'" "same_head ce ce'" "is_neg ce' = is_neg ce"
        "sets ce' = (\<lambda>j. if i + 1 \<le> j \<and> j < i + 1 + n \<and> conflicting ce idx j then None else sets ce j)" by auto
    have "sets ce' = (\<lambda>j. if i \<le> j \<and> j < i + Suc n \<and> conflicting ce idx j then None else sets ce j)"
      unfolding r(6) using False by (auto simp: fun_eq_iff le_Suc_eq Suc_le_eq order.order_iff_strict)
    moreover have "conflict_remove a idx i (Suc n) c = conflict_remove a idx (i + 1) n c"
      using Suc.prems(2) index False by (auto simp: conflicting_def split: option.splits)
    ultimately show ?thesis using r by auto
  qed
qed

text \<open>
  \<^verbatim>\<open>cr_check_add\<close>: it returns, only removes sets, removes none when it refuses, no local one for
  data that is not local, and leaves no conflict when it accepts.
\<close>

lemma cr_check_add_ok:
  assumes "base c" "c_heap c a = Some ce" "idx < NRRTOT"
  shows "\<exists>ok c' ce'. cr_check_add now a idx ttl ts flags c = Some (ok, c') \<and> est a c c' \<and> c_heap c' a = Some ce' \<and>
    same_head ce ce' \<and> is_neg ce' = is_neg ce \<and> fewer ce ce' \<and> (\<not> ok \<longrightarrow> c' = c) \<and>
    (\<not> fset flags CF_LOCAL \<longrightarrow> keeps_local ce ce') \<and>
    (ok \<and> \<not> fset flags CF_NEGATIVE \<longrightarrow> (\<forall>j. \<not> conflicting ce' idx j)) \<and>
    (ok \<and> \<not> fset flags CF_NEGATIVE \<and> \<not> fset flags CF_LOCAL \<longrightarrow> \<not> fset (ce_flags ce) DF_LOCAL)"
proof -
  note b = assms(1,2) and wf = baseD(2) [OF assms(1,2)]
  note refl = est_refl [OF b]
  have rd: "rd rr_info idx = Some (rr_info ! idx)" using assms(3) by (simp add: mem_simps)
  have bound: "\<not> conflicting ce idx j" if "nsets ce \<le> j" for j using sets_beyond [OF wf that] by (simp add: conflicting_def)
  from conflict_remove_ok [OF b, of 0 "nsets ce" idx] obtain c' ce' where
    r: "conflict_remove a idx 0 (nsets ce) c = Some c'" "est a c c'" "c_heap c' a = Some ce'" "same_head ce ce'"
      "is_neg ce' = is_neg ce" "sets ce' = (\<lambda>j. if j < nsets ce \<and> conflicting ce idx j then None else sets ce j)" by auto
  have s: "sets ce' = (\<lambda>j. if conflicting ce idx j then None else sets ce j)"
    unfolding r(6) using bound by (metis not_le)
  have few: "fewer ce ce'" by (simp add: fewer_def s)
  have clean: "\<forall>j. \<not> conflicting ce' idx j" by (auto simp: conflicting_def s)
  show ?thesis
  proof (cases "fset flags CF_NEGATIVE")
    case True
    then have "cr_check_add now a idx ttl ts flags c = Some (True, c)" by (simp add: cr_check_add_def)
    with True refl b show ?thesis by blast
  next
    case nn: False
    show ?thesis
    proof (cases "fset flags CF_LOCAL")
      case True
      with nn b wf rd r(1) have "cr_check_add now a idx ttl ts flags c = Some (True, c')"
        by (simp add: cr_check_add_def cent_simps)
      with True r few clean show ?thesis by blast
    next
      case nl: False
      show ?thesis
      proof (cases "fset (ce_flags ce) DF_LOCAL")
        case True
        with nn nl b wf rd have "cr_check_add now a idx ttl ts flags c = Some (False, c)"
          by (simp add: cr_check_add_def cent_simps)
        with refl b show ?thesis by blast
      next
        case ndl: False
        from conflict_scan_ok [OF wf, of 0 "nsets ce" now idx 0 0] obtain q where
          q: "conflict_scan now ce idx 0 (nsets ce) 0 0 = Some q" "scan_res ce idx {..<nsets ce} 0 q"
          by (auto simp: lessThan_atLeast0)
        show ?thesis
        proof (cases q)
          case None
          with nn nl ndl b wf rd q(1) have "cr_check_add now a idx ttl ts flags c = Some (False, c)"
            by (simp add: cr_check_add_def cent_simps)
          with refl b show ?thesis by blast
        next
          case (Some kt)
          obtain k t where kt: "kt = (k, t)" by (rule prod.exhaust)
          have eq: "cr_check_add now a idx ttl ts flags c = Some (if k = 0 then (True, c) else if ttl > t div k then (True, c') else (False, c))"
            using nn nl ndl b wf rd q(1) Some kt r(1) by (simp add: cr_check_add_def cent_simps)
          have loc: "keeps_local ce ce'"
            using q(2) Some kt sets_Some_less [OF wf]
            by (auto simp: keeps_local_def s conflicting_def scan_res_def)
          have "\<not> conflicting ce idx j" if "k = 0" for j
            using q(2) Some kt that bound [of j] by (cases "j < nsets ce") (auto simp: scan_res_def)
          with eq r few clean loc refl b ndl show ?thesis
            by (cases "k = 0"; cases "ttl > t div k") (simp_all, blast+)
        qed
      qed
    qed
  qed
qed

subsection \<open>Replacing one RR set\<close>

definition same_but :: "nat \<Rightarrow> dns_cent \<Rightarrow> dns_cent \<Rightarrow> bool" where
  "same_but i ce ce' \<longleftrightarrow> (\<forall>j. j \<noteq> i \<longrightarrow> map_option strip (sets ce' j) = map_option strip (sets ce j))"

lemma same_but_refl [simp, intro!]: "same_but i ce ce"
  by (simp add: same_but_def)

lemma same_but_trans [trans]: "same_but i a b \<Longrightarrow> same_but i b c \<Longrightarrow> same_but i a c"
  by (simp add: same_but_def)

lemma same_but_upd: "sets ce' = (sets ce)(i := v) \<Longrightarrow> same_but i ce ce'"
  by (simp add: same_but_def)

lemma same_but_Some:
  assumes "same_but i ce ce'" "j \<noteq> i" "sets ce' j = Some rs'"
  shows "\<exists>rs. sets ce j = Some rs \<and> rs_flags rs = rs_flags rs'"
proof -
  from assms have "map_option strip (sets ce j) = Some (strip rs')"
    unfolding same_but_def by (metis option.map(2))
  then obtain rs where "sets ce j = Some rs" "strip rs' = strip rs" by auto
  with strip_flags [of rs' rs] show ?thesis by simp
qed

lemma keeps_local_but:
  assumes "keeps_local ce ce2" "same_but i ce2 ce3" "\<And>rs. sets ce i = Some rs \<Longrightarrow> \<not> fset (rs_flags rs) CF_LOCAL"
  shows "keeps_local ce ce3"
  unfolding keeps_local_def
proof (intro allI impI, elim conjE)
  fix j rs assume h: "sets ce j = Some rs" "fset (rs_flags rs) CF_LOCAL"
  with assms(3) have "j \<noteq> i" by blast
  from h assms(1) obtain rs2 where rs2: "sets ce2 j = Some rs2" "strip rs2 = strip rs" unfolding keeps_local_def by blast
  with assms(2) \<open>j \<noteq> i\<close> have "map_option strip (sets ce3 j) = Some (strip rs)" by (simp add: same_but_def)
  then show "\<exists>rs'. sets ce3 j = Some rs' \<and> strip rs' = strip rs" by auto
qed

lemma compat_but:
  assumes "compat ce" "same_but i ce ce'"
    and "\<And>rs. sets ce' i = Some rs \<Longrightarrow> fset (rs_flags rs) CF_NEGATIVE \<or> (\<forall>j. \<not> conflicting ce i j)"
  shows "compat ce'"
  unfolding compat_def
proof (intro allI impI, elim conjE)
  fix j k rs rs'
  assume h: "sets ce' j = Some rs" "sets ce' k = Some rs'" "j \<noteq> k"
    "\<not> fset (rs_flags rs) CF_NEGATIVE" "\<not> fset (rs_flags rs') CF_NEGATIVE"
  have new: "\<not> rr_conflict i m" if "sets ce' i = Some x" "\<not> fset (rs_flags x) CF_NEGATIVE" "m \<noteq> i"
    "sets ce' m = Some y" "\<not> fset (rs_flags y) CF_NEGATIVE" for m x y
    using assms(3) [OF that(1)] that same_but_Some [OF assms(2) that(3,4)] unfolding conflicting_def set_conflicts_def by metis
  consider "j = i" | "k = i" | "j \<noteq> i" "k \<noteq> i" by blast
  then show "\<not> rr_conflict j k"
  proof cases
    case 1
    with h new [of rs k rs'] show ?thesis by simp
  next
    case 2
    with h new [of rs' j rs] rr_conflict_sym [of j k] show ?thesis by simp
  next
    case 3
    from same_but_Some [OF assms(2) 3(1) h(1)] same_but_Some [OF assms(2) 3(2) h(2)] h(3-5) assms(1)
    show ?thesis unfolding compat_def by metis
  qed
qed

lemma lent_of_put:
  assumes "sets ce' = (sets ce)(i := Some x)" "sets ce i = Some y" "rs_lent x = rs_lent y" "neg_lent ce' = neg_lent ce"
  shows "lent_of ce' idx = lent_of ce idx"
  using assms by (auto simp: lent_of_def set_lent_of_def split: option.splits)

text \<open>A step that changes one set and keeps its node.\<close>

lemma est_put:
  assumes "base c" "c_heap c a = Some ce" "cent_ok ce'" "same_head ce ce'" "c_mem c = [] \<longrightarrow> m = []"
    and "\<And>idx. lent_of ce' idx = lent_of ce idx"
  shows "est a c (put_cent a ce' (c\<lparr>c_mem := m\<rparr>))"
  using est_change [OF assms(1-4), of "{}" None m] assms(5,6) by simp

lemma add_rrs_ok:
  assumes "base c" "c_heap c a = Some ce" "i < NRRTOT" "sets ce i = Some x" "rs_rrs x = pre" "rt = tail_pos pre"
  shows "\<exists>ok c' ce' rrs'. add_rrs a i rs rrs rt c = Some (ok, c') \<and> est a c c' \<and> c_heap c' a = Some ce' \<and>
    same_head ce ce' \<and> is_neg ce' = is_neg ce \<and> (\<forall>idx. lent_of ce' idx = lent_of ce idx) \<and>
    sets ce' = (sets ce)(i := Some (x\<lparr>rs_rrs := pre @ rrs'\<rparr>)) \<and> (ok \<longrightarrow> rrs' = rrs) \<and> (c_mem c = [] \<longrightarrow> ok)"
  using assms
proof (induction rrs arbitrary: c ce x pre rt)
  case Nil
  have "sets ce = (sets ce)(i := Some (x\<lparr>rs_rrs := pre @ []\<rparr>))" using Nil.prems(4,5) by (auto simp: fun_eq_iff)
  with Nil est_refl [OF Nil.prems(1,2)] show ?case
    by (intro exI [of _ True] exI [of _ c] exI [of _ ce] exI [of _ "[]"]) simp
next
  case (Cons rr rrs)
  note ok = baseD(1) [OF Cons.prems(1,2)]
  from add_cent_rr_int_ok [OF ok Cons.prems(3,4), of "rs_ttl rs" "rs_ts rs" "rs_flags rs" rr c] Cons.prems(5,6)
  obtain ok1 ce1 m where
    r: "add_cent_rr_int ce i (rs_ttl rs) (rs_ts rs) (rs_flags rs) (length rr) rr rt c =
        Some (ok1, (if ok1 then tail_pos (pre @ [rr]) else tail_pos pre), ce1, c\<lparr>c_mem := m\<rparr>)"
      "c_mem c = [] \<longrightarrow> ok1 \<and> m = []" "cent_ok ce1" "is_neg ce1 = is_neg ce" "same_head ce ce1" "neg_lent ce1 = neg_lent ce"
      "sets ce1 = (if ok1 then (sets ce)(i := Some (x\<lparr>rs_rrs := pre @ [rr]\<rparr>)) else sets ce)" by auto
  have s: "sets ce1 = (sets ce)(i := Some (x\<lparr>rs_rrs := pre @ (if ok1 then [rr] else [])\<rparr>))"
    using r(7) Cons.prems(4,5) by (auto simp: fun_eq_iff)
  have l: "lent_of ce1 idx = lent_of ce idx" for idx
    by (rule lent_of_put [OF s Cons.prems(4) _ r(6)]) simp
  let ?c = "put_cent a ce1 (c\<lparr>c_mem := m\<rparr>)"
  have e: "est a c ?c" by (rule est_put [OF Cons.prems(1,2) r(3,5) _ l]) (use r(2) in simp)
  show ?case
  proof (cases ok1)
    case False
    with Cons.prems r(1) have "add_rrs a i rs (rr # rrs) rt c = Some (False, ?c)" by simp
    with False e l r(2,4,5) s put_cent_at [of a ce1] show ?thesis
      by (intro exI [of _ False] exI [of _ ?c] exI [of _ ce1] exI [of _ "[]"]) auto
  next
    case True
    have x1: "sets ce1 i = Some (x\<lparr>rs_rrs := pre @ [rr]\<rparr>)" "rs_rrs (x\<lparr>rs_rrs := pre @ [rr]\<rparr>) = pre @ [rr]"
      using s True by simp_all
    from Cons.IH [OF est_base [OF e] put_cent_at Cons.prems(3) x1 refl] obtain ok2 c' ce' rrs' where
      q: "add_rrs a i rs rrs (tail_pos (pre @ [rr])) ?c = Some (ok2, c')" "est a ?c c'" "c_heap c' a = Some ce'"
        "same_head ce1 ce'" "is_neg ce' = is_neg ce1" "\<forall>idx. lent_of ce' idx = lent_of ce1 idx"
        "sets ce' = (sets ce1)(i := Some (x\<lparr>rs_rrs := pre @ [rr], rs_rrs := (pre @ [rr]) @ rrs'\<rparr>))"
        "ok2 \<longrightarrow> rrs' = rrs" "c_mem ?c = [] \<longrightarrow> ok2" by blast
    have "sets ce' = (sets ce)(i := Some (x\<lparr>rs_rrs := pre @ rr # rrs'\<rparr>))" using q(7) s True by simp
    moreover have "add_rrs a i rs (rr # rrs) rt c = Some (ok2, c')" using Cons.prems r(1) True q(1) by simp
    moreover have "c_mem c = [] \<longrightarrow> ok2" using q(9) r(2) by (simp add: put_cent_def)
    ultimately show ?thesis using est_trans [OF e q(2)] q(3-6,8) r(4) l same_head_trans [OF r(5) q(4)]
      by (intro exI [of _ ok2] exI [of _ c'] exI [of _ ce'] exI [of _ "rr # rrs'"]) simp
  qed
qed

lemma adjust_ttl_fields [simp]:
  "rs_lent (adjust_ttl g rs) = rs_lent rs" "rs_rrs (adjust_ttl g rs) = rs_rrs rs" "rs_ts (adjust_ttl g rs) = rs_ts rs"
  "fset (rs_flags (adjust_ttl g rs)) CF_LOCAL = fset (rs_flags rs) CF_LOCAL"
  "fset (rs_flags (adjust_ttl g rs)) CF_NEGATIVE = fset (rs_flags rs) CF_NEGATIVE"
  by (simp_all add: adjust_ttl_def flag_simps) (simp_all add: flag_defs bit_simps)

lemma adjust_ttl_strip: "strip (adjust_ttl g (strip rs)) = strip (adjust_ttl g rs)"
  by (simp add: adjust_ttl_def strip_def)

text \<open>\<^verbatim>\<open>adjust_ttl\<close> on a set of an entry, then \<^verbatim>\<open>insert_rrl\<close>.\<close>

lemma adjust_insert_ok:
  assumes b: "base c" "c_heap c a = Some ce" and x: "sets ce i = Some x" "rs_lent x = None"
  shows "\<exists>ok ce1 c' ce'. rrarr_set ce i (Some (adjust_ttl g x)) = Some ce1 \<and>
    insert_rrl a (Some i) (put_cent a ce1 c) = Some (ok, c') \<and> est a c c' \<and> c_heap c' a = Some ce' \<and>
    same_head ce ce' \<and> is_neg ce' = is_neg ce \<and> nsets ce' = nsets ce \<and> same_but i ce ce' \<and> map_option strip (sets ce' i) = Some (strip (adjust_ttl g x)) \<and>
    (c_mem c = [] \<longrightarrow> ok) \<and> (\<forall>j. j \<noteq> Some i \<longrightarrow> lent_of ce' j = lent_of ce j)"
proof -
  note wf = baseD(2) [OF b]
  note i = sets_Some_less [OF wf x(1)]
  let ?ce = "put_set ce i (Some (adjust_ttl g x))"
  have s: "sets ?ce = (sets ce)(i := Some (adjust_ttl g x))" using sets_put_set [OF wf] i by simp
  have ok: "cent_ok ?ce"
    by (rule put_set_ok_same [OF baseD(1) [OF b]]) (use i x in \<open>simp_all add: set_bytes_def set_count_def\<close>)
  have l: "lent_of ?ce idx = lent_of ce idx" for idx
    by (rule lent_of_put [OF s x(1)]) simp_all
  have h: "same_head ce ?ce" by (simp add: same_head_def)
  have e: "est a c (put_cent a ?ce c)" using est_put [OF b ok h _ l, of "c_mem c"] by simp
  have "node_slot ?ce (Some i)" "lent_of ?ce (Some i) = None"
    using s l [of "Some i"] x by (simp_all add: node_slot_def lent_of_def set_lent_of_def)
  from insert_rrl_ok [OF est_base [OF e] put_cent_at this] obtain ok c' ce' where
    r: "insert_rrl a (Some i) (put_cent a ?ce c) = Some (ok, c')" "ent_step a (put_cent a ?ce c) c'" "c_heap c' a = Some ce'"
      "strip_cent ce' = strip_cent ?ce" "c_size c' = c_size (put_cent a ?ce c)"
      "c_mem (put_cent a ?ce c) = [] \<longrightarrow> ok \<and> c_mem c' = []" "\<forall>j. j \<noteq> Some i \<longrightarrow> lent_of ce' j = lent_of ?ce j" by blast
  have "est a (put_cent a ?ce c) c'" using r(2,5,6) by (simp add: est_def)
  from est_trans [OF e this] have e': "est a c c'" .
  note st = strip_eqD [OF r(4) cent_okD(1) [OF ok] baseD(2) [OF est_base [OF e'] r(3)]]
  have "same_but i ce ce'" "map_option strip (sets ce' i) = Some (strip (adjust_ttl g x))"
    by (simp_all add: same_but_def st(9) s)
  moreover have "same_head ce ce'" using same_head_trans [OF h st(10)] .
  moreover have "c_mem c = [] \<longrightarrow> ok" using r(6) by (simp add: put_cent_def)
  ultimately show ?thesis using i wf r(1,3,7) e' st(7,8) l by (simp add: cent_simps)
qed

lemma add_cent_rrset_est:
  assumes b: "base c" "c_heap c a = Some ce" and i: "i < NRRTOT" "sets ce i = None"
  shows "\<exists>ok ce' c'. add_cent_rrset_by_index ce i ttl ts flags c = Some (ok, ce', c') \<and> est a c (put_cent a ce' c') \<and>
    same_head ce ce' \<and> \<not> is_neg ce' \<and> (c_mem c = [] \<longrightarrow> ok) \<and>
    sets ce' = (if ok then (sets ce)(i := Some (new_set ttl ts flags)) else sets ce)"
proof -
  note ok = baseD(1) [OF b]
  from add_cent_rrset_ok [OF ok i, of ttl ts flags c] obtain r ce' m where
    r: "add_cent_rrset_by_index ce i ttl ts flags c = Some (r, ce', (unlink (neg_lent ce) c)\<lparr>c_mem := m\<rparr>)"
      "c_mem c = [] \<longrightarrow> r \<and> m = []" "cent_ok ce'" "\<not> is_neg ce'" "same_head ce ce'"
      "sets ce' = (if r then (sets ce)(i := Some (new_set ttl ts flags)) else sets ce)" by blast
  have n: "neg_lent ce' = None" using neg_lent_pos [OF cent_okD(1) [OF r(3)] r(4)] .
  have l: "lent_of ce' idx = (if idx \<in> {None} then None else lent_of ce idx)" for idx
  proof (cases idx)
    case (Some j)
    then show ?thesis using r(6) i(2) by (auto simp: lent_of_def set_lent_of_def new_set_def)
  qed (simp add: lent_of_def n)
  have "est a c (put_cent a ce' ((unlink (neg_lent ce) c)\<lparr>c_mem := m\<rparr>))"
    by (rule est_change [OF b r(3,5) l]) (use r(2) in \<open>auto simp: lent_of_def\<close>)
  with r show ?thesis by blast
qed

text \<open>
  \<^verbatim>\<open>del_cent_rrset_by_index\<close>, \<^verbatim>\<open>cr_check_add\<close>, and the copy of the new set. The set at \<open>i\<close> is the
  new one or gone, and it conflicts with none of the others.
\<close>

definition replaced :: "conf \<Rightarrow> nat \<Rightarrow> rr_set \<Rightarrow> dns_cent \<Rightarrow> dns_cent \<Rightarrow> bool" where
  "replaced g i rs ce ce' \<longleftrightarrow> same_head ce ce' \<and> (compat ce \<longrightarrow> compat ce') \<and>
     (\<not> fset (rs_flags rs) CF_LOCAL \<and> (\<forall>old. sets ce i = Some old \<longrightarrow> \<not> fset (rs_flags old) CF_LOCAL) \<longrightarrow> keeps_local ce ce') \<and>
     (\<forall>j. j \<noteq> i \<longrightarrow> sets ce' j = None \<or> map_option strip (sets ce' j) = map_option strip (sets ce j)) \<and>
     (sets ce' i = None \<or> map_option strip (sets ce' i) = Some (strip (adjust_ttl g rs)))"

lemma replacedI:
  assumes "same_head ce ce'" "fewer ce ce2" "same_but i ce2 ce'" "\<not> fset (rs_flags rs) CF_LOCAL \<longrightarrow> keeps_local (drop_set ce i) ce2"
    and "cent_wf ce" "sets ce' i \<noteq> None \<longrightarrow> fset (rs_flags rs) CF_NEGATIVE \<or> (\<forall>j. \<not> conflicting ce2 i j)"
    and "sets ce' i = None \<or> map_option strip (sets ce' i) = Some (strip (adjust_ttl g rs))"
  shows "replaced g i rs ce ce'"
proof -
  have "compat ce'" if "compat ce"
  proof (rule compat_but [OF fewer_compat [OF assms(2) that] assms(3)])
    fix x assume x: "sets ce' i = Some x"
    with assms(7) have "strip x = strip (adjust_ttl g rs)" by simp
    from strip_flags [OF this] have "fset (rs_flags x) CF_NEGATIVE = fset (rs_flags rs) CF_NEGATIVE" by simp
    with x assms(6) show "fset (rs_flags x) CF_NEGATIVE \<or> (\<forall>j. \<not> conflicting ce2 i j)" by simp
  qed
  moreover have "keeps_local ce ce'"
    if "\<not> fset (rs_flags rs) CF_LOCAL" and old: "\<forall>old. sets ce i = Some old \<longrightarrow> \<not> fset (rs_flags old) CF_LOCAL"
  proof (rule keeps_local_but [OF _ assms(3)])
    show "keeps_local ce ce2"
      using keeps_local_trans [OF keeps_local_drop [OF assms(5)]] assms(4) that by blast
  qed (use old in blast)
  moreover have "sets ce' j = None \<or> map_option strip (sets ce' j) = map_option strip (sets ce j)" if "j \<noteq> i" for j
    using that assms(2,3) unfolding fewer_def same_but_def by (metis option.map_disc_iff)
  ultimately show ?thesis using assms(1,7) unfolding replaced_def by blast
qed

lemma replace_rrset_ok:
  assumes b: "base c" "c_heap c a = Some ce" and i: "i < NRRTOT"
  shows "\<exists>ok c' ce'. replace_rrset g now a i rs c = Some (ok, c') \<and> est a c c' \<and> c_heap c' a = Some ce' \<and>
    replaced g i rs ce ce' \<and> (c_mem c = [] \<longrightarrow> ok)"
proof -
  note wf = baseD(2) [OF b]
  let ?ce1 = "drop_set ce i"
  let ?c1 = "put_cent a ?ce1 (unlink (set_lent_of ce i) c)"
  note e1 = est_drop [OF b, of i]
  have n1: "sets ?ce1 i = None" by (simp add: drop_set_props(2) [OF wf])
  from cr_check_add_ok [OF est_base [OF e1] put_cent_at i, of now "rs_ttl rs" "rs_ts rs" "rs_flags rs"] obtain ok2 c2 ce2 where
    r2: "cr_check_add now a i (rs_ttl rs) (rs_ts rs) (rs_flags rs) ?c1 = Some (ok2, c2)" "est a ?c1 c2" "c_heap c2 a = Some ce2"
      "same_head ?ce1 ce2" "fewer ?ce1 ce2" "\<not> fset (rs_flags rs) CF_LOCAL \<longrightarrow> keeps_local ?ce1 ce2"
      "ok2 \<and> \<not> fset (rs_flags rs) CF_NEGATIVE \<longrightarrow> (\<forall>j. \<not> conflicting ce2 i j)" by blast
  have e2: "est a c c2" using est_trans [OF e1 r2(2)] .
  have h2: "same_head ce ce2" using same_head_trans [OF same_head_drop [OF wf] r2(4)] .
  have f2: "fewer ce ce2" using fewer_trans [OF fewer_drop [OF wf] r2(5)] .
  have n2: "sets ce2 i = None" using r2(5) n1 by (auto simp: fewer_def dest: spec [of _ i])
  have start: "replace_rrset g now a i rs c =
      do { (ok, c) \<leftarrow> cr_check_add now a i (rs_ttl rs) (rs_ts rs) (rs_flags rs) ?c1;
        if \<not> ok then Some (True, c)
        else do {
          ce \<leftarrow> c_heap c a;
          (ok, ce, c) \<leftarrow> add_cent_rrset_by_index ce i (rs_ttl rs) (rs_ts rs) (rs_flags rs) c;
          let c = put_cent a ce c;
          if \<not> ok then Some (False, c)
          else do {
            (ok, c) \<leftarrow> add_rrs a i rs (rs_rrs rs) None c;
            (ok, c) \<leftarrow>
              (if \<not> ok then Some (False, c)
               else do {
                 ce \<leftarrow> c_heap c a;
                 new \<leftarrow> rrarr_index ce i;
                 new \<leftarrow> new;
                 ce \<leftarrow> rrarr_set ce i (Some (adjust_ttl g new));
                 insert_rrl a (Some i) (put_cent a ce c) });
            if \<not> ok then do {
              ce \<leftarrow> c_heap c a;
              (_, ce, c) \<leftarrow> del_cent_rrset_by_index ce i c;
              Some (False, put_cent a ce c) }
            else Some (True, c) } } }"
    using b(2) del_cent_rrset_drop [OF wf i] by (simp add: replace_rrset_def)
  have m2: "c_mem c2 = []" if "c_mem c = []" using e2 that by (simp add: est_def)
  show ?thesis
  proof (cases ok2)
    case False
    have "replaced g i rs ce ce2" by (rule replacedI [OF h2 f2 same_but_refl r2(6) wf]) (simp_all add: n2)
    moreover have "replace_rrset g now a i rs c = Some (True, c2)" using start r2(1) False by simp
    ultimately show ?thesis using e2 r2(3) by blast
  next
    case True
    from add_cent_rrset_est [OF est_base [OF e2] r2(3) i n2, of "rs_ttl rs" "rs_ts rs" "rs_flags rs"] obtain ok3 ce3 c3 where
      r3: "add_cent_rrset_by_index ce2 i (rs_ttl rs) (rs_ts rs) (rs_flags rs) c2 = Some (ok3, ce3, c3)"
        "est a c2 (put_cent a ce3 c3)" "same_head ce2 ce3" "c_mem c2 = [] \<longrightarrow> ok3"
        "sets ce3 = (if ok3 then (sets ce2)(i := Some (new_set (rs_ttl rs) (rs_ts rs) (rs_flags rs))) else sets ce2)" by blast
    let ?c3 = "put_cent a ce3 c3"
    have e3: "est a c ?c3" using est_trans [OF e2 r3(2)] .
    have h3: "same_head ce ce3" using same_head_trans [OF h2 r3(3)] .
    have sb3: "same_but i ce2 ce3" using r3(5) by (cases ok3) (simp_all add: same_but_def)
    have m3: "c_mem ?c3 = []" if "c_mem c = []" using e3 that by (simp add: est_def)
    show ?thesis
    proof (cases ok3)
      case False
      have "replaced g i rs ce ce3"
        by (rule replacedI [OF h3 f2 sb3 r2(6) wf]) (use False r3(5) n2 in simp_all)
      with start r2(1,3) True r3(1,4) False e3 m2 show ?thesis by auto
    next
      case ok3: True
      have new: "sets ce3 i = Some (new_set (rs_ttl rs) (rs_ts rs) (rs_flags rs))" using r3(5) ok3 by simp
      have "rs_rrs (new_set (rs_ttl rs) (rs_ts rs) (rs_flags rs)) = []" "None = tail_pos []"
        by (simp_all add: new_set_def tail_pos_def)
      from add_rrs_ok [OF est_base [OF e3] put_cent_at i new this, of rs "rs_rrs rs"] obtain ok4 c4 ce4 rrs' where
        r4: "add_rrs a i rs (rs_rrs rs) None ?c3 = Some (ok4, c4)" "est a ?c3 c4" "c_heap c4 a = Some ce4" "same_head ce3 ce4"
          "sets ce4 = (sets ce3)(i := Some ((new_set (rs_ttl rs) (rs_ts rs) (rs_flags rs))\<lparr>rs_rrs := [] @ rrs'\<rparr>))"
          "ok4 \<longrightarrow> rrs' = rs_rrs rs" "c_mem ?c3 = [] \<longrightarrow> ok4" by blast
      have e4: "est a c c4" using est_trans [OF e3 r4(2)] .
      have h4: "same_head ce ce4" using same_head_trans [OF h3 r4(4)] .
      have sb4: "same_but i ce2 ce4" using same_but_trans [OF sb3 same_but_upd [OF r4(5)]] .
      have m4: "c_mem c4 = []" if "c_mem c = []" using e4 that by (simp add: est_def)
      have fail: "\<exists>ok c' ce'. (do { ce \<leftarrow> c_heap c5 a; (_, ce, c) \<leftarrow> del_cent_rrset_by_index ce i c5; Some (False, put_cent a ce c) }) = Some (ok, c') \<and>
          \<not> ok \<and> est a c c' \<and> c_heap c' a = Some ce' \<and> replaced g i rs ce ce'"
        if "est a c c5" "c_heap c5 a = Some ce5" "same_head ce ce5" "same_but i ce2 ce5" for c5 ce5
      proof -
        note wf5 = baseD(2) [OF est_base [OF that(1)] that(2)]
        have "replaced g i rs ce (drop_set ce5 i)"
          by (rule replacedI [OF same_head_trans [OF that(3) same_head_drop [OF wf5]] f2 _ r2(6) wf])
            (use that(4) in \<open>simp_all add: drop_set_props(2) [OF wf5] same_but_def\<close>)
        with est_trans [OF that(1) est_drop [OF est_base [OF that(1)] that(2), of i]] that(2) del_cent_rrset_drop [OF wf5 i]
        show ?thesis by simp blast
      qed
      show ?thesis
      proof (cases ok4)
        case False
        from fail [OF e4 r4(3) h4 sb4] start r2(1,3) True r3(1) ok3 r4(1) False r4(7) m3 show ?thesis by (simp add: Let_def) metis
      next
        case ok4: True
        have x4: "sets ce4 i = Some (strip rs)" using r4(5,6) ok4 by (simp add: new_set_def strip_def)
        note wf4 = baseD(2) [OF est_base [OF e4] r4(3)]
        have idx4: "rrarr_index ce4 i = Some (Some (strip rs))"
          using sets_Some_less [OF wf4 x4] x4 wf4 by (simp add: cent_simps)
        have "rs_lent (strip rs) = None" by (simp add: strip_def)
        from adjust_insert_ok [OF est_base [OF e4] r4(3) x4 this, of g] obtain ok5 ce5 c6 ce6 where
          r5: "rrarr_set ce4 i (Some (adjust_ttl g (strip rs))) = Some ce5"
            "insert_rrl a (Some i) (put_cent a ce5 c4) = Some (ok5, c6)" "est a c4 c6" "c_heap c6 a = Some ce6"
            "same_head ce4 ce6" "same_but i ce4 ce6" "map_option strip (sets ce6 i) = Some (strip (adjust_ttl g (strip rs)))"
            "c_mem c4 = [] \<longrightarrow> ok5" by blast
        have e6: "est a c c6" using est_trans [OF e4 r5(3)] .
        have h6: "same_head ce ce6" using same_head_trans [OF h4 r5(5)] .
        have sb6: "same_but i ce2 ce6" using same_but_trans [OF sb4 r5(6)] .
        show ?thesis
        proof (cases ok5)
          case False
          from fail [OF e6 r5(4) h6 sb6] start r2(1,3) True r3(1) ok3 r4(1,3) ok4 idx4 r5(1,2,8) False m4 show ?thesis
            by (simp add: Let_def) metis
        next
          case ok5: True
          have "replaced g i rs ce ce6"
            by (rule replacedI [OF h6 f2 sb6 r2(6) wf]) (use r2(7) True r5(7) in \<open>auto simp: adjust_ttl_strip\<close>)
          moreover have "replace_rrset g now a i rs c = Some (True, c6)"
            using start r2(1,3) True r3(1) ok3 r4(1,3) ok4 idx4 r5(1,2) ok5 by (simp add: Let_def)
          ultimately show ?thesis using e6 r5(4) by blast
        qed
      qed
    qed
  qed
qed

subsection \<open>Merging a new entry into the stored one\<close>

text \<open>Every set of the merged entry is one the old entry had or a new one with its limited time to live.\<close>

definition merged :: "conf \<Rightarrow> dns_cent \<Rightarrow> dns_cent \<Rightarrow> dns_cent \<Rightarrow> bool" where
  "merged g cent ce ce' \<longleftrightarrow> same_head ce ce' \<and> (compat ce \<longrightarrow> compat ce') \<and>
     ((\<forall>i rs. sets cent i = Some rs \<longrightarrow> \<not> fset (rs_flags rs) CF_LOCAL) \<longrightarrow> keeps_local ce ce') \<and>
     (\<forall>j. sets ce' j = None \<or> map_option strip (sets ce' j) = map_option strip (sets ce j) \<or>
        (\<exists>rs. sets cent j = Some rs \<and> map_option strip (sets ce' j) = Some (strip (adjust_ttl g rs))))"

lemma merged_refl [simp, intro!]: "merged g cent ce ce"
  by (simp add: merged_def)

lemma merged_step:
  assumes "sets cent i = Some rs" "\<forall>old. sets ce i = Some old \<longrightarrow> \<not> old_precedes now rs old"
    and r: "replaced g i rs ce ce1" and m: "merged g cent ce1 ce2"
  shows "merged g cent ce ce2"
proof -
  have "same_head ce ce2" using r m same_head_trans unfolding replaced_def merged_def by blast
  moreover have "keeps_local ce ce2" if c: "\<forall>i rs. sets cent i = Some rs \<longrightarrow> \<not> fset (rs_flags rs) CF_LOCAL"
  proof -
    have "\<not> fset (rs_flags rs) CF_LOCAL" using c assms(1) by blast
    moreover from this have "\<forall>old. sets ce i = Some old \<longrightarrow> \<not> fset (rs_flags old) CF_LOCAL"
      using assms(2) by (auto simp: old_precedes_def)
    ultimately have "keeps_local ce ce1" using r by (simp add: replaced_def)
    moreover have "keeps_local ce1 ce2" using m c by (simp add: merged_def)
    ultimately show ?thesis by (rule keeps_local_trans)
  qed
  moreover have "sets ce2 j = None \<or> map_option strip (sets ce2 j) = map_option strip (sets ce j) \<or>
        (\<exists>rs. sets cent j = Some rs \<and> map_option strip (sets ce2 j) = Some (strip (adjust_ttl g rs)))" for j
  proof -
    have 1: "sets ce1 j = None \<or> map_option strip (sets ce1 j) = map_option strip (sets ce j) \<or>
        (\<exists>rs. sets cent j = Some rs \<and> map_option strip (sets ce1 j) = Some (strip (adjust_ttl g rs)))"
      using r assms(1) unfolding replaced_def by (cases "j = i") blast+
    have 2: "sets ce2 j = None \<or> map_option strip (sets ce2 j) = map_option strip (sets ce1 j) \<or>
        (\<exists>rs. sets cent j = Some rs \<and> map_option strip (sets ce2 j) = Some (strip (adjust_ttl g rs)))"
      using m unfolding merged_def by blast
    show ?thesis
    proof (cases "map_option strip (sets ce2 j) = map_option strip (sets ce1 j)")
      case True
      with 1 show ?thesis by (metis option.map_disc_iff)
    qed (use 2 in blast)
  qed
  ultimately show ?thesis using r m unfolding merged_def replaced_def by blast
qed

lemma merge_sets_ok:
  assumes cent: "cent_wf cent"
  shows "base c \<Longrightarrow> c_heap c a = Some ce \<Longrightarrow> i + n \<le> nsets cent \<Longrightarrow>
    \<exists>ok c' ce'. merge_sets g now a cent i n c = Some (ok, c') \<and> est a c c' \<and> c_heap c' a = Some ce' \<and>
      merged g cent ce ce' \<and> (c_mem c = [] \<longrightarrow> ok)"
proof (induction n arbitrary: i c ce)
  case 0
  then show ?case using est_refl [OF 0(1,2)] by simp blast
next
  case (Suc n)
  note wf = baseD(2) [OF Suc.prems(1,2)]
  have idx: "rrarr_index cent i = Some (sets cent i)" using Suc.prems(3) cent by (simp add: cent_simps)
  have i: "i < NRRTOT" using Suc.prems(3) nsets_le [of cent] by linarith
  have test: "rrarr_index_testext ce i = Some (sets ce i)" using testext_wf [OF wf i] .
  have le: "i + 1 + n \<le> nsets cent" using Suc.prems(3) by simp
  let ?skip = "sets cent i = None \<or> (\<exists>new old. sets cent i = Some new \<and> sets ce i = Some old \<and> old_precedes now new old)"
  show ?case
  proof (cases ?skip)
    case True
    then have "merge_sets g now a cent i (Suc n) c = merge_sets g now a cent (i + 1) n c"
      using idx test Suc.prems(2) by auto
    with Suc.IH [OF Suc.prems(1,2) le] show ?thesis by simp
  next
    case False
    then obtain new where new: "sets cent i = Some new" "\<forall>old. sets ce i = Some old \<longrightarrow> \<not> old_precedes now new old" by auto
    from replace_rrset_ok [OF Suc.prems(1,2) i, of g now new] obtain ok c1 ce1 where
      r: "replace_rrset g now a i new c = Some (ok, c1)" "est a c c1" "c_heap c1 a = Some ce1" "replaced g i new ce ce1"
        "c_mem c = [] \<longrightarrow> ok" by blast
    have eq: "merge_sets g now a cent i (Suc n) c = (if \<not> ok then Some (False, c1) else merge_sets g now a cent (i + 1) n c1)"
      using idx test Suc.prems(2) new r(1) by (cases "sets ce i") auto
    show ?thesis
    proof (cases ok)
      case False
      with eq r merged_step [OF new r(4) merged_refl] show ?thesis by auto
    next
      case True
      from Suc.IH [OF est_base [OF r(2)] r(3) le] obtain ok2 c2 ce2 where
        q: "merge_sets g now a cent (i + 1) n c1 = Some (ok2, c2)" "est a c1 c2" "c_heap c2 a = Some ce2" "merged g cent ce1 ce2"
          "c_mem c1 = [] \<longrightarrow> ok2" by blast
      have "c_mem c = [] \<longrightarrow> ok2" using q(5) r(2) by (auto simp: est_def)
      with eq True q est_trans [OF r(2) q(2)] merged_step [OF new r(4) q(4)] show ?thesis by auto
    qed
  qed
qed

end
