(* ===== verification/Cache_Store.thy ===== *)
theory Cache_Store
  imports Cache_Merge
begin

unbundle bit_operations_syntax

section \<open>Adding and looking up entries\<close>

text \<open>
  \<^verbatim>\<open>add_cache\<close> as a whole: it ends after at most one retry, never touches freed memory, keeps
  the invariant of the cache and the freedom from conflicts, and never lets data from the network
  displace a local RR set. The functions that look entries up, change or delete them follow.
\<close>

subsection \<open>A new entry outside the table\<close>

lemma base_new:
  assumes "base c" "cent_ok ce" "no_lents ce" "c_heap c' = (c_heap c)(c_brk c \<mapsto> ce)" "c_brk c' = c_brk c + 1" "c_rrl c' = c_rrl c"
  shows "base c'"
proof (rule baseI)
  show "cent_ok x \<and> a < c_brk c'" if "c_heap c' a = Some x" for a x
    using that assms(2,4,5) baseD(1,3) [OF assms(1)] by (auto split: if_splits intro: less_SucI)
  show "distinct (map le_id (c_rrl c'))" using baseD(4) [OF assms(1)] assms(6) by simp
  show "le_id le < c_brk c'" if "le \<in> set (c_rrl c')" for le
    using baseD(5) [OF assms(1), of le] that assms(5,6) by simp
  show "le \<in> set (c_rrl c') \<longleftrightarrow> (\<exists>ce. c_heap c' (le_cent le) = Some ce \<and> lent_of ce (le_idx le) = Some (le_id le))" for le
  proof (cases "le_cent le = c_brk c")
    case True
    then have "c_heap c (le_cent le) = None" using baseD(3) [OF assms(1)] by (metis less_irrefl not_None_eq)
    then show ?thesis using baseD(6) [OF assms(1), of le] assms(3,4,6) True by (simp add: no_lents_def)
  next
    case False
    then show ?thesis using baseD(6) [OF assms(1), of le] assms(4,6) by simp
  qed
qed

lemma chain_find_cong:
  "\<forall>e\<in>set chain. q (he_data e) = q' (he_data e) \<Longrightarrow> chain_find q key rh chain pos = chain_find q' key rh chain pos"
  by (induction chain arbitrary: pos) (auto split: option.splits intro!: Option.bind_cong)

lemma dns_lookup_cong:
  assumes "\<And>a. a \<in> tab_addrs T \<Longrightarrow> q a = q' a" shows "dns_lookup q T key = dns_lookup q' T key"
proof -
  have "chain_find q key rh (T ! i) 0 = chain_find q' key rh (T ! i) 0" if "i < length T" for i rh
  proof (rule chain_find_cong, rule ballI)
    fix e assume "e \<in> set (T ! i)"
    then have "e \<in> set (concat T)" using that unfolding set_concat_nth by blast
    then have "he_data e \<in> tab_addrs T" unfolding tab_addrs_def by (rule imageI)
    then show "q (he_data e) = q' (he_data e)" by (rule assms)
  qed
  then show ?thesis
    by (auto simp: dns_lookup_def rd_def split: prod.splits if_splits intro!: Option.bind_cong)
qed

text \<open>\<open>c2\<close> is \<open>c\<close> with one more entry that the table does not know yet.\<close>

definition with_ent :: "nat \<Rightarrow> dns_cent \<Rightarrow> cache \<Rightarrow> cache \<Rightarrow> bool" where
  "with_ent a ce c c2 \<longleftrightarrow> base c2 \<and> c_heap c a = None \<and> c_heap c2 a = Some ce \<and> (\<forall>b. b \<noteq> a \<longrightarrow> c_heap c2 b = c_heap c b) \<and>
     c_tab c2 = c_tab c \<and> c_num c2 = c_num c \<and> c_size c2 = c_size c \<and> c_insert_sort c2 = c_insert_sort c \<and>
     (c_mem c = [] \<longrightarrow> c_mem c2 = [])"

lemma with_ent_est:
  assumes "with_ent a ce c c2" "est a c2 c3" "c_heap c3 a = Some ce'" shows "with_ent a ce' c c3"
  using assms by (auto simp: with_ent_def est_def ent_step_def frame_def)

lemma with_ent_total:
  assumes "with_ent a ce c c2" "base c" "f None = 0" shows "total f c2 = total f c + f (Some ce)"
  using total_frame [where f = f and c = c and c' = c2 and a = a] assms by (simp add: with_ent_def)

lemma with_ent_outside: "with_ent a ce c c2 \<Longrightarrow> tab_ok c \<Longrightarrow> a \<notin> tab_addrs (c_tab c)"
  by (auto simp: with_ent_def tab_ok_def)

lemma tab_insert:
  assumes "i < length T" "T ! i = pre @ post"
  shows "tab_addrs (T[i := pre @ e # post]) = insert (he_data e) (tab_addrs T)"
proof -
  have "x \<in> set (concat (T[i := pre @ e # post])) \<longleftrightarrow> x = e \<or> x \<in> set (concat T)" for x
  proof -
    have "x \<in> set (concat T) \<longleftrightarrow> x \<in> set (T ! i) \<or> (\<exists>j<length T. j \<noteq> i \<and> x \<in> set (T ! j))"
      unfolding set_concat_nth using assms(1) by blast
    then show ?thesis unfolding concat_update [OF assms(1)] assms(2) by auto
  qed
  then have "set (concat (T[i := pre @ e # post])) = insert e (set (concat T))" by blast
  then show ?thesis unfolding tab_addrs_def by (simp del: set_concat)
qed

text \<open>The entry is put in the table and counted.\<close>

lemma with_ent_link:
  assumes c: "cinv c" and w: "with_ent a ce c c2" and nm: "wf_name nm" "ce_qname ce = wire nm"
    and l: "cache_lookup c (wire nm) = Some (None, loc)"
  shows "\<exists>T. add_dns_hash (c_tab c2) a loc True = Some (True, T) \<and>
    cinv (c2\<lparr>c_mem := m, c_tab := T, c_num := c_num c2 + 1, c_size := c_size c2 + ce_cs ce\<rparr>)"
proof -
  note i = cinvD [OF c]
  have out: "a \<notin> tab_addrs (c_tab c)" by (rule with_ent_outside [OF w i(2)])
  have tab: "c_tab c2 = c_tab c" using w by (simp add: with_ent_def)
  have q: "qname_of c b = qname_of c2 b" if "b \<in> tab_addrs (c_tab c)" for b
    using w that out by (auto simp: with_ent_def qname_of_def)
  have ok: "htable_ok (qname_of c2) (c_tab c)" by (rule htable_ok_cong [OF q i(5)])
  have qa: "qname_of c2 a = Some (wire nm)" using w nm by (simp add: with_ent_def qname_of_def)
  have "dns_lookup (qname_of c2) (c_tab c) (wire nm @ []) = Some (None, loc)"
    using l dns_lookup_cong [where T = "c_tab c" and key = "wire nm", OF q] by (simp add: cache_lookup_def)
  from add_dns_hash_ok [OF ok wf_nameD [OF nm(1)] qa this] obtain T idx pre post where
    T: "add_dns_hash (c_tab c) a loc True = Some (True, T)" "htable_ok (qname_of c2) T"
      "idx < length (c_tab c)" "c_tab c ! idx = pre @ post" "T = (c_tab c)[idx := pre @ \<lparr>he_rhash = loc_rhash loc, he_data = a\<rparr> # post]"
    by blast
  let ?c = "c2\<lparr>c_mem := m, c_tab := T, c_num := c_num c2 + 1, c_size := c_size c2 + ce_cs ce\<rparr>"
  have "tab_addrs T = insert a (tab_addrs (c_tab c))" using tab_insert [OF T(3,4)] T(5) by simp
  moreover have "c_heap c2 = (c_heap c)(a \<mapsto> ce)" using w by (auto simp: with_ent_def fun_eq_iff)
  then have "dom (c_heap c2) = insert a (dom (c_heap c))" by simp
  moreover have "qname_of ?c = qname_of c2" by (simp add: qname_of_def fun_eq_iff)
  ultimately have "tab_ok ?c" using T(2) i(6) by (simp add: tab_ok_def)
  moreover have "base ?c" by (rule base_fields [of c2]) (use w in \<open>simp_all add: with_ent_def\<close>)
  moreover have "total f ?c = total f c2" for f by (simp add: total_def)
  moreover have "c_size c2 = c_size c" "c_num c2 = c_num c" using w by (simp_all add: with_ent_def)
  ultimately have "cinv ?c"
    using with_ent_total [OF w i(1), of ent_size] with_ent_total [OF w i(1), of ent_one] i(3,4) by (simp add: cinv_def)
  with T(1) tab show ?thesis by auto
qed

text \<open>Or it is thrown away.\<close>

lemma with_ent_free:
  assumes c: "cinv c" and w: "with_ent a ce c c2"
  shows "\<exists>c3. free_cent ce (c2\<lparr>c_mem := m\<rparr>) = Some c3 \<and> cinv (c3\<lparr>c_heap := (c_heap c3)(a := None)\<rparr>) \<and>
    c_heap (c3\<lparr>c_heap := (c_heap c3)(a := None)\<rparr>) = c_heap c \<and> c_insert_sort c3 = c_insert_sort c"
proof -
  note i = cinvD [OF c]
  have b: "base c2" and h: "c_heap c2 a = Some ce" using w by (simp_all add: with_ent_def)
  let ?c3 = "c2\<lparr>c_mem := m, c_rrl := drop_lents ce (c_rrl c2)\<rparr>"
  let ?c = "?c3\<lparr>c_heap := (c_heap ?c3)(a := None)\<rparr>"
  have f: "free_cent ce (c2\<lparr>c_mem := m\<rparr>) = Some ?c3" using free_cent_wf [OF baseD(2) [OF b h]] by simp
  have heap: "c_heap ?c = c_heap c" using w by (auto simp: with_ent_def)
  have base: "base ?c" by (rule base_delete [OF b h]) simp_all
  have tab: "tab_ok ?c"
    using i(2) heap w by (simp add: tab_ok_def qname_of_def [abs_def] with_ent_def)
  have tot: "total f ?c = total f c" if "f None = 0" for f
  proof -
    have "c_heap ?c a = None" "c_heap c a = None" "\<forall>b. b \<noteq> a \<longrightarrow> c_heap ?c b = c_heap c b"
      using w unfolding heap by (simp_all add: with_ent_def)
    with total_frame [where f = f and c = c and c' = ?c and a = a, OF i(1) base that] that show ?thesis by simp
  qed
  have "cinv ?c"
    using base tab tot [of ent_size] tot [of ent_one] i(3,4) w by (simp add: cinv_def with_ent_def)
  moreover have "c_insert_sort ?c3 = c_insert_sort c" using w by (simp add: with_ent_def)
  ultimately show ?thesis using f heap by blast
qed

lemma insert_sets_ok:
  "base c \<Longrightarrow> c_heap c a = Some ce \<Longrightarrow> \<not> is_neg ce \<Longrightarrow> i + n \<le> nsets ce \<Longrightarrow> (\<forall>j\<ge>i. lent_of ce (Some j) = None) \<Longrightarrow>
   \<exists>ok c' ce'. insert_sets g a i n c = Some (ok, c') \<and> est a c c' \<and> c_heap c' a = Some ce' \<and> same_head ce ce' \<and>
     (c_mem c = [] \<longrightarrow> ok) \<and> is_neg ce' = is_neg ce \<and> nsets ce' = nsets ce \<and>
     (ok \<longrightarrow> (\<forall>j. map_option strip (sets ce' j) =
        map_option strip (if i \<le> j \<and> j < i + n then map_option (adjust_ttl g) (sets ce j) else sets ce j)))"
proof (induction n arbitrary: i c ce)
  case 0
  have "\<forall>j. map_option strip (sets ce j) =
      map_option strip (if i \<le> j \<and> j < i + 0 then map_option (adjust_ttl g) (sets ce j) else sets ce j)"
    by (intro allI arg_cong [where f = "map_option strip"] if_not_P [symmetric]) linarith
  then show ?case using 0 est_refl [OF 0(1,2)] by (intro exI [of _ True] exI [of _ c] exI [of _ ce]) simp
next
  case (Suc n)
  note wf = baseD(2) [OF Suc.prems(1,2)]
  have idx: "rrarr_index ce i = Some (sets ce i)" using Suc.prems(4) wf by (simp add: cent_simps)
  show ?case
  proof (cases "sets ce i")
    case None
    then have eq: "insert_sets g a i (Suc n) c = insert_sets g a (i + 1) n c" using idx Suc.prems(2) by simp
    from Suc.IH [OF Suc.prems(1,2,3), of "i + 1"] Suc.prems(4,5) obtain ok c' ce' where
      r: "insert_sets g a (i + 1) n c = Some (ok, c')" "est a c c'" "c_heap c' a = Some ce'" "same_head ce ce'" "c_mem c = [] \<longrightarrow> ok" "is_neg ce' = is_neg ce" "nsets ce' = nsets ce"
        "ok \<longrightarrow> (\<forall>j. map_option strip (sets ce' j) =
          map_option strip (if i + 1 \<le> j \<and> j < i + 1 + n then map_option (adjust_ttl g) (sets ce j) else sets ce j))" by auto
    have "(if i + 1 \<le> j \<and> j < i + 1 + n then map_option (adjust_ttl g) (sets ce j) else sets ce j) =
        (if i \<le> j \<and> j < i + Suc n then map_option (adjust_ttl g) (sets ce j) else sets ce j)" for j
      using None by (cases "j = i") auto
    with eq r show ?thesis by (intro exI [of _ ok] exI [of _ c'] exI [of _ ce']) simp
  next
    case (Some rs)
    have "rs_lent rs = None" using Suc.prems(5) Some by (auto simp: lent_of_def set_lent_of_def)
    from adjust_insert_ok [OF Suc.prems(1,2) Some this, of g] obtain ok ce1 c1 ce2 where
      r: "rrarr_set ce i (Some (adjust_ttl g rs)) = Some ce1" "insert_rrl a (Some i) (put_cent a ce1 c) = Some (ok, c1)"
        "est a c c1" "c_heap c1 a = Some ce2" "same_head ce ce2" "is_neg ce2 = is_neg ce" "nsets ce2 = nsets ce" "same_but i ce ce2"
        "map_option strip (sets ce2 i) = Some (strip (adjust_ttl g rs))" "c_mem c = [] \<longrightarrow> ok"
        "\<forall>j. j \<noteq> Some i \<longrightarrow> lent_of ce2 j = lent_of ce j" by blast
    have eq: "insert_sets g a i (Suc n) c = (if \<not> ok then Some (False, c1) else insert_sets g a (i + 1) n c1)"
      using idx Suc.prems(2) Some r(1,2) by simp
    show ?thesis
    proof (cases ok)
      case False
      with eq r show ?thesis by auto
    next
      case True
      have "\<forall>j\<ge>i + 1. lent_of ce2 (Some j) = None" using r(11) Suc.prems(5) by simp
      from Suc.IH [OF est_base [OF r(3)] r(4) _ _ this] r(6,7) Suc.prems(3,4) obtain ok2 c' ce' where
        q: "insert_sets g a (i + 1) n c1 = Some (ok2, c')" "est a c1 c'" "c_heap c' a = Some ce'" "same_head ce2 ce'" "c_mem c1 = [] \<longrightarrow> ok2"
          "is_neg ce' = is_neg ce2" "nsets ce' = nsets ce2"
          "ok2 \<longrightarrow> (\<forall>j. map_option strip (sets ce' j) =
            map_option strip (if i + 1 \<le> j \<and> j < i + 1 + n then map_option (adjust_ttl g) (sets ce2 j) else sets ce2 j))" by auto
      have adj: "map_option strip (map_option (adjust_ttl g) u) = map_option strip (map_option (adjust_ttl g) v)"
        if "map_option strip u = map_option strip v" for u v
        using that adjust_ttl_strip [of g] by (cases u; cases v) (auto, metis)
      have "map_option strip (if i + 1 \<le> j \<and> j < i + 1 + n then map_option (adjust_ttl g) (sets ce2 j) else sets ce2 j) =
          map_option strip (if i \<le> j \<and> j < i + Suc n then map_option (adjust_ttl g) (sets ce j) else sets ce j)" for j
      proof (cases "j = i")
        case True
        with r(9) Some show ?thesis by simp
      next
        case False
        with r(8) have "map_option strip (sets ce2 j) = map_option strip (sets ce j)" by (simp add: same_but_def)
        with adj [OF this] False show ?thesis by (cases "i + 1 \<le> j \<and> j < i + 1 + n") auto
      qed
      moreover have "c_mem c = [] \<longrightarrow> ok2" using q(5) r(3) by (auto simp: est_def)
      ultimately show ?thesis using eq True q(1-4,6-8) r(6,7) est_trans [OF r(3) q(2)] same_head_trans [OF r(5) q(4)]
        by (intro exI [of _ ok2] exI [of _ c'] exI [of _ ce']) simp
    qed
  qed
qed

lemma adjust_dom_ok:
  assumes "cent_ok ce" "is_neg ce"
  shows "\<exists>ce1. adjust_dom_ttl g ce = Some ce1 \<and> cent_ok ce1 \<and> is_neg ce1 \<and> same_head ce ce1 \<and> sets ce1 = sets ce \<and>
    (\<forall>idx. lent_of ce1 idx = lent_of ce idx)"
proof -
  note wf = cent_okD(1) [OF assms(1)]
  from cent_wf_neg [OF wf assms(2)] obtain l ttl ts where un: "ce_un ce = NegPart l ttl ts" by blast
  have 1: "cent_ok (ce\<lparr>ce_flags := f, ce_un := NegPart l t ts\<rparr>) \<and> is_neg (ce\<lparr>ce_flags := f, ce_un := NegPart l t ts\<rparr>) \<and>
      same_head ce (ce\<lparr>ce_flags := f, ce_un := NegPart l t ts\<rparr>) \<and> sets (ce\<lparr>ce_flags := f, ce_un := NegPart l t ts\<rparr>) = sets ce \<and>
      (\<forall>idx. lent_of (ce\<lparr>ce_flags := f, ce_un := NegPart l t ts\<rparr>) idx = lent_of ce idx)"
    if f: "fset f DF_NEGATIVE" "fset f DF_LOCAL = fset (ce_flags ce) DF_LOCAL" for f t
  proof -
    let ?ce1 = "ce\<lparr>ce_flags := f, ce_un := NegPart l t ts\<rparr>"
    have s: "sets ?ce1 = sets ce" using un by (auto simp: sets_def fun_eq_iff)
    have n: "is_neg ?ce1" using f(1) by simp
    have "cent_ok ?ce1"
      using assms un s n by (simp add: cent_ok_def cent_wf_def cent_bytes_def cent_count_def has_ext_def)
    then show ?thesis using s n f(2) un by (simp add: same_head_def lent_of_def set_lent_of_def neg_lent_def split: option.splits)
  qed
  have f: "fset (ce_flags ce AND NOT DF_NOCACHE) DF_NEGATIVE" "fset (ce_flags ce AND NOT DF_NOCACHE) DF_LOCAL = fset (ce_flags ce) DF_LOCAL"
  proof -
    have "fset (ce_flags ce) DF_NEGATIVE" using assms(2) by (simp only: is_neg_def)
    then show "fset (ce_flags ce AND NOT DF_NOCACHE) DF_NEGATIVE" "fset (ce_flags ce AND NOT DF_NOCACHE) DF_LOCAL = fset (ce_flags ce) DF_LOCAL"
      by (simp_all only: fset_flag_bit) (simp_all add: flag_defs bit_simps)
  qed
  have id: "ce\<lparr>ce_flags := ce_flags ce, ce_un := NegPart l t ts\<rparr> = ce\<lparr>ce_un := NegPart l t ts\<rparr>" for t by simp
  have g: "fset (ce_flags ce) DF_NEGATIVE" using assms(2) by (simp only: is_neg_def)
  show ?thesis
  proof (cases "fset (ce_flags ce) DF_NOCACHE")
    case True
    with un 1 [OF f] show ?thesis by (simp add: adjust_dom_ttl_def neg_part_def)
  next
    case False
    with un 1 [OF g refl] show ?thesis unfolding id by (simp add: adjust_dom_ttl_def neg_part_def)
  qed
qed

subsection \<open>add_cache\<close>

definition cache_compat :: "cache \<Rightarrow> bool" where
  "cache_compat c \<longleftrightarrow> (\<forall>a ce. c_heap c a = Some ce \<longrightarrow> compat ce)"

definition has_no_local :: "dns_cent \<Rightarrow> bool" where
  "has_no_local ce \<longleftrightarrow> (\<forall>i rs. sets ce i = Some rs \<longrightarrow> \<not> fset (rs_flags rs) CF_LOCAL)"

text \<open>What every way through \<^verbatim>\<open>add_cache\<close> guarantees.\<close>

definition stored_ok :: "dns_cent \<Rightarrow> cache \<Rightarrow> cache \<Rightarrow> bool" where
  "stored_ok cent c c' \<longleftrightarrow> cinv c' \<and> c_insert_sort c' = c_insert_sort c \<and>
     (has_no_local cent \<longrightarrow> local_sets c \<subseteq> local_sets c') \<and>
     (compat cent \<and> cache_compat c \<longrightarrow> cache_compat c')"

lemma stored_refl: "cinv c \<Longrightarrow> stored_ok cent c c"
  by (simp add: stored_ok_def)

lemma stored_trans: "stored_ok cent a b \<Longrightarrow> stored_ok cent b c \<Longrightarrow> stored_ok cent a c"
  unfolding stored_ok_def by auto

lemma local_sets_heap: "(\<And>a ce. c_heap c a = Some ce \<Longrightarrow> c_heap c' a = Some ce) \<Longrightarrow> local_sets c \<subseteq> local_sets c'"
  unfolding local_sets_def by blast

lemma cache_compat_fewer: "heap_fewer c c' \<Longrightarrow> cache_compat c \<Longrightarrow> cache_compat c'"
  unfolding heap_fewer_def cache_compat_def using fewer_compat by blast

lemma cinv_mem: "cinv c \<Longrightarrow> cinv (c\<lparr>c_mem := m\<rparr>)"
  using base_fields [of c "c\<lparr>c_mem := m\<rparr>"] by (simp add: cinv_def tab_ok_def qname_of_def [abs_def] total_def)

lemma stored_mem: "cinv c \<Longrightarrow> stored_ok cent c (c\<lparr>c_mem := m\<rparr>)"
  using local_sets_heap [of c "c\<lparr>c_mem := m\<rparr>"] by (simp add: stored_ok_def cinv_mem cache_compat_def)

lemma compat_view:
  assumes "compat ce" "\<And>i. map_option strip (sets ce' i) = map_option strip (map_option f (sets ce i))"
    and "\<And>rs. fset (rs_flags (f rs)) CF_NEGATIVE = fset (rs_flags rs) CF_NEGATIVE"
  shows "compat ce'"
proof -
  have s: "\<exists>r. sets ce i = Some r \<and> fset (rs_flags r) CF_NEGATIVE = fset (rs_flags rs) CF_NEGATIVE" if "sets ce' i = Some rs" for i rs
  proof -
    from assms(2) [of i] that have "map_option strip (map_option f (sets ce i)) = Some (strip rs)" by simp
    then obtain r where "sets ce i = Some r" "strip (f r) = strip rs" by auto
    with strip_flags [of "f r" rs] assms(3) [of r] show ?thesis by auto
  qed
  show ?thesis unfolding compat_def
  proof (intro allI impI, elim conjE)
    fix i j rs rs'
    assume h: "sets ce' i = Some rs" "sets ce' j = Some rs'" "i \<noteq> j" "\<not> fset (rs_flags rs) CF_NEGATIVE" "\<not> fset (rs_flags rs') CF_NEGATIVE"
    from s [OF h(1)] s [OF h(2)] h(3-5) assms(1) show "\<not> rr_conflict i j" unfolding compat_def by metis
  qed
qed

lemma add_result_cases:
  "(case r of Purge_cache c' \<Rightarrow> P c' | Unlock_return c' \<Rightarrow> Q c' | Retry _ \<Rightarrow> False) \<Longrightarrow>
   (\<exists>c'. r = Purge_cache c' \<and> P c') \<or> (\<exists>c'. r = Unlock_return c' \<and> Q c')"
  by (cases r) auto

text \<open>The entry that \<^verbatim>\<open>add_cache\<close> stores for a name that is new.\<close>

definition new_entry :: "conf \<Rightarrow> dns_cent \<Rightarrow> dns_cent \<Rightarrow> bool" where
  "new_entry g cent ce \<longleftrightarrow> cent_ok ce \<and> same_head cent ce \<and> is_neg ce = is_neg cent \<and> nsets ce = nsets cent \<and>
     (\<forall>j. map_option strip (sets ce j) = map_option strip (map_option (adjust_ttl g) (sets cent j)))"

lemma new_entry_build:
  assumes c: "cinv c" and cent: "cent_ok cent" and cp: "cp = strip_cent cent" "a = c_brk c"
    and m: "c_mem c = [] \<longrightarrow> m = []"
  defines "c1 \<equiv> (put_cent a cp (c\<lparr>c_mem := m\<rparr>))\<lparr>c_brk := c_brk c + 1\<rparr>"
  shows "\<exists>ok c2 ce. (if \<not> is_neg cp then do { ilim \<leftarrow> rrarr_len cp; insert_sets g a 0 ilim c1 }
      else do { ce \<leftarrow> adjust_dom_ttl g cp; insert_rrl a None (put_cent a ce c1) }) = Some (ok, c2) \<and>
    with_ent a ce c c2 \<and> same_head cent ce \<and> (c_mem c = [] \<longrightarrow> ok) \<and> (ok \<longrightarrow> new_entry g cent ce)"
proof -
  note i = cinvD [OF c]
  have cpok: "cent_ok cp" "no_lents cp" using strip_cent_ok [OF cent] strip_no_lents [OF cent_okD(1) [OF cent]] cp by simp_all
  have b1: "base c1" by (rule base_new [OF i(1) cpok]) (simp_all add: c1_def put_cent_def cp)
  have h1: "c_heap c1 a = Some cp" by (simp add: c1_def put_cent_def)
  have "c_heap c a = None" using baseD(3) [OF i(1)] cp(2) by (metis less_irrefl not_None_eq)
  with b1 h1 m have w1: "with_ent a cp c c1" by (auto simp: with_ent_def c1_def put_cent_def)
  have head: "same_head cent cp" by (simp add: cp same_head_def)
  have scp: "map_option strip (sets cp j) = map_option strip (sets cent j)" for j
    by (cases "sets cent j") (simp_all add: cp sets_strip [OF cent_okD(1) [OF cent]] strip_def)
  note wf = cent_okD(1) [OF cpok(1)]
  have m1: "c_mem c1 = []" if "c_mem c = []" using that m by (simp add: c1_def put_cent_def)
  show ?thesis
  proof (cases "is_neg cp")
    case False
    have "\<forall>j\<ge>0. lent_of cp (Some j) = None" using cpok(2) by (simp add: no_lents_def)
    from insert_sets_ok [OF b1 h1 False _ this, of "nsets cp" g] obtain ok c2 ce where
      r: "insert_sets g a 0 (nsets cp) c1 = Some (ok, c2)" "est a c1 c2" "c_heap c2 a = Some ce" "same_head cp ce"
        "c_mem c1 = [] \<longrightarrow> ok" "is_neg ce = is_neg cp" "nsets ce = nsets cp" "ok \<longrightarrow> (\<forall>j. map_option strip (sets ce j) =
          map_option strip (if j < nsets cp then map_option (adjust_ttl g) (sets cp j) else sets cp j))" by auto
    have w2: "with_ent a ce c c2" by (rule with_ent_est [OF w1 r(2,3)])
    have "map_option strip (if j < nsets cp then map_option (adjust_ttl g) (sets cp j) else sets cp j) =
        map_option strip (map_option (adjust_ttl g) (sets cent j))" for j
    proof -
      have "(if j < nsets cp then map_option (adjust_ttl g) (sets cp j) else sets cp j) = map_option (adjust_ttl g) (sets cp j)"
        using sets_beyond [OF wf, of j] by simp
      moreover have "sets cp j = map_option strip (sets cent j)" by (simp add: cp sets_strip [OF cent_okD(1) [OF cent]])
      ultimately show ?thesis by (simp add: option.map_comp comp_def adjust_ttl_strip)
    qed
    moreover have "is_neg ce = is_neg cent" "nsets ce = nsets cent" using r(6,7) cp by simp_all
    ultimately have "ok \<longrightarrow> new_entry g cent ce"
      using r(8) baseD(1) [OF est_base [OF r(2)] r(3)] same_head_trans [OF head r(4)] by (simp add: new_entry_def)
    with w2 r(1,5) m1 wf False same_head_trans [OF head r(4)] show ?thesis by (auto simp: cent_simps)
  next
    case True
    from adjust_dom_ok [OF cpok(1) True, of g] obtain ce1 where
      a: "adjust_dom_ttl g cp = Some ce1" "cent_ok ce1" "is_neg ce1" "same_head cp ce1" "sets ce1 = sets cp"
        "\<forall>idx. lent_of ce1 idx = lent_of cp idx" by blast
    have e1: "est a c1 (put_cent a ce1 c1)" using est_put [OF b1 h1 a(2,4), of "c_mem c1"] a(6) by simp
    have "node_slot ce1 None" "lent_of ce1 None = None" using a(3,6) cpok(2) by (simp_all add: node_slot_def no_lents_def)
    from insert_rrl_ok [OF est_base [OF e1] put_cent_at this] obtain ok c2 ce where
      r: "insert_rrl a None (put_cent a ce1 c1) = Some (ok, c2)" "ent_step a (put_cent a ce1 c1) c2" "c_heap c2 a = Some ce"
        "strip_cent ce = strip_cent ce1" "c_size c2 = c_size (put_cent a ce1 c1)"
        "c_mem (put_cent a ce1 c1) = [] \<longrightarrow> ok \<and> c_mem c2 = []" "cent_ok ce" by blast
    have "est a (put_cent a ce1 c1) c2" using r(2,5,6) by (simp add: est_def)
    then have w2: "with_ent a ce c c2" by (rule with_ent_est [OF with_ent_est [OF w1 e1 put_cent_at] _ r(3)])
    note st = strip_eqD [OF r(4) cent_okD(1) [OF a(2)] cent_okD(1) [OF r(7)]]
    have "sets cent j = None" "sets ce j = None" for j
      using scp [of j] neg_sets [OF wf True, of j] st(9) [of j] a(5) by simp_all
    moreover have "is_neg ce = is_neg cent" "nsets ce = nsets cent"
      using st(7) a(3) True cp by (simp_all add: neg_nsets)
    ultimately have "new_entry g cent ce"
      using r(7) same_head_trans [OF head same_head_trans [OF a(4) st(10)]] by (simp add: new_entry_def)
    moreover have "c_mem c = [] \<longrightarrow> ok" using r(6) m1 by (simp add: put_cent_def)
    ultimately show ?thesis using True a(1) r(1) w2 by (auto simp: new_entry_def)
  qed
qed

text \<open>What \<^verbatim>\<open>add_cache\<close> does with a name that is new: nothing, no memory, or one more entry.\<close>

definition new_result :: "conf \<Rightarrow> dns_cent \<Rightarrow> cache \<Rightarrow> add_result \<Rightarrow> bool" where
  "new_result g cent c r \<longleftrightarrow> (case r of
      Purge_cache c' \<Rightarrow> stored_ok cent c c' \<and> (ce_num_rrs cent = 0 \<and> \<not> is_neg cent \<and> c' = c \<or>
        (\<exists>ce. c_heap c' = (c_heap c)(c_brk c \<mapsto> ce) \<and> c_heap c (c_brk c) = None \<and> new_entry g cent ce \<and> c_size c' = c_size c + ce_cs ce \<and>
          (c_mem c = [] \<longrightarrow> c_mem c' = [])))
    | Unlock_return c' \<Rightarrow> stored_ok cent c c' \<and> c_mem c \<noteq> []
    | Retry _ \<Rightarrow> False)"

lemma new_result_stored:
  "new_result g cent c r \<Longrightarrow>
   (\<exists>c'. r = Purge_cache c' \<and> stored_ok cent c c') \<or> (\<exists>c'. r = Unlock_return c' \<and> stored_ok cent c c')"
  by (cases r) (simp_all add: new_result_def)

lemma new_result_added:
  assumes "new_result g cent c r" "c_mem c = []" "ce_num_rrs cent \<noteq> 0"
  shows "\<exists>c' ce. r = Purge_cache c' \<and> stored_ok cent c c' \<and> c_heap c' = (c_heap c)(c_brk c \<mapsto> ce) \<and> new_entry g cent ce \<and>
    c_size c' = c_size c + ce_cs ce \<and> c_mem c' = []"
  using assms by (cases r) (auto simp: new_result_def)

lemma add_cache_new_ok:
  assumes c: "cinv c" and cent: "cent_ok cent" and nm: "wf_name nm" "ce_qname cent = wire nm"
    and l: "cache_lookup c (wire nm) = Some (None, loc)"
  shows "\<exists>r. add_cache_new g cent loc c = Some r \<and> new_result g cent c r"
proof (cases "ce_num_rrs cent = 0 \<and> \<not> is_neg cent")
  case True
  with stored_refl [OF c] show ?thesis by (simp add: add_cache_new_def new_result_def)
next
  case go: False
  from copy_cent_ok [OF cent, of c] obtain r m where
    cp: "copy_cent cent c = Some (r, c\<lparr>c_mem := m\<rparr>)" "c_mem c = [] \<longrightarrow> r \<noteq> None \<and> m = []" "\<forall>cp. r = Some cp \<longrightarrow> cp = strip_cent cent" by blast
  show ?thesis
  proof (cases r)
    case None
    with go cp(1) have "add_cache_new g cent loc c = Some (Unlock_return (c\<lparr>c_mem := m\<rparr>))"
      unfolding add_cache_new_def by (subst if_not_P) simp_all
    with stored_mem [OF c] None cp(2) show ?thesis by (simp add: new_result_def)
  next
    case (Some x)
    with cp(3) have x: "x = strip_cent cent" by simp
    let ?a = "c_brk c"
    let ?c1 = "(put_cent ?a x (c\<lparr>c_mem := m\<rparr>))\<lparr>c_brk := c_brk c + 1\<rparr>"
    from new_entry_build [OF c cent x refl, of m g] cp(2) obtain ok c2 ce where
      b: "(if \<not> is_neg x then do { ilim \<leftarrow> rrarr_len x; insert_sets g ?a 0 ilim ?c1 }
          else do { ce \<leftarrow> adjust_dom_ttl g x; insert_rrl ?a None (put_cent ?a ce ?c1) }) = Some (ok, c2)"
        "with_ent ?a ce c c2" "same_head cent ce" "c_mem c = [] \<longrightarrow> ok" "ok \<longrightarrow> new_entry g cent ce" by auto
    have h2: "c_heap c2 ?a = Some ce" "c_heap c ?a = None" "c_tab c2 = c_tab c" using b(2) by (simp_all add: with_ent_def)
    have nm': "ce_qname ce = wire nm" using b(3) nm(2) by (simp add: same_head_def)
    obtain mem m2 where mal: "malloc c2 = (mem, c2\<lparr>c_mem := m2\<rparr>)" "c_mem c2 = [] \<longrightarrow> mem \<and> m2 = []" by (rule mallocE)
    from with_ent_link [OF c b(2) nm(1) nm' l, of m2] obtain T where
      T: "add_dns_hash (c_tab c2) ?a loc True = Some (True, T)"
        "cinv (c2\<lparr>c_mem := m2, c_tab := T, c_num := c_num c2 + 1, c_size := c_size c2 + ce_cs ce\<rparr>)" by blast
    let ?m = "if ok then m2 else c_mem c2"
    from with_ent_free [OF c b(2), of ?m] obtain c3 where
      f: "free_cent ce (c2\<lparr>c_mem := ?m\<rparr>) = Some c3" "cinv (c3\<lparr>c_heap := (c_heap c3)(?a := None)\<rparr>)"
        "c_heap (c3\<lparr>c_heap := (c_heap c3)(?a := None)\<rparr>) = c_heap c" "c_insert_sort c3 = c_insert_sort c" by blast
    let ?f = "c3\<lparr>c_heap := (c_heap c3)(?a := None)\<rparr>"
    let ?g = "c2\<lparr>c_mem := m2, c_tab := T, c_num := c_num c2 + 1, c_size := c_size c2 + ce_cs ce\<rparr>"
    have same: "c2\<lparr>c_mem := c_mem c2\<rparr> = c2" "c2\<lparr>c_mem := m2, c_tab := c_tab c2\<rparr> = c2\<lparr>c_mem := m2\<rparr>" by simp_all
    have eq: "add_cache_new g cent loc c = Some (if ok \<and> mem then Purge_cache ?g else Unlock_return ?f)"
    proof -
      have "add_cache_new g cent loc c = do {
          (ok, c) \<leftarrow> Some (ok, c2);
          (ok, c) \<leftarrow> (if \<not> ok then Some (False, c)
             else do { let (mem, c) = malloc c; (ok, T) \<leftarrow> add_dns_hash (c_tab c) ?a loc mem; Some (ok, c\<lparr>c_tab := T\<rparr>) });
          ce \<leftarrow> c_heap c ?a;
          if \<not> ok then do { c \<leftarrow> free_cent ce c; Some (Unlock_return (c\<lparr>c_heap := (c_heap c)(?a := None)\<rparr>)) }
          else Some (Purge_cache (c\<lparr>c_num := c_num c + 1, c_size := c_size c + ce_cs ce\<rparr>)) }"
        unfolding add_cache_new_def b(1) [symmetric] using go cp(1) Some
        by (subst if_not_P) (simp_all add: Let_def put_cent_def cong: if_cong)
      also have "\<dots> = Some (if ok \<and> mem then Purge_cache ?g else Unlock_return ?f)"
        using mal(1) T(1) f(1) h2 same by (cases ok; cases mem) (simp_all add: Let_def add_dns_hash_def [of _ _ _ False])
      finally show ?thesis .
    qed
    have sf: "stored_ok cent c ?f"
      using f(2-4) local_sets_heap [of c ?f] by (simp add: stored_ok_def cache_compat_def)
    have hg: "c_heap ?g = (c_heap c)(?a \<mapsto> ce)" using b(2) by (auto simp: with_ent_def fun_eq_iff)
    have sg: "stored_ok cent c ?g" if ok
    proof -
      have ne: "new_entry g cent ce" using b(5) that by blast
      have "local_sets c \<subseteq> local_sets ?g" by (rule local_sets_heap) (use hg h2(2) in auto)
      moreover have "cache_compat ?g" if "compat cent" "cache_compat c"
      proof -
        have "compat ce" by (rule compat_view [OF that(1), of _ "adjust_ttl g"]) (use ne in \<open>simp_all add: new_entry_def\<close>)
        with that(2) hg show ?thesis by (simp add: cache_compat_def)
      qed
      moreover have "c_insert_sort ?g = c_insert_sort c" using b(2) by (simp add: with_ent_def)
      ultimately show ?thesis using T(2) by (simp add: stored_ok_def)
    qed
    have size: "c_size ?g = c_size c + ce_cs ce" "c_mem c = [] \<longrightarrow> c_mem ?g = []"
      using b(2) mal(2) by (simp_all add: with_ent_def)
    show ?thesis
    proof (cases "ok \<and> mem")
      case True
      then have "new_entry g cent ce" using b(5) by blast
      with eq True sg hg h2(2) size show ?thesis by (intro exI [of _ "Purge_cache ?g"]) (simp add: new_result_def, blast)
    next
      case False
      have "c_mem c \<noteq> []"
      proof
        assume "c_mem c = []"
        with b(2,4) have "ok" "c_mem c2 = []" by (simp_all add: with_ent_def)
        with mal(2) False show False by simp
      qed
      with eq False sf show ?thesis by (simp add: new_result_def)
    qed
  qed
qed

lemma new_entry_bytes:
  assumes "new_entry g cent ce" "cent_ok cent" shows "ce_cs ce = ce_cs cent"
proof -
  have e: "has_ext ce = has_ext cent"
  proof (cases "is_neg cent")
    case True
    with assms have "is_neg ce" "cent_wf ce" "cent_wf cent" using cent_okD(1) by (auto simp: new_entry_def)
    with True cent_wf_neg [of ce] cent_wf_neg [of cent] show ?thesis by (auto simp: has_ext_def)
  next
    case False
    with assms(1) show ?thesis by (simp add: new_entry_def nsets_def nrr_defs split: if_splits)
  qed
  have "set_bytes (sets ce j) = set_bytes (sets cent j)" for j
  proof -
    have "set_bytes (sets ce j) = set_bytes (map_option strip (sets ce j))" by simp
    also have "\<dots> = set_bytes (map_option strip (map_option (adjust_ttl g) (sets cent j)))" using assms(1) by (simp only: new_entry_def)
    also have "\<dots> = set_bytes (map_option (adjust_ttl g) (sets cent j))" by (simp only: set_bytes_strip)
    also have "\<dots> = set_bytes (sets cent j)" by (cases "sets cent j") (simp_all add: set_bytes_def)
    finally show ?thesis .
  qed
  with e assms cent_okD(3) [OF assms(2)] cent_okD(3) [of ce] show ?thesis
    by (simp add: new_entry_def same_head_def cent_bytes_def)
qed

subsection \<open>Merging into an entry and replacing it\<close>

lemma fset_OR_auth: "fset (f OR (f' AND (DF_AUTH OR DF_WILD))) DF_LOCAL = fset f DF_LOCAL"
  "fset (f OR (f' AND (DF_AUTH OR DF_WILD))) DF_NEGATIVE = fset f DF_NEGATIVE"
  by (simp_all only: fset_flag_bit) (simp_all add: flag_defs bit_simps)

lemma stored_step:
  assumes "cinv c'" "ent_step a c c'" "c_heap c a = Some ce" "c_heap c' a = Some ce'"
    and "has_no_local cent \<longrightarrow> keeps_local ce ce'" "compat ce \<longrightarrow> compat ce'"
  shows "stored_ok cent c c'"
proof -
  have "cache_compat c'" if "cache_compat c"
    unfolding cache_compat_def
  proof (intro allI impI)
    fix b x assume "c_heap c' b = Some x"
    with that assms(2-4,6) show "compat x"
      by (cases "b = a") (auto simp: cache_compat_def ent_step_def frame_def)
  qed
  moreover have "local_sets c \<subseteq> local_sets c'" if "has_no_local cent"
    using local_sets_step [OF assms(2-4)] assms(5) that by blast
  ultimately show ?thesis using assms(1,2) by (simp add: stored_ok_def ent_step_def frame_def)
qed

lemma add_cache_merge_ok:
  assumes c: "cinv c" "c_heap c a = Some ce" and cent: "cent_ok cent"
  shows "\<exists>r. add_cache_merge g now cent a c = Some r \<and> (case r of
      Purge_cache c' \<Rightarrow> stored_ok cent c c'
    | Unlock_return c' \<Rightarrow> stored_ok cent c c' \<and> c_mem c \<noteq> []
    | Retry _ \<Rightarrow> False)"
proof -
  from purge_cent_ok [OF c, of now False] obtain n c2 where
    p: "purge_cent now a False False c = Some (n, c2)" "cinv c2" and
    pn: "if n < 0 then n = -1 \<and> False else \<exists>ce2. purge_step a c c2 \<and> c_heap c2 a = Some ce2 \<and> sets ce2 = purge_sets now (sets ce)"
    by (elim exE conjE) (rule that, assumption+, simp split: if_splits, blast)
  from pn obtain ce2 where p2: "purge_step a c c2" "c_heap c2 a = Some ce2" "sets ce2 = purge_sets now (sets ce)"
    by (auto split: if_splits)
  have "fewer ce ce2" by (simp add: fewer_def p2(3) purge_sets_def)
  with p2 keeps_local_purge [OF p2(3)] fewer_compat have s2: "stored_ok cent c c2"
    by (intro stored_step [OF p(2) _ c(2) p2(2)]) (auto simp: purge_step_def)
  let ?c3 = "c2\<lparr>c_size := c_size c2 - ce_cs ce2\<rparr>"
  note i2 = cinvD [OF p(2)]
  have b3: "base ?c3" by (rule base_fields [OF i2(1)]) simp_all
  have h3: "c_heap ?c3 a = Some ce2" using p2(2) by simp
  have st3: "ent_step a c2 ?c3" using p2(2) b3 by (simp add: ent_step_def frame_def)
  note wf = cent_okD(1) [OF cent]
  from merge_sets_ok [OF wf b3 h3, of 0 "nsets cent" g now] obtain ok c4 ce4 where
    m: "merge_sets g now a cent 0 (nsets cent) ?c3 = Some (ok, c4)" "est a ?c3 c4" "c_heap c4 a = Some ce4"
      "merged g cent ce2 ce4" "c_mem ?c3 = [] \<longrightarrow> ok" by auto
  have st4: "ent_step a c2 c4" using ent_step_trans [OF st3] m(2) by (simp add: est_def)
  have size4: "c_size c4 = c_size c2 - ce_cs ce2" using m(2) by (simp add: est_def)
  have mem: "c_mem c = [] \<longrightarrow> ok" using m(5) p2(1) by (simp add: purge_step_def)
  have mg: "has_no_local cent \<longrightarrow> keeps_local ce2 ce4" "compat ce2 \<longrightarrow> compat ce4"
    using m(4) by (simp_all add: merged_def has_no_local_def)
  have start: "add_cache_merge g now cent a c =
      (if \<not> ok then Some (Unlock_return (c4\<lparr>c_size := c_size c4 + ce_cs ce4\<rparr>))
       else let ce = ce4\<lparr>ce_flags := ce_flags ce4 OR (ce_flags cent AND (DF_AUTH OR DF_WILD)),
                   ce_c_ns := merge_cnt (ce_c_ns ce4) (ce_c_ns cent),
                   ce_c_soa := merge_cnt (ce_c_soa ce4) (ce_c_soa cent)\<rparr>;
             c = put_cent a ce c4 in Some (Purge_cache (c\<lparr>c_size := c_size c + ce_cs ce\<rparr>)))"
    using p(1) p2(2) m(1,3) wf by (simp add: add_cache_merge_def Let_def cent_simps)
  have fin: "stored_ok cent c (c5\<lparr>c_size := c_size c4 + ce_cs ce5\<rparr>)"
    if "base c5" "c_heap c5 = (c_heap c4)(a \<mapsto> ce5)" "c_tab c5 = c_tab c4" "c_num c5 = c_num c4" "c_brk c5 = c_brk c4"
      "c_insert_sort c5 = c_insert_sort c4" "same_name ce4 ce5" "sets ce5 = sets ce4" for c5 ce5
  proof -
    let ?c = "c5\<lparr>c_size := c_size c4 + ce_cs ce5\<rparr>"
    have b: "base ?c" by (rule base_fields [OF that(1)]) simp_all
    have st: "ent_step a c4 ?c" using b that m(3) by (simp add: ent_step_def frame_def)
    have "ent_step a c2 ?c" using ent_step_trans [OF st4 st] .
    moreover have h: "c_heap ?c a = Some ce5" using that(2) by simp
    moreover have "cinv ?c"
      by (rule cinv_step [OF p(2) \<open>ent_step a c2 ?c\<close>]) (simp add: that(2) p2(2) size4)
    moreover have "has_no_local cent \<longrightarrow> keeps_local ce2 ce5" "compat ce2 \<longrightarrow> compat ce5"
      using mg by (simp_all add: keeps_local_def compat_def that(8))
    ultimately have "stored_ok cent c2 ?c" using p2(2) by (intro stored_step)
    with s2 show ?thesis by (rule stored_trans)
  qed
  show ?thesis
  proof (cases ok)
    case False
    have "stored_ok cent c (c4\<lparr>c_size := c_size c4 + ce_cs ce4\<rparr>)"
      by (rule fin [OF ent_step_base [OF st4], of ce4]) (use m(3) in \<open>auto simp: fun_eq_iff\<close>)
    with start False mem show ?thesis by auto
  next
    case True
    let ?ce = "ce4\<lparr>ce_flags := ce_flags ce4 OR (ce_flags cent AND (DF_AUTH OR DF_WILD)),
                   ce_c_ns := merge_cnt (ce_c_ns ce4) (ce_c_ns cent), ce_c_soa := merge_cnt (ce_c_soa ce4) (ce_c_soa cent)\<rparr>"
    note ok4 = baseD(1) [OF ent_step_base [OF st4] m(3)]
    have "ce_flags ?ce = ce_flags ce4 OR (ce_flags cent AND (DF_AUTH OR DF_WILD))" by simp
    then have n: "fset (ce_flags ?ce) DF_NEGATIVE = is_neg ce4" by (simp only: fset_OR_auth is_neg_def)
    have ok5: "cent_ok ?ce" using ok4 n by (simp add: cent_ok_def cent_wf_flags fset_OR_auth)
    have l: "lent_of ?ce idx = lent_of ce4 idx" for idx
      by (auto simp: lent_of_def set_lent_of_def split: option.splits)
    have "base (put_cent a ?ce c4)" by (rule base_put [OF ent_step_base [OF st4] m(3) ok5 l])
    then have "stored_ok cent c ((put_cent a ?ce c4)\<lparr>c_size := c_size c4 + ce_cs ?ce\<rparr>)"
      by (rule fin) (simp_all add: put_cent_def same_name_def fset_OR_auth)
    with start True show ?thesis by (simp add: Let_def) (simp add: put_cent_def)
  qed
qed

lemma bex_insert_iff: "(\<exists>j\<in>insert i J. P j) \<longleftrightarrow> P i \<or> (\<exists>j\<in>J. P j)"
  by simp

lemma has_local_set_ok:
  assumes "cent_wf ce"
  shows "i + n \<le> nsets ce \<Longrightarrow> has_local_set ce i n =
    Some (\<exists>j\<in>{i..<i + n}. \<exists>rs. sets ce j = Some rs \<and> fset (rs_flags rs) CF_LOCAL)"
proof (induction n arbitrary: i)
  case (Suc n)
  have idx: "rrarr_index ce i = Some (sets ce i)" using Suc.prems assms by (simp add: cent_simps)
  have IH: "has_local_set ce (i + 1) n = Some (\<exists>j\<in>{i + 1..<i + 1 + n}. \<exists>rs. sets ce j = Some rs \<and> fset (rs_flags rs) CF_LOCAL)"
    using Suc.IH [of "i + 1"] Suc.prems by simp
  have range: "{i..<i + Suc n} = insert i {i + 1..<i + 1 + n}" by auto
  have "has_local_set ce i (Suc n) =
      (if \<exists>rs. sets ce i = Some rs \<and> fset (rs_flags rs) CF_LOCAL then Some True else has_local_set ce (i + 1) n)"
    using idx by (simp split: option.splits)
  then show ?case unfolding IH range bex_insert_iff
    by (cases "\<exists>rs. sets ce i = Some rs \<and> fset (rs_flags rs) CF_LOCAL") (simp_all only: if_True if_False simp_thms)
qed simp

lemma add_cache_step_ok:
  assumes c: "cinv c" and cent: "cent_ok cent"
  shows "\<exists>r. add_cache_step g now cent c = Some r \<and> (case r of
      Purge_cache c' \<Rightarrow> stored_ok cent c c'
    | Unlock_return c' \<Rightarrow> stored_ok cent c c'
    | Retry c' \<Rightarrow> stored_ok cent c c' \<and> (\<exists>loc. cache_lookup c' (ce_qname cent) = Some (None, loc)))"
proof -
  note i = cinvD [OF c]
  from cent_okD(2) [OF cent] name_ok_wire obtain nm where nm: "wf_name nm" "ce_qname cent = wire nm" by blast
  show ?thesis
  proof (cases rule: cache_lookup_cases [OF i(1,2) nm(1), of "[]"])
    case (2 loc)
    from 2(1) have l: "cache_lookup c (wire nm) = Some (None, loc)" by simp
    from add_cache_new_ok [OF c cent nm l, of g] obtain r where
      r: "add_cache_new g cent loc c = Some r" "(\<exists>c'. r = Purge_cache c' \<and> stored_ok cent c c') \<or> (\<exists>c'. r = Unlock_return c' \<and> stored_ok cent c c')"
      by (elim exE conjE) (rule that, assumption, erule new_result_stored)
    have "add_cache_step g now cent c = Some r" using l nm(2) r(1) by (simp add: add_cache_step_def)
    with r(2) show ?thesis by (intro exI [of _ r]) (elim disjE exE conjE, simp_all)
  next
    case (1 a ce ls loc pre e post)
    note hit = this
    from hit(1) have l: "cache_lookup c (wire nm) = Some (Some a, loc)" by simp
    show ?thesis
    proof (cases "is_neg cent")
      case False
      from add_cache_merge_ok [OF c hit(2) cent, of g now] obtain r where
        r: "add_cache_merge g now cent a c = Some r" "(\<exists>c'. r = Purge_cache c' \<and> stored_ok cent c c') \<or> (\<exists>c'. r = Unlock_return c' \<and> stored_ok cent c c')"
        by (elim exE conjE) (drule add_result_cases, rule that, assumption, blast)
      have "add_cache_step g now cent c = Some r" using l nm(2) r(1) False by (simp add: add_cache_step_def)
      with r(2) show ?thesis by (intro exI [of _ r]) (elim disjE exE conjE, simp_all)
    next
      case True
      note wf = baseD(2) [OF i(1) hit(2)]
      let ?L = "\<exists>j\<in>{0..<0 + nsets ce}. \<exists>rs. sets ce j = Some rs \<and> fset (rs_flags rs) CF_LOCAL"
      have has: "has_local_set ce 0 (nsets ce) = Some ?L" by (rule has_local_set_ok [OF wf]) simp
      show ?thesis
      proof (cases ?L)
        case True
        with has l nm(2) hit(2) wf \<open>is_neg cent\<close> have "add_cache_step g now cent c = Some (Unlock_return c)"
          by (simp add: add_cache_step_def cent_simps)
        with stored_refl [OF c] show ?thesis by simp
      next
        case nl: False
        from del_cache_ent_loc [OF c hit(2,6-9)] obtain T where
          d: "del_cache_ent a (Some loc) c = Some (drop_ent a ce T c)" "cinv (drop_ent a ce T c)" by blast
        let ?c = "drop_ent a ce T c"
        have eq: "add_cache_step g now cent c = Some (Retry ?c)"
          using has l nm(2) hit(2) wf \<open>is_neg cent\<close> nl d(1) by (simp add: add_cache_step_def cent_simps)
        have h: "c_heap ?c = (c_heap c)(a := None)" by (simp add: drop_ent_def)
        have "\<not> fset (rs_flags rs) CF_LOCAL" if "sets ce j = Some rs" for j rs
          using nl sets_Some_less [OF wf that] that by auto
        then have "local_sets c \<subseteq> local_sets ?c" by (intro local_sets_drop [OF h hit(2)])
        moreover have "cache_compat c \<longrightarrow> cache_compat ?c" using cache_compat_fewer [OF heap_fewer_drop [OF h]] by blast
        ultimately have s: "stored_ok cent c ?c" using d(2) by (simp add: stored_ok_def drop_ent_def)
        note i' = cinvD [OF d(2)]
        have "\<exists>loc. cache_lookup ?c (wire nm) = Some (None, loc)"
        proof (cases rule: cache_lookup_cases [OF i'(1,2) nm(1), of "[]"])
          case (1 b ce' ls' loc' pre' e' post')
          from 1(2) have "b \<noteq> a" "c_heap c b = Some ce'" unfolding h by (simp_all split: if_splits)
          moreover have "b = a" by (rule hit(10) [OF \<open>c_heap c b = Some ce'\<close> 1(4) wf_nameD [OF 1(3)] 1(5)])
          ultimately show ?thesis by blast
        next
          case (2 loc)
          from 2(1) show ?thesis by simp
        qed
        with eq s nm(2) show ?thesis by simp
      qed
    qed
  qed
qed

text \<open>
  C17: \<^verbatim>\<open>add_cache\<close> always returns after at most one retry, never touches freed memory, keeps the
  invariant of the cache, never displaces a local RR set by data that is not local, and never
  leaves in one entry two RR sets that exclude each other.
\<close>

theorem add_cache_correct:
  assumes "cinv c" and "cent_ok cent" and "c_insert_sort c"
  shows "\<exists>c'. add_cache g now cent c = Some c' \<and> cinv c' \<and> c_insert_sort c' \<and>
    (has_no_local cent \<longrightarrow> local_sets c \<subseteq> local_sets c') \<and>
    (compat cent \<and> cache_compat c \<longrightarrow> cache_compat c')"
proof -
  let ?sz = "cf_perm_cache g * 1024 + MCSZ"
  have purge: "\<exists>c2. purge_cache now ?sz True c1 = Some c2 \<and> stored_ok cent c c2" if s: "stored_ok cent c c1" for c1
  proof -
    have c1: "cinv c1" "c_insert_sort c1" using s assms(3) by (simp_all add: stored_ok_def)
    have "c_insert_sort c1 \<or> length (c_rrl c1) < 2 ^ 32" using c1(2) by simp
    from purge_cache_ok [OF c1(1) this, of now ?sz True] obtain c2 where
      "purge_cache now ?sz True c1 = Some c2" "cinv c2" "local_sets c1 \<subseteq> local_sets c2" "heap_fewer c1 c2"
      "c_insert_sort c1 \<longrightarrow> c_insert_sort c2" by blast
    with c1 cache_compat_fewer [of c1 c2] have "stored_ok cent c1 c2" by (simp add: stored_ok_def)
    with stored_trans [OF s this] \<open>purge_cache now ?sz True c1 = Some c2\<close> show ?thesis by blast
  qed
  have "\<exists>c'. add_cache g now cent c = Some c' \<and> stored_ok cent c c'"
  proof -
    from add_cache_step_ok [OF assms(1,2), of g now] obtain r where
      r: "add_cache_step g now cent c = Some r" "case r of
        Purge_cache c' \<Rightarrow> stored_ok cent c c'
      | Unlock_return c' \<Rightarrow> stored_ok cent c c'
      | Retry c' \<Rightarrow> stored_ok cent c c' \<and> (\<exists>loc. cache_lookup c' (ce_qname cent) = Some (None, loc))" by blast
    show ?thesis
    proof (cases r)
      case (Purge_cache c1)
      with r purge [of c1] show ?thesis by (simp add: add_cache_def numeral_2_eq_2)
    next
      case (Unlock_return c1)
      with r show ?thesis by (simp add: add_cache_def numeral_2_eq_2)
    next
      case (Retry c1)
      with r(2) obtain loc where s1: "stored_ok cent c c1" and l: "cache_lookup c1 (ce_qname cent) = Some (None, loc)" by auto
      have c1: "cinv c1" using s1 by (simp add: stored_ok_def)
      from cent_okD(2) [OF assms(2)] name_ok_wire obtain nm where nm: "wf_name nm" "ce_qname cent = wire nm" by blast
      from l nm(2) have l': "cache_lookup c1 (wire nm) = Some (None, loc)" by simp
      from add_cache_new_ok [OF c1 assms(2) nm l', of g] obtain r2 where
        r2': "add_cache_new g cent loc c1 = Some r2"
          "(\<exists>c2. r2 = Purge_cache c2 \<and> stored_ok cent c1 c2) \<or> (\<exists>c2. r2 = Unlock_return c2 \<and> stored_ok cent c1 c2)"
        by (elim exE conjE) (rule that, assumption, erule new_result_stored)
      then have r2: "add_cache_step g now cent c1 = Some r2"
          "(\<exists>c2. r2 = Purge_cache c2 \<and> stored_ok cent c1 c2) \<or> (\<exists>c2. r2 = Unlock_return c2 \<and> stored_ok cent c1 c2)"
        using l by (simp_all add: add_cache_step_def)
      from r2(2) show ?thesis
      proof (elim disjE exE conjE)
        fix c2 assume 2: "r2 = Purge_cache c2" "stored_ok cent c1 c2"
        from purge [OF stored_trans [OF s1 2(2)]] r(1) r2(1) 2(1) Retry show ?thesis
          by (simp add: add_cache_def numeral_2_eq_2)
      next
        fix c2 assume 2: "r2 = Unlock_return c2" "stored_ok cent c1 c2"
        with stored_trans [OF s1 2(2)] r(1) r2(1) Retry show ?thesis
          by (simp add: add_cache_def numeral_2_eq_2)
      qed
    qed
  qed
  with assms(3) show ?thesis by (auto simp: stored_ok_def)
qed

definition example_conf :: conf where
  "example_conf = \<lparr>cf_min_ttl = 120, cf_max_ttl = 604800, cf_neg_ttl = 900, cf_perm_cache = 2048\<rparr>"

theorem add_cache_correct_witness:
  "\<exists>c'. add_cache example_conf 1000 one_cent one_cache = Some c' \<and> cinv c' \<and> c_insert_sort c' \<and>
    (has_no_local one_cent \<longrightarrow> local_sets one_cache \<subseteq> local_sets c') \<and>
    (compat one_cent \<and> cache_compat one_cache \<longrightarrow> cache_compat c')"
  by (rule add_cache_correct [OF one_cache_inv one_cent_ok]) (simp add: one_cache_def)

end
