(* ===== verification/Cache_Lookup.thy ===== *)
theory Cache_Lookup
  imports Cache_Store
begin

unbundle bit_operations_syntax

section \<open>Looking entries up and deleting them\<close>

text \<open>
  \<^verbatim>\<open>lookup_cache\<close> with its search up the name hierarchy, the round trip through \<^verbatim>\<open>add_cache\<close>,
  and the functions that delete or change entries.
\<close>

subsection \<open>The search for a name\<close>

lemma wire_step:
  assumes "wf_label l"
  shows "rd (wire (l # ls) @ r) 0 = Some (of_nat (length l))" "drop (unat (of_nat (length l) :: byte) + 1) (wire (l # ls) @ r) = wire ls @ r"
  using wf_label_length_byte [OF assms] by (simp_all add: rd_def)

lemma wire_Nil_rd: "rd (wire [] @ r) 0 = Some 0"
  by (simp add: rd_def)

lemma lookup_total:
  assumes "cinv c" "wf_name nm"
  shows "\<exists>r loc. cache_lookup c (wire nm @ x) = Some (r, loc) \<and> (\<forall>a. r = Some a \<longrightarrow> (\<exists>ce. c_heap c a = Some ce))"
  by (rule cache_lookup_cases [OF cinvD(1,2) [OF assms(1)] assms(2), of x]) auto

lemma wild_loop_ok:
  "cinv c \<Longrightarrow> wf_name ms \<Longrightarrow> length (wire ms) \<le> DNSNAMEBUFSIZE - 2 \<Longrightarrow>
   \<exists>r w. wild_loop c (wire ms) = Some (r, w) \<and> (\<forall>a. r = Some a \<longrightarrow> (\<exists>ce. c_heap c a = Some ce))"
proof (induction ms)
  case Nil
  then show ?case using wire_Nil_rd [of "[]"] by (simp add: wild_loop.simps)
next
  case (Cons l ms)
  have l: "wf_label l" and ms: "wf_name ms" using Cons.prems(2) wf_name_tl by (auto simp: wf_name_def)
  note rd = wire_step(1) [OF l, of ms "[]"] and dr = wire_step(2) [OF l, of ms "[]"]
  have lb: "(of_nat (length l) :: byte) \<noteq> 0" by (rule wf_label_length_byte(2) [OF l])
  have len: "length (wire ms) \<le> DNSNAMEBUFSIZE - 2" using Cons.prems(3) by simp
  from lookup_total [OF Cons.prems(1,2), of "[]"] obtain r loc where
    r: "cache_lookup c (wire (l # ms)) = Some (r, loc)" "\<forall>a. r = Some a \<longrightarrow> (\<exists>ce. c_heap c a = Some ce)" by auto
  show ?case
  proof (cases r)
    case None
    with Cons.IH [OF Cons.prems(1) ms len] r(1) rd dr lb show ?thesis by (subst wild_loop.simps) (simp del: wire_simps)
  next
    case (Some a)
    with r(2) obtain ce where ce: "c_heap c a = Some ce" by blast
    have rh: "rhnlen (wire (l # ms)) = Some (length (wire (l # ms)))"
      using rhnlen_wire [of "l # ms" "[]"] wf_nameD [OF Cons.prems(2)] by simp
    have le: "length (wire (l # ms)) \<le> DNSNAMEBUFSIZE - 2" "length (wire (l # ms)) \<le> DNSNAMEBUFSIZE"
      using Cons.prems(3) by (simp_all add: DNSNAMEBUFSIZE_def)
    obtain k rest where cpy: "rhncpy (replicate (DNSNAMEBUFSIZE - 2) 0) (wire (l # ms)) = Some (k, wire (l # ms) @ rest)"
      using rh le by (simp del: wire_simps add: rhncpy_def mem_simps)
    have star: "wf_name ([42] # l # ms)"
      using Cons.prems(2,3) by (simp add: wf_name_def wf_label_def DNSNAMEBUFSIZE_def)
    from lookup_total [OF Cons.prems(1) star, of rest] obtain r2 loc2 where
      r2: "cache_lookup c (1 # 42 # wire (l # ms) @ rest) = Some (r2, loc2)" "\<forall>a. r2 = Some a \<longrightarrow> (\<exists>ce. c_heap c a = Some ce)" by auto
    show ?thesis using r(1) Some ce rd lb cpy r2
      by (subst wild_loop.simps) (simp del: wire_simps)
  qed
qed

lemma lookup_find_ok:
  assumes "cinv c" "wf_name nm" "x = [] \<or> \<not> wild"
  shows "\<exists>r w. lookup_find (wire nm @ x) wild c = Some (r, w) \<and> (\<forall>a. r = Some a \<longrightarrow> (\<exists>ce. c_heap c a = Some ce)) \<and>
    (\<forall>a loc. cache_lookup c (wire nm @ x) = Some (Some a, loc) \<longrightarrow> r = Some a) \<and> (\<not> wild \<longrightarrow> w = No_wild \<and> (\<exists>loc. cache_lookup c (wire nm @ x) = Some (r, loc)))"
proof -
  from lookup_total [OF assms(1,2), of x] obtain r loc where
    r: "cache_lookup c (wire nm @ x) = Some (r, loc)" "\<forall>a. r = Some a \<longrightarrow> (\<exists>ce. c_heap c a = Some ce)" by auto
  show ?thesis
  proof (cases "wild \<and> r = None")
    case False
    then have "lookup_find (wire nm @ x) wild c = Some (r, No_wild)" using r(1) by (auto simp: lookup_find_def)
    with r False show ?thesis by auto
  next
    case True
    with assms(3) have x: "x = []" by simp
    show ?thesis
    proof (cases nm)
      case Nil
      with True r(1) x show ?thesis by (simp add: lookup_find_def rd_def)
    next
      case (Cons l ms)
      have l: "wf_label l" and ms: "wf_name ms" using assms(2) Cons wf_name_tl by (auto simp: wf_name_def)
      have "length (wire ms) \<le> DNSNAMEBUFSIZE - 2"
        using assms(2) Cons by (simp add: wf_name_def wf_label_def DNSNAMEBUFSIZE_def) (cases l; simp)
      from wild_loop_ok [OF assms(1) ms this] obtain r2 w where
        "wild_loop c (wire ms) = Some (r2, w)" "\<forall>a. r2 = Some a \<longrightarrow> (\<exists>ce. c_heap c a = Some ce)" by blast
      then show ?thesis
        using True r Cons x wire_step [OF l, of ms "[]"] wf_label_length_byte(2) [OF l]
        by (simp del: wire_simps add: lookup_find_def)
    qed
  qed
qed

subsection \<open>lookup_cache\<close>

text \<open>\<open>e\<close> is a copy of an entry of \<open>c\<close> without its expired RR sets.\<close>

definition fresh_copy :: "time_t \<Rightarrow> cache \<Rightarrow> dns_cent \<Rightarrow> bool" where
  "fresh_copy now c e \<longleftrightarrow> cent_ok e \<and> no_lents e \<and>
     (\<exists>a ce. c_heap c a = Some ce \<and> ce_qname e = ce_qname ce \<and>
        (\<forall>i. sets e i = map_option strip (purge_sets now (sets ce) i)))"

definition copied :: "time_t \<Rightarrow> cache \<Rightarrow> dns_cent \<Rightarrow> dns_cent option \<Rightarrow> bool" where
  "copied now c ce r \<longleftrightarrow> (c_mem c = [] \<and> (\<exists>i. purge_sets now (sets ce) i \<noteq> None) \<longrightarrow> r \<noteq> None) \<and>
     (\<forall>e. r = Some e \<longrightarrow> fresh_copy now c e \<and> ce_qname e = ce_qname ce \<and>
        (\<forall>i. sets e i = map_option strip (purge_sets now (sets ce) i)))"

lemma purge_heap_fewer:
  assumes "c_heap c a = Some ce"
    and "if n < 0
     then n = -1 \<and> del \<and> (\<forall>j. sets ce j = None \<or> stale_set now (sets ce j)) \<and>
       (is_neg ce \<longrightarrow> \<not> fset (ce_flags ce) DF_LOCAL) \<and> c_heap c2 = (c_heap c)(a := None) \<and> c_brk c \<le> c_brk c2 \<and>
       c_mem c2 = c_mem c \<and> c_insert_sort c2 = c_insert_sort c
     else (\<exists>ce2. purge_step a c c2 \<and> c_heap c2 a = Some ce2 \<and> is_neg ce2 = is_neg ce \<and> sets ce2 = purge_sets now (sets ce)) \<and>
       (n = 0 \<longrightarrow> c2 = c)"
  shows "heap_fewer c c2"
proof (cases "n < 0")
  case True
  then have "c_heap c2 = (c_heap c)(a := None)" using assms(2) by simp
  then show ?thesis by (auto simp: heap_fewer_def)
next
  case False
  then obtain ce2 where c: "purge_step a c c2" "c_heap c2 a = Some ce2" "sets ce2 = purge_sets now (sets ce)"
    using assms(2) by auto
  have "fewer ce ce2" by (simp add: fewer_def c(3) purge_sets_def)
  with heap_fewer_step [OF _ assms(1) c(2)] c(1) show ?thesis by (simp add: purge_step_def)
qed

lemma purge_copy:
  assumes "cinv c" "c_heap c a = Some ce"
  shows "\<exists>n c2. purge_cent now a True True c = Some (n, c) \<and> purge_cent now a True False c = Some (n, c2) \<and> cinv c2 \<and> heap_fewer c c2 \<and>
    (n = 0 \<longrightarrow> c2 = c) \<and> (n < 0 \<longrightarrow> copied now c ce None) \<and>
    (n \<ge> 0 \<longrightarrow> (\<exists>ce2 r m. c_heap c2 a = Some ce2 \<and> copy_cent ce2 c2 = Some (r, c2\<lparr>c_mem := m\<rparr>) \<and> copied now c ce r))"
proof -
  from purge_cent_ok [OF assms, of now True] obtain n c2 where
    p: "purge_cent now a True True c = Some (n, c)" "purge_cent now a True False c = Some (n, c2)" "cinv c2" and hf: "heap_fewer c c2" and
    n: "if n < 0 then (\<forall>j. sets ce j = None \<or> stale_set now (sets ce j))
      else (\<exists>ce2. purge_step a c c2 \<and> c_heap c2 a = Some ce2 \<and> sets ce2 = purge_sets now (sets ce)) \<and> (n = 0 \<longrightarrow> c2 = c)"
    by (elim exE conjE) (rule that, assumption+, erule purge_heap_fewer [OF assms(2)], simp split: if_splits, blast)
  show ?thesis
  proof (cases "n < 0")
    case True
    with n have "purge_sets now (sets ce) i = None" for i by (auto simp: purge_sets_def)
    then have "copied now c ce None" by (simp add: copied_def)
    with p hf True show ?thesis by (intro exI [of _ n] exI [of _ c2]) simp
  next
    case False
    with n obtain ce2 where c2: "purge_step a c c2" "c_heap c2 a = Some ce2" "sets ce2 = purge_sets now (sets ce)" "n = 0 \<longrightarrow> c2 = c" by auto
    note ok2 = baseD(1) [OF purge_step_base [OF c2(1)] c2(2)]
    from copy_cent_ok [OF ok2, of c2] obtain r m where
      r: "copy_cent ce2 c2 = Some (r, c2\<lparr>c_mem := m\<rparr>)" "c_mem c2 = [] \<longrightarrow> r \<noteq> None \<and> m = []" "\<forall>cp. r = Some cp \<longrightarrow> cp = strip_cent ce2" by blast
    have q: "ce_qname ce2 = ce_qname ce" using c2(1,2) assms(2) by (auto simp: purge_step_def ent_step_def same_name_def)
    have "fresh_copy now c e \<and> ce_qname e = ce_qname ce \<and> (\<forall>i. sets e i = map_option strip (purge_sets now (sets ce) i))"
      if "r = Some e" for e
    proof -
      have e: "e = strip_cent ce2" using r(3) that by blast
      have s: "\<forall>i. sets e i = map_option strip (purge_sets now (sets ce) i)"
        unfolding e by (simp add: sets_strip [OF cent_okD(1) [OF ok2]] c2(3))
      moreover have "cent_ok e" "no_lents e" "ce_qname e = ce_qname ce"
        using strip_cent_ok [OF ok2] strip_no_lents [OF cent_okD(1) [OF ok2]] q by (simp_all add: e)
      ultimately show ?thesis using assms(2) unfolding fresh_copy_def by blast
    qed
    moreover have "c_mem c = [] \<longrightarrow> r \<noteq> None" using r(2) c2(1) by (simp add: purge_step_def)
    ultimately have "copied now c ce r" unfolding copied_def by blast
    with p False c2(2,4) r(1) have "(n = 0 \<longrightarrow> c2 = c) \<and> (n < 0 \<longrightarrow> copied now c ce None) \<and>
      (n \<ge> 0 \<longrightarrow> (\<exists>ce2 r m. c_heap c2 a = Some ce2 \<and> copy_cent ce2 c2 = Some (r, c2\<lparr>c_mem := m\<rparr>) \<and> copied now c ce r))" by blast
    with p hf show ?thesis by blast
  qed
qed

text \<open>The outcome of a search in \<open>c\<close>: the copy of the entry \<open>r\<close> stands for, or nothing.\<close>

definition outcome :: "time_t \<Rightarrow> cache \<Rightarrow> nat option \<Rightarrow> dns_cent option \<Rightarrow> bool" where
  "outcome now c r q \<longleftrightarrow> (case r of None \<Rightarrow> q = None | Some a \<Rightarrow> \<exists>ce. c_heap c a = Some ce \<and> copied now c ce q)"

lemma heap_fewer_mem: "heap_fewer c c' \<Longrightarrow> heap_fewer c (c'\<lparr>c_mem := m\<rparr>)"
  by (simp add: heap_fewer_def)

lemma lookup_outcome:
  assumes "cinv c" "cinv (others c)" "wf_name nm" "y = [] \<or> \<not> wild"
  shows "\<exists>q w c' d r x. lookup_cache now (wire nm @ y) wild others c = Some (q, w, c') \<and> cinv c' \<and> heap_fewer d c' \<and> (d = c \<or> d = others c) \<and>
    lookup_find (wire nm @ y) wild d = Some (r, x) \<and> outcome now d r q"
proof -
  from lookup_find_ok [OF assms(1,3,4)] obtain r w where
    f: "lookup_find (wire nm @ y) wild c = Some (r, w)" "\<forall>a. r = Some a \<longrightarrow> (\<exists>ce. c_heap c a = Some ce)" by blast
  show ?thesis
  proof (cases r)
    case None
    with f have "lookup_cache now (wire nm @ y) wild others c = Some (None, w, c)" by (simp add: lookup_cache_def)
    moreover have "outcome now c r None" using None by (simp add: outcome_def)
    ultimately show ?thesis using f(1) assms(1) heap_fewer_refl by blast
  next
    case (Some a)
    with f(2) obtain ce where ce: "c_heap c a = Some ce" by blast
    from purge_copy [OF assms(1) ce, of now] obtain n c2 where
      p: "purge_cent now a True True c = Some (n, c)" "n = 0 \<longrightarrow> c2 = c"
        "n \<ge> 0 \<longrightarrow> (\<exists>ce2 r m. c_heap c2 a = Some ce2 \<and> copy_cent ce2 c2 = Some (r, c2\<lparr>c_mem := m\<rparr>) \<and> copied now c ce r)" by blast
    show ?thesis
    proof (cases "n = 0")
      case True
      with p(2,3) ce obtain q m where c: "copy_cent ce c = Some (q, c\<lparr>c_mem := m\<rparr>)" "copied now c ce q" by auto
      have "lookup_cache now (wire nm @ y) wild others c = Some (q, w, c\<lparr>c_mem := m\<rparr>)"
        using f(1) Some p(1) True ce c(1) by (simp add: lookup_cache_def)
      moreover have "outcome now c r q" using Some ce c(2) by (simp add: outcome_def)
      ultimately show ?thesis using cinv_mem [OF assms(1)] heap_fewer_mem [OF heap_fewer_refl] f(1) by blast
    next
      case nz: False
      let ?c = "others c"
      from lookup_find_ok [OF assms(2,3,4)] obtain r2 w2 where
        f2: "lookup_find (wire nm @ y) wild ?c = Some (r2, w2)" "\<forall>a. r2 = Some a \<longrightarrow> (\<exists>ce. c_heap ?c a = Some ce)" by blast
      have start: "lookup_cache now (wire nm @ y) wild others c = (case r2 of
             None \<Rightarrow> Some (None, w2, ?c)
           | Some a \<Rightarrow> do {
               (purge, c) \<leftarrow> purge_cent now a True False ?c;
               if purge < 0 then Some (None, w2, c)
               else do {
                 ce \<leftarrow> c_heap c a;
                 (copy, c) \<leftarrow> copy_cent ce c;
                 Some (copy, w2, c) } })"
        using f(1) Some p(1) nz f2(1) by (simp add: lookup_cache_def Let_def)
      show ?thesis
      proof (cases r2)
        case None
        with start have "lookup_cache now (wire nm @ y) wild others c = Some (None, w2, ?c)" by simp
        moreover have "outcome now ?c r2 None" using None by (simp add: outcome_def)
        ultimately show ?thesis using f2(1) assms(2) heap_fewer_refl by blast
      next
        case (Some b)
        with f2(2) obtain ce' where ce': "c_heap ?c b = Some ce'" by blast
        from purge_copy [OF assms(2) ce', of now] obtain n' c3 where
          p': "purge_cent now b True False ?c = Some (n', c3)" "cinv c3" "heap_fewer ?c c3" "n' < 0 \<longrightarrow> copied now ?c ce' None"
            "n' \<ge> 0 \<longrightarrow> (\<exists>ce2 r m. c_heap c3 b = Some ce2 \<and> copy_cent ce2 c3 = Some (r, c3\<lparr>c_mem := m\<rparr>) \<and> copied now ?c ce' r)" by blast
        show ?thesis
        proof (cases "n' < 0")
          case True
          then have "lookup_cache now (wire nm @ y) wild others c = Some (None, w2, c3)" using start Some p'(1) by simp
          moreover have "outcome now ?c r2 None" using Some ce' p'(4) True by (simp add: outcome_def)
          ultimately show ?thesis using p'(2,3) f2(1) by blast
        next
          case False
          with p'(5) obtain ce2 q m where c: "c_heap c3 b = Some ce2" "copy_cent ce2 c3 = Some (q, c3\<lparr>c_mem := m\<rparr>)" "copied now ?c ce' q" by auto
          have "lookup_cache now (wire nm @ y) wild others c = Some (q, w2, c3\<lparr>c_mem := m\<rparr>)"
            using start Some p'(1) False c(1,2) by simp
          moreover have "outcome now ?c r2 q" using Some ce' c(3) by (simp add: outcome_def)
          ultimately show ?thesis using cinv_mem [OF p'(2)] heap_fewer_mem [OF p'(3)] f2(1) by blast
        qed
      qed
    qed
  qed
qed

text \<open>
  C19: \<^verbatim>\<open>lookup_cache\<close> returns, keeps the invariant of the cache, and what it returns is a
  well-formed copy of a stored entry without its expired RR sets. An entry with the very name that has a
  set that is not expired is always found when memory is available.
\<close>

theorem lookup_cache_correct:
  assumes "cinv c" and "cinv (others c)" and "wf_name nm"
  shows "\<exists>r w c'. lookup_cache now (wire nm) wild others c = Some (r, w, c') \<and> cinv c' \<and>
    (\<forall>e. r = Some e \<longrightarrow> fresh_copy now c e \<or> fresh_copy now (others c) e) \<and>
    (\<forall>a loc ce. cache_lookup c (wire nm) = Some (Some a, loc) \<and> c_heap c a = Some ce \<and> others c = c \<and> c_mem c = [] \<and>
       (\<exists>i. purge_sets now (sets ce) i \<noteq> None) \<longrightarrow>
       (\<exists>e. r = Some e \<and> ce_qname e = ce_qname ce \<and> (\<forall>i. sets e i = map_option strip (purge_sets now (sets ce) i))))"
proof -
  from lookup_outcome [where others = others and c = c and now = now and wild = wild and y = "[]", unfolded append_Nil2, OF assms disjI1 [OF refl]] obtain q w c' d r x where
    o: "lookup_cache now (wire nm) wild others c = Some (q, w, c')" "cinv c'" "d = c \<or> d = others c"
      "lookup_find (wire nm) wild d = Some (r, x)" "outcome now d r q" by blast
  have "fresh_copy now d e" if "q = Some e" for e
    using o(5) that by (auto simp: outcome_def copied_def split: option.splits)
  then have 1: "\<forall>e. q = Some e \<longrightarrow> fresh_copy now c e \<or> fresh_copy now (others c) e" using o(3) by blast
  have 2: "\<exists>e. q = Some e \<and> ce_qname e = ce_qname ce \<and> (\<forall>i. sets e i = map_option strip (purge_sets now (sets ce) i))"
    if h: "cache_lookup c (wire nm) = Some (Some a, loc)" "c_heap c a = Some ce" "others c = c" "c_mem c = []"
      "\<exists>i. purge_sets now (sets ce) i \<noteq> None" for a loc ce
  proof -
    have d: "d = c" using o(3) h(3) by auto
    from lookup_find_ok [where x = "[]" and wild = wild, unfolded append_Nil2, OF assms(1,3) disjI1 [OF refl]] o(4) h(1) d have "r = Some a" by auto
    with o(5) h(2) d have cp: "copied now c ce q" by (simp add: outcome_def)
    with h(4,5) obtain e where "q = Some e" unfolding copied_def by blast
    with cp show ?thesis unfolding copied_def by blast
  qed
  from o(1,2) 1 2 show ?thesis by (intro exI [of _ q] exI [of _ w] exI [of _ c']) blast
qed

theorem lookup_cache_correct_witness:
  "\<exists>r w c'. lookup_cache 100 (wire []) True (\<lambda>c. c) one_cache = Some (r, w, c') \<and> cinv c' \<and>
    (\<forall>e. r = Some e \<longrightarrow> fresh_copy 100 one_cache e \<or> fresh_copy 100 one_cache e) \<and>
    (\<forall>a loc ce. cache_lookup one_cache (wire []) = Some (Some a, loc) \<and> c_heap one_cache a = Some ce \<and> one_cache = one_cache \<and>
       c_mem one_cache = [] \<and> (\<exists>i. purge_sets 100 (sets ce) i \<noteq> None) \<longrightarrow>
       (\<exists>e. r = Some e \<and> ce_qname e = ce_qname ce \<and> (\<forall>i. sets e i = map_option strip (purge_sets 100 (sets ce) i))))"
  by (rule lookup_cache_correct [where others = "\<lambda>c. c" and c = one_cache, OF one_cache_inv one_cache_inv wf_name_Nil])

subsection \<open>What is added is found\<close>

lemma purge_sets_strip:
  assumes "\<And>j. map_option strip (s j) = map_option strip (t j)"
  shows "map_option strip (purge_sets now s i) = map_option strip (purge_sets now t i)"
proof -
  have p: "purgeable now x = purgeable now y" if "strip x = strip y" for x y
    using arg_cong [OF that, of rs_flags] arg_cong [OF that, of rs_ttl] arg_cong [OF that, of rs_ts]
    by (simp add: purgeable_def timedout_def strip_def)
  have "stale_set now (s i) = stale_set now (t i)"
  proof (cases "s i")
    case None
    with assms [of i] show ?thesis by (simp add: stale_set_def)
  next
    case (Some x)
    with assms [of i] obtain y where "t i = Some y" "strip x = strip y" by (cases "t i") auto
    with p [of x y] Some show ?thesis by (simp add: stale_set_def)
  qed
  then show ?thesis using assms [of i] by (simp add: purge_sets_def)
qed


definition no_cache :: cache where
  "no_cache = \<lparr>c_heap = Map.empty, c_tab = mk_dns_hash, c_rrl = [], c_size = 0, c_num = 0, c_insert_sort = True, c_mem = [], c_brk = 0\<rparr>"

lemma no_cache_inv: "cinv no_cache"
proof -
  have "set (concat mk_dns_hash) = {}" by (auto simp: mk_dns_hash_def)
  then have "tab_addrs mk_dns_hash = {}" by (simp add: tab_addrs_def del: set_concat)
  then show ?thesis by (simp add: cinv_def base_def tab_ok_def no_cache_def total_def)
qed


subsection \<open>Deleting entries\<close>

text \<open>Entries whose addresses are listed have left the table but not yet the heap.\<close>

definition pend :: "nat list \<Rightarrow> cache \<Rightarrow> bool" where
  "pend as c \<longleftrightarrow> base c \<and> htable_ok (qname_of c) (c_tab c) \<and> distinct as \<and> tab_addrs (c_tab c) \<inter> set as = {} \<and>
     dom (c_heap c) = tab_addrs (c_tab c) \<union> set as \<and> c_size c = total ent_size c \<and> c_num c = total ent_one c"

lemma pend_Nil: "pend [] c = cinv c"
  by (auto simp: pend_def cinv_def tab_ok_def)

lemma pend_del:
  assumes "pend (a # as) c"
  shows "\<exists>c'. del_cent a c = Some c' \<and> pend as c' \<and> c_tab c' = c_tab c \<and> c_heap c' = (c_heap c)(a := None)"
proof -
  note p = assms [unfolded pend_def]
  obtain ce where ce: "c_heap c a = Some ce" using p by auto
  note b = p [THEN conjunct1] and wf = baseD(2) [OF p [THEN conjunct1] ce]
  let ?c = "drop_ent a ce (c_tab c) c"
  have d: "del_cent a c = Some ?c" using del_cent_eq [OF wf ce, of "c_tab c"] by simp
  have h: "c_heap ?c = (c_heap c)(a := None)" "c_tab ?c = c_tab c" by (simp_all add: drop_ent_def)
  have b': "base ?c" by (rule base_delete [OF b ce]) (simp_all add: drop_ent_def)
  have out: "a \<notin> tab_addrs (c_tab c)" "a \<notin> set as" using p by auto
  have "htable_ok (qname_of ?c) (c_tab c)"
    by (rule htable_ok_cong [of _ "qname_of c"]) (use out p h in \<open>auto simp: qname_of_def\<close>)
  moreover have "dom (c_heap ?c) = tab_addrs (c_tab c) \<union> set as" using p out h by auto
  moreover have "total f ?c - f None = total f c - f (Some ce)" if "f None = 0" for f
    using total_frame [where f = f and c = c and c' = ?c and a = a] b b' that ce by (simp add: drop_ent_def)
  from this [of ent_size] this [of ent_one] have "c_size ?c = total ent_size ?c" "c_num ?c = total ent_one ?c"
    using p by (simp_all add: drop_ent_def)
  ultimately have "pend as ?c" using p b' h(2) by (auto simp: pend_def)
  with d h show ?thesis by blast
qed

lemma del_cents_ok:
  "pend as c \<Longrightarrow> \<exists>c'. del_cents as c = Some c' \<and> cinv c' \<and> c_tab c' = c_tab c \<and>
     c_heap c' = (\<lambda>b. if b \<in> set as then None else c_heap c b)"
proof (induction as arbitrary: c)
  case Nil
  then show ?case by (simp add: pend_Nil)
next
  case (Cons a as)
  from pend_del [OF Cons.prems] obtain c1 where
    1: "del_cent a c = Some c1" "pend as c1" "c_tab c1 = c_tab c" "c_heap c1 = (c_heap c)(a := None)" by blast
  from Cons.IH [OF 1(2)] obtain c' where
    2: "del_cents as c1 = Some c'" "cinv c'" "c_tab c' = c_tab c1" "c_heap c' = (\<lambda>b. if b \<in> set as then None else c_heap c1 b)" by blast
  from 1 2 show ?case by (intro exI [of _ c']) (auto simp: fun_eq_iff)
qed

lemma clear_bucket:
  "htable_ok q T \<Longrightarrow> i < length T \<Longrightarrow> T ! i = chain \<Longrightarrow>
   htable_ok q (T[i := []]) \<and> tab_addrs (T[i := []]) = tab_addrs T - he_data ` set chain \<and> distinct (map he_data chain) \<and>
   he_data ` set chain \<subseteq> tab_addrs T"
proof (induction chain arbitrary: T)
  case Nil
  then have "T[i := []] = T" by (metis list_update_id)
  with Nil show ?case by simp
next
  case (Cons e chain)
  from del_tab [OF Cons.prems(1,2), of "[]" e chain] Cons.prems(3) have
    d: "htable_ok q (T[i := chain])" "tab_addrs (T[i := chain]) = tab_addrs T - {he_data e}" by simp_all
  have i: "i < length (T[i := chain])" "T[i := chain] ! i = chain" using Cons.prems(2) by simp_all
  note IH = Cons.IH [OF d(1) i]
  have "e \<in> set (concat T)" unfolding set_concat_nth using Cons.prems(2,3) by (intro UN_I [of i]) simp_all
  then have "he_data e \<in> tab_addrs T" unfolding tab_addrs_def by (rule imageI)
  with IH d(2) show ?case by auto
qed

text \<open>Walking a bucket and deleting the entries that an include/exclude list selects.\<close>

definition sel_ok :: "slist list \<Rightarrow> bool" where
  "sel_ok sla \<longleftrightarrow> (\<forall>sl\<in>set sla. name_ok (sl_domain sl))"

lemma selects_total:
  assumes "name_ok nm" shows "sel_ok sla \<Longrightarrow> \<exists>b. slist_selects nm sla = Some b"
proof (induction sla)
  case (Cons sl sla)
  from name_ok_wire [OF assms] obtain ls where ls: "wf_name ls" "nm = wire ls" by blast
  from Cons.prems name_ok_wire obtain ms where ms: "wf_name ms" "sl_domain sl = wire ms" by (auto simp: sel_ok_def)
  have "length ls \<le> 128" "length ms \<le> 128" using wf_name_segcnt [OF ls(1)] wf_name_segcnt [OF ms(1)] by simp_all
  from domain_match_wire [OF wf_nameD [OF ls(1)] wf_nameD [OF ms(1)] this, of "[]" "[]"] ls(2) ms(2)
  obtain x y z where "domain_match nm (sl_domain sl) = Some (x, y, z)" by (metis append_Nil2 prod_cases3)
  with Cons show ?case by (auto simp: sel_ok_def)
qed auto

text \<open>The entries \<^verbatim>\<open>empty_cache\<close> leaves alone.\<close>

definition spared :: "slist list option \<Rightarrow> cache \<Rightarrow> nat \<Rightarrow> bool" where
  "spared sla c a \<longleftrightarrow> (\<exists>ce l. c_heap c a = Some ce \<and> sla = Some l \<and> slist_selects (ce_qname ce) l = Some False)"

lemma spared_heap: "c_heap c' a = c_heap c a \<Longrightarrow> spared sla c' a = spared sla c a"
  by (simp add: spared_def)

lemma selected_walk_ok:
  assumes "sel_ok l"
  shows "cinv c \<Longrightarrow> i < length (c_tab c) \<Longrightarrow> c_tab c ! i = pre @ hes \<Longrightarrow>
    \<exists>c'. free_selected_walk i l pre hes c = Some c' \<and> cinv c' \<and> length (c_tab c') = length (c_tab c) \<and>
      (\<forall>j. j \<noteq> i \<longrightarrow> c_tab c' ! j = c_tab c ! j) \<and>
      (\<forall>a. c_heap c' a = (if a \<in> he_data ` set hes \<and> \<not> spared (Some l) c a then None else c_heap c a))"
proof (induction hes arbitrary: c pre)
  case (Cons he hes)
  note v = cinvD [OF Cons.prems(1)]
  have "he \<in> set (concat (c_tab c))" unfolding set_concat_nth using Cons.prems(2,3) by (intro UN_I [of i]) simp_all
  then have "he_data he \<in> tab_addrs (c_tab c)" unfolding tab_addrs_def by (rule imageI)
  then obtain ce where ce: "c_heap c (he_data he) = Some ce" using v(6) by auto
  note ok = baseD(1) [OF v(1) ce]
  from selects_total [OF cent_okD(2) [OF ok] assms] obtain sel where sel: "slist_selects (ce_qname ce) l = Some sel" by blast
  have sp: "spared (Some l) c (he_data he) = (\<not> sel)" using ce sel by (auto simp: spared_def)
  have other: "he_data x \<noteq> he_data he" if "x \<in> set hes" for x
    by (rule tab_addr_unique [OF v(5) Cons.prems(2,3), of i x]) (use that Cons.prems(2) in simp_all)
  show ?case
  proof (cases sel)
    case True
    let ?T = "(c_tab c)[i := pre @ hes]"
    let ?c = "drop_ent (he_data he) ce ?T c"
    note d = del_tab [OF v(5) Cons.prems(2,3)]
    have c1: "cinv ?c" by (rule drop_ent_cinv [OF Cons.prems(1) ce d])
    have h: "c_heap ?c = (c_heap c)(he_data he := None)" "c_tab ?c = ?T" by (simp_all add: drop_ent_def)
    have "free_selected_walk i l pre (he # hes) c = free_selected_walk i l pre hes ?c"
      using ce sel True del_cent_eq [OF cent_okD(1) [OF ok] ce, of ?T] by simp
    moreover from Cons.IH [OF c1, of pre] Cons.prems(2) h(2) obtain c' where
      c': "free_selected_walk i l pre hes ?c = Some c'" "cinv c'" "length (c_tab c') = length ?T" "\<forall>j. j \<noteq> i \<longrightarrow> c_tab c' ! j = ?T ! j"
        "\<forall>a. c_heap c' a = (if a \<in> he_data ` set hes \<and> \<not> spared (Some l) ?c a then None else c_heap ?c a)" by auto
    moreover have "c_heap c' a = (if a \<in> he_data ` set (he # hes) \<and> \<not> spared (Some l) c a then None else c_heap c a)" for a
    proof (cases "a = he_data he")
      case True
      with c'(5) h(1) sp \<open>sel\<close> show ?thesis by simp
    next
      case False
      then have "c_heap ?c a = c_heap c a" using h(1) by simp
      with c'(5) False spared_heap [OF this] show ?thesis by simp
    qed
    ultimately show ?thesis by (intro exI [of _ c']) simp
  next
    case False
    have "free_selected_walk i l pre (he # hes) c = free_selected_walk i l (pre @ [he]) hes c"
      using ce sel False by simp
    moreover from Cons.IH [OF Cons.prems(1,2), of "pre @ [he]"] Cons.prems(3) obtain c' where
      c': "free_selected_walk i l (pre @ [he]) hes c = Some c'" "cinv c'" "length (c_tab c') = length (c_tab c)"
        "\<forall>j. j \<noteq> i \<longrightarrow> c_tab c' ! j = c_tab c ! j"
        "\<forall>a. c_heap c' a = (if a \<in> he_data ` set hes \<and> \<not> spared (Some l) c a then None else c_heap c a)" by auto
    moreover have "c_heap c' a = (if a \<in> he_data ` set (he # hes) \<and> \<not> spared (Some l) c a then None else c_heap c a)" for a
      using c'(5) sp False by (cases "a = he_data he") simp_all
    ultimately show ?thesis by (intro exI [of _ c']) simp
  qed
qed simp

definition bucket_step :: "slist list option \<Rightarrow> nat \<Rightarrow> cache \<Rightarrow> cache option" where
  "bucket_step sla i c = (case sla of Some l \<Rightarrow> free_dns_hash_selected i l c | None \<Rightarrow> free_dns_hash_bucket i c)"

lemma bucket_step_ok:
  assumes "cinv c" "i < HASH_NUM_BUCKETS" "\<forall>l. sla = Some l \<longrightarrow> sel_ok l"
  shows "\<exists>c'. bucket_step sla i c = Some c' \<and> cinv c' \<and> (\<forall>j. j \<noteq> i \<longrightarrow> c_tab c' ! j = c_tab c ! j) \<and>
    (\<forall>a. c_heap c' a = (if a \<in> he_data ` set (c_tab c ! i) \<and> \<not> spared sla c a then None else c_heap c a))"
proof -
  note v = cinvD [OF assms(1)]
  have i: "i < length (c_tab c)" using assms(2) v(5) by (simp add: htable_ok_def)
  show ?thesis
  proof (cases sla)
    case None
    note cl = clear_bucket [OF v(5) i refl]
    let ?c = "c\<lparr>c_tab := (c_tab c)[i := []]\<rparr>"
    have "base ?c" by (rule base_fields [OF v(1)]) simp_all
    moreover have "qname_of ?c = qname_of c" by (simp add: qname_of_def fun_eq_iff)
    moreover have "total f ?c = total f c" for f by (simp add: total_def)
    ultimately have "pend (map he_data (c_tab c ! i)) ?c" using cl v by (auto simp: pend_def)
    from del_cents_ok [OF this] obtain c' where
      "del_cents (map he_data (c_tab c ! i)) ?c = Some c'" "cinv c'" "c_tab c' = (c_tab c)[i := []]"
      "\<forall>b. c_heap c' b = (if b \<in> he_data ` set (c_tab c ! i) then None else c_heap c b)" by auto
    then show ?thesis using i None
      by (intro exI [of _ c']) (simp add: bucket_step_def free_dns_hash_bucket_def rd_def spared_def)
  next
    case (Some l)
    then have "sel_ok l" using assms(3) by simp
    from selected_walk_ok [OF this assms(1) i, of "[]" "c_tab c ! i"] i Some show ?thesis
      by (auto simp: bucket_step_def free_dns_hash_selected_def rd_def)
  qed
qed

lemma empty_loop_Suc:
  "empty_loop sla yield i (Suc n) c = do { c \<leftarrow> bucket_step sla i c; empty_loop sla yield (i + 1) n (if n = 0 then c else yield i c) }"
  by (simp add: bucket_step_def)

declare empty_loop.simps(2) [simp del]

lemma empty_loop_ok:
  assumes y: "\<And>i d. cinv d \<Longrightarrow> cinv (yield i d)" and l: "\<forall>l. sla = Some l \<longrightarrow> sel_ok l"
  shows "cinv c \<Longrightarrow> i + n \<le> HASH_NUM_BUCKETS \<Longrightarrow>
    \<exists>c'. empty_loop sla yield i n c = Some c' \<and> cinv c' \<and>
      ((\<forall>i d. yield i d = d) \<longrightarrow> (\<forall>a. c_heap c' a =
         (if a \<in> (\<Union>j\<in>{i..<i + n}. he_data ` set (c_tab c ! j)) \<and> \<not> spared sla c a then None else c_heap c a)))"
proof (induction n arbitrary: i c)
  case (Suc n)
  from bucket_step_ok [OF Suc.prems(1) _ l, of i] Suc.prems(2) obtain c1 where
    1: "bucket_step sla i c = Some c1" "cinv c1" "\<forall>j. j \<noteq> i \<longrightarrow> c_tab c1 ! j = c_tab c ! j"
      "\<forall>a. c_heap c1 a = (if a \<in> he_data ` set (c_tab c ! i) \<and> \<not> spared sla c a then None else c_heap c a)" by auto
  let ?c = "if n = 0 then c1 else yield i c1"
  have "cinv ?c" using 1(2) y by simp
  from Suc.IH [OF this, of "i + 1"] Suc.prems(2) obtain c' where
    2: "empty_loop sla yield (i + 1) n ?c = Some c'" "cinv c'"
      "(\<forall>i d. yield i d = d) \<longrightarrow> (\<forall>a. c_heap c' a =
         (if a \<in> (\<Union>j\<in>{i + 1..<i + 1 + n}. he_data ` set (c_tab ?c ! j)) \<and> \<not> spared sla ?c a then None else c_heap ?c a))" by auto
  have "c_heap c' a = (if a \<in> (\<Union>j\<in>{i..<i + Suc n}. he_data ` set (c_tab c ! j)) \<and> \<not> spared sla c a then None else c_heap c a)"
    if id: "\<forall>i d. yield i d = d" for a
  proof -
    have c: "?c = c1" using id by simp
    have range: "{i..<i + Suc n} = insert i {i + 1..<i + 1 + n}" by auto
    have "(\<Union>j\<in>{i + 1..<i + 1 + n}. he_data ` set (c_tab c1 ! j)) = (\<Union>j\<in>{i + 1..<i + 1 + n}. he_data ` set (c_tab c ! j))"
      by (rule SUP_cong) (use 1(3) in auto)
    then have heap: "c_heap c' a = (if a \<in> (\<Union>j\<in>{i + 1..<i + 1 + n}. he_data ` set (c_tab c ! j)) \<and> \<not> spared sla c1 a then None else c_heap c1 a)"
      using 2(3) id unfolding c by simp
    show ?thesis
    proof (cases "a \<in> he_data ` set (c_tab c ! i) \<and> \<not> spared sla c a")
      case True
      then have "c_heap c1 a = None" using 1(4) by simp
      with heap True show ?thesis unfolding range by simp
    next
      case False
      then have "c_heap c1 a = c_heap c a" using 1(4) by auto
      with heap False spared_heap [OF this] show ?thesis unfolding range by auto
    qed
  qed
  with 1(1) 2(1,2) show ?case by (auto simp: empty_loop_Suc)
qed simp



end
