(* ===== verification/Answer_Build.thy ===== *)
theory Answer_Build
  imports Answer_Rr Cache_Lookup
begin

unbundle bit_operations_syntax

section \<open>Composing an answer from the cache (dns_answer.c)\<close>

text \<open>
  \<^verbatim>\<open>compose_answer\<close> and the functions it calls. The record \<open>reply\<close> holds the message, the lists
  \<^verbatim>\<open>sva\<close> (records already in the message) and \<^verbatim>\<open>ar\<close> (what is still to be put into the authority
  and additional sections), the cache and the values \<^verbatim>\<open>random()\<close> returns (0 once they are used
  up). The two lists are the sequences of the items appended to the \<^verbatim>\<open>dlist\<close>s.
\<close>

subsection \<open>State\<close>

record sva =
  sv_tp :: int
  sv_dlen :: nat
  sv_nm :: "byte list"     \<comment> \<open>the name and behind it the data\<close>

record rr_ext =
  re_tp :: int
  re_tsz :: nat
  re_ttl :: u32
  re_tnm :: "byte list"    \<comment> \<open>\<^verbatim>\<open>tsz\<close> bytes and behind them the name \<^verbatim>\<open>nm\<close>\<close>

record reply =
  rp_ans :: answer
  rp_sva :: "sva list"
  rp_ar :: "rr_ext list"
  rp_cache :: cache
  rp_rnd :: "nat list"

text \<open>
  The configuration, the time, what other threads do to the cache while its lock is given up, and
  \<^verbatim>\<open>dns_cached_resolve\<close>, which may query other servers: given name, type and cache it returns an error
  code and \<^verbatim>\<open>c_soa\<close>, or a newly allocated entry, and the cache.
\<close>

record env =
  en_queryts :: time_t
  en_now :: time_t
  en_rnd_recs :: bool
  en_udpbufsize :: nat
  en_others :: "cache \<Rightarrow> cache"
  en_resolve :: "byte list \<Rightarrow> int \<Rightarrow> cache \<Rightarrow> (nat \<times> nat + dns_cent) \<times> cache"

text \<open>A step of \<open>answer\<close> on the message of a reply.\<close>

definition on_ans :: "(answer \<Rightarrow> (bool \<times> answer) option) \<Rightarrow> reply \<Rightarrow> (bool \<times> reply) option" where
  "on_ans f rp = do { (ok, a) \<leftarrow> f (rp_ans rp); Some (ok, rp\<lparr>rp_ans := a\<rparr>) }"

text \<open>The outcome of an allocation for one of the lists.\<close>

definition reply_mem :: "reply \<Rightarrow> bool \<times> reply" where
  "reply_mem rp = (let (ok, a) = next_mem (rp_ans rp) in (ok, rp\<lparr>rp_ans := a\<rparr>))"

definition random :: "reply \<Rightarrow> nat \<times> reply" where
  "random rp = (case rp_rnd rp of [] \<Rightarrow> (0, rp) | r # rs \<Rightarrow> (r, rp\<lparr>rp_rnd := rs\<rparr>))"

subsection \<open>Helpers\<close>

definition sva_add :: "byte list \<Rightarrow> int \<Rightarrow> nat \<Rightarrow> byte list \<Rightarrow> reply \<Rightarrow> (bool \<times> reply) option" where
  "sva_add rhn tp dlen data rp = do {
     rlen \<leftarrow> rhnlen rhn;
     let (ok, rp) = reply_mem rp;
     if \<not> ok then Some (False, rp\<lparr>rp_sva := []\<rparr>)
     else if dlen \<le> length data
     then Some (True, rp\<lparr>rp_sva := rp_sva rp @ [\<lparr>sv_tp = tp, sv_dlen = dlen, sv_nm = take rlen rhn @ take dlen data\<rparr>]\<rparr>)
     else None }"

definition ans_ttl :: "rr_set \<Rightarrow> time_t \<Rightarrow> time_t" where
  "ans_ttl rrset queryts =
     (let ttl = rs_ttl rrset
      in if \<not> fset (rs_flags rrset) CF_LOCAL
         then let tpassed = queryts - rs_ts rrset;
                  tpassed = (if tpassed < 0 then 0 else tpassed);
                  ttl = ttl - tpassed
              in if ttl < 0 then 0 else ttl
         else ttl)"

definition getrrset_CNAME :: "dns_cent \<Rightarrow> rr_set option option" where "getrrset_CNAME ce = get_rrsmu ce 2"

text \<open>The name in the buffer is replaced by the one of the first CNAME record.\<close>

definition follow_cname_chain :: "dns_cent \<Rightarrow> byte list \<Rightarrow> (bool \<times> byte list) option" where
  "follow_cname_chain c name = do {
     rs \<leftarrow> getrrset_CNAME c;
     (case rs of
        None \<Rightarrow> Some (False, name)
      | Some rs \<Rightarrow> (case rs_rrs rs of
          [] \<Rightarrow> Some (False, name)
        | rr # _ \<Rightarrow> do {
            pdnsd_assert (length rr \<le> DNSNAMEBUFSIZE);
            name \<leftarrow> memcpy_at name 0 rr (length rr);
            Some (True, name) })) }"

abbreviation (input) RRETP_ADD :: int where "RRETP_ADD \<equiv> 0"

definition add_ar :: "int \<Rightarrow> nat \<Rightarrow> byte list \<Rightarrow> byte list \<Rightarrow> u32 \<Rightarrow> reply \<Rightarrow> (bool \<times> reply) option" where
  "add_ar tp tsz tnm nm ttl rp = do {
     nmsz \<leftarrow> (if tp = T_NS \<or> tp = T_SOA then rhnlen nm else Some 0);
     let (ok, rp) = reply_mem rp;
     if \<not> ok then Some (False, rp\<lparr>rp_ar := []\<rparr>)
     else if tsz \<le> length tnm
     then Some (True, rp\<lparr>rp_ar := rp_ar rp @
            [\<lparr>re_tp = tp, re_tsz = tsz, re_ttl = ttl, re_tnm = take tsz tnm @ take nmsz nm\<rparr>]\<rparr>)
     else None }"

text \<open>\<^verbatim>\<open>randrr\<close>: the position of the selected record.\<close>

definition randrr :: "rr_bucket list \<Rightarrow> reply \<Rightarrow> nat \<times> reply" where
  "randrr rrb rp =
     (let cnt = length rrb
      in if cnt \<noteq> 0 then let (r, rp) = random rp in (r mod cnt, rp) else (0, rp))"

text \<open>
  The order in which the loops of \<^verbatim>\<open>add_rrset\<close> and \<^verbatim>\<open>add_additional_rrs\<close> visit the records: from
  the selected one on to the end, then from the first one up to the selected one.
\<close>

definition rnd_order :: "bool \<Rightarrow> rr_bucket list \<Rightarrow> reply \<Rightarrow> rr_bucket list \<times> reply" where
  "rnd_order rnd_recs rrs rp =
     (if rnd_recs then let (k, rp) = randrr rrs rp in (drop k rrs @ take k rrs, rp) else (rrs, rp))"

definition ar_recs :: "int list" where "ar_recs = [T_NS, T_MD, T_MF, T_MB, T_MX, T_SRV]"
definition ar_offs :: "nat list" where "ar_offs = [0, 0, 0, 0, 2, 6]"

text \<open>The search for the type in \<^verbatim>\<open>ar_recs\<close>: the offset of the server name.\<close>

definition ar_offset :: "int \<Rightarrow> nat option" where
  "ar_offset tp = map_of (zip ar_recs ar_offs) tp"

subsection \<open>The answer section\<close>

fun add_rrset_loop ::
  "env \<Rightarrow> byte list \<Rightarrow> int \<Rightarrow> rr_set \<Rightarrow> nat option \<Rightarrow> rr_bucket list \<Rightarrow> reply \<Rightarrow> (bool \<times> reply) option" where
  "add_rrset_loop en rrn tp rs udp [] rp = Some (True, rp)"
| "add_rrset_loop en rrn tp rs udp (b # bs) rp = do {
     (ok, rp) \<leftarrow> on_ans (add_rr rrn tp (word_of_int (ans_ttl rs (en_queryts en))) (length b) b S_ANSWER udp) rp;
     if \<not> ok then Some (False, rp)
     else do {
       (ok, rp) \<leftarrow> (if tp = T_NS \<or> tp = T_A \<or> tp = T_AAAA then sva_add rrn tp (length b) b rp else Some (True, rp));
       if \<not> ok then Some (False, rp)
       else do {
         (ok, rp) \<leftarrow> (case ar_offset tp of
             Some off \<Rightarrow> if off \<le> length b then add_ar RRETP_ADD (length b - off) (drop off b) [0] 0 rp else None
           | None \<Rightarrow> Some (True, rp));
         if \<not> ok then Some (False, rp)
         else add_rrset_loop en rrn tp rs udp bs rp } } }"

definition add_rrset ::
  "env \<Rightarrow> byte list \<Rightarrow> int \<Rightarrow> dns_cent \<Rightarrow> nat option \<Rightarrow> reply \<Rightarrow> (bool \<times> reply) option" where
  "add_rrset en rrn tp cached udp rp = do {
     crrset \<leftarrow> getrrset cached tp;
     (case crrset of
        None \<Rightarrow> Some (True, rp)
      | Some rs \<Rightarrow>
          if rs_rrs rs = [] then Some (True, rp)
          else let (bs, rp) = rnd_order (en_rnd_recs en) (rs_rrs rs) rp
               in add_rrset_loop en rrn tp rs udp bs rp) }"

text \<open>\<^verbatim>\<open>add_rrset\<close> for several types, until one of the calls fails.\<close>

fun add_rrsets ::
  "env \<Rightarrow> byte list \<Rightarrow> int list \<Rightarrow> dns_cent \<Rightarrow> nat option \<Rightarrow> reply \<Rightarrow> (bool \<times> reply) option" where
  "add_rrsets en rrn [] cached udp rp = Some (True, rp)"
| "add_rrsets en rrn (tp # tps) cached udp rp = do {
     (ok, rp) \<leftarrow> add_rrset en rrn tp cached udp rp;
     if \<not> ok then Some (False, rp) else add_rrsets en rrn tps cached udp rp }"

abbreviation (input) QT_IXFR :: int where "QT_IXFR \<equiv> 251"
abbreviation (input) QT_AXFR :: int where "QT_AXFR \<equiv> 252"
abbreviation (input) QT_MAILB :: int where "QT_MAILB \<equiv> 253"
abbreviation (input) QT_MAILA :: int where "QT_MAILA \<equiv> 254"
abbreviation (input) QT_ALL :: int where "QT_ALL \<equiv> 255"
abbreviation (input) QC_ALL :: int where "QC_ALL \<equiv> 255"

text \<open>\<^verbatim>\<open>RRITERLIST\<close> with its length \<^verbatim>\<open>NRRITERLIST\<close>.\<close>

definition rriterlist :: "dns_cent \<Rightarrow> int list option" where
  "rriterlist ce =
     (if is_neg ce then Some []
      else do { (mu, ext) \<leftarrow> rr_part ce; Some (if ext \<noteq> None then rrcachiterlist else rrmuiterlist) })"

text \<open>\<open>qtype>=T_MIN && qtype<=T_MAX && have_rr(cached,qtype)\<close>\<close>

definition have_type :: "dns_cent \<Rightarrow> int \<Rightarrow> bool option" where
  "have_type ce qtype = (if qtype \<ge> T_MIN \<and> qtype \<le> T_MAX then have_rr ce qtype else Some False)"

definition add_to_response ::
  "env \<Rightarrow> byte list \<Rightarrow> int \<Rightarrow> dns_cent \<Rightarrow> nat option \<Rightarrow> reply \<Rightarrow> (bool \<times> reply) option" where
  "add_to_response en rrn qtype cached udp rp = do {
     h \<leftarrow> have_type cached qtype;
     (ok, rp) \<leftarrow> (if qtype \<noteq> T_CNAME \<and> qtype \<noteq> QT_ALL \<and> \<not> h then add_rrset en rrn T_CNAME cached udp rp else Some (True, rp));
     if \<not> ok then Some (False, rp)
     else if qtype = QT_AXFR \<or> qtype = QT_IXFR then Some (False, rp)
     else if qtype = QT_MAILB then add_rrsets en rrn [T_MB, T_MG, T_MR] cached udp rp
     else if qtype = QT_MAILA then add_rrsets en rrn [T_MD, T_MF] cached udp rp
     else if qtype = QT_ALL then do { l \<leftarrow> rriterlist cached; add_rrsets en rrn l cached udp rp }
     else if qtype \<ge> T_MIN \<and> qtype \<le> T_MAX then add_rrset en rrn qtype cached udp rp
     else Some (False, rp) }"

subsection \<open>The authority and additional sections\<close>

text \<open>The search for the record in \<^verbatim>\<open>sva\<close>.\<close>

fun already_added :: "byte list \<Rightarrow> int \<Rightarrow> nat \<Rightarrow> byte list \<Rightarrow> sva list \<Rightarrow> bool option" where
  "already_added rhn tp dlen data [] = Some False"
| "already_added rhn tp dlen data (st # sts) = do {
     same \<leftarrow> (if sv_tp st = tp
        then do {
          eq \<leftarrow> rhnicmp (sv_nm st) rhn;
          if eq \<and> sv_dlen st = dlen
          then do { d \<leftarrow> skiprhn (sv_nm st); if dlen \<le> length d \<and> dlen \<le> length data then Some (take dlen d = take dlen data) else None }
          else Some False }
        else Some False);
     if same then Some True else already_added rhn tp dlen data sts }"

definition add_additional_rr ::
  "byte list \<Rightarrow> int \<Rightarrow> u32 \<Rightarrow> nat \<Rightarrow> byte list \<Rightarrow> sect \<Rightarrow> nat option \<Rightarrow> reply \<Rightarrow> (bool \<times> reply) option" where
  "add_additional_rr rhn tp ttl dlen data sect udp rp = do {
     dup \<leftarrow> already_added rhn tp dlen data (rp_sva rp);
     if dup then Some (True, rp)
     else do {
       (ok, rp) \<leftarrow> on_ans (add_rr rhn tp ttl dlen data sect udp) rp;
       if \<not> ok then Some (False, rp) else sva_add rhn tp dlen data rp } }"

fun add_additional_rrs_loop ::
  "byte list \<Rightarrow> int \<Rightarrow> u32 \<Rightarrow> sect \<Rightarrow> nat option \<Rightarrow> rr_bucket list \<Rightarrow> reply \<Rightarrow> (bool \<times> reply) option" where
  "add_additional_rrs_loop rhn tp ttl sect udp [] rp = Some (True, rp)"
| "add_additional_rrs_loop rhn tp ttl sect udp (rr # rrs) rp = do {
     (ok, rp) \<leftarrow> add_additional_rr rhn tp ttl (length rr) rr sect udp rp;
     if \<not> ok then Some (False, rp) else add_additional_rrs_loop rhn tp ttl sect udp rrs rp }"

definition add_additional_rrs ::
  "env \<Rightarrow> byte list \<Rightarrow> int \<Rightarrow> time_t \<Rightarrow> rr_bucket list \<Rightarrow> sect \<Rightarrow> nat option \<Rightarrow> reply \<Rightarrow> (bool \<times> reply) option" where
  "add_additional_rrs en rhn tp ttl rrb sect udp rp =
     (let (rrs, rp) = rnd_order (en_rnd_recs en) rrb rp
      in add_additional_rrs_loop rhn tp (word_of_int ttl) sect udp rrs rp)"

text \<open>A call of \<^verbatim>\<open>lookup_cache(name,NULL)\<close>.\<close>

definition look :: "env \<Rightarrow> byte list \<Rightarrow> reply \<Rightarrow> (dns_cent option \<times> reply) option" where
  "look en name rp = do {
     (ce, _, c) \<leftarrow> lookup_cache (en_now en) name False (en_others en) (rp_cache rp);
     Some (ce, rp\<lparr>rp_cache := c\<rparr>) }"

definition release :: "dns_cent \<Rightarrow> reply \<Rightarrow> reply option" where
  "release ce rp = do { c \<leftarrow> free_cent ce (rp_cache rp); Some (rp\<lparr>rp_cache := c\<rparr>) }"

text \<open>The addresses of type \<open>tp\<close> in an entry.\<close>

definition add_addresses ::
  "env \<Rightarrow> byte list \<Rightarrow> int \<Rightarrow> rr_set option \<Rightarrow> nat option \<Rightarrow> reply \<Rightarrow> (bool \<times> reply) option" where
  "add_addresses en rhn tp rrset udp rp =
     (case rrset of
        None \<Rightarrow> Some (True, rp)
      | Some rs \<Rightarrow>
          if rs_rrs rs = [] then Some (True, rp)
          else add_additional_rrs en rhn tp (ans_ttl rs (en_queryts en)) (rs_rrs rs) S_ADDITIONAL udp rp)"

definition add_additional_a :: "env \<Rightarrow> byte list \<Rightarrow> nat option \<Rightarrow> reply \<Rightarrow> (bool \<times> reply) option" where
  "add_additional_a en rhn udp rp = do {
     (ae, rp) \<leftarrow> look en rhn rp;
     (case ae of
        None \<Rightarrow> Some (True, rp)
      | Some ae \<Rightarrow> do {
          rs \<leftarrow> getrrset_A ae;
          (retval, rp) \<leftarrow> add_addresses en rhn T_A rs udp rp;
          (retval, rp) \<leftarrow> (if retval then do { rs \<leftarrow> getrrset_AAAA ae; add_addresses en rhn T_AAAA rs udp rp }
                           else Some (False, rp));
          rp \<leftarrow> release ae rp;
          Some (retval, rp) }) }"

end
