(* ===== verification/Answer_Compose.thy ===== *)
theory Answer_Compose
  imports Answer_Build
begin

unbundle bit_operations_syntax

subsection \<open>compose_answer\<close>

record dns_queryel =
  qe_qtype :: u16
  qe_qclass :: u16
  qe_query :: "byte list"

definition RC_SERVFAIL :: nat where "RC_SERVFAIL = 2"
definition RC_NAMEERR :: nat where "RC_NAMEERR = 3"
definition RC_NOTSUPP :: nat where "RC_NOTSUPP = 4"
definition RC_BADVERS :: nat where "RC_BADVERS = 16"
definition MAX_HOPS :: nat where "MAX_HOPS = 20"

lemmas more_rc_defs = rc_defs RC_SERVFAIL_def RC_NAMEERR_def RC_NOTSUPP_def RC_BADVERS_def

text \<open>Assignments to the bit fields \<^verbatim>\<open>rcode\<close> (four bits) and \<^verbatim>\<open>aa\<close> of the message header.\<close>

definition set_rcode :: "nat \<Rightarrow> answer \<Rightarrow> answer option" where
  "set_rcode rc a = do {
     b \<leftarrow> rd (an_buf a) 3;
     buf \<leftarrow> wr (an_buf a) 3 ((b AND 0xf0) OR take_bit 4 (of_nat rc));
     Some (a\<lparr>an_buf := buf\<rparr>) }"

definition set_aa :: "answer \<Rightarrow> answer option" where
  "set_aa a = do {
     b \<leftarrow> rd (an_buf a) 2;
     buf \<leftarrow> wr (an_buf a) 2 (b OR push_bit 2 1);
     Some (a\<lparr>an_buf := buf\<rparr>) }"

definition answer_hdr :: "dns_hdr \<Rightarrow> dns_hdr" where
  "answer_hdr hdr =
     \<lparr>dh_id = dh_id hdr, dh_rd = dh_rd hdr, dh_tc = False, dh_aa = False, dh_opcode = 0, dh_qr = True,
      dh_rcode = RC_OK, dh_cd = False, dh_ad = False, dh_z = False, dh_ra = True,
      dh_qdcount = 0, dh_ancount = 0, dh_nscount = 0, dh_arcount = 0\<rparr>"

text \<open>The message with its header; \<open>None\<close> when there is no memory.\<close>

definition new_answer :: "dns_hdr \<Rightarrow> bool list \<Rightarrow> (nat \<Rightarrow> byte) \<Rightarrow> answer option" where
  "new_answer hdr mem junk =
     (case mem of False # _ \<Rightarrow> None
      | _ \<Rightarrow> Some \<lparr>an_buf = write_hdr (answer_hdr hdr) @ map junk [sizeof_dns_hdr..<ALLOCINITIALSIZE - dnsmsghdroffset],
               an_sz = sizeof_dns_hdr, an_allocsz = ALLOCINITIALSIZE, an_cb = [], an_mem = tl mem, an_junk = junk\<rparr>)"

text \<open>The questions of the query are put into the answer.\<close>

definition add_question :: "dns_queryel \<Rightarrow> answer \<Rightarrow> (bool \<times> answer) option" where
  "add_question qe a = do {
     l \<leftarrow> rhnlen (qe_query qe);
     let (ok, a) = answer_room (dnsmsghdroffset + an_sz a + l + 4) a;
     if \<not> ok then Some (False, a)
     else do {
       (qclen, a) \<leftarrow> put_name (qe_query qe) a;
       if qclen = 0 then Some (False, a)
       else do {
         (b, p) \<leftarrow> putint16 (qe_qtype qe) (an_buf a) (an_sz a);
         (b, p) \<leftarrow> putint16 (qe_qclass qe) b p;
         a \<leftarrow> inc_count 4 (a\<lparr>an_buf := b, an_sz := an_sz a + 4\<rparr>);
         Some (True, a) } } }"

fun add_questions :: "dns_queryel list \<Rightarrow> answer \<Rightarrow> (bool \<times> answer) option" where
  "add_questions [] a = Some (True, a)"
| "add_questions (qe # ql) a = do {
     (ok, a) \<leftarrow> add_question qe a;
     if \<not> ok then Some (False, a) else add_questions ql a }"

definition unsupported :: "dns_queryel \<Rightarrow> bool" where
  "unsupported qe \<longleftrightarrow>
     not_cached_type (uint (qe_qtype qe)) \<and> uint (qe_qtype qe) \<notin> {QT_MAILB, QT_MAILA, QT_ALL} \<or>
     uint (qe_qclass qe) \<noteq> C_IN \<and> uint (qe_qclass qe) \<noteq> QC_ALL"

text \<open>
  How the work on a question ends: go on with the next one, return the message as it is with a
  response code (\<^verbatim>\<open>cleanup_return\<close>), or return no message (\<^verbatim>\<open>error_ans\<close>, \<^verbatim>\<open>error_cached\<close>).
\<close>

datatype flow = Go_on | Cleanup nat | Err_ans nat

text \<open>The loop that adds SOA records to the authority section of a negative answer.\<close>

fun add_soa_loop :: "env \<Rightarrow> dns_cent \<Rightarrow> rr_set \<Rightarrow> nat option \<Rightarrow> rr_bucket list \<Rightarrow> reply \<Rightarrow> (bool \<times> reply) option" where
  "add_soa_loop en cached rs udp [] rp = Some (True, rp)"
| "add_soa_loop en cached rs udp (rr # rrs) rp = do {
     (ok, rp) \<leftarrow> on_ans (add_rr (ce_qname cached) T_SOA (word_of_int (ans_ttl rs (en_queryts en))) (length rr) rr S_AUTHORITY udp) rp;
     if \<not> ok then Some (False, rp) else add_soa_loop en cached rs udp rrs rp }"

definition name_error_soa :: "env \<Rightarrow> byte list \<Rightarrow> nat \<Rightarrow> nat option \<Rightarrow> reply \<Rightarrow> (bool \<times> reply) option" where
  "name_error_soa en qname c_soa udp rp = do {
     scnt \<leftarrow> rhnsegcnt qname;
     if c_soa < scnt
     then do {
       nm \<leftarrow> skipsegs qname (scnt - c_soa);
       (cached, rp) \<leftarrow> look en nm rp;
       (case cached of
          None \<Rightarrow> Some (True, rp)
        | Some cached \<Rightarrow> do {
            rs \<leftarrow> getrrset_SOA cached;
            (ok, rp) \<leftarrow> (case rs of
                Some rs \<Rightarrow> if \<not> fset (rs_flags rs) CF_NEGATIVE then add_soa_loop en cached rs udp (rs_rrs rs) rp else Some (True, rp)
              | None \<Rightarrow> Some (True, rp));
            rp \<leftarrow> release cached rp;
            Some (ok, rp) }) }
     else Some (True, rp) }"

definition add_edns :: "env \<Rightarrow> nat \<Rightarrow> reply \<Rightarrow> (bool \<times> reply) option" where
  "add_edns en rcode rp = on_ans (add_opt_pseudo_rr (of_nat (en_udpbufsize en)) (of_nat rcode) 0 0) rp"

text \<open>The resolver returned an error code.\<close>

definition resolve_failed :: "env \<Rightarrow> byte list \<Rightarrow> nat \<Rightarrow> nat \<Rightarrow> bool \<Rightarrow> nat option \<Rightarrow> reply \<Rightarrow> (flow \<times> reply) option" where
  "resolve_failed en qname rc c_soa edns udp rp = do {
     a \<leftarrow> set_rcode rc (rp_ans rp);
     let rp = rp\<lparr>rp_ans := a\<rparr>;
     if rc = RC_NAMEERR
     then do {
       (ok, rp) \<leftarrow> (if c_soa \<noteq> cundef then name_error_soa en qname c_soa udp rp else Some (True, rp));
       if \<not> ok then Some (Err_ans rc, rp)
       else do {
         (ok, rp) \<leftarrow> (if edns then add_edns en rc rp else Some (True, rp));
         Some (if ok then Cleanup rc else Err_ans rc, rp) } }
     else Some (Cleanup rc, rp) }"

definition have_any :: "dns_cent \<Rightarrow> int list \<Rightarrow> bool option" where
  "have_any ce tps = foldr (\<lambda>tp r. do { h \<leftarrow> have_rr ce tp; if h then Some True else r }) tps (Some False)"

text \<open>There is no record of the requested type in the answer section: an SOA record is wanted.\<close>

definition wants_soa :: "dns_cent \<Rightarrow> int \<Rightarrow> bool option" where
  "wants_soa cached qtype =
     (if qtype \<ge> T_MIN \<and> qtype \<le> T_MAX then do { h \<leftarrow> have_rr cached qtype; Some (\<not> h) }
      else if qtype = QT_MAILB then do { h \<leftarrow> have_any cached [T_MB, T_MG, T_MR]; Some (\<not> h) }
      else if qtype = QT_MAILA then do { h \<leftarrow> have_any cached [T_MD, T_MF]; Some (\<not> h) }
      else Some False)"

definition not_negative :: "rr_set option \<Rightarrow> rr_set option" where
  "not_negative rs = (case rs of Some r \<Rightarrow> if fset (rs_flags r) CF_NEGATIVE then None else Some r | None \<Rightarrow> None)"

text \<open>
  The name servers or SOA record from an entry higher up the hierarchy; \<open>prev\<close> is freed. The result
  is the entry now held and its RR set.
\<close>

definition authority_above ::
  "env \<Rightarrow> int \<Rightarrow> dns_cent \<Rightarrow> reply \<Rightarrow> (dns_cent option \<times> rr_set option \<times> reply) option" where
  "authority_above en rretp prev rp = do {
     scnt \<leftarrow> rhnsegcnt (ce_qname prev);
     let tcnt = (if rretp = T_NS then ce_c_ns prev else ce_c_soa prev);
     nm \<leftarrow> (if tcnt \<noteq> cundef \<and> tcnt < scnt then skipsegs (ce_qname prev) (scnt - tcnt) else Some (ce_qname prev));
     (cached, rp) \<leftarrow> look en nm rp;
     rrset \<leftarrow> (case cached of None \<Rightarrow> Some None | Some ce \<Rightarrow> do { rs \<leftarrow> getrrset ce rretp; Some (not_negative rs) });
     (cached, rrset, rp) \<leftarrow>
       (if rrset = None \<and> fset (ce_flags prev) DF_LOCAL
        then do {
          nm \<leftarrow> getlocalowner (ce_qname prev) rretp (rp_cache rp);
          (case nm of
             None \<Rightarrow> Some (cached, rrset, rp)
           | Some nm \<Rightarrow> do {
               rp \<leftarrow> (case cached of None \<Rightarrow> Some rp | Some ce \<Rightarrow> release ce rp);
               (cached, rp) \<leftarrow> look en nm rp;
               rrset \<leftarrow> (case cached of None \<Rightarrow> Some None | Some ce \<Rightarrow> getrrset ce rretp);
               Some (cached, rrset, rp) }) }
        else Some (cached, rrset, rp));
     rp \<leftarrow> release prev rp;
     Some (cached, rrset, rp) }"

fun add_ar_loop :: "env \<Rightarrow> int \<Rightarrow> dns_cent \<Rightarrow> rr_set \<Rightarrow> rr_bucket list \<Rightarrow> reply \<Rightarrow> (bool \<times> reply) option" where
  "add_ar_loop en rretp cached rs [] rp = Some (True, rp)"
| "add_ar_loop en rretp cached rs (rr # rrs) rp = do {
     (ok, rp) \<leftarrow> add_ar rretp (length rr) rr (ce_qname cached) (word_of_int (ans_ttl rs (en_queryts en))) rp;
     if \<not> ok then Some (False, rp) else add_ar_loop en rretp cached rs rrs rp }"

text \<open>The list of authority records for the last record of a CNAME chain. \<^verbatim>\<open>cached\<close> is freed.\<close>

definition authority_list :: "env \<Rightarrow> int \<Rightarrow> dns_cent \<Rightarrow> reply \<Rightarrow> (bool \<times> reply) option" where
  "authority_list en qtype cached rp = do {
     soa \<leftarrow> wants_soa cached qtype;
     let rretp = (if soa then T_SOA else T_NS);
     rrset \<leftarrow> getrrset cached rretp;
     let rrset = not_negative rrset;
     (held, rrset, rp) \<leftarrow> (if rrset = None then authority_above en rretp cached rp else Some (Some cached, rrset, rp));
     (ok, rp) \<leftarrow> (case rrset of
         None \<Rightarrow> Some (True, rp)
       | Some rs \<Rightarrow> do { ce \<leftarrow> held; add_ar_loop en rretp ce rs (rs_rrs rs) rp });
     rp \<leftarrow> (case held of None \<Rightarrow> Some rp | Some ce \<Rightarrow> release ce rp);
     Some (ok, rp) }"

text \<open>
  The answer for one question, following CNAME records: \<open>n\<close> is the number of rounds left
  (\<^verbatim>\<open>hops\<close> and one more). \<open>aa\<close> is cleared by an entry that is not local.
\<close>

fun answer_question ::
  "env \<Rightarrow> int \<Rightarrow> bool \<Rightarrow> bool \<Rightarrow> nat option \<Rightarrow> nat \<Rightarrow> byte list \<Rightarrow> bool \<Rightarrow> reply \<Rightarrow> (flow \<times> bool \<times> reply) option" where
  "answer_question en qtype rdbit edns udp 0 qname aa rp = Some (Go_on, aa, rp)"
| "answer_question en qtype rdbit edns udp (Suc n) qname aa rp =
     (case en_resolve en qname qtype (rp_cache rp) of
        (Inl (rc, c_soa), c) \<Rightarrow> do {
          (fl, rp) \<leftarrow> resolve_failed en qname rc c_soa edns udp (rp\<lparr>rp_cache := c\<rparr>);
          Some (fl, aa, rp) }
      | (Inr cached, c) \<Rightarrow> do {
          let rp = rp\<lparr>rp_cache := c\<rparr>;
          let aa = (aa \<and> fset (ce_flags cached) DF_LOCAL);
          (ok, rp) \<leftarrow> add_to_response en qname qtype cached udp rp;
          if \<not> ok then do { rp \<leftarrow> release cached rp; Some (Err_ans RC_OK, aa, rp) }
          else do {
            h \<leftarrow> have_type cached qtype;
            (follow, qname) \<leftarrow> (if rdbit \<and> qtype \<noteq> T_CNAME \<and> qtype \<noteq> QT_ALL \<and> \<not> h
                then follow_cname_chain cached qname else Some (False, qname));
            if follow
            then do { rp \<leftarrow> release cached rp; answer_question en qtype rdbit edns udp n qname aa rp }
            else do {
              (ok, rp) \<leftarrow> authority_list en qtype cached rp;
              Some (if ok then Go_on else Err_ans RC_OK, aa, rp) } } })"

definition name_buffer :: "byte list \<Rightarrow> byte list option" where
  "name_buffer nm = do { (_, b) \<leftarrow> rhncpy (replicate DNSNAMEBUFSIZE 0) nm; Some b }"

fun answer_questions ::
  "env \<Rightarrow> bool \<Rightarrow> bool \<Rightarrow> nat option \<Rightarrow> dns_queryel list \<Rightarrow> bool \<Rightarrow> reply \<Rightarrow> (flow \<times> bool \<times> reply) option" where
  "answer_questions en rdbit edns udp [] aa rp = Some (Go_on, aa, rp)"
| "answer_questions en rdbit edns udp (qe # ql) aa rp = do {
     qname \<leftarrow> name_buffer (qe_query qe);
     (fl, aa, rp) \<leftarrow> answer_question en (uint (qe_qtype qe)) rdbit edns udp (MAX_HOPS + 1) qname aa rp;
     (case fl of Go_on \<Rightarrow> answer_questions en rdbit edns udp ql aa rp | _ \<Rightarrow> Some (fl, aa, rp)) }"

text \<open>The authority section.\<close>

fun add_authority :: "nat option \<Rightarrow> rr_ext list \<Rightarrow> reply \<Rightarrow> (bool \<times> reply) option" where
  "add_authority udp [] rp = Some (True, rp)"
| "add_authority udp (re # res) rp = do {
     (ok, rp) \<leftarrow> (if re_tp re = T_NS \<or> re_tp re = T_SOA
        then add_additional_rr (drop (re_tsz re) (re_tnm re)) (re_tp re) (re_ttl re) (re_tsz re) (re_tnm re) S_AUTHORITY udp rp
        else Some (True, rp));
     if \<not> ok then Some (False, rp) else add_authority udp res rp }"

text \<open>The addresses of the servers named in the other sections.\<close>

fun add_server_addresses :: "env \<Rightarrow> nat option \<Rightarrow> rr_ext list \<Rightarrow> reply \<Rightarrow> (bool \<times> reply) option" where
  "add_server_addresses en udp [] rp = Some (True, rp)"
| "add_server_addresses en udp (re # res) rp = do {
     (ok, rp) \<leftarrow> (if re_tp re = T_NS \<or> re_tp re = RRETP_ADD then add_additional_a en (re_tnm re) udp rp else Some (True, rp));
     if \<not> ok then Some (False, rp) else add_server_addresses en udp res rp }"

definition add_sections :: "env \<Rightarrow> bool \<Rightarrow> nat option \<Rightarrow> reply \<Rightarrow> (bool \<times> reply) option" where
  "add_sections en edns udp rp = do {
     (ok, rp) \<leftarrow> add_authority udp (rp_ar rp) rp;
     if \<not> ok then Some (False, rp)
     else if beyond udp (an_sz (rp_ans rp) + sizeof_opt_pseudo_rr) then Some (True, rp)
     else do {
       (ok, rp) \<leftarrow> (if edns then add_edns en RC_OK rp else Some (True, rp));
       if \<not> ok then Some (False, rp) else add_server_addresses en udp (rp_ar rp) rp } }"

text \<open>
  The result is the message (or none), the response code and the cache. \<open>udp\<close> is the size limit of an
  answer over UDP.
\<close>

definition compose_answer ::
  "env \<Rightarrow> dns_queryel list \<Rightarrow> dns_hdr \<Rightarrow> bool \<Rightarrow> nat option \<Rightarrow> bool list \<Rightarrow> (nat \<Rightarrow> byte) \<Rightarrow> nat list \<Rightarrow> cache \<Rightarrow>
   (answer option \<times> nat \<times> cache) option" where
  "compose_answer en ql hdr edns udp mem junk rnd c =
     (case new_answer hdr mem junk of
        None \<Rightarrow> Some (None, RC_OK, c)
      | Some a \<Rightarrow> do {
          (ok, a) \<leftarrow> add_questions ql a;
          if \<not> ok then Some (None, RC_OK, c)
          else if \<exists>qe \<in> set ql. unsupported qe
          then do { a \<leftarrow> set_rcode RC_NOTSUPP a; Some (Some a, RC_NOTSUPP, c) }
          else do {
            (fl, aa, rp) \<leftarrow> answer_questions en (dh_rd hdr) edns udp ql True
               \<lparr>rp_ans = a, rp_sva = [], rp_ar = [], rp_cache = c, rp_rnd = rnd\<rparr>;
            (case fl of
               Cleanup rc \<Rightarrow> Some (Some (rp_ans rp), rc, rp_cache rp)
             | Err_ans rc \<Rightarrow> Some (None, rc, rp_cache rp)
             | Go_on \<Rightarrow> do {
                 (ok, rp) \<leftarrow> add_sections en edns udp rp;
                 if \<not> ok then Some (None, RC_OK, rp_cache rp)
                 else do {
                   a \<leftarrow> (if aa then set_aa (rp_ans rp) else Some (rp_ans rp));
                   Some (Some a, RC_OK, rp_cache rp) } }) } })"

end
