(* ===== verification/Answer_Inv.thy ===== *)
theory Answer_Inv
  imports Answer_Compose
begin

unbundle bit_operations_syntax

section \<open>The invariant of a reply under construction\<close>

text \<open>
  Well-formed data in the cache, the invariant of a reply (message, lists and cache), and the steps that
  add an item to one of the lists or a record to the message.
\<close>

subsection \<open>Well-formed record data in the cache\<close>

definition data_ok :: "int \<Rightarrow> byte list \<Rightarrow> bool" where
  "data_ok tp rr \<longleftrightarrow> length rr < 65536 \<and> (\<exists>ps. rdata_ok tp rr ps)"

text \<open>The RR set of a type; the access functions compute it.\<close>

definition set_of :: "dns_cent \<Rightarrow> int \<Rightarrow> rr_set option" where
  "set_of ce tp = (if T_MIN \<le> tp \<and> tp \<le> T_MAX then sets ce (rrlkuptab ! nat (tp - T_MIN)) else None)"

lemma getrrset_idx_sets:
  assumes "cent_wf ce" "\<not> is_neg ce"
  shows "getrrset_idx ce i = Some (sets ce i)"
  using cent_wf_pos [OF assms] by (auto simp: getrrset_idx_def rr_part_def rd_def sets_def nrr_defs split: option.splits)

lemma tab_index: "T_MIN \<le> tp \<Longrightarrow> tp \<le> T_MAX \<Longrightarrow> rd rrlkuptab (nat (tp - T_MIN)) = Some (rrlkuptab ! nat (tp - T_MIN))"
proof -
  assume "T_MIN \<le> tp" "tp \<le> T_MAX"
  then have "nat (tp - T_MIN) < length rrlkuptab" by (simp add: T_NUM_def)
  then show ?thesis by (rule rd_Some)
qed

lemma getrrset_of:
  assumes "cent_wf ce"
  shows "getrrset ce tp = Some (set_of ce tp)"
proof (cases "is_neg ce")
  case True
  with neg_sets [OF assms True] show ?thesis by (simp add: getrrset_def set_of_def)
next
  case False
  then show ?thesis
    using getrrset_idx_sets [OF assms False] tab_index [of tp] by (auto simp: getrrset_def set_of_def T_NUM_def)
qed

lemma get_rrsmu_sets: "cent_wf ce \<Longrightarrow> i < NRRMU \<Longrightarrow> get_rrsmu ce i = Some (sets ce i)"
  using cent_wf_pos [of ce] neg_sets [of ce] by (cases "is_neg ce") (auto simp: get_rrsmu_def rr_part_def rd_def sets_def)

lemma set_of_common:
  "set_of ce T_A = sets ce 0" "set_of ce T_NS = sets ce 1" "set_of ce T_CNAME = sets ce 2" "set_of ce T_SOA = sets ce 3"
  "set_of ce T_AAAA = sets ce 7"
  by (simp_all add: set_of_def rrlkuptab_def)

lemma get_common:
  assumes "cent_wf ce"
  shows "getrrset_A ce = Some (set_of ce T_A)" "getrrset_SOA ce = Some (set_of ce T_SOA)"
    "getrrset_AAAA ce = Some (set_of ce T_AAAA)" "getrrset_CNAME ce = Some (set_of ce T_CNAME)"
  using get_rrsmu_sets [OF assms]
  by (simp_all add: getrrset_A_def getrrset_SOA_def getrrset_AAAA_def getrrset_CNAME_def set_of_common NRRMU_def)

definition has_type :: "dns_cent \<Rightarrow> int \<Rightarrow> bool" where
  "has_type ce tp \<longleftrightarrow> (case set_of ce tp of None \<Rightarrow> False | Some rs \<Rightarrow> rs_rrs rs \<noteq> [])"

lemma have_rr_of:
  assumes "cent_wf ce" "T_MIN \<le> tp" "tp \<le> T_MAX"
  shows "have_rr ce tp = Some (has_type ce tp)"
proof (cases "is_neg ce")
  case True
  with neg_sets [OF assms(1) True] show ?thesis by (simp add: have_rr_def has_type_def set_of_def)
next
  case False
  then show ?thesis
    using getrrset_idx_sets [OF assms(1) False] tab_index [OF assms(2,3)] assms(2,3)
    by (simp add: have_rr_def getrrset_eff_def has_type_def set_of_def)
qed

lemma have_type_of: "cent_wf ce \<Longrightarrow> have_type ce tp = Some (T_MIN \<le> tp \<and> tp \<le> T_MAX \<and> has_type ce tp)"
  using have_rr_of [of ce tp] by (auto simp: have_type_def)

definition cent_data_ok :: "dns_cent \<Rightarrow> bool" where
  "cent_data_ok ce \<longleftrightarrow> (\<forall>tp rs rr. set_of ce tp = Some rs \<longrightarrow> rr \<in> set (rs_rrs rs) \<longrightarrow> data_ok tp rr)"

definition entry_ok :: "dns_cent \<Rightarrow> bool" where
  "entry_ok ce \<longleftrightarrow> cent_ok ce \<and> no_lents ce \<and> cent_data_ok ce"

definition store_ok :: "cache \<Rightarrow> bool" where
  "store_ok c \<longleftrightarrow> cinv c \<and> (\<forall>a ce. c_heap c a = Some ce \<longrightarrow> cent_data_ok ce)"

lemma entry_okD:
  assumes "entry_ok ce"
  shows "cent_ok ce" "cent_wf ce" "no_lents ce" "cent_data_ok ce" "\<exists>nm. wf_name nm \<and> ce_qname ce = wire nm"
  using assms cent_okD [of ce] by (auto simp: entry_ok_def name_ok_def)

lemma cent_data_okD: "cent_data_ok ce \<Longrightarrow> set_of ce tp = Some rs \<Longrightarrow> rr \<in> set (rs_rrs rs) \<Longrightarrow> data_ok tp rr"
  unfolding cent_data_ok_def by blast

lemma cent_data_sets:
  assumes "cent_data_ok ce" "\<And>i. sets e i = None \<or> map_option strip (sets e i) = map_option strip (sets ce i)"
  shows "cent_data_ok e"
  unfolding cent_data_ok_def
proof (intro allI impI)
  fix tp rs rr assume h: "set_of e tp = Some rs" "rr \<in> set (rs_rrs rs)"
  let ?i = "rrlkuptab ! nat (tp - T_MIN)"
  from h(1) have tp: "T_MIN \<le> tp \<and> tp \<le> T_MAX" "sets e ?i = Some rs" by (auto simp: set_of_def split: if_splits)
  with assms(2) [of ?i] obtain rs' where r: "sets ce ?i = Some rs'" "strip rs' = strip rs"
    by (cases "sets ce ?i") auto
  have "rs_rrs (strip rs') = rs_rrs (strip rs)" using r(2) by (rule arg_cong)
  then have "rs_rrs rs' = rs_rrs rs" by (simp add: strip_def)
  moreover have "set_of ce tp = Some rs'" using tp r(1) by (simp add: set_of_def)
  ultimately show "data_ok tp rr" using cent_data_okD [OF assms(1)] h(2) by simp
qed

lemma store_ok_fewer: "store_ok c \<Longrightarrow> heap_fewer c c' \<Longrightarrow> cinv c' \<Longrightarrow> store_ok c'"
  unfolding store_ok_def
proof (intro conjI allI impI; (elim conjE)?)
  fix a ce assume h: "heap_fewer c c'" "c_heap c' a = Some ce" "\<forall>a ce. c_heap c a = Some ce \<longrightarrow> cent_data_ok ce"
  then obtain ce0 where "c_heap c a = Some ce0" "fewer ce0 ce" unfolding heap_fewer_def by blast
  with h(3) cent_data_sets [of ce0 ce] show "cent_data_ok ce" by (auto simp: fewer_def)
qed

text \<open>\<^verbatim>\<open>lookup_cache(name,NULL)\<close> gives a well-formed entry with well-formed data, or none.\<close>

lemma lookup_entry:
  assumes "store_ok c" "store_ok (others c)" "wf_name nm"
  shows "\<exists>q w c'. lookup_cache now (wire nm @ y) False others c = Some (q, w, c') \<and> store_ok c' \<and> (\<forall>e. q = Some e \<longrightarrow> entry_ok e)"
proof -
  have i: "cinv c" "cinv (others c)" using assms by (simp_all add: store_ok_def)
  from lookup_outcome [where others = others and now = now and wild = False and y = y, OF i assms(3)] obtain q w c' d r x where
    o: "lookup_cache now (wire nm @ y) False others c = Some (q, w, c')" "cinv c'" "heap_fewer d c'" "d = c \<or> d = others c" "outcome now d r q"
    by auto
  have d: "store_ok d" using o(4) assms by auto
  have "entry_ok e" if e: "q = Some e" for e
  proof -
    have "fresh_copy now d e" using o(5) e by (auto simp: outcome_def copied_def split: option.splits)
    then obtain a ce where f: "cent_ok e" "no_lents e" "c_heap d a = Some ce" "\<And>i. sets e i = map_option strip (purge_sets now (sets ce) i)"
      unfolding fresh_copy_def by blast
    have "cent_data_ok ce" using d f(3) by (auto simp: store_ok_def)
    then have "cent_data_ok e"
    proof (rule cent_data_sets)
      fix i
      have [simp]: "strip (strip rs) = strip rs" for rs by (simp add: strip_def)
      show "sets e i = None \<or> map_option strip (sets e i) = map_option strip (sets ce i)"
        unfolding f(4) by (cases "sets ce i") (auto simp: purge_sets_def)
    qed
    with f show ?thesis by (simp add: entry_ok_def)
  qed
  with o store_ok_fewer [OF d o(3,2)] show ?thesis by blast
qed

lemma release_entry: "entry_ok ce \<Longrightarrow> release ce rp = Some rp"
  using free_cent_no_lents [of ce] entry_okD [of ce] by (simp add: release_def)

text \<open>What the code relies on: the resolver and other threads keep the cache well formed, and the code of a failure
  is not \<^verbatim>\<open>RC_OK\<close>.\<close>

definition env_ok :: "env \<Rightarrow> bool" where
  "env_ok en \<longleftrightarrow> (\<forall>c. store_ok c \<longrightarrow> store_ok (en_others en c)) \<and>
     (\<forall>nm x tp c. wf_name nm \<longrightarrow> store_ok c \<longrightarrow>
        (case en_resolve en (wire nm @ x) tp c of
           (Inl p, c') \<Rightarrow> fst p \<noteq> RC_OK \<and> store_ok c'
         | (Inr ce, c') \<Rightarrow> entry_ok ce \<and> store_ok c'))"

subsection \<open>The invariant of a reply\<close>

text \<open>The items of the lists \<^verbatim>\<open>sva\<close> and \<^verbatim>\<open>ar\<close>: their names are in the message.\<close>

definition in_reach :: "ghost list \<Rightarrow> nat \<Rightarrow> label list \<Rightarrow> bool" where
  "in_reach g sz l \<longleftrightarrow> (sz \<le> 0x4000 \<longrightarrow> l = [] \<or> known g l)"

definition sva_ok :: "ghost list \<Rightarrow> nat \<Rightarrow> sva \<Rightarrow> bool" where
  "sva_ok g sz st \<longleftrightarrow> (\<exists>nm d. wf_name nm \<and> sv_nm st = wire nm @ d \<and> length d = sv_dlen st \<and>
     (\<forall>l. sv_tp st = T_NS \<and> d = wire l \<and> wf_name l \<longrightarrow> in_reach g sz l))"

definition ar_ok :: "ghost list \<Rightarrow> nat \<Rightarrow> rr_ext \<Rightarrow> bool" where
  "ar_ok g sz re \<longleftrightarrow>
     re_tp re = RRETP_ADD \<and> (\<exists>l. wf_name l \<and> re_tnm re = wire l \<and> in_reach g sz l) \<or>
     re_tp re \<in> {T_NS, T_SOA} \<and> (\<exists>d nm. wf_name nm \<and> re_tnm re = d @ wire nm \<and> re_tsz re = length d \<and> data_ok (re_tp re) d)"

definition rp_inv :: "byte list \<Rightarrow> question list \<Rightarrow> (sect \<Rightarrow> msg_rr list) \<Rightarrow> ghost list \<Rightarrow> reply \<Rightarrow> bool" where
  "rp_inv f qs R g rp \<longleftrightarrow> content f qs R g (rp_ans rp) \<and> store_ok (rp_cache rp) \<and>
     (\<forall>st \<in> set (rp_sva rp). sva_ok g (an_sz (rp_ans rp)) st) \<and> (\<forall>re \<in> set (rp_ar rp). ar_ok g (an_sz (rp_ans rp)) re)"

text \<open>What every step leaves unchanged or only makes more: \<open>rp_le\<close>.\<close>

definition rp_le :: "ghost list \<Rightarrow> reply \<Rightarrow> ghost list \<Rightarrow> reply \<Rightarrow> bool" where
  "rp_le g rp g' rp' \<longleftrightarrow> knows_more g g' \<and> an_sz (rp_ans rp) \<le> an_sz (rp_ans rp') \<and>
     (an_mem (rp_ans rp) = [] \<longrightarrow> an_mem (rp_ans rp') = [])"

lemma rp_le_refl [simp]: "rp_le g rp g rp"
  by (simp add: rp_le_def)

lemma rp_le_trans: "rp_le g rp g' rp' \<Longrightarrow> rp_le g' rp' g'' rp'' \<Longrightarrow> rp_le g rp g'' rp''"
  unfolding rp_le_def using knows_more_trans by auto

lemma in_reach_mono: "in_reach g sz l \<Longrightarrow> knows_more g g' \<Longrightarrow> sz \<le> sz' \<Longrightarrow> in_reach g' sz' l"
  by (auto simp: in_reach_def knows_more_def)

lemma sva_ok_mono: "sva_ok g sz st \<Longrightarrow> knows_more g g' \<Longrightarrow> sz \<le> sz' \<Longrightarrow> sva_ok g' sz' st"
  unfolding sva_ok_def using in_reach_mono by blast

lemma ar_ok_mono: "ar_ok g sz st \<Longrightarrow> knows_more g g' \<Longrightarrow> sz \<le> sz' \<Longrightarrow> ar_ok g' sz' st"
  unfolding ar_ok_def using in_reach_mono by blast

text \<open>A step that changes the message and the lists of random values only.\<close>

lemma rp_inv_msg:
  assumes "rp_inv f qs R g rp" "content f qs R' g' a'" "knows_more g g'" "an_sz (rp_ans rp) \<le> an_sz a'"
  shows "rp_inv f qs R' g' (rp\<lparr>rp_ans := a'\<rparr>)"
  using assms sva_ok_mono ar_ok_mono unfolding rp_inv_def by auto

lemma rp_inv_rnd [simp]: "rp_inv f qs R g (rp\<lparr>rp_rnd := r\<rparr>) = rp_inv f qs R g rp"
  by (simp add: rp_inv_def)

lemma rp_le_rnd [simp]: "rp_le g (rp\<lparr>rp_rnd := r\<rparr>) g' rp' = rp_le g rp g' rp'"
  by (simp add: rp_le_def)

lemma rp_inv_mem:
  "content f qs R g (a\<lparr>an_mem := m\<rparr>) = content f qs R g a"
  by (simp add: content_def built_def)

lemma reply_mem_cases:
  "\<exists>ok m. reply_mem rp = (ok, rp\<lparr>rp_ans := (rp_ans rp)\<lparr>an_mem := m\<rparr>\<rparr>) \<and> (an_mem (rp_ans rp) = [] \<longrightarrow> ok \<and> m = [])"
proof -
  obtain ok m where "next_mem (rp_ans rp) = (ok, (rp_ans rp)\<lparr>an_mem := m\<rparr>)" "an_mem (rp_ans rp) = [] \<longrightarrow> ok \<and> m = []"
    using next_mem_cases [of "rp_ans rp"] by blast
  then show ?thesis by (intro exI [of _ ok] exI [of _ m]) (simp add: reply_mem_def)
qed

text \<open>Adding an item to \<^verbatim>\<open>sva\<close>.\<close>

lemma sva_add_step:
  assumes inv: "rp_inv f qs R g rp" and wf: "wf_name nm" and r: "tp = T_NS \<longrightarrow> (\<forall>l. d = wire l \<and> wf_name l \<longrightarrow> in_reach g (an_sz (rp_ans rp)) l)"
  shows "\<exists>ok rp'. sva_add (wire nm @ x) tp (length d) (d @ y) rp = Some (ok, rp') \<and> rp_inv f qs R g rp' \<and> rp_le g rp g rp' \<and>
    an_sz (rp_ans rp') = an_sz (rp_ans rp) \<and> (an_mem (rp_ans rp) = [] \<longrightarrow> ok) \<and> rp_ar rp' = rp_ar rp \<and>
    (ok \<longrightarrow> rp_sva rp' = rp_sva rp @ [\<lparr>sv_tp = tp, sv_dlen = length d, sv_nm = wire nm @ d\<rparr>])"
proof -
  obtain ok m where m: "reply_mem rp = (ok, rp\<lparr>rp_ans := (rp_ans rp)\<lparr>an_mem := m\<rparr>\<rparr>)" "an_mem (rp_ans rp) = [] \<longrightarrow> ok \<and> m = []"
    using reply_mem_cases [of rp] by blast
  let ?st = "\<lparr>sv_tp = tp, sv_dlen = length d, sv_nm = wire nm @ d\<rparr>"
  have st: "sva_ok g (an_sz (rp_ans rp)) ?st" using wf r unfolding sva_ok_def by auto
  have inv': "rp_inv f qs R g (rp\<lparr>rp_ans := (rp_ans rp)\<lparr>an_mem := m\<rparr>, rp_sva := s\<rparr>)"
    if "set s \<subseteq> insert ?st (set (rp_sva rp))" for s
    using inv st that unfolding rp_inv_def by (auto simp: rp_inv_mem)
  show ?thesis
  proof (cases ok)
    case True
    then have "sva_add (wire nm @ x) tp (length d) (d @ y) rp =
        Some (True, rp\<lparr>rp_ans := (rp_ans rp)\<lparr>an_mem := m\<rparr>, rp_sva := rp_sva rp @ [?st]\<rparr>)"
      using m(1) wf_rhnlen [OF wf, of x] by (simp add: sva_add_def del: wire_simps)
    with inv' [of "rp_sva rp @ [?st]"] m(2) True show ?thesis by (auto simp: rp_le_def)
  next
    case False
    then have "sva_add (wire nm @ x) tp (length d) (d @ y) rp =
        Some (False, rp\<lparr>rp_ans := (rp_ans rp)\<lparr>an_mem := m\<rparr>, rp_sva := []\<rparr>)"
      using m(1) wf_rhnlen [OF wf, of x] by (simp add: sva_add_def del: wire_simps)
    with inv' [of "[]"] m(2) False show ?thesis by (auto simp: rp_le_def)
  qed
qed

text \<open>Adding an item to \<^verbatim>\<open>ar\<close>: a name, or name servers and SOA records with their owner.\<close>

lemma add_ar_step:
  assumes inv: "rp_inv f qs R g rp" and wf: "wf_name nm"
    and re: "ar_ok g (an_sz (rp_ans rp)) \<lparr>re_tp = tp, re_tsz = length d, re_ttl = ttl,
      re_tnm = d @ (if tp = T_NS \<or> tp = T_SOA then wire nm else [])\<rparr>"
  shows "\<exists>ok rp'. add_ar tp (length d) d (wire nm) ttl rp = Some (ok, rp') \<and> rp_inv f qs R g rp' \<and> rp_le g rp g rp' \<and>
    an_sz (rp_ans rp') = an_sz (rp_ans rp) \<and> (an_mem (rp_ans rp) = [] \<longrightarrow> ok)"
proof -
  obtain ok m where m: "reply_mem rp = (ok, rp\<lparr>rp_ans := (rp_ans rp)\<lparr>an_mem := m\<rparr>\<rparr>)" "an_mem (rp_ans rp) = [] \<longrightarrow> ok \<and> m = []"
    using reply_mem_cases [of rp] by blast
  let ?re = "\<lparr>re_tp = tp, re_tsz = length d, re_ttl = ttl, re_tnm = d @ (if tp = T_NS \<or> tp = T_SOA then wire nm else [])\<rparr>"
  have inv': "rp_inv f qs R g (rp\<lparr>rp_ans := (rp_ans rp)\<lparr>an_mem := m\<rparr>, rp_ar := s\<rparr>)"
    if "set s \<subseteq> insert ?re (set (rp_ar rp))" for s
    using inv re that unfolding rp_inv_def by (auto simp: rp_inv_mem)
  have n: "rhnlen (wire nm) = Some (length (wire nm))" using wf_rhnlen [OF wf, of "[]"] by simp
  show ?thesis
  proof (cases ok)
    case True
    then have "add_ar tp (length d) d (wire nm) ttl rp =
        Some (True, rp\<lparr>rp_ans := (rp_ans rp)\<lparr>an_mem := m\<rparr>, rp_ar := rp_ar rp @ [?re]\<rparr>)"
      using m(1) n by (simp add: add_ar_def del: wire_simps)
    with inv' [of "rp_ar rp @ [?re]"] m(2) True show ?thesis by (auto simp: rp_le_def)
  next
    case False
    then have "add_ar tp (length d) d (wire nm) ttl rp = Some (False, rp\<lparr>rp_ans := (rp_ans rp)\<lparr>an_mem := m\<rparr>, rp_ar := []\<rparr>)"
      using m(1) n by (simp add: add_ar_def del: wire_simps)
    with inv' [of "[]"] m(2) False show ?thesis by (auto simp: rp_le_def)
  qed
qed

text \<open>Adding a record.\<close>

lemma on_add_rr_step:
  assumes inv: "rp_inv f qs R g rp" and wf: "wf_name nm" and ok: "rdata_ok tp d ps" "length d < 65536"
    and s: "last_sect s R" and lim: "s = S_ADDITIONAL \<and> udp \<noteq> None \<longrightarrow> in_reach g (an_sz (rp_ans rp)) nm \<and> (\<forall>ls. Nm ls \<notin> set ps)"
  shows "\<exists>done rp'. on_ans (add_rr (wire nm @ x) tp ttl (length d) (d @ y) s udp) rp = Some (done, rp') \<and>
    (an_mem (rp_ans rp) = [] \<longrightarrow> done) \<and> rp_ar rp' = rp_ar rp \<and> rp_sva rp' = rp_sva rp \<and>
    (done \<longrightarrow> (\<exists>g' R'. rp_inv f qs R' g' rp' \<and> rp_le g rp g' rp' \<and>
       (R' = R(s := R s @ [rr_of nm tp ttl ps]) \<and> (\<forall>ls. Nm ls \<in> set ps \<longrightarrow> in_reach g' (an_sz (rp_ans rp')) ls) \<or> R' = R \<and> s = S_ADDITIONAL) \<and>
       (s = S_ADDITIONAL \<and> \<not> beyond udp (an_sz (rp_ans rp)) \<longrightarrow> \<not> beyond udp (an_sz (rp_ans rp')))))"
proof -
  have c: "content f qs R g (rp_ans rp)" using inv by (simp add: rp_inv_def)
  have "s = S_ADDITIONAL \<and> udp \<noteq> None \<longrightarrow> (nm = [] \<or> known g nm \<or> an_sz (rp_ans rp) > 0x3fff) \<and> (\<forall>ls. Nm ls \<notin> set ps)"
    using lim by (auto simp: in_reach_def)
  from add_rr_step [OF c wf ok s this, of x ttl y] obtain d' a' where
    a: "add_rr (wire nm @ x) tp ttl (length d) (d @ y) s udp (rp_ans rp) = Some (d', a')"
      "an_mem (rp_ans rp) = [] \<longrightarrow> d' \<and> an_mem a' = []"
      "d' \<longrightarrow> rr_outcome f qs R g (rp_ans rp) s udp (rr_of nm tp ttl ps) (length (wire nm) + 10 + length d) a'" by blast
  let ?rp = "rp\<lparr>rp_ans := a'\<rparr>"
  have e: "on_ans (add_rr (wire nm @ x) tp ttl (length d) (d @ y) s udp) rp = Some (d', ?rp)"
    using a(1) by (simp add: on_ans_def)
  have "\<exists>g' R'. rp_inv f qs R' g' ?rp \<and> rp_le g rp g' ?rp \<and>
       (R' = R(s := R s @ [rr_of nm tp ttl ps]) \<and> (\<forall>ls. Nm ls \<in> set ps \<longrightarrow> in_reach g' (an_sz (rp_ans ?rp)) ls) \<or> R' = R \<and> s = S_ADDITIONAL) \<and>
       (s = S_ADDITIONAL \<and> \<not> beyond udp (an_sz (rp_ans rp)) \<longrightarrow> \<not> beyond udp (an_sz (rp_ans ?rp)))" if d'
  proof -
    from a(3) that obtain g' where g: "knows_more g g'"
      "content f qs R g' a' \<and> an_sz a' = an_sz (rp_ans rp) \<and> s = S_ADDITIONAL \<or>
       content f qs (R(s := R s @ [rr_of nm tp ttl ps])) g' a' \<and> an_sz (rp_ans rp) \<le> an_sz a' \<and> (s = S_ADDITIONAL \<longrightarrow> \<not> beyond udp (an_sz a')) \<and>
      (an_sz a' \<le> 0x4000 \<longrightarrow> (\<forall>ls. Nm ls \<in> set (mr_data (rr_of nm tp ttl ps)) \<and> ls \<noteq> [] \<longrightarrow> known g' ls))"
      unfolding rr_outcome_def by blast
    from g(2) show ?thesis
    proof (elim disjE conjE)
      assume h: "content f qs R g' a'" "an_sz a' = an_sz (rp_ans rp)" "s = S_ADDITIONAL"
      have "rp_inv f qs R g' ?rp" by (rule rp_inv_msg [OF inv h(1) g(1)]) (simp add: h)
      then show ?thesis using h g(1) a(2) by (intro exI [of _ g'] exI [of _ R]) (simp add: rp_le_def)
    next
      assume h: "content f qs (R(s := R s @ [rr_of nm tp ttl ps])) g' a'" "an_sz (rp_ans rp) \<le> an_sz a'" "s = S_ADDITIONAL \<longrightarrow> \<not> beyond udp (an_sz a')"
        "an_sz a' \<le> 0x4000 \<longrightarrow> (\<forall>ls. Nm ls \<in> set (mr_data (rr_of nm tp ttl ps)) \<and> ls \<noteq> [] \<longrightarrow> known g' ls)"
      have "rp_inv f qs (R(s := R s @ [rr_of nm tp ttl ps])) g' ?rp" by (rule rp_inv_msg [OF inv h(1) g(1) h(2)])
      then show ?thesis using h g(1) a(2)
        by (intro exI [of _ g'] exI [of _ "R(s := R s @ [rr_of nm tp ttl ps])"]) (auto simp: rp_le_def in_reach_def rr_of_def)
    qed
  qed
  with e a(2) show ?thesis by (intro exI [of _ d'] exI [of _ ?rp]) auto
qed

end
