(* ===== verification/Answer_Sections.thy ===== *)
theory Answer_Sections
  imports Answer_Inv
begin

unbundle bit_operations_syntax

section \<open>The sections of an answer\<close>

text \<open>
  What the functions that fill the answer, authority and additional sections add.
\<close>

subsection \<open>The answer section\<close>

lemma wire_wf_inj: "wf_name l \<Longrightarrow> wf_name m \<Longrightarrow> wire l = wire m \<longleftrightarrow> l = m"
  using wire_inj wf_nameD by blast

lemma ar_offset_simps:
  "ar_offset tp = (if tp \<in> {T_NS, T_MD, T_MF, T_MB} then Some 0 else if tp = T_MX then Some 2 else if tp = T_SRV then Some 6 else None)"
  by (auto simp: ar_offset_def ar_recs_def ar_offs_def)

text \<open>The server name in the data of a record.\<close>

lemma ar_target:
  assumes "rdata_ok tp d ps" "ar_offset tp = Some off"
  shows "off \<le> length d \<and> (\<exists>l. wf_name l \<and> drop off d = wire l \<and> Nm l \<in> set ps)"
proof -
  have sh: "rdata_shape tp ps" and wf: "\<And>l. Nm l \<in> set ps \<Longrightarrow> wf_name l" and d: "d = plain ps"
    using assms(1) by (auto simp: rdata_ok_def)
  consider "tp \<in> {T_NS, T_MD, T_MF, T_MB}" "off = 0" | "tp = T_MX" "off = 2" | "tp = T_SRV" "off = 6"
    using assms(2) by (auto simp: ar_offset_simps split: if_splits)
  then show ?thesis
  proof cases
    case 1
    with sh obtain l where "ps = [Nm l]" by (auto simp: rdata_shape_def)
    with 1 d wf show ?thesis by auto
  next
    case 2
    with sh obtain b l where "ps = [Lit b, Nm l]" "length b = 2" by (auto simp: rdata_shape_def)
    with 2 d wf show ?thesis by auto
  next
    case 3
    with sh obtain b l where "ps = [Lit b, Nm l]" "length b = 6" by (auto simp: rdata_shape_def)
    with 3 d wf show ?thesis by auto
  qed
qed

lemma ns_name:
  assumes "rdata_ok T_NS d ps"
  shows "\<exists>l. wf_name l \<and> d = wire l \<and> ps = [Nm l]"
  using assms by (auto simp: rdata_ok_def rdata_shape_def)

text \<open>The records of an RR set as they appear in the message.\<close>

definition set_rrs :: "label list \<Rightarrow> int \<Rightarrow> u32 \<Rightarrow> byte list list \<Rightarrow> msg_rr list \<Rightarrow> bool" where
  "set_rrs nm tp ttl bs rs \<longleftrightarrow> list_all2 (\<lambda>b r. \<exists>ps. rdata_ok tp b ps \<and> r = rr_of nm tp ttl ps) bs rs"

definition grown_by :: "sect \<Rightarrow> (sect \<Rightarrow> msg_rr list) \<Rightarrow> msg_rr list \<Rightarrow> (sect \<Rightarrow> msg_rr list) \<Rightarrow> bool" where
  "grown_by s R rs R' \<longleftrightarrow> R' = R(s := R s @ rs)"

lemma grown_by_nil [simp]: "grown_by s R [] R' \<longleftrightarrow> R' = R"
  by (simp add: grown_by_def)

lemma grown_by_trans: "grown_by s R rs R' \<Longrightarrow> grown_by s R' rs' R'' \<Longrightarrow> grown_by s R (rs @ rs') R''"
  by (simp add: grown_by_def)

lemma last_sect_grown: "last_sect s R \<Longrightarrow> grown_by s R rs R' \<Longrightarrow> last_sect s R'"
  by (cases s) (auto simp: last_sect_def grown_by_def)

text \<open>A step that adds the records \<open>rs\<close> to a section; without memory it may fail.\<close>

definition added :: "sect \<Rightarrow> byte list \<Rightarrow> question list \<Rightarrow> (sect \<Rightarrow> msg_rr list) \<Rightarrow> ghost list \<Rightarrow> reply \<Rightarrow> (msg_rr list \<Rightarrow> bool) \<Rightarrow>
    (bool \<times> reply) option \<Rightarrow> bool" where
  "added s f qs R g rp P res \<longleftrightarrow> (\<exists>ok rp'. res = Some (ok, rp') \<and> (an_mem (rp_ans rp) = [] \<longrightarrow> ok) \<and>
     (ok \<longrightarrow> (\<exists>g' R' rs. rp_inv f qs R' g' rp' \<and> rp_le g rp g' rp' \<and> grown_by s R rs R' \<and> P rs)))"

lemma addedI_ok:
  assumes "rp_inv f qs R' g' rp'" "rp_le g rp g' rp'" "grown_by s R rs R'" "P rs"
  shows "added s f qs R g rp P (Some (True, rp'))"
  using assms unfolding added_def by blast

lemma addedI_fail: "an_mem (rp_ans rp) \<noteq> [] \<Longrightarrow> added s f qs R g rp P (Some (False, rp'))"
  unfolding added_def by blast

lemma addedE:
  assumes "added s f qs R g rp P res"
  obtains (fail) rp' where "res = Some (False, rp')" "an_mem (rp_ans rp) \<noteq> []"
  | (succ) rp' g' R' rs where "res = Some (True, rp')" "rp_inv f qs R' g' rp'" "rp_le g rp g' rp'" "grown_by s R rs R'" "P rs"
  using assms unfolding added_def by (metis (full_types))

lemma added_weaken: "added s f qs R g rp P res \<Longrightarrow> (\<And>rs. P rs \<Longrightarrow> Q rs) \<Longrightarrow> added s f qs R g rp Q res"
  unfolding added_def by blast

text \<open>The step continues from a later reply.\<close>

lemma added_after:
  assumes "added s f qs R' g' rp' Q res" "rp_le g rp g' rp'" "grown_by s R rs R'" "\<And>rs'. Q rs' \<Longrightarrow> P (rs @ rs')"
  shows "added s f qs R g rp P res"
  using assms(1)
proof (cases rule: addedE)
  case (fail rp2)
  then show ?thesis using assms(2) by (auto simp: rp_le_def added_def)
next
  case (succ rp2 g2 R2 rs2)
  with assms(2-4) succ rp_le_trans grown_by_trans show ?thesis unfolding succ(1) by (intro addedI_ok) blast+
qed

lemma add_rrset_loop_step:
  assumes "rp_inv f qs R g rp" "wf_name nm" "\<And>b. b \<in> set bs \<Longrightarrow> data_ok tp b" "last_sect S_ANSWER R"
  shows "added S_ANSWER f qs R g rp (set_rrs nm tp (word_of_int (ans_ttl rs (en_queryts en))) bs)
    (add_rrset_loop en (wire nm @ x) tp rs udp bs rp)"
  using assms
proof (induction bs arbitrary: R g rp)
  case Nil
  from addedI_ok [OF Nil(1) rp_le_refl, of S_ANSWER R "[]"] show ?case by (simp add: set_rrs_def)
next
  case (Cons b bs)
  let ?ttl = "word_of_int (ans_ttl rs (en_queryts en)) :: u32"
  from Cons.prems(3) [of b] obtain ps where b: "rdata_ok tp b ps" "length b < 65536" by (auto simp: data_ok_def)
  from on_add_rr_step [OF Cons.prems(1,2) b Cons.prems(4), of udp x ?ttl "[]"] obtain ok1 rp1 where
    1: "on_ans (add_rr (wire nm @ x) tp ?ttl (length b) b S_ANSWER udp) rp = Some (ok1, rp1)" "an_mem (rp_ans rp) = [] \<longrightarrow> ok1"
      "ok1 \<longrightarrow> (\<exists>g' R'. rp_inv f qs R' g' rp1 \<and> rp_le g rp g' rp1 \<and>
        (R' = R(S_ANSWER := R S_ANSWER @ [rr_of nm tp ?ttl ps]) \<and> (\<forall>ls. Nm ls \<in> set ps \<longrightarrow> in_reach g' (an_sz (rp_ans rp1)) ls)))"
    by auto
  show ?case
  proof (cases ok1)
    case False
    with 1 show ?thesis by (simp add: addedI_fail)
  next
    case True
    with 1(3) obtain g1 R1 where r1: "rp_inv f qs R1 g1 rp1" "rp_le g rp g1 rp1" "grown_by S_ANSWER R [rr_of nm tp ?ttl ps] R1"
        "\<forall>ls. Nm ls \<in> set ps \<longrightarrow> in_reach g1 (an_sz (rp_ans rp1)) ls" unfolding grown_by_def by blast
    define res2 where "res2 = (if tp = T_NS \<or> tp = T_A \<or> tp = T_AAAA then sva_add (wire nm @ x) tp (length b) b rp1 else Some (True, rp1))"
    have "\<exists>ok2 rp2. res2 = Some (ok2, rp2) \<and> rp_inv f qs R1 g1 rp2 \<and> rp_le g1 rp1 g1 rp2 \<and>
        an_sz (rp_ans rp2) = an_sz (rp_ans rp1) \<and> (an_mem (rp_ans rp1) = [] \<longrightarrow> ok2)"
    proof (cases "tp = T_NS \<or> tp = T_A \<or> tp = T_AAAA")
      case True
      have "tp = T_NS \<longrightarrow> (\<forall>l. b = wire l \<and> wf_name l \<longrightarrow> in_reach g1 (an_sz (rp_ans rp1)) l)"
        using ns_name [of b ps] b(1) r1(4) wire_wf_inj by auto
      from sva_add_step [OF r1(1) Cons.prems(2) this, of x "[]"] True show ?thesis unfolding res2_def by auto
    next
      case False
      then show ?thesis using r1(1) unfolding res2_def by auto
    qed
    then obtain ok2 rp2 where 2: "res2 = Some (ok2, rp2)" "rp_inv f qs R1 g1 rp2" "rp_le g1 rp1 g1 rp2"
        "an_sz (rp_ans rp2) = an_sz (rp_ans rp1)" "an_mem (rp_ans rp1) = [] \<longrightarrow> ok2" by blast
    have le2: "rp_le g rp g1 rp2" by (rule rp_le_trans [OF r1(2) 2(3)])
    show ?thesis
    proof (cases ok2)
      case False
      with 1(1) \<open>ok1\<close> 2(1,5) r1(2) show ?thesis by (auto simp: res2_def rp_le_def intro!: addedI_fail)
    next
      case ok2: True
      define res3 where "res3 = (case ar_offset tp of
             Some off \<Rightarrow> if off \<le> length b then add_ar RRETP_ADD (length b - off) (drop off b) [0] 0 rp2 else None
           | None \<Rightarrow> Some (True, rp2))"
      have "\<exists>ok3 rp3. res3 = Some (ok3, rp3) \<and> rp_inv f qs R1 g1 rp3 \<and> rp_le g1 rp2 g1 rp3 \<and> (an_mem (rp_ans rp2) = [] \<longrightarrow> ok3)"
      proof (cases "ar_offset tp")
        case None
        then show ?thesis using 2(2) unfolding res3_def by auto
      next
        case (Some off)
        from ar_target [OF b(1) Some] obtain l where l: "off \<le> length b" "wf_name l" "drop off b = wire l" "Nm l \<in> set ps" by blast
        have "ar_ok g1 (an_sz (rp_ans rp2)) \<lparr>re_tp = RRETP_ADD, re_tsz = length (drop off b), re_ttl = 0,
            re_tnm = drop off b @ (if RRETP_ADD = T_NS \<or> RRETP_ADD = T_SOA then wire [] else [])\<rparr>"
          using l r1(4) 2(4) by (auto simp: ar_ok_def)
        from add_ar_step [OF 2(2) wf_name_Nil this] Some l(1) show ?thesis unfolding res3_def by auto
      qed
      then obtain ok3 rp3 where 3: "res3 = Some (ok3, rp3)" "rp_inv f qs R1 g1 rp3" "rp_le g1 rp2 g1 rp3" "an_mem (rp_ans rp2) = [] \<longrightarrow> ok3"
        by blast
      have le3: "rp_le g rp g1 rp3" by (rule rp_le_trans [OF le2 3(3)])
      have step: "add_rrset_loop en (wire nm @ x) tp rs udp (b # bs) rp =
          (if \<not> ok3 then Some (False, rp3) else add_rrset_loop en (wire nm @ x) tp rs udp bs rp3)"
        using 1(1) \<open>ok1\<close> 2(1) ok2 3(1) by (simp add: res2_def [symmetric] res3_def [symmetric] del: add_rrset_loop.simps(2) add: add_rrset_loop.simps(2) [of en "wire nm @ x"])
      show ?thesis
      proof (cases ok3)
        case False
        with step 3(4) le2 show ?thesis by (auto simp: rp_le_def intro!: addedI_fail)
      next
        case ok3: True
        have "added S_ANSWER f qs R1 g1 rp3 (set_rrs nm tp ?ttl bs) (add_rrset_loop en (wire nm @ x) tp rs udp bs rp3)"
          by (rule Cons.IH [OF 3(2) Cons.prems(2) _ last_sect_grown [OF Cons.prems(4) r1(3)]]) (use Cons.prems(3) in auto)
        moreover have "set_rrs nm tp ?ttl (b # bs) ([rr_of nm tp ?ttl ps] @ rs')" if "set_rrs nm tp ?ttl bs rs'" for rs'
          using that b(1) by (auto simp: set_rrs_def)
        ultimately have "added S_ANSWER f qs R g rp (set_rrs nm tp ?ttl (b # bs)) (add_rrset_loop en (wire nm @ x) tp rs udp bs rp3)"
          by (rule added_after [OF _ le3 r1(3)])
        with step ok3 show ?thesis by (simp del: add_rrset_loop.simps)
      qed
    qed
  qed
qed

lemma rnd_order_ok:
  "\<exists>k r. rnd_order rnd rrs rp = (rotate k rrs, rp\<lparr>rp_rnd := r\<rparr>) \<and> (\<not> rnd \<longrightarrow> k = 0)"
proof (cases "rnd \<and> rrs \<noteq> []")
  case True
  obtain v r where v: "random rp = (v, rp\<lparr>rp_rnd := r\<rparr>)"
  proof (cases "rp_rnd rp")
    case Nil
    have "rp = rp\<lparr>rp_rnd := []\<rparr>" using Nil by (cases rp) simp
    with Nil that [of 0 "[]"] show ?thesis by (simp add: random_def)
  next
    case (Cons a as)
    with that show ?thesis by (simp add: random_def)
  qed
  have "drop (v mod length rrs) rrs @ take (v mod length rrs) rrs = rotate v rrs"
    by (simp add: rotate_drop_take)
  with v True show ?thesis by (auto simp: rnd_order_def randrr_def)
next
  case False
  have "rp = rp\<lparr>rp_rnd := rp_rnd rp\<rparr>" by (cases rp) simp
  with False show ?thesis
    by (intro exI [of _ 0] exI [of _ "rp_rnd rp"]) (auto simp: rnd_order_def randrr_def)
qed

text \<open>All records of the set of type \<open>tp\<close>, in the order of the cache or rotated.\<close>

definition set_in_answer :: "env \<Rightarrow> label list \<Rightarrow> int \<Rightarrow> dns_cent \<Rightarrow> msg_rr list \<Rightarrow> bool" where
  "set_in_answer en nm tp ce rs \<longleftrightarrow> (case set_of ce tp of
     None \<Rightarrow> rs = []
   | Some s \<Rightarrow> \<exists>k. (\<not> en_rnd_recs en \<longrightarrow> k = 0) \<and>
       set_rrs nm tp (word_of_int (ans_ttl s (en_queryts en))) (rotate k (rs_rrs s)) rs)"

lemma added_rnd: "added s f qs R g (rp\<lparr>rp_rnd := r\<rparr>) P res \<longleftrightarrow> added s f qs R g rp P res"
  by (simp add: added_def)

lemma add_rrset_step:
  assumes inv: "rp_inv f qs R g rp" and wf: "wf_name nm" and ce: "cent_wf ce" "cent_data_ok ce" and l: "last_sect S_ANSWER R"
  shows "added S_ANSWER f qs R g rp (set_in_answer en nm tp ce) (add_rrset en (wire nm @ x) tp ce udp rp)"
proof (cases "set_of ce tp")
  case None
  with getrrset_of [OF ce(1), of tp] addedI_ok [OF inv rp_le_refl, of S_ANSWER R "[]"] show ?thesis
    by (simp add: add_rrset_def set_in_answer_def)
next
  case (Some s)
  note g = getrrset_of [OF ce(1), of tp]
  show ?thesis
  proof (cases "rs_rrs s = []")
    case True
    with Some g addedI_ok [OF inv rp_le_refl, of S_ANSWER R "[]"] show ?thesis
      by (simp add: add_rrset_def set_in_answer_def set_rrs_def)
  next
    case False
    obtain k r where o: "rnd_order (en_rnd_recs en) (rs_rrs s) rp = (rotate k (rs_rrs s), rp\<lparr>rp_rnd := r\<rparr>)" "\<not> en_rnd_recs en \<longrightarrow> k = 0"
      using rnd_order_ok [of "en_rnd_recs en" "rs_rrs s" rp] by blast
    have "added S_ANSWER f qs R g (rp\<lparr>rp_rnd := r\<rparr>) (set_rrs nm tp (word_of_int (ans_ttl s (en_queryts en))) (rotate k (rs_rrs s)))
        (add_rrset_loop en (wire nm @ x) tp s udp (rotate k (rs_rrs s)) (rp\<lparr>rp_rnd := r\<rparr>))"
      by (rule add_rrset_loop_step [OF _ wf _ l]) (use inv cent_data_okD [OF ce(2) Some] in simp_all)
    then have "added S_ANSWER f qs R g rp (set_in_answer en nm tp ce)
        (add_rrset_loop en (wire nm @ x) tp s udp (rotate k (rs_rrs s)) (rp\<lparr>rp_rnd := r\<rparr>))"
      unfolding added_rnd by (rule added_weaken) (use Some o(2) in \<open>auto simp: set_in_answer_def\<close>)
    with Some g False o(1) show ?thesis by (simp add: add_rrset_def)
  qed
qed

text \<open>Several types: the sets follow each other.\<close>

fun sets_in_answer :: "env \<Rightarrow> label list \<Rightarrow> int list \<Rightarrow> dns_cent \<Rightarrow> msg_rr list \<Rightarrow> bool" where
  "sets_in_answer en nm [] ce rs \<longleftrightarrow> rs = []"
| "sets_in_answer en nm (tp # tps) ce rs \<longleftrightarrow> (\<exists>rs1 rs2. rs = rs1 @ rs2 \<and> set_in_answer en nm tp ce rs1 \<and> sets_in_answer en nm tps ce rs2)"

lemma add_rrsets_step:
  assumes "rp_inv f qs R g rp" "wf_name nm" "cent_wf ce" "cent_data_ok ce" "last_sect S_ANSWER R"
  shows "added S_ANSWER f qs R g rp (sets_in_answer en nm tps ce) (add_rrsets en (wire nm @ x) tps ce udp rp)"
  using assms
proof (induction tps arbitrary: R g rp)
  case Nil
  from addedI_ok [OF Nil(1) rp_le_refl, of S_ANSWER R "[]"] show ?case by simp
next
  case (Cons tp tps)
  show ?case
  proof (cases rule: addedE [OF add_rrset_step [OF Cons.prems, of en tp x udp], case_names fail succ])
    case (fail rp')
    then show ?thesis by (simp add: addedI_fail)
  next
    case (succ rp1 g1 R1 rs1)
    have "added S_ANSWER f qs R1 g1 rp1 (sets_in_answer en nm tps ce) (add_rrsets en (wire nm @ x) tps ce udp rp1)"
      by (rule Cons.IH [OF succ(2) Cons.prems(2-4) last_sect_grown [OF Cons.prems(5) succ(4)]])
    then have "added S_ANSWER f qs R g rp (sets_in_answer en nm (tp # tps) ce) (add_rrsets en (wire nm @ x) tps ce udp rp1)"
      by (rule added_after [OF _ succ(3,4)]) (use succ(5) in auto)
    with succ(1) show ?thesis by (simp del: sets_in_answer.simps)
  qed
qed

text \<open>The types \<^verbatim>\<open>add_to_response\<close> puts into the answer section.\<close>

definition answer_types :: "dns_cent \<Rightarrow> int \<Rightarrow> int list" where
  "answer_types ce qtype =
     (if qtype \<noteq> T_CNAME \<and> qtype \<noteq> QT_ALL \<and> \<not> (T_MIN \<le> qtype \<and> qtype \<le> T_MAX \<and> has_type ce qtype) then [T_CNAME] else []) @
     (if qtype = QT_MAILB then [T_MB, T_MG, T_MR] else if qtype = QT_MAILA then [T_MD, T_MF]
      else if qtype = QT_ALL then the (rriterlist ce) else [qtype])"

definition answerable :: "int \<Rightarrow> bool" where
  "answerable qtype \<longleftrightarrow> T_MIN \<le> qtype \<and> qtype \<le> T_MAX \<or> qtype \<in> {QT_MAILB, QT_MAILA, QT_ALL}"

lemma rriterlist_wf: "cent_wf ce \<Longrightarrow> \<exists>l. rriterlist ce = Some l"
  by (auto simp: rriterlist_def cent_wf_def rr_part_def split: cent_union.splits)

lemma add_rrsets_app:
  "add_rrsets en rrn (ts @ us) ce udp rp = do {
     (ok, rp) \<leftarrow> add_rrsets en rrn ts ce udp rp;
     if \<not> ok then Some (False, rp) else add_rrsets en rrn us ce udp rp }"
proof (induction ts arbitrary: rp)
  case (Cons t ts)
  show ?case by (cases "add_rrset en rrn t ce udp rp") (auto simp: Cons.IH)
qed simp

lemma add_rrsets_one: "add_rrsets en rrn [t] ce udp rp = add_rrset en rrn t ce udp rp"
  by (cases "add_rrset en rrn t ce udp rp") auto

lemma add_to_response_eq:
  assumes "cent_wf ce" "answerable qtype"
  shows "add_to_response en rrn qtype ce udp rp = add_rrsets en rrn (answer_types ce qtype) ce udp rp"
proof -
  obtain l where l: "rriterlist ce = Some l" using rriterlist_wf [OF assms(1)] by blast
  note h = have_type_of [OF assms(1), of qtype]
  have "qtype \<noteq> QT_AXFR" "qtype \<noteq> QT_IXFR" using assms(2) by (auto simp: answerable_def)
  then show ?thesis
    using assms(2) unfolding add_to_response_def h answer_types_def add_rrsets_app l
    by (cases "add_rrset en rrn T_CNAME ce udp rp") (auto simp: answerable_def add_rrsets_one simp del: add_rrsets.simps(2))
qed

subsection \<open>The authority and additional sections\<close>

lemma already_added_step:
  assumes "\<And>st. st \<in> set sts \<Longrightarrow> sva_ok g sz st" "wf_name nm" "dlen \<le> length data"
  shows "\<exists>b. already_added (wire nm @ x) tp dlen data sts = Some b \<and>
    (b \<longrightarrow> (\<exists>st \<in> set sts. \<exists>m. sv_tp st = tp \<and> wf_name m \<and> sv_nm st = wire m @ take dlen data \<and> sv_dlen st = dlen))"
  using assms(1)
proof (induction sts)
  case (Cons st sts)
  from Cons.IH Cons.prems obtain b where IH: "already_added (wire nm @ x) tp dlen data sts = Some b"
    "b \<longrightarrow> (\<exists>st \<in> set sts. \<exists>m. sv_tp st = tp \<and> wf_name m \<and> sv_nm st = wire m @ take dlen data \<and> sv_dlen st = dlen)" by auto
  from Cons.prems [of st] obtain m d where m: "wf_name m" "sv_nm st = wire m @ d" "length d = sv_dlen st" by (auto simp: sva_ok_def)
  have r: "rhnicmp (wire m @ d) (wire nm @ x) = Some (name_eq m nm)"
    by (rule rhnicmp_wire [OF wf_nameD [OF m(1)] wf_nameD [OF assms(2)]])
  have s: "skiprhn (wire m @ d) = Some d" by (rule skiprhn_wire [OF wf_nameD [OF m(1)]])
  let ?same = "sv_tp st = tp \<and> name_eq m nm \<and> sv_dlen st = dlen \<and> d = take dlen data"
  have "already_added (wire nm @ x) tp dlen data (st # sts) = (if ?same then Some True else Some b)"
    unfolding already_added.simps(2) m(2) r s using IH(1) m(3) assms(3) by auto
  with IH(2) m show ?case by auto
qed (intro exI [of _ False]; simp)

lemma add_additional_rr_step:
  assumes inv: "rp_inv f qs R g rp" and wf: "wf_name nm" and ok: "rdata_ok tp d ps" "length d < 65536" and l: "last_sect s R"
    and lim: "s = S_ADDITIONAL \<longrightarrow> in_reach g (an_sz (rp_ans rp)) nm \<and> (\<forall>ls. Nm ls \<notin> set ps) \<and> tp \<noteq> T_NS"
  shows "\<exists>ok rp'. add_additional_rr (wire nm @ x) tp ttl (length d) (d @ y) s udp rp = Some (ok, rp') \<and>
    (an_mem (rp_ans rp) = [] \<longrightarrow> ok) \<and> rp_ar rp' = rp_ar rp \<and>
    (ok \<longrightarrow> (\<exists>g' R' rs. rp_inv f qs R' g' rp' \<and> rp_le g rp g' rp' \<and> grown_by s R rs R' \<and> set rs \<subseteq> {rr_of nm tp ttl ps} \<and>
       (tp = T_NS \<longrightarrow> (\<forall>l. d = wire l \<and> wf_name l \<longrightarrow> in_reach g' (an_sz (rp_ans rp')) l)) \<and>
       (s = S_ADDITIONAL \<and> \<not> beyond udp (an_sz (rp_ans rp)) \<longrightarrow> \<not> beyond udp (an_sz (rp_ans rp')))))"
proof -
  have sv: "\<And>st. st \<in> set (rp_sva rp) \<Longrightarrow> sva_ok g (an_sz (rp_ans rp)) st" using inv by (simp add: rp_inv_def)
  from already_added_step [where sts = "rp_sva rp" and dlen = "length d" and data = "d @ y" and x = x and tp = tp, OF sv wf] obtain b where
    b: "already_added (wire nm @ x) tp (length d) (d @ y) (rp_sva rp) = Some b"
      "b \<longrightarrow> (\<exists>st \<in> set (rp_sva rp). \<exists>m. sv_tp st = tp \<and> wf_name m \<and> sv_nm st = wire m @ d \<and> sv_dlen st = length d)" by auto
  show ?thesis
  proof (cases b)
    case True
    have reach: "in_reach g (an_sz (rp_ans rp)) l'" if h: "tp = T_NS" "d = wire l'" "wf_name l'" for l'
    proof -
      from True b(2) obtain st m where st: "st \<in> set (rp_sva rp)" "sv_tp st = tp" "wf_name m" "sv_nm st = wire m @ d" "sv_dlen st = length d"
        by blast
      from sv [OF st(1)] obtain m' d' where m': "sv_nm st = wire m' @ d'" "length d' = sv_dlen st"
        "\<And>l. sv_tp st = T_NS \<Longrightarrow> d' = wire l \<Longrightarrow> wf_name l \<Longrightarrow> in_reach g (an_sz (rp_ans rp)) l" unfolding sva_ok_def by blast
      have "d' = d" using st(4,5) m'(1,2) by simp
      with m'(3) st(2) h show ?thesis by simp
    qed
    have "add_additional_rr (wire nm @ x) tp ttl (length d) (d @ y) s udp rp = Some (True, rp)"
      using b(1) True by (simp add: add_additional_rr_def)
    moreover have "grown_by s R [] R" by simp
    ultimately show ?thesis using inv reach by (intro exI [of _ True] exI [of _ rp]) fastforce
  next
    case False
    from on_add_rr_step [OF inv wf ok l, of udp x ttl y] lim obtain ok1 rp1 where
      1: "on_ans (add_rr (wire nm @ x) tp ttl (length d) (d @ y) s udp) rp = Some (ok1, rp1)" "an_mem (rp_ans rp) = [] \<longrightarrow> ok1"
        "rp_ar rp1 = rp_ar rp" "ok1 \<longrightarrow> (\<exists>g' R'. rp_inv f qs R' g' rp1 \<and> rp_le g rp g' rp1 \<and>
       (R' = R(s := R s @ [rr_of nm tp ttl ps]) \<and> (\<forall>ls. Nm ls \<in> set ps \<longrightarrow> in_reach g' (an_sz (rp_ans rp1)) ls) \<or> R' = R \<and> s = S_ADDITIONAL) \<and>
       (s = S_ADDITIONAL \<and> \<not> beyond udp (an_sz (rp_ans rp)) \<longrightarrow> \<not> beyond udp (an_sz (rp_ans rp1))))" by blast
    have step: "add_additional_rr (wire nm @ x) tp ttl (length d) (d @ y) s udp rp =
        (if \<not> ok1 then Some (False, rp1) else sva_add (wire nm @ x) tp (length d) (d @ y) rp1)"
      using b(1) False 1(1) by (simp add: add_additional_rr_def)
    show ?thesis
    proof (cases ok1)
      case False
      with step 1(2,3) show ?thesis by (intro exI [of _ False] exI [of _ rp1]) simp
    next
      case True
      with 1(4) obtain g1 R1 where 2: "rp_inv f qs R1 g1 rp1" "rp_le g rp g1 rp1"
       "R1 = R(s := R s @ [rr_of nm tp ttl ps]) \<and> (\<forall>ls. Nm ls \<in> set ps \<longrightarrow> in_reach g1 (an_sz (rp_ans rp1)) ls) \<or> R1 = R \<and> s = S_ADDITIONAL"
       "s = S_ADDITIONAL \<and> \<not> beyond udp (an_sz (rp_ans rp)) \<longrightarrow> \<not> beyond udp (an_sz (rp_ans rp1))" by blast
      have gr: "\<exists>rs. grown_by s R rs R1 \<and> set rs \<subseteq> {rr_of nm tp ttl ps}"
      proof (cases "R1 = R")
        case True
        then show ?thesis by (intro exI [of _ "[]"]) simp
      next
        case False
        with 2(3) show ?thesis by (intro exI [of _ "[rr_of nm tp ttl ps]"]) (simp add: grown_by_def)
      qed
      have r: "tp = T_NS \<longrightarrow> (\<forall>l. d = wire l \<and> wf_name l \<longrightarrow> in_reach g1 (an_sz (rp_ans rp1)) l)"
        using 2(3) ns_name [of d ps] ok(1) lim wire_wf_inj by auto
      from sva_add_step [OF 2(1) wf r, of x y] obtain ok2 rp2 where
        3: "sva_add (wire nm @ x) tp (length d) (d @ y) rp1 = Some (ok2, rp2)" "rp_inv f qs R1 g1 rp2" "rp_le g1 rp1 g1 rp2"
          "an_sz (rp_ans rp2) = an_sz (rp_ans rp1)" "an_mem (rp_ans rp1) = [] \<longrightarrow> ok2" "rp_ar rp2 = rp_ar rp1" by blast
      have le: "rp_le g rp g1 rp2" by (rule rp_le_trans [OF 2(2) 3(3)])
      have "an_mem (rp_ans rp) = [] \<longrightarrow> ok2" using 3(5) 2(2) by (simp add: rp_le_def)
      moreover obtain rs where "grown_by s R rs R1" "set rs \<subseteq> {rr_of nm tp ttl ps}" using gr by blast
      ultimately show ?thesis using step True 3 1(3) le r 2(4)
        by (intro exI [of _ ok2] exI [of _ rp2]) (simp; blast)
    qed
  qed
qed

text \<open>Where the name of a server is, it can be reached by a pointer.\<close>

definition target_ok :: "ghost list \<Rightarrow> nat \<Rightarrow> rr_ext \<Rightarrow> bool" where
  "target_ok g sz re \<longleftrightarrow> (re_tp re = T_NS \<or> re_tp re = RRETP_ADD \<longrightarrow> (\<exists>l y. wf_name l \<and> re_tnm re = wire l @ y \<and> in_reach g sz l))"

lemma target_ok_mono: "target_ok g sz st \<Longrightarrow> knows_more g g' \<Longrightarrow> sz \<le> sz' \<Longrightarrow> target_ok g' sz' st"
  unfolding target_ok_def using in_reach_mono by blast

text \<open>Records that are copies of cached data of a type that may stand in the section.\<close>

definition rr_ok :: "msg_rr \<Rightarrow> bool" where
  "rr_ok r \<longleftrightarrow> wf_name (mr_name r) \<and> mr_class r = 1 \<and>
     (\<exists>tp. mr_type r = word_of_int tp \<and> rdata_ok tp (plain (mr_data r)) (mr_data r))"

lemma rr_ok_of: "wf_name nm \<Longrightarrow> rdata_ok tp d ps \<Longrightarrow> rr_ok (rr_of nm tp ttl ps)"
  by (auto simp: rr_ok_def rr_of_def rdata_ok_def)

lemma add_authority_step:
  assumes "rp_inv f qs R g rp" "\<And>re. re \<in> set res \<Longrightarrow> ar_ok g (an_sz (rp_ans rp)) re" "last_sect S_AUTHORITY R"
  shows "\<exists>ok rp'. add_authority udp res rp = Some (ok, rp') \<and> (an_mem (rp_ans rp) = [] \<longrightarrow> ok) \<and> rp_ar rp' = rp_ar rp \<and>
    (ok \<longrightarrow> (\<exists>g' R' rs. rp_inv f qs R' g' rp' \<and> rp_le g rp g' rp' \<and> grown_by S_AUTHORITY R rs R' \<and> list_all rr_ok rs \<and>
       (\<forall>re \<in> set res. target_ok g' (an_sz (rp_ans rp')) re)))"
  using assms
proof (induction res arbitrary: R g rp)
  case Nil
  have "grown_by S_AUTHORITY R [] R" by simp
  with Nil show ?case by (intro exI [of _ True] exI [of _ rp]) fastforce
next
  case (Cons re res)
  note ar = Cons.prems(2) [of re, simplified]
  define res1 where "res1 = (if re_tp re = T_NS \<or> re_tp re = T_SOA
        then add_additional_rr (drop (re_tsz re) (re_tnm re)) (re_tp re) (re_ttl re) (re_tsz re) (re_tnm re) S_AUTHORITY udp rp
        else Some (True, rp))"
  have "\<exists>ok1 rp1. res1 = Some (ok1, rp1) \<and> (an_mem (rp_ans rp) = [] \<longrightarrow> ok1) \<and> rp_ar rp1 = rp_ar rp \<and>
      (ok1 \<longrightarrow> (\<exists>g' R' rs. rp_inv f qs R' g' rp1 \<and> rp_le g rp g' rp1 \<and> grown_by S_AUTHORITY R rs R' \<and> list_all rr_ok rs \<and>
        target_ok g' (an_sz (rp_ans rp1)) re))"
  proof (cases "re_tp re = T_NS \<or> re_tp re = T_SOA")
    case True
    with ar obtain d nm where d: "wf_name nm" "re_tnm re = d @ wire nm" "re_tsz re = length d" "data_ok (re_tp re) d"
      by (auto simp: ar_ok_def)
    from d(4) obtain ps where ps: "rdata_ok (re_tp re) d ps" "length d < 65536" by (auto simp: data_ok_def)
    have "S_AUTHORITY = S_ADDITIONAL \<longrightarrow> in_reach g (an_sz (rp_ans rp)) nm \<and> (\<forall>ls. Nm ls \<notin> set ps) \<and> re_tp re \<noteq> T_NS" by simp
    from add_additional_rr_step [where x = "[]" and ttl = "re_ttl re" and y = "wire nm" and udp = udp, unfolded append_Nil2,
        OF Cons.prems(1) d(1) ps Cons.prems(3) this] obtain ok1 rp1 where
      1: "add_additional_rr (wire nm) (re_tp re) (re_ttl re) (length d) (d @ wire nm) S_AUTHORITY udp rp = Some (ok1, rp1)"
        "an_mem (rp_ans rp) = [] \<longrightarrow> ok1" "rp_ar rp1 = rp_ar rp"
        "ok1 \<longrightarrow> (\<exists>g' R' rs. rp_inv f qs R' g' rp1 \<and> rp_le g rp g' rp1 \<and> grown_by S_AUTHORITY R rs R' \<and>
          set rs \<subseteq> {rr_of nm (re_tp re) (re_ttl re) ps} \<and>
          (re_tp re = T_NS \<longrightarrow> (\<forall>l. d = wire l \<and> wf_name l \<longrightarrow> in_reach g' (an_sz (rp_ans rp1)) l)))" by blast
    have "target_ok g' (an_sz (rp_ans rp1)) re"
      if h: "re_tp re = T_NS \<longrightarrow> (\<forall>l. d = wire l \<and> wf_name l \<longrightarrow> in_reach g' (an_sz (rp_ans rp1)) l)" for g'
    proof (cases "re_tp re = T_NS")
      case True
      with ps(1) ns_name [of d ps] obtain l where "wf_name l" "d = wire l" by auto
      with h True d(2) show ?thesis unfolding target_ok_def by blast
    next
      case False
      with \<open>re_tp re = T_NS \<or> re_tp re = T_SOA\<close> show ?thesis by (simp add: target_ok_def)
    qed
    moreover have "list_all rr_ok rs" if "set rs \<subseteq> {rr_of nm (re_tp re) (re_ttl re) ps}" for rs
      using that rr_ok_of [OF d(1) ps(1)] by (auto simp: list_all_iff)
    moreover have "res1 = Some (ok1, rp1)" using True 1(1) d(2,3) by (simp add: res1_def)
    ultimately show ?thesis using 1(2-4) by (intro exI [of _ ok1] exI [of _ rp1]) blast
  next
    case False
    with ar have "target_ok g (an_sz (rp_ans rp)) re" by (auto simp: ar_ok_def target_ok_def)
    moreover have "grown_by S_AUTHORITY R [] R" "list_all rr_ok []" by simp_all
    ultimately have "\<exists>g' R' rs. rp_inv f qs R' g' rp \<and> rp_le g rp g' rp \<and> grown_by S_AUTHORITY R rs R' \<and> list_all rr_ok rs \<and>
        target_ok g' (an_sz (rp_ans rp)) re" using Cons.prems(1) rp_le_refl by blast
    moreover have "res1 = Some (True, rp)" using False by (simp add: res1_def)
    ultimately show ?thesis by blast
  qed
  then obtain ok1 rp1 where 1: "res1 = Some (ok1, rp1)" "an_mem (rp_ans rp) = [] \<longrightarrow> ok1" "rp_ar rp1 = rp_ar rp"
      "ok1 \<longrightarrow> (\<exists>g' R' rs. rp_inv f qs R' g' rp1 \<and> rp_le g rp g' rp1 \<and> grown_by S_AUTHORITY R rs R' \<and> list_all rr_ok rs \<and>
        target_ok g' (an_sz (rp_ans rp1)) re)" by blast
  have step: "add_authority udp (re # res) rp = (if \<not> ok1 then Some (False, rp1) else add_authority udp res rp1)"
    using 1(1) by (simp add: res1_def [symmetric])
  show ?case
  proof (cases ok1)
    case False
    with step 1(2,3) show ?thesis by (intro exI [of _ False] exI [of _ rp1]) simp
  next
    case True
    with 1(4) obtain g1 R1 rs1 where r1: "rp_inv f qs R1 g1 rp1" "rp_le g rp g1 rp1" "grown_by S_AUTHORITY R rs1 R1" "list_all rr_ok rs1"
        "target_ok g1 (an_sz (rp_ans rp1)) re" by blast
    have "ar_ok g1 (an_sz (rp_ans rp1)) re'" if "re' \<in> set res" for re'
      using ar_ok_mono [OF Cons.prems(2) [of re']] that r1(2) by (simp add: rp_le_def)
    from Cons.IH [OF r1(1) this last_sect_grown [OF Cons.prems(3) r1(3)]] obtain ok2 rp2 where
      2: "add_authority udp res rp1 = Some (ok2, rp2)" "an_mem (rp_ans rp1) = [] \<longrightarrow> ok2" "rp_ar rp2 = rp_ar rp1"
        "ok2 \<longrightarrow> (\<exists>g' R' rs. rp_inv f qs R' g' rp2 \<and> rp_le g1 rp1 g' rp2 \<and> grown_by S_AUTHORITY R1 rs R' \<and> list_all rr_ok rs \<and>
          (\<forall>re \<in> set res. target_ok g' (an_sz (rp_ans rp2)) re))" by blast
    have m: "an_mem (rp_ans rp) = [] \<longrightarrow> ok2" using 2(2) r1(2) by (simp add: rp_le_def)
    have "\<exists>g' R' rs. rp_inv f qs R' g' rp2 \<and> rp_le g rp g' rp2 \<and> grown_by S_AUTHORITY R rs R' \<and> list_all rr_ok rs \<and>
          (\<forall>re \<in> set (re # res). target_ok g' (an_sz (rp_ans rp2)) re)" if ok2
    proof -
      from 2(4) that obtain g2 R2 rs2 where r2: "rp_inv f qs R2 g2 rp2" "rp_le g1 rp1 g2 rp2" "grown_by S_AUTHORITY R1 rs2 R2"
          "list_all rr_ok rs2" "\<forall>re \<in> set res. target_ok g2 (an_sz (rp_ans rp2)) re" by blast
      have "target_ok g2 (an_sz (rp_ans rp2)) re" using target_ok_mono [OF r1(5)] r2(2) by (simp add: rp_le_def)
      with r2 r1 rp_le_trans [OF r1(2) r2(2)] grown_by_trans [OF r1(3) r2(3)] show ?thesis
        by (intro exI [of _ g2] exI [of _ R2] exI [of _ "rs1 @ rs2"]) simp
    qed
    with step True 2(1,3) 1(3) m show ?thesis by (intro exI [of _ ok2] exI [of _ rp2]) simp
  qed
qed

end
