(* ===== verification/Answer_Questions.thy ===== *)
theory Answer_Questions
  imports Answer_Sections
begin

unbundle bit_operations_syntax

section \<open>The header and the questions of an answer\<close>

text \<open>
  Rewriting bytes of the header keeps the content of a message; the questions of the query are put into
  the answer.
\<close>

subsection \<open>The header and the questions\<close>

lemma agree_hdr:
  assumes "length h = sizeof_dns_hdr" "sizeof_dns_hdr \<le> n" "n \<le> length b"
  shows "agree {sizeof_dns_hdr..} m (take n (h @ drop sizeof_dns_hdr b)) \<longleftrightarrow> agree {sizeof_dns_hdr..} m (take n b)"
proof -
  have l: "n \<le> length (h @ drop sizeof_dns_hdr b)" using assms by simp
  have "(h @ drop sizeof_dns_hdr b) ! i = b ! i" if "sizeof_dns_hdr \<le> i" "i < n" for i
    using that assms by (simp add: nth_append)
  then show ?thesis unfolding agree_take [OF l] agree_take [OF assms(3)] by auto
qed

text \<open>The header may be rewritten: this does not change what the message contains behind it.\<close>

lemma content_new_hdr:
  assumes c: "content f qs R g a" and f: "length f' = 4"
  shows "content f' qs R g (a\<lparr>an_buf := (f' @ counts qs R) @ drop sizeof_dns_hdr (an_buf a)\<rparr>)"
proof -
  let ?h = "f' @ counts qs R"
  have h: "length ?h = sizeof_dns_hdr" using f by (simp add: sizeof_dns_hdr_def)
  have s: "sizeof_dns_hdr \<le> an_sz a" "an_sz a \<le> length (an_buf a)" using c by (auto simp: content_def built_def)
  have l: "length (?h @ drop sizeof_dns_hdr (an_buf a)) = length (an_buf a)" using h s by simp
  have t: "take sizeof_dns_hdr (?h @ drop sizeof_dns_hdr (an_buf a)) = ?h" using h by simp
  show ?thesis
    using c f l t s unfolding content_def built_def by (simp add: agree_hdr [OF h s] del: take_append append_assoc)
qed

lemma content_hdr_bytes:
  assumes "content f qs R g a"
  shows "an_buf a = f @ counts qs R @ drop sizeof_dns_hdr (an_buf a)" "length f = 4"
  using assms append_take_drop_id [of sizeof_dns_hdr "an_buf a"] by (auto simp: content_def)

text \<open>One byte of the flags in the header.\<close>

lemma set_flags_step:
  assumes c: "content f qs R g a" and i: "i < 4"
  shows "rd (an_buf a) i = Some (f ! i) \<and> (\<exists>b. wr (an_buf a) i v = Some b \<and> content (f[i := v]) qs R g (a\<lparr>an_buf := b\<rparr>))"
proof -
  note b = content_hdr_bytes [OF c]
  have r: "rd (an_buf a) i = Some (f ! i)" by (subst b(1)) (use i b(2) in \<open>simp add: rd_def nth_append\<close>)
  let ?b = "(f[i := v] @ counts qs R) @ drop sizeof_dns_hdr (an_buf a)"
  have "wr (an_buf a) i v = Some ?b"
  proof -
    have "i < length (an_buf a)" using arg_cong [OF b(1), of length] b(2) i by simp
    then have "wr (an_buf a) i v = Some ((an_buf a)[i := v])" by (simp add: wr_def)
    also have "(an_buf a)[i := v] = ?b" by (subst b(1)) (use i b(2) in \<open>simp add: list_update_append\<close>)
    finally show ?thesis .
  qed
  with content_new_hdr [OF c, of "f[i := v]"] b(2) r show ?thesis by (intro conjI exI [of _ ?b]) simp_all
qed

definition flags_rcode :: "nat \<Rightarrow> byte list \<Rightarrow> byte list" where
  "flags_rcode rc f = f[3 := (f ! 3 AND 0xf0) OR take_bit 4 (of_nat rc)]"

definition flags_aa :: "byte list \<Rightarrow> byte list" where
  "flags_aa f = f[2 := f ! 2 OR push_bit 2 1]"

lemma set_rcode_step:
  assumes "content f qs R g a"
  shows "\<exists>b. set_rcode rc a = Some (a\<lparr>an_buf := b\<rparr>) \<and> content (flags_rcode rc f) qs R g (a\<lparr>an_buf := b\<rparr>)"
  using set_flags_step [OF assms, of 3 "(f ! 3 AND 0xf0) OR take_bit 4 (of_nat rc)"]
  unfolding set_rcode_def flags_rcode_def by auto

lemma set_aa_step:
  assumes "content f qs R g a"
  shows "\<exists>b. set_aa a = Some (a\<lparr>an_buf := b\<rparr>) \<and> content (flags_aa f) qs R g (a\<lparr>an_buf := b\<rparr>)"
  using set_flags_step [OF assms, of 2 "f ! 2 OR push_bit 2 1"]
  unfolding set_aa_def flags_aa_def by auto

text \<open>The four bytes behind the name of a question.\<close>

lemma put_type_class_step:
  assumes "built F g a" "4 \<le> room a"
  shows "\<exists>b p. putint16 t (an_buf a) (an_sz a) = Some (b, p) \<and> (\<exists>b' p'. putint16 c b p = Some (b', p') \<and>
     wrote F g a [Lit (u16_bytes t @ u16_bytes c)] 4 g (a\<lparr>an_buf := b', an_sz := an_sz a + 4\<rparr>))"
proof -
  let ?bs = "u16_bytes t @ u16_bytes c"
  have le: "an_sz a + 4 \<le> length (an_buf a)" using assms unfolding built_def room_def by auto
  have 1: "putint16 t (an_buf a) (an_sz a) = Some (patch (an_buf a) (an_sz a) (u16_bytes t), an_sz a + 2)"
    using le by (intro putint16_patch) simp
  have 2: "putint16 c (patch (an_buf a) (an_sz a) (u16_bytes t)) (an_sz a + 2) = Some (patch (an_buf a) (an_sz a) ?bs, an_sz a + 2 + 2)"
    using le by (subst putint16_patch) (simp_all add: patch_more)
  let ?a = "a\<lparr>an_buf := patch (an_buf a) (an_sz a) ?bs, an_sz := an_sz a + 4\<rparr>"
  have "grown a ?a ?bs" by (rule grownI) (use le in \<open>simp_all add: patch_def\<close>)
  moreover have "an_cb ?a = cb_of g" using assms by (simp add: built_def)
  ultimately have "wrote F g a [Lit ?bs] (length ?bs) g ?a"
    using assms by (intro wroteI) (auto intro: cb_inv_append_msg simp: min_absorb2)
  with 1 2 show ?thesis by auto
qed

lemma question_at:
  assumes "parts_at m off [Nm nm, Lit (u16_bytes t @ u16_bytes c)] n" "off + n \<le> length m"
  shows "q_at m off \<lparr>q_name = nm, q_type = t, q_class = c\<rparr> n"
proof -
  from assms(1) obtain k where k: "k \<le> n" "reads_at k (Suc (length nm)) m off nm" "n - k = 4"
    "take 4 (drop (off + k) m) = u16_bytes t @ u16_bytes c" by auto
  then show ?thesis using assms(2) unfolding q_at_def by (intro exI [of _ k]) simp
qed

lemma body_question:
  assumes "body_at m qs []" "q_at (m @ x) (length m) q (length x)"
  shows "body_at (m @ x) (qs @ [q]) []"
proof -
  from assms(1) obtain n where b: "seq_at q_at m sizeof_dns_hdr qs n" "sizeof_dns_hdr + n = length m" unfolding body_at_def by auto
  have "seq_at q_at (m @ x) sizeof_dns_hdr qs n" using b(1) by (rule seq_at_longer [where P = q_at, rotated]) (rule q_at_append)
  with assms(2) b(2) have "seq_at q_at (m @ x) sizeof_dns_hdr (qs @ [q]) (n + length x)" by (intro seq_at_snoc) simp_all
  then show ?thesis unfolding body_at_def using b(2) by (intro exI [of _ "n + length x"] exI [of _ 0]) simp
qed

lemma content_extends:
  assumes "content f qs R g a" "extends a a2" "length (an_buf a2) + dnsmsghdroffset = an_allocsz a2"
  shows "content f qs R g a2"
proof -
  obtain x where x: "an_buf a2 = an_buf a @ x" "an_sz a2 = an_sz a" using assms(2) by (auto simp: extends_def)
  have "sizeof_dns_hdr \<le> an_sz a" "an_sz a \<le> length (an_buf a)" using assms(1) by (auto simp: content_def built_def)
  then have "take (an_sz a) (an_buf a2) = take (an_sz a) (an_buf a)" "take sizeof_dns_hdr (an_buf a2) = take sizeof_dns_hdr (an_buf a)"
    using x by simp_all
  with assms x extends_built [OF assms(2) _ assms(3)] show ?thesis unfolding content_def by auto
qed

lemma count_question:
  assumes c: "content f qs R g a" and R: "all_rrs R = []"
    and w: "wrote {sizeof_dns_hdr..} g a [Nm nm, Lit (u16_bytes t @ u16_bytes cl)] n g' a'"
  defines "q \<equiv> \<lparr>q_name = nm, q_type = t, q_class = cl\<rparr>"
  shows "\<exists>b. inc_count 4 a' = Some (a'\<lparr>an_buf := b\<rparr>) \<and> content f (qs @ [q]) R g' (a'\<lparr>an_buf := b\<rparr>)"
proof -
  let ?H = "{sizeof_dns_hdr..}"
  have f: "length f = 4" and hd: "take sizeof_dns_hdr (an_buf a) = f @ counts qs R" and h: "sizeof_dns_hdr \<le> an_sz a"
    and bd: "\<And>m. agree ?H m (take (an_sz a) (an_buf a)) \<Longrightarrow> body_at m qs []" and le: "an_sz a \<le> length (an_buf a)"
    using c R by (auto simp: content_def built_def)
  obtain bs where g: "grown a a' bs" "n = length bs" using w unfolding wrote_def by blast
  have tk: "take (an_sz a') (an_buf a') = take (an_sz a) (an_buf a) @ bs" by (rule grown_take [OF g(1)])
  have sz: "an_sz a' = an_sz a + n" "an_sz a' \<le> length (an_buf a')" using g by (auto simp: grown_def)
  have b': "built ?H g' a'" using wroteD(1) [OF w] h by (simp add: fixed_hdr)
  have pa: "parts_at m (an_sz a) [Nm nm, Lit (u16_bytes t @ u16_bytes cl)] n" if "agree ?H m (take (an_sz a') (an_buf a'))" for m
    using w h that unfolding wrote_def by (simp only: fixed_hdr)
  have hd': "take sizeof_dns_hdr (an_buf a') = f @ counts qs R"
  proof -
    have "take sizeof_dns_hdr (an_buf a') = take sizeof_dns_hdr (take (an_sz a') (an_buf a'))" using h sz by (simp add: min_def)
    then show ?thesis unfolding tk using h le hd by (simp add: min_def)
  qed
  let ?n = "f @ counts (qs @ [q]) R"
  let ?c = "?n @ drop sizeof_dns_hdr (an_buf a')"
  have ln: "length ?n = sizeof_dns_hdr" using f by (simp add: sizeof_dns_hdr_def)
  have ic: "inc_count 4 a' = Some (a'\<lparr>an_buf := ?c\<rparr>)"
    using inc_count_step [of a' f "of_nat (length qs)" "u16_bytes (of_nat (length (R S_ANSWER))) @
      u16_bytes (of_nat (length (R S_AUTHORITY))) @ u16_bytes (of_nat (length (R S_ADDITIONAL)))" 4] hd' f
    by (simp add: counts_def add.commute)
  have lc: "length ?c = length (an_buf a')" using ln h sz by simp
  have s': "sizeof_dns_hdr \<le> an_sz a'" using h sz by simp
  have main: "cb_inv m [] g' \<and> body_at m (qs @ [q]) []" if m: "agree ?H m (take (an_sz a') ?c)" for m
  proof -
    have m': "agree ?H m (take (an_sz a') (an_buf a'))" using m unfolding agree_hdr [OF ln s' sz(2)] .
    have ml: "length m = an_sz a'" using m' sz(2) by (simp add: agree_take)
    from agree_prefix [of ?H m "take (an_sz a) (an_buf a)" bs] m' le have "agree ?H (take (an_sz a) m) (take (an_sz a) (an_buf a))"
      unfolding tk by (simp add: min_absorb2)
    then have "body_at (take (an_sz a) m) qs []" by (rule bd)
    moreover have "q_at m (an_sz a) q n" unfolding q_def using question_at [OF pa [OF m']] ml sz by simp
    ultimately have "body_at m (qs @ [q]) []" using body_question [of "take (an_sz a) m" qs "drop (an_sz a) m" q] ml sz by simp
    with b' m' show ?thesis unfolding built_def by blast
  qed
  have "built ?H g' (a'\<lparr>an_buf := ?c\<rparr>)" using main b' lc unfolding built_def by auto
  with main f s' ln R have "content f (qs @ [q]) R g' (a'\<lparr>an_buf := ?c\<rparr>)" unfolding content_def by auto
  with ic show ?thesis by blast
qed

definition asked :: "dns_queryel \<Rightarrow> question \<Rightarrow> bool" where
  "asked qe q \<longleftrightarrow> wf_name (q_name q) \<and> (\<exists>x. qe_query qe = wire (q_name q) @ x) \<and> q_type q = qe_qtype qe \<and> q_class q = qe_qclass qe"

lemma add_question_step:
  assumes c: "content f qs R g a" and R: "all_rrs R = []" and qe: "asked qe q"
  shows "\<exists>ok a'. add_question qe a = Some (ok, a') \<and> (an_mem a = [] \<longrightarrow> ok \<and> an_mem a' = []) \<and>
    (ok \<longrightarrow> (\<exists>g'. content f (qs @ [q]) R g' a'))"
proof -
  obtain x where q: "wf_name (q_name q)" "qe_query qe = wire (q_name q) @ x" "q_type q = qe_qtype qe" "q_class q = qe_qclass qe"
    using qe by (auto simp: asked_def)
  let ?nm = "q_name q"
  have rl: "rhnlen (qe_query qe) = Some (length (wire ?nm))" using wf_rhnlen [OF q(1)] q(2) by simp
  have al: "length (an_buf a) + dnsmsghdroffset = an_allocsz a" using c by (simp add: content_def built_def)
  let ?sz = "dnsmsghdroffset + an_sz a + length (wire ?nm) + 4"
  obtain ok a2 where 2: "answer_room ?sz a = (ok, a2)" "extends a a2" "length (an_buf a2) + dnsmsghdroffset = an_allocsz a2"
      "an_mem a = [] \<longrightarrow> ok" "ok \<longrightarrow> ?sz \<le> an_allocsz a2" using answer_room_step [OF al, of ?sz] by blast
  have e: "an_sz a2 = an_sz a" "an_mem a = [] \<longrightarrow> an_mem a2 = []" using 2(2) by (auto simp: extends_def)
  show ?thesis
  proof (cases ok)
    case False
    with 2 rl show ?thesis by (intro exI [of _ False] exI [of _ a2]) (simp add: add_question_def)
  next
    case True
    have c2: "content f qs R g a2" by (rule content_extends [OF c 2(2,3)])
    then have b2: "built {sizeof_dns_hdr..} g a2" and h: "sizeof_dns_hdr \<le> an_sz a2" by (simp_all add: content_def)
    have rm: "length (wire ?nm) + 4 \<le> room a2" using True 2(3,5) e by (simp add: room_def)
    have step: "add_question qe a = do {
       (qclen, a) \<leftarrow> put_name (qe_query qe) a2;
       if qclen = 0 then Some (False, a)
       else do {
         (b, p) \<leftarrow> putint16 (qe_qtype qe) (an_buf a) (an_sz a);
         (b, p) \<leftarrow> putint16 (qe_qclass qe) b p;
         a \<leftarrow> inc_count 4 (a\<lparr>an_buf := b, an_sz := an_sz a + 4\<rparr>);
         Some (True, a) } }"
      using rl 2(1) True by (simp add: add_question_def)
    have rm2: "length (wire ?nm) \<le> room a2" using rm by simp
    show ?thesis
    proof (rule put_nameE [OF b2 q(1) rm2 q(2)])
      fix a3 assume "put_name (qe_query qe) a2 = Some (0, a3)" "an_mem a2 \<noteq> []"
      with step e(2) show ?thesis by (intro exI [of _ False] exI [of _ a3]) auto
    next
      fix n a3 g' assume p: "put_name (qe_query qe) a2 = Some (n, a3)" "n > 0" and w: "wrote {sizeof_dns_hdr..} g a2 [Nm ?nm] n g' a3"
      note d = wroteD [OF w]
      have b3: "built {sizeof_dns_hdr..} g' a3" using d(1) h by (simp add: fixed_hdr)
      have "4 \<le> room a3" using d(3,6) rm by simp
      from put_type_class_step [OF b3 this, of "qe_qtype qe" "qe_qclass qe"] obtain b p b' p' where
        4: "putint16 (qe_qtype qe) (an_buf a3) (an_sz a3) = Some (b, p)" "putint16 (qe_qclass qe) b p = Some (b', p')"
          "wrote {sizeof_dns_hdr..} g' a3 [Lit (u16_bytes (qe_qtype qe) @ u16_bytes (qe_qclass qe))] 4 g' (a3\<lparr>an_buf := b', an_sz := an_sz a3 + 4\<rparr>)"
        by blast
      let ?a4 = "a3\<lparr>an_buf := b', an_sz := an_sz a3 + 4\<rparr>"
      have "wrote {sizeof_dns_hdr..} g a2 [Nm ?nm, Lit (u16_bytes (qe_qtype qe) @ u16_bytes (qe_qclass qe))] (n + 4) g' ?a4"
        using wrote_trans [OF w, of "[Lit (u16_bytes (qe_qtype qe) @ u16_bytes (qe_qclass qe))]" 4 g' ?a4] 4(3) h
        by (simp only: fixed_hdr append_Cons append_Nil)
      from count_question [OF c2 R this] obtain b5 where
        5: "inc_count 4 ?a4 = Some (?a4\<lparr>an_buf := b5\<rparr>)"
          "content f (qs @ [\<lparr>q_name = ?nm, q_type = qe_qtype qe, q_class = qe_qclass qe\<rparr>]) R g' (?a4\<lparr>an_buf := b5\<rparr>)" by blast
      have "\<lparr>q_name = ?nm, q_type = qe_qtype qe, q_class = qe_qclass qe\<rparr> = q" using q(3,4) by (cases q) simp
      with 5 step p 4(1,2) d(8) e(2) show ?thesis
        by (intro exI [of _ True] exI [of _ "?a4\<lparr>an_buf := b5\<rparr>"]) auto
    qed
  qed
qed

lemma add_questions_step:
  assumes "content f qs R g a" "all_rrs R = []" "list_all2 asked ql qs'"
  shows "\<exists>ok a'. add_questions ql a = Some (ok, a') \<and> (an_mem a = [] \<longrightarrow> ok \<and> an_mem a' = []) \<and>
    (ok \<longrightarrow> (\<exists>g'. content f (qs @ qs') R g' a'))"
  using assms
proof (induction ql arbitrary: qs qs' g a)
  case Nil
  then show ?case by auto
next
  case (Cons qe ql)
  from Cons.prems(3) obtain q qs'' where q: "qs' = q # qs''" "asked qe q" "list_all2 asked ql qs''"
    by (auto simp: list_all2_Cons1)
  from add_question_step [OF Cons.prems(1,2) q(2)] obtain ok a1 where
    1: "add_question qe a = Some (ok, a1)" "an_mem a = [] \<longrightarrow> ok \<and> an_mem a1 = []" "ok \<longrightarrow> (\<exists>g'. content f (qs @ [q]) R g' a1)" by blast
  show ?case
  proof (cases ok)
    case False
    with 1(1,2) show ?thesis by auto
  next
    case True
    with 1(3) obtain g1 where "content f (qs @ [q]) R g1 a1" by blast
    from Cons.IH [OF this Cons.prems(2) q(3)] show ?thesis using 1(1,2) True q(1) by auto
  qed
qed

text \<open>The flags of an answer with the given response code.\<close>

definition answer_flags :: "dns_hdr \<Rightarrow> nat \<Rightarrow> bool \<Rightarrow> byte list" where
  "answer_flags hdr rc aa = take 4 (write_hdr ((answer_hdr hdr)\<lparr>dh_rcode := rc mod 16, dh_aa := aa\<rparr>))"

lemma length_answer_flags [simp]: "length (answer_flags hdr rc aa) = 4"
  by (simp add: answer_flags_def write_hdr_def)

lemma flags_rcode_answer [simp]: "flags_rcode rc (answer_flags hdr r aa) = answer_flags hdr rc aa"
proof -
  have m: "(of_nat (n mod 16) :: byte) = take_bit 4 (of_nat n)" for n
    using of_nat_take_bit [of 4 n] by (simp add: take_bit_eq_mod)
  have c: "(240 :: byte) = push_bit 4 (mask 4)" by (simp add: mask_eq_exp_minus_1)
  have d: "(128 :: byte) = push_bit 7 1" by simp
  have b: "bit (128 :: byte) n \<Longrightarrow> n = 7" for n
    unfolding d bit_push_bit_iff bit_1_iff by auto
  have "((take_bit 4 x OR z) AND 240) OR take_bit 4 y = take_bit 4 y OR z" if "\<And>n. bit z n \<Longrightarrow> n = 7" for x y z :: byte
    unfolding c by (rule bit_word_eqI) (auto simp: bit_simps dest: that)
  from this [of 128, OF b] have "((take_bit 4 x OR 128 :: byte) AND 240) OR take_bit 4 y = take_bit 4 y OR 128" for x y .
  then show ?thesis
    by (simp add: flags_rcode_def answer_flags_def write_hdr_def answer_hdr_def bitval_def m)
qed

lemma flags_aa_answer [simp]: "flags_aa (answer_flags hdr r aa) = answer_flags hdr r True"
proof -
  have "x OR 4 OR 4 = x OR 4" "x OR 4 OR 128 OR 4 = x OR 4 OR 128" "x OR 128 OR 4 = x OR 4 OR 128" for x :: byte
    by (rule bit_word_eqI; auto simp: bit_simps)+
  then show ?thesis
    by (simp add: flags_aa_def answer_flags_def write_hdr_def answer_hdr_def bitval_def ac_simps)
qed

lemma new_answer_step:
  assumes "new_answer hdr mem junk = Some a"
  shows "content (answer_flags hdr RC_OK False) [] (\<lambda>_. []) [] a" "mem = [] \<Longrightarrow> an_mem a = []"
proof -
  have a: "an_buf a = write_hdr (answer_hdr hdr) @ map junk [sizeof_dns_hdr..<ALLOCINITIALSIZE - dnsmsghdroffset]"
    "an_sz a = sizeof_dns_hdr" "an_allocsz a = ALLOCINITIALSIZE" "an_cb a = []" "an_mem a = tl mem"
    using assms by (auto simp: new_answer_def split: list.splits bool.splits)
  have w: "write_hdr (answer_hdr hdr) = answer_flags hdr RC_OK False @ counts [] (\<lambda>_. [])"
    by (simp add: answer_flags_def write_hdr_def answer_hdr_def counts_def u16_bytes_def rc_defs)
  have l: "length (write_hdr (answer_hdr hdr)) = sizeof_dns_hdr" by (simp add: write_hdr_def sizeof_dns_hdr_def)
  have "body_at m [] (all_rrs (\<lambda>_. []))" if "agree {sizeof_dns_hdr..} m (take (an_sz a) (an_buf a))" for m
    using that l by (simp add: agree_def a body_at_def all_rrs_def)
  moreover have "built {sizeof_dns_hdr..} [] a"
    using l by (simp add: built_def a cb_of_def) (simp add: sizeof_dns_hdr_def ALLOCINITIALSIZE_def dnsmsghdroffset_def)
  ultimately show "content (answer_flags hdr RC_OK False) [] (\<lambda>_. []) [] a"
    using l w by (simp add: content_def a)
  show "mem = [] \<Longrightarrow> an_mem a = []" using a(5) by simp
qed

end
