(* ===== verification/Answer_Additional.thy ===== *)
theory Answer_Additional
  imports Answer_Sections
begin

unbundle bit_operations_syntax

section \<open>The additional section of an answer\<close>

text \<open>
  The addresses of the name servers and mail exchangers that the other sections name.
\<close>

text \<open>A step of the additional section: only records that fit are added.\<close>

definition extra_done :: "byte list \<Rightarrow> question list \<Rightarrow> (sect \<Rightarrow> msg_rr list) \<Rightarrow> ghost list \<Rightarrow> reply \<Rightarrow> nat option \<Rightarrow> reply \<Rightarrow> bool" where
  "extra_done f qs R g rp udp rp' \<longleftrightarrow> (\<exists>g' R' rs. rp_inv f qs R' g' rp' \<and> rp_le g rp g' rp' \<and> grown_by S_ADDITIONAL R rs R' \<and>
     list_all rr_ok rs \<and> (\<not> beyond udp (an_sz (rp_ans rp)) \<longrightarrow> \<not> beyond udp (an_sz (rp_ans rp'))))"

definition extra :: "byte list \<Rightarrow> question list \<Rightarrow> (sect \<Rightarrow> msg_rr list) \<Rightarrow> ghost list \<Rightarrow> reply \<Rightarrow> nat option \<Rightarrow>
    (bool \<times> reply) option \<Rightarrow> bool" where
  "extra f qs R g rp udp res \<longleftrightarrow> (\<exists>ok rp'. res = Some (ok, rp') \<and> (an_mem (rp_ans rp) = [] \<longrightarrow> ok) \<and> rp_ar rp' = rp_ar rp \<and>
     (ok \<longrightarrow> extra_done f qs R g rp udp rp'))"

lemma extra_done_refl:
  assumes "rp_inv f qs R g rp"
  shows "extra_done f qs R g rp udp rp"
  unfolding extra_done_def
  by (rule exI [of _ g], rule exI [of _ R], rule exI [of _ "[]"]) (simp add: assms)

lemma extra_refl: "rp_inv f qs R g rp \<Longrightarrow> extra f qs R g rp udp (Some (True, rp))"
  unfolding extra_def by (intro exI [of _ True] exI [of _ rp]) (simp add: extra_done_refl)

lemma extra_doneE:
  assumes "extra_done f qs R g rp udp rp'"
  obtains g' R' where "rp_inv f qs R' g' rp'" "rp_le g rp g' rp'"
    "\<And>rp''. extra_done f qs R' g' rp' udp rp'' \<Longrightarrow> extra_done f qs R g rp udp rp''"
proof -
  from assms obtain g' R' rs where 1: "rp_inv f qs R' g' rp'" "rp_le g rp g' rp'" "grown_by S_ADDITIONAL R rs R'"
     "list_all rr_ok rs" "\<not> beyond udp (an_sz (rp_ans rp)) \<longrightarrow> \<not> beyond udp (an_sz (rp_ans rp'))" unfolding extra_done_def by blast
  have "extra_done f qs R g rp udp rp''" if d: "extra_done f qs R' g' rp' udp rp''" for rp''
  proof -
    from d obtain g2 R2 rs2 where 2: "rp_inv f qs R2 g2 rp''" "rp_le g' rp' g2 rp''" "grown_by S_ADDITIONAL R' rs2 R2"
     "list_all rr_ok rs2" "\<not> beyond udp (an_sz (rp_ans rp')) \<longrightarrow> \<not> beyond udp (an_sz (rp_ans rp''))" unfolding extra_done_def by blast
    have "list_all rr_ok (rs @ rs2)" using 1(4) 2(4) by simp
    with rp_le_trans [OF 1(2) 2(2)] grown_by_trans [OF 1(3) 2(3)] 1(5) 2(1,5) show ?thesis unfolding extra_done_def by blast
  qed
  with 1(1,2) that show thesis by blast
qed

text \<open>One step after another; the second is reached only if the first succeeds.\<close>

lemma extra_then:
  assumes "extra f qs R g rp udp res"
    and "\<And>rp1 g1 R1. res = Some (True, rp1) \<Longrightarrow> rp_inv f qs R1 g1 rp1 \<Longrightarrow> rp_le g rp g1 rp1 \<Longrightarrow> rp_ar rp1 = rp_ar rp \<Longrightarrow>
      extra f qs R1 g1 rp1 udp (k rp1)"
  shows "extra f qs R g rp udp (do { (ok, rp) \<leftarrow> res; if \<not> ok then Some (False, rp) else k rp })"
proof -
  from assms(1) obtain ok rp1 where 1: "res = Some (ok, rp1)" "an_mem (rp_ans rp) = [] \<longrightarrow> ok" "rp_ar rp1 = rp_ar rp"
    "ok \<longrightarrow> extra_done f qs R g rp udp rp1" unfolding extra_def by blast
  show ?thesis
  proof (cases ok)
    case False
    with 1 show ?thesis unfolding extra_def by (intro exI [of _ False] exI [of _ rp1]) simp
  next
    case True
    with 1(4) have "extra_done f qs R g rp udp rp1" by simp
    then obtain g1 R1 where d: "rp_inv f qs R1 g1 rp1" "rp_le g rp g1 rp1"
      "\<And>rp''. extra_done f qs R1 g1 rp1 udp rp'' \<Longrightarrow> extra_done f qs R g rp udp rp''" by (rule extra_doneE) blast
    from assms(2) [OF _ d(1,2) 1(3)] True 1(1) obtain ok2 rp2 where 2: "k rp1 = Some (ok2, rp2)" "an_mem (rp_ans rp1) = [] \<longrightarrow> ok2"
      "rp_ar rp2 = rp_ar rp1" "ok2 \<longrightarrow> extra_done f qs R1 g1 rp1 udp rp2" unfolding extra_def by blast
    have "an_mem (rp_ans rp) = [] \<longrightarrow> ok2" using 2(2) d(2) by (simp add: rp_le_def)
    with 1(1,3) 2 d(3) True show ?thesis unfolding extra_def by (intro exI [of _ ok2] exI [of _ rp2]) simp
  qed
qed

lemma add_additional_rrs_loop_step:
  assumes "rp_inv f qs R g rp" "wf_name nm" "tp \<in> {T_A, T_AAAA}" "\<And>b. b \<in> set bs \<Longrightarrow> data_ok tp b"
    and "in_reach g (an_sz (rp_ans rp)) nm"
  shows "extra f qs R g rp udp (add_additional_rrs_loop (wire nm @ x) tp ttl S_ADDITIONAL udp bs rp)"
  using assms
proof (induction bs arbitrary: R g rp)
  case Nil
  then show ?case by (simp add: extra_refl)
next
  case (Cons b bs)
  from Cons.prems(4) [of b] obtain ps where ps: "rdata_ok tp b ps" "length b < 65536" by (auto simp: data_ok_def)
  have "\<forall>ls. Nm ls \<notin> set ps" using ps(1) Cons.prems(3) by (auto simp: rdata_ok_def rdata_shape_def)
  then have lim: "S_ADDITIONAL = S_ADDITIONAL \<longrightarrow> in_reach g (an_sz (rp_ans rp)) nm \<and> (\<forall>ls. Nm ls \<notin> set ps) \<and> tp \<noteq> T_NS"
    using Cons.prems(3,5) by auto
  have l: "last_sect S_ADDITIONAL R" by (simp add: last_sect_def)
  from add_additional_rr_step [where x = x and ttl = ttl and y = "[]" and udp = udp, unfolded append_Nil2, OF Cons.prems(1,2) ps l lim]
  have "extra f qs R g rp udp (add_additional_rr (wire nm @ x) tp ttl (length b) b S_ADDITIONAL udp rp)"
  proof (elim exE conjE)
    fix ok rp' assume h: "add_additional_rr (wire nm @ x) tp ttl (length b) b S_ADDITIONAL udp rp = Some (ok, rp')"
      "an_mem (rp_ans rp) = [] \<longrightarrow> ok" "rp_ar rp' = rp_ar rp"
      "ok \<longrightarrow> (\<exists>g' R' rs. rp_inv f qs R' g' rp' \<and> rp_le g rp g' rp' \<and> grown_by S_ADDITIONAL R rs R' \<and> set rs \<subseteq> {rr_of nm tp ttl ps} \<and>
       (tp = T_NS \<longrightarrow> (\<forall>l. b = wire l \<and> wf_name l \<longrightarrow> in_reach g' (an_sz (rp_ans rp')) l)) \<and>
       (S_ADDITIONAL = S_ADDITIONAL \<and> \<not> beyond udp (an_sz (rp_ans rp)) \<longrightarrow> \<not> beyond udp (an_sz (rp_ans rp'))))"
    have "list_all rr_ok rs" if "set rs \<subseteq> {rr_of nm tp ttl ps}" for rs
      using that rr_ok_of [OF Cons.prems(2) ps(1)] by (auto simp: list_all_iff)
    with h(4) have "ok \<longrightarrow> extra_done f qs R g rp udp rp'" unfolding extra_done_def by blast
    with h(1-3) show ?thesis unfolding extra_def by blast
  qed
  then show ?case unfolding add_additional_rrs_loop.simps
  proof (rule extra_then)
    fix rp1 g1 R1 assume h: "rp_inv f qs R1 g1 rp1" "rp_le g rp g1 rp1"
    have "in_reach g1 (an_sz (rp_ans rp1)) nm" using in_reach_mono [OF Cons.prems(5)] h(2) by (simp add: rp_le_def)
    with h(1) Cons.prems show "extra f qs R1 g1 rp1 udp (add_additional_rrs_loop (wire nm @ x) tp ttl S_ADDITIONAL udp bs rp1)"
      by (intro Cons.IH) auto
  qed
qed

lemma extra_rnd: "extra f qs R g (rp\<lparr>rp_rnd := r\<rparr>) udp res \<longleftrightarrow> extra f qs R g rp udp res"
  by (simp add: extra_def extra_done_def)

lemma add_addresses_step:
  assumes inv: "rp_inv f qs R g rp" and wf: "wf_name nm" and ce: "cent_data_ok ce" and tp: "tp \<in> {T_A, T_AAAA}"
    and r: "in_reach g (an_sz (rp_ans rp)) nm"
  shows "extra f qs R g rp udp (add_addresses en (wire nm @ x) tp (set_of ce tp) udp rp)"
proof (cases "set_of ce tp")
  case None
  with inv show ?thesis by (simp add: add_addresses_def extra_refl)
next
  case (Some s)
  show ?thesis
  proof (cases "rs_rrs s = []")
    case True
    with Some inv show ?thesis by (simp add: add_addresses_def extra_refl)
  next
    case False
    obtain k v where o: "rnd_order (en_rnd_recs en) (rs_rrs s) rp = (rotate k (rs_rrs s), rp\<lparr>rp_rnd := v\<rparr>)"
      using rnd_order_ok [of "en_rnd_recs en" "rs_rrs s" rp] by blast
    have "extra f qs R g (rp\<lparr>rp_rnd := v\<rparr>) udp (add_additional_rrs_loop (wire nm @ x) tp
        (word_of_int (ans_ttl s (en_queryts en))) S_ADDITIONAL udp (rotate k (rs_rrs s)) (rp\<lparr>rp_rnd := v\<rparr>))"
      by (rule add_additional_rrs_loop_step [OF _ wf tp]) (use inv r cent_data_okD [OF ce Some] in simp_all)
    with Some False o show ?thesis by (simp add: add_addresses_def add_additional_rrs_def extra_rnd)
  qed
qed

lemma look_step:
  assumes en: "env_ok en" and inv: "rp_inv f qs R g rp" and wf: "wf_name nm"
  shows "\<exists>q c. look en (wire nm @ y) rp = Some (q, rp\<lparr>rp_cache := c\<rparr>) \<and> rp_inv f qs R g (rp\<lparr>rp_cache := c\<rparr>) \<and> (\<forall>e. q = Some e \<longrightarrow> entry_ok e)"
proof -
  have s: "store_ok (rp_cache rp)" "store_ok (en_others en (rp_cache rp))" using inv en by (simp_all add: rp_inv_def env_ok_def)
  from lookup_entry [where others = "en_others en" and now = "en_now en" and y = y, OF s wf] obtain q w c where
    l: "lookup_cache (en_now en) (wire nm @ y) False (en_others en) (rp_cache rp) = Some (q, w, c)" "store_ok c"
      "\<forall>e. q = Some e \<longrightarrow> entry_ok e" by blast
  moreover have "rp_inv f qs R g (rp\<lparr>rp_cache := c\<rparr>)" using inv l(2) by (simp add: rp_inv_def)
  ultimately show ?thesis by (intro exI [of _ q] exI [of _ c]) (simp add: look_def)
qed

lemma extra_cache: "extra f qs R g (rp\<lparr>rp_cache := c\<rparr>) udp res \<longleftrightarrow> extra f qs R g rp udp res"
  by (simp add: extra_def extra_done_def rp_le_def)

lemma add_additional_a_step:
  assumes en: "env_ok en" and inv: "rp_inv f qs R g rp" and wf: "wf_name nm" and r: "in_reach g (an_sz (rp_ans rp)) nm"
  shows "extra f qs R g rp udp (add_additional_a en (wire nm @ y) udp rp)"
proof -
  from look_step [OF en inv wf, of y] obtain q c where
    l: "look en (wire nm @ y) rp = Some (q, rp\<lparr>rp_cache := c\<rparr>)" "rp_inv f qs R g (rp\<lparr>rp_cache := c\<rparr>)" "\<forall>e. q = Some e \<longrightarrow> entry_ok e" by blast
  show ?thesis
  proof (cases q)
    case None
    with l(1) extra_refl [OF l(2)] show ?thesis by (simp add: add_additional_a_def extra_cache)
  next
    case (Some e)
    with l(3) have e: "entry_ok e" by simp
    note ed = entry_okD [OF e]
    let ?rp = "rp\<lparr>rp_cache := c\<rparr>"
    have eq: "add_additional_a en (wire nm @ y) udp rp = do {
        (ok, rp) \<leftarrow> add_addresses en (wire nm @ y) T_A (set_of e T_A) udp ?rp;
        if \<not> ok then Some (False, rp) else add_addresses en (wire nm @ y) T_AAAA (set_of e T_AAAA) udp rp }"
      using Some l(1) get_common [OF ed(2)] release_entry [OF e]
      by (auto simp: add_additional_a_def split: bind_split prod.splits option.splits)
    have "extra f qs R g ?rp udp (add_additional_a en (wire nm @ y) udp rp)"
      unfolding eq
    proof (rule extra_then)
      show "extra f qs R g ?rp udp (add_addresses en (wire nm @ y) T_A (set_of e T_A) udp ?rp)"
        by (rule add_addresses_step [OF l(2) wf ed(4)]) (use r in simp_all)
      fix rp1 g1 R1 assume h: "rp_inv f qs R1 g1 rp1" "rp_le g ?rp g1 rp1"
      have "in_reach g1 (an_sz (rp_ans rp1)) nm" using in_reach_mono [OF r] h(2) by (simp add: rp_le_def)
      then show "extra f qs R1 g1 rp1 udp (add_addresses en (wire nm @ y) T_AAAA (set_of e T_AAAA) udp rp1)"
        by (intro add_addresses_step [OF h(1) wf ed(4)]) simp_all
    qed
    then show ?thesis unfolding extra_cache .
  qed
qed

lemma add_server_addresses_step:
  assumes "env_ok en" "rp_inv f qs R g rp" "\<And>re. re \<in> set res \<Longrightarrow> target_ok g (an_sz (rp_ans rp)) re"
  shows "extra f qs R g rp udp (add_server_addresses en udp res rp)"
  using assms(2,3)
proof (induction res arbitrary: R g rp)
  case Nil
  then show ?case by (simp add: extra_refl)
next
  case (Cons re res)
  have "extra f qs R g rp udp (if re_tp re = T_NS \<or> re_tp re = RRETP_ADD then add_additional_a en (re_tnm re) udp rp else Some (True, rp))"
  proof (cases "re_tp re = T_NS \<or> re_tp re = RRETP_ADD")
    case True
    with Cons.prems(2) [of re] obtain l y where "wf_name l" "re_tnm re = wire l @ y" "in_reach g (an_sz (rp_ans rp)) l"
      by (auto simp: target_ok_def)
    with add_additional_a_step [OF assms(1) Cons.prems(1)] True show ?thesis by simp
  next
    case False
    then show ?thesis using extra_refl [OF Cons.prems(1)] by simp
  qed
  then show ?case unfolding add_server_addresses.simps
  proof (rule extra_then)
    fix rp1 g1 R1 assume h: "rp_inv f qs R1 g1 rp1" "rp_le g rp g1 rp1"
    show "extra f qs R1 g1 rp1 udp (add_server_addresses en udp res rp1)"
    proof (rule Cons.IH [OF h(1)])
      fix re' assume "re' \<in> set res"
      then show "target_ok g1 (an_sz (rp_ans rp1)) re'"
        using target_ok_mono [OF Cons.prems(2) [of re']] h(2) by (simp add: rp_le_def)
    qed
  qed
qed

subsection \<open>The authority and additional sections together\<close>

abbreviation (input) edns_rr :: "env \<Rightarrow> nat \<Rightarrow> msg_rr" where
  "edns_rr en rc \<equiv> opt_rr (of_nat (en_udpbufsize en)) (of_nat rc) 0 0"

lemma add_edns_step:
  assumes inv: "rp_inv f qs R g rp"
  shows "\<exists>ok rp'. add_edns en rc rp = Some (ok, rp') \<and> (an_mem (rp_ans rp) = [] \<longrightarrow> ok) \<and> rp_ar rp' = rp_ar rp \<and>
    (ok \<longrightarrow> rp_inv f qs (R(S_ADDITIONAL := R S_ADDITIONAL @ [edns_rr en rc])) g rp' \<and> rp_le g rp g rp' \<and>
      an_sz (rp_ans rp') = an_sz (rp_ans rp) + sizeof_opt_pseudo_rr)"
proof -
  have c: "content f qs R g (rp_ans rp)" using inv by (simp add: rp_inv_def)
  from add_opt_step [OF c, of "of_nat (en_udpbufsize en)" "of_nat rc" 0 0] obtain ok a' where
    a: "add_opt_pseudo_rr (of_nat (en_udpbufsize en)) (of_nat rc) 0 0 (rp_ans rp) = Some (ok, a')" "an_mem (rp_ans rp) = [] \<longrightarrow> ok \<and> an_mem a' = []"
      "ok \<longrightarrow> content f qs (R(S_ADDITIONAL := R S_ADDITIONAL @ [edns_rr en rc])) g a' \<and> an_sz a' = an_sz (rp_ans rp) + 11" by blast
  have "ok \<longrightarrow> rp_inv f qs (R(S_ADDITIONAL := R S_ADDITIONAL @ [edns_rr en rc])) g (rp\<lparr>rp_ans := a'\<rparr>)"
    using a(3) rp_inv_msg [OF inv _ knows_more_refl] by simp
  with a show ?thesis
    by (intro exI [of _ ok] exI [of _ "rp\<lparr>rp_ans := a'\<rparr>"]) (auto simp: add_edns_def on_ans_def rp_le_def size_defs)
qed

text \<open>
  What the sections after the answer section hold: authority records and, if there was room, the
  OPT record and addresses.
\<close>

definition closing :: "env \<Rightarrow> bool \<Rightarrow> nat option \<Rightarrow> (sect \<Rightarrow> msg_rr list) \<Rightarrow> (sect \<Rightarrow> msg_rr list) \<Rightarrow> nat \<Rightarrow> bool" where
  "closing en edns udp R R' sz \<longleftrightarrow> R' S_ANSWER = R S_ANSWER \<and> list_all rr_ok (R' S_AUTHORITY) \<and>
     (R' S_ADDITIONAL = [] \<and> beyond udp (sz + sizeof_opt_pseudo_rr) \<or>
      (\<exists>rs. R' S_ADDITIONAL = (if edns then edns_rr en RC_OK # rs else rs) \<and> list_all rr_ok rs) \<and> \<not> beyond udp sz)"

lemma closingI_full: "beyond udp (sz + sizeof_opt_pseudo_rr) \<Longrightarrow> R S_ADDITIONAL = [] \<Longrightarrow> grown_by S_AUTHORITY R rs R' \<Longrightarrow>
    list_all rr_ok (R S_AUTHORITY) \<Longrightarrow> list_all rr_ok rs \<Longrightarrow> closing en edns udp R R' sz"
  by (simp add: closing_def grown_by_def)

lemma closingI_room:
  assumes "grown_by S_AUTHORITY R rs R1" "R2 = (if edns then R1(S_ADDITIONAL := R1 S_ADDITIONAL @ [edns_rr en RC_OK]) else R1)"
    "grown_by S_ADDITIONAL R2 rs' R3" "R S_ADDITIONAL = []" "list_all rr_ok (R S_AUTHORITY)" "list_all rr_ok rs" "list_all rr_ok rs'"
    "\<not> beyond udp sz"
  shows "closing en edns udp R R3 sz"
  using assms by (auto simp: closing_def grown_by_def)

lemma beyond_le: "\<not> beyond udp n \<Longrightarrow> m \<le> n \<Longrightarrow> \<not> beyond udp m"
  by (auto simp: beyond_def split: option.splits)

lemma add_sections_step:
  assumes en: "env_ok en" and inv: "rp_inv f qs R g rp" and R: "R S_ADDITIONAL = []" "list_all rr_ok (R S_AUTHORITY)"
  shows "\<exists>ok rp'. add_sections en edns udp rp = Some (ok, rp') \<and> (an_mem (rp_ans rp) = [] \<longrightarrow> ok) \<and>
    (ok \<longrightarrow> (\<exists>g' R'. rp_inv f qs R' g' rp' \<and> closing en edns udp R R' (an_sz (rp_ans rp'))))"
proof -
  have l: "last_sect S_AUTHORITY R" using R by (simp add: last_sect_def)
  have ar: "\<And>re. re \<in> set (rp_ar rp) \<Longrightarrow> ar_ok g (an_sz (rp_ans rp)) re" using inv by (simp add: rp_inv_def)
  from add_authority_step [OF inv ar l, of "rp_ar rp" udp] obtain ok1 rp1 where
    1: "add_authority udp (rp_ar rp) rp = Some (ok1, rp1)" "an_mem (rp_ans rp) = [] \<longrightarrow> ok1" "rp_ar rp1 = rp_ar rp"
      "ok1 \<longrightarrow> (\<exists>g' R' rs. rp_inv f qs R' g' rp1 \<and> rp_le g rp g' rp1 \<and> grown_by S_AUTHORITY R rs R' \<and> list_all rr_ok rs \<and>
       (\<forall>re \<in> set (rp_ar rp). target_ok g' (an_sz (rp_ans rp1)) re))" by blast
  show ?thesis
  proof (cases ok1)
    case False
    with 1(1,2) show ?thesis by (intro exI [of _ False] exI [of _ rp1]) (simp add: add_sections_def)
  next
    case True
    with 1(4) obtain g1 R1 rs where r1: "rp_inv f qs R1 g1 rp1" "rp_le g rp g1 rp1" "grown_by S_AUTHORITY R rs R1" "list_all rr_ok rs"
       "\<And>re. re \<in> set (rp_ar rp) \<Longrightarrow> target_ok g1 (an_sz (rp_ans rp1)) re" by blast
    have m1: "an_mem (rp_ans rp) = [] \<longrightarrow> an_mem (rp_ans rp1) = []" using r1(2) by (simp add: rp_le_def)
    show ?thesis
    proof (cases "beyond udp (an_sz (rp_ans rp1) + sizeof_opt_pseudo_rr)")
      case b: True
      have "add_sections en edns udp rp = Some (True, rp1)" using 1(1) True b by (simp add: add_sections_def)
      with r1(1) closingI_full [OF b R(1) r1(3) R(2) r1(4)] show ?thesis by blast
    next
      case nb: False
      define res2 where "res2 = (if edns then add_edns en RC_OK rp1 else Some (True, rp1))"
      let ?R2 = "if edns then R1(S_ADDITIONAL := R1 S_ADDITIONAL @ [edns_rr en RC_OK]) else R1"
      have "\<exists>ok2 rp2. res2 = Some (ok2, rp2) \<and> (an_mem (rp_ans rp1) = [] \<longrightarrow> ok2) \<and> rp_ar rp2 = rp_ar rp1 \<and>
        (ok2 \<longrightarrow> rp_inv f qs ?R2 g1 rp2 \<and> rp_le g1 rp1 g1 rp2 \<and> \<not> beyond udp (an_sz (rp_ans rp2)))"
      proof (cases edns)
        case True
        with add_edns_step [OF r1(1), of en RC_OK] nb show ?thesis unfolding res2_def by auto
      next
        case False
        with r1(1) beyond_le [OF nb] show ?thesis unfolding res2_def by auto
      qed
      then obtain ok2 rp2 where 2: "res2 = Some (ok2, rp2)" "an_mem (rp_ans rp1) = [] \<longrightarrow> ok2" "rp_ar rp2 = rp_ar rp1"
        "ok2 \<longrightarrow> rp_inv f qs ?R2 g1 rp2 \<and> rp_le g1 rp1 g1 rp2 \<and> \<not> beyond udp (an_sz (rp_ans rp2))" by blast
      have step: "add_sections en edns udp rp = (if \<not> ok2 then Some (False, rp2) else add_server_addresses en udp (rp_ar rp2) rp2)"
        using 1(1) True nb 2(1) by (simp add: add_sections_def res2_def [symmetric])
      show ?thesis
      proof (cases ok2)
        case False
        with step 2(2) m1 show ?thesis by (intro exI [of _ False] exI [of _ rp2]) simp
      next
        case ok2: True
        with 2(4) have r2: "rp_inv f qs ?R2 g1 rp2" "rp_le g1 rp1 g1 rp2" "\<not> beyond udp (an_sz (rp_ans rp2))" by simp_all
        have "target_ok g1 (an_sz (rp_ans rp2)) re" if "re \<in> set (rp_ar rp2)" for re
          using target_ok_mono [OF r1(5) [of re] knows_more_refl] that r2(2) 1(3) 2(3) by (simp add: rp_le_def)
        from add_server_addresses_step [OF en r2(1) this] obtain ok3 rp3 where
          3: "add_server_addresses en udp (rp_ar rp2) rp2 = Some (ok3, rp3)" "an_mem (rp_ans rp2) = [] \<longrightarrow> ok3"
            "ok3 \<longrightarrow> extra_done f qs ?R2 g1 rp2 udp rp3" unfolding extra_def by blast
        have m2: "an_mem (rp_ans rp) = [] \<longrightarrow> ok3" using 3(2) m1 r2(2) by (simp add: rp_le_def)
        have "\<exists>g' R'. rp_inv f qs R' g' rp3 \<and> closing en edns udp R R' (an_sz (rp_ans rp3))" if ok3
        proof -
          from 3(3) that r2(3) obtain g' R' rs' where "rp_inv f qs R' g' rp3" "grown_by S_ADDITIONAL ?R2 rs' R'" "list_all rr_ok rs'"
            "\<not> beyond udp (an_sz (rp_ans rp3))" unfolding extra_done_def by blast
          with closingI_room [OF r1(3) refl this(2) R r1(4) this(3,4)] show ?thesis by blast
        qed
        with step ok2 3(1) m2 show ?thesis by (intro exI [of _ ok3] exI [of _ rp3]) simp
      qed
    qed
  qed
qed

end
