(* ===== verification/Answer_Resolve.thy ===== *)
theory Answer_Resolve
  imports Answer_Questions Answer_Additional
begin

unbundle bit_operations_syntax

section \<open>The entry for a name\<close>

text \<open>
  What \<^verbatim>\<open>compose_answer\<close> does with the result of the resolver: following a CNAME record, the SOA record
  of a negative answer, and the list of name servers for the authority section.
\<close>

subsection \<open>Names and entries\<close>

lemma wf_drop: "wf_name nm \<Longrightarrow> wf_name (drop k nm)"
  using wf_name_suffix [of "take k nm" "drop k nm"] by simp

lemma name_segs:
  assumes "wf_name nm"
  shows "rhnsegcnt (wire nm @ x) = Some (length nm)" "skipsegs (wire nm @ x) k = Some (wire (drop k nm) @ x)"
  using rhnsegcnt_wire skipsegs_wire wf_nameD [OF assms] by blast+

text \<open>\<^verbatim>\<open>getlocalowner\<close> gives the part of the name behind some of its labels, or nothing.\<close>

lemma localowner_loop_step:
  assumes "cinv c" "wf_name nm" "T_MIN \<le> tp" "tp \<le> T_MAX"
  shows "\<exists>r. localowner_loop c tp (wire nm @ x) = Some r \<and> (\<forall>n. r = Some n \<longrightarrow> (\<exists>k. n = wire (drop k nm) @ x))"
  using assms(2)
proof (induction nm)
  case Nil
  show ?case using wire_Nil_rd [of x] by (simp add: localowner_loop.simps)
next
  case (Cons l ms)
  have l: "wf_label l" and ms: "wf_name ms" using Cons.prems wf_name_tl by (auto simp: wf_name_def)
  from Cons.IH [OF ms] obtain r where r: "localowner_loop c tp (wire ms @ x) = Some r" "\<forall>n. r = Some n \<longrightarrow> (\<exists>k. n = wire (drop k ms) @ x)" by blast
  have rest: "\<forall>n. r = Some n \<longrightarrow> (\<exists>k. n = wire (drop k (l # ms)) @ x)"
  proof (intro allI impI)
    fix n assume "r = Some n"
    with r(2) obtain k where "n = wire (drop k ms) @ x" by blast
    then show "\<exists>k. n = wire (drop k (l # ms)) @ x" by (intro exI [of _ "Suc k"]) simp
  qed
  have here: "\<exists>k. wire (l # ms) @ x = wire (drop k (l # ms)) @ x" by (rule exI [of _ 0]) simp
  have nz: "(of_nat (length l) :: byte) \<noteq> 0" using wf_label_length_byte(2) [OF l] .
  from lookup_total [OF assms(1) Cons.prems, of x] obtain q loc where
    q: "cache_lookup c (wire (l # ms) @ x) = Some (q, loc)" "\<forall>a. q = Some a \<longrightarrow> (\<exists>ce. c_heap c a = Some ce)" by blast
  note step = localowner_loop.simps [of c tp "wire (l # ms) @ x", unfolded wire_step [OF l] q(1) Option.bind.bind_lunit]
  show ?case
  proof (cases q)
    case None
    with step nz r(1) rest show ?thesis by simp
  next
    case (Some a)
    with q(2) obtain ce where ce: "c_heap c a = Some ce" by blast
    have "have_rr ce tp = Some (has_type ce tp)"
      by (rule have_rr_of [OF baseD(2) [OF cinvD(1) [OF assms(1)] ce] assms(3,4)])
    with step Some ce nz r(1) rest here show ?thesis by (cases "fset (ce_flags ce) DF_LOCAL"; cases "has_type ce tp") simp_all
  qed
qed

lemma getlocalowner_step:
  assumes "cinv c" "wf_name nm" "T_MIN \<le> tp" "tp \<le> T_MAX"
  shows "\<exists>r. getlocalowner (wire nm @ x) tp c = Some r \<and> (\<forall>n. r = Some n \<longrightarrow> (\<exists>k. n = wire (drop k nm) @ x))"
proof (cases nm)
  case Nil
  then show ?thesis using wire_Nil_rd [of x] by (simp add: getlocalowner_def)
next
  case (Cons l ms)
  have l: "wf_label l" and ms: "wf_name ms" using assms(2) Cons wf_name_tl by (auto simp: wf_name_def)
  have nz: "(of_nat (length l) :: byte) \<noteq> 0" using wf_label_length_byte(2) [OF l] .
  from localowner_loop_step [OF assms(1) ms assms(3,4), of x] obtain r where
    r: "localowner_loop c tp (wire ms @ x) = Some r" "\<forall>n. r = Some n \<longrightarrow> (\<exists>k. n = wire (drop k ms) @ x)" by blast
  have "\<forall>n. r = Some n \<longrightarrow> (\<exists>k. n = wire (drop k nm) @ x)"
  proof (intro allI impI)
    fix n assume "r = Some n"
    with r(2) obtain k where "n = wire (drop k ms) @ x" by blast
    then show "\<exists>k. n = wire (drop k nm) @ x" using Cons by (intro exI [of _ "Suc k"]) simp
  qed
  moreover have "getlocalowner (wire nm @ x) tp c = Some r"
    unfolding getlocalowner_def Cons wire_step(1) [OF l] Option.bind.bind_lunit wire_step(2) [OF l] using nz r(1)
    by (simp only: if_False)
  ultimately show ?thesis by blast
qed

text \<open>The name in the buffer after a CNAME record was followed.\<close>

definition cname_of :: "dns_cent \<Rightarrow> label list \<Rightarrow> bool" where
  "cname_of ce l \<longleftrightarrow> wf_name l \<and> (\<exists>s rrs. set_of ce T_CNAME = Some s \<and> rs_rrs s = wire l # rrs)"

lemma follow_cname_chain_step:
  assumes e: "entry_ok ce" and b: "length buf = DNSNAMEBUFSIZE"
  shows "\<exists>fl buf'. follow_cname_chain ce buf = Some (fl, buf') \<and> length buf' = DNSNAMEBUFSIZE \<and>
    (if fl then \<exists>l x. cname_of ce l \<and> buf' = wire l @ x else \<forall>l. \<not> cname_of ce l)"
proof -
  note ed = entry_okD [OF e]
  show ?thesis
  proof (cases "set_of ce T_CNAME")
    case None
    then have "follow_cname_chain ce buf = Some (False, buf)" using get_common(4) [OF ed(2)] by (simp add: follow_cname_chain_def)
    moreover have "\<forall>l. \<not> cname_of ce l" using None by (simp add: cname_of_def)
    ultimately show ?thesis using b by (intro exI [of _ False] exI [of _ buf]) simp
  next
    case (Some rs)
    show ?thesis
    proof (cases "rs_rrs rs")
      case Nil
      then have "follow_cname_chain ce buf = Some (False, buf)" using get_common(4) [OF ed(2)] Some by (simp add: follow_cname_chain_def)
      moreover have "\<forall>l. \<not> cname_of ce l" using Some Nil by (simp add: cname_of_def)
      ultimately show ?thesis using b by (intro exI [of _ False] exI [of _ buf]) simp
    next
      case (Cons rr rrs)
      then have "data_ok T_CNAME rr" using cent_data_okD [OF ed(4) Some, of rr] by simp
      then obtain l where l: "wf_name l" "rr = wire l" by (auto simp: data_ok_def rdata_ok_def rdata_shape_def)
      have ll: "length (wire l) \<le> DNSNAMEBUFSIZE" using l(1) by (simp add: wf_name_def)
      have "follow_cname_chain ce buf = Some (True, wire l @ drop (length (wire l)) buf)"
        using get_common(4) [OF ed(2)] Some Cons l(2) ll b by (simp add: follow_cname_chain_def memcpy_at_def)
      moreover have "cname_of ce l" using l Some Cons by (simp add: cname_of_def)
      ultimately show ?thesis using ll b by (intro exI [of _ True] exI [of _ "wire l @ drop (length (wire l)) buf"]) auto
    qed
  qed
qed

lemma name_buffer_step:
  assumes "wf_name nm"
  shows "\<exists>x. name_buffer (wire nm @ y) = Some (wire nm @ x) \<and> length (wire nm @ x) = DNSNAMEBUFSIZE"
proof -
  have l: "length (wire nm) \<le> DNSNAMEBUFSIZE" using assms by (simp add: wf_name_def)
  let ?x = "drop (length (wire nm)) (replicate DNSNAMEBUFSIZE (0 :: byte))"
  have "name_buffer (wire nm @ y) = Some (wire nm @ ?x)"
    using l wf_rhnlen [OF assms, of y] by (simp add: name_buffer_def rhncpy_def memcpy_at_def)
  with l show ?thesis by (intro exI [of _ ?x]) simp
qed

subsection \<open>The resolver failed\<close>

lemma add_soa_loop_step:
  assumes "rp_inv f qs R g rp" "wf_name nm" "ce_qname ce = wire nm" "\<And>b. b \<in> set bs \<Longrightarrow> data_ok T_SOA b" "last_sect S_AUTHORITY R"
  shows "added S_AUTHORITY f qs R g rp (list_all rr_ok) (add_soa_loop en ce rs udp bs rp)"
  using assms(1,4,5)
proof (induction bs arbitrary: R g rp)
  case Nil
  from addedI_ok [OF Nil(1) rp_le_refl, of S_AUTHORITY R "[]"] show ?case by simp
next
  case (Cons b bs)
  let ?ttl = "word_of_int (ans_ttl rs (en_queryts en)) :: u32"
  from Cons.prems(2) [of b] obtain ps where b: "rdata_ok T_SOA b ps" "length b < 65536" by (auto simp: data_ok_def)
  have "S_AUTHORITY = S_ADDITIONAL \<and> udp \<noteq> None \<longrightarrow> in_reach g (an_sz (rp_ans rp)) nm \<and> (\<forall>ls. Nm ls \<notin> set ps)" by simp
  from on_add_rr_step [OF Cons.prems(1) assms(2) b Cons.prems(3) this, of "[]" ?ttl "[]"] obtain ok1 rp1 where
    1: "on_ans (add_rr (wire nm) T_SOA ?ttl (length b) b S_AUTHORITY udp) rp = Some (ok1, rp1)" "an_mem (rp_ans rp) = [] \<longrightarrow> ok1"
      "ok1 \<longrightarrow> (\<exists>g' R'. rp_inv f qs R' g' rp1 \<and> rp_le g rp g' rp1 \<and> grown_by S_AUTHORITY R [rr_of nm T_SOA ?ttl ps] R')"
    unfolding grown_by_def append_Nil2 by blast
  have step: "add_soa_loop en ce rs udp (b # bs) rp = (if \<not> ok1 then Some (False, rp1) else add_soa_loop en ce rs udp bs rp1)"
    using 1(1) by (simp add: assms(3) del: wire_simps)
  show ?case
  proof (cases ok1)
    case False
    with 1(2) step show ?thesis by (simp add: addedI_fail)
  next
    case True
    with 1(3) obtain g1 R1 where r: "rp_inv f qs R1 g1 rp1" "rp_le g rp g1 rp1" "grown_by S_AUTHORITY R [rr_of nm T_SOA ?ttl ps] R1" by blast
    have "added S_AUTHORITY f qs R1 g1 rp1 (list_all rr_ok) (add_soa_loop en ce rs udp bs rp1)"
      by (rule Cons.IH [OF r(1)]) (use Cons.prems(2) last_sect_grown [OF Cons.prems(3) r(3)] in auto)
    from added_after [OF this r(2,3), of "list_all rr_ok"] step True rr_ok_of [OF assms(2) b(1)] show ?thesis by simp
  qed
qed

lemma added_refl: "rp_inv f qs R g rp \<Longrightarrow> added s f qs R g rp (list_all rr_ok) (Some (True, rp))"
  by (rule addedI_ok [where rs = "[]"]) (auto simp: grown_by_def)

lemma added_cache: "added s f qs R g (rp\<lparr>rp_cache := c\<rparr>) P res = added s f qs R g rp P res"
  by (simp add: added_def rp_le_def)

lemma name_error_soa_step:
  assumes en: "env_ok en" and inv: "rp_inv f qs R g rp" and wf: "wf_name nm" and l: "last_sect S_AUTHORITY R"
  shows "added S_AUTHORITY f qs R g rp (list_all rr_ok) (name_error_soa en (wire nm @ x) c_soa udp rp)"
proof (cases "c_soa < length nm")
  case False
  then show ?thesis using name_segs(1) [OF wf, of x] added_refl [OF inv] by (simp add: name_error_soa_def)
next
  case True
  let ?nm = "drop (length nm - c_soa) nm"
  from look_step [OF en inv wf_drop [OF wf], of "length nm - c_soa" x] obtain q c where
    k: "look en (wire ?nm @ x) rp = Some (q, rp\<lparr>rp_cache := c\<rparr>)" "rp_inv f qs R g (rp\<lparr>rp_cache := c\<rparr>)" "\<forall>e. q = Some e \<longrightarrow> entry_ok e" by blast
  let ?rp = "rp\<lparr>rp_cache := c\<rparr>"
  show ?thesis
  proof (cases q)
    case None
    then have "name_error_soa en (wire nm @ x) c_soa udp rp = Some (True, ?rp)"
      using True k(1) name_segs [OF wf, of x] by (simp add: name_error_soa_def)
    with added_refl [OF k(2)] show ?thesis by (simp add: added_cache)
  next
    case (Some e)
    with k(3) have e: "entry_ok e" by simp
    note ed = entry_okD [OF e]
    from ed(5) obtain en' where en': "wf_name en'" "ce_qname e = wire en'" by blast
    define res where "res = (case set_of e T_SOA of
                Some rs \<Rightarrow> if \<not> fset (rs_flags rs) CF_NEGATIVE then add_soa_loop en e rs udp (rs_rrs rs) ?rp else Some (True, ?rp)
              | None \<Rightarrow> Some (True, ?rp))"
    have "name_error_soa en (wire nm @ x) c_soa udp rp = do { (ok, rp) \<leftarrow> res; rp \<leftarrow> release e rp; Some (ok, rp) }"
      using True k(1) name_segs [OF wf, of x] Some get_common(2) [OF ed(2)] unfolding res_def
      by (simp add: name_error_soa_def cong: option.case_cong)
    also have "\<dots> = res" by (cases res) (auto simp: release_entry [OF e])
    finally have eq: "name_error_soa en (wire nm @ x) c_soa udp rp = res" .
    have "added S_AUTHORITY f qs R g ?rp (list_all rr_ok) res"
    proof (cases "set_of e T_SOA")
      case None
      with added_refl [OF k(2)] show ?thesis by (simp add: res_def)
    next
      case (Some rs)
      then have "added S_AUTHORITY f qs R g ?rp (list_all rr_ok) (add_soa_loop en e rs udp (rs_rrs rs) ?rp)"
        by (intro add_soa_loop_step [OF k(2) en' _ l] cent_data_okD [OF ed(4)])
      with Some added_refl [OF k(2)] show ?thesis by (simp add: res_def)
    qed
    then show ?thesis unfolding eq added_cache .
  qed
qed

text \<open>The message after the resolver returned the code \<open>rc\<close>.\<close>

definition failed_msg :: "env \<Rightarrow> byte list \<Rightarrow> question list \<Rightarrow> (sect \<Rightarrow> msg_rr list) \<Rightarrow> nat \<Rightarrow> bool \<Rightarrow> reply \<Rightarrow> bool" where
  "failed_msg en f qs R rc edns rp \<longleftrightarrow> (\<exists>g' R'. rp_inv (flags_rcode rc f) qs R' g' rp \<and> R' S_ANSWER = R S_ANSWER \<and>
     list_all rr_ok (R' S_AUTHORITY) \<and> R' S_ADDITIONAL = (if edns \<and> rc = RC_NAMEERR then [edns_rr en rc] else []) \<and>
     (rc \<noteq> RC_NAMEERR \<longrightarrow> R' S_AUTHORITY = R S_AUTHORITY))"

lemma resolve_failed_step:
  assumes en: "env_ok en" and inv: "rp_inv f qs R g rp" and wf: "wf_name nm" and R: "R S_ADDITIONAL = []" "list_all rr_ok (R S_AUTHORITY)"
  shows "\<exists>fl rp'. resolve_failed en (wire nm @ x) rc c_soa edns udp rp = Some (fl, rp') \<and>
    (fl = Cleanup rc \<and> failed_msg en f qs R rc edns rp' \<or> fl = Err_ans rc \<and> an_mem (rp_ans rp) \<noteq> [])"
proof -
  have l: "last_sect S_AUTHORITY R" using R by (simp add: last_sect_def)
  have "content f qs R g (rp_ans rp)" using inv by (simp add: rp_inv_def)
  from set_rcode_step [OF this, of rc] obtain b where
    b: "set_rcode rc (rp_ans rp) = Some ((rp_ans rp)\<lparr>an_buf := b\<rparr>)" "content (flags_rcode rc f) qs R g ((rp_ans rp)\<lparr>an_buf := b\<rparr>)" by blast
  let ?rp = "rp\<lparr>rp_ans := (rp_ans rp)\<lparr>an_buf := b\<rparr>\<rparr>" and ?f = "flags_rcode rc f"
  have i: "rp_inv ?f qs R g ?rp" using inv b(2) by (simp add: rp_inv_def)
  show ?thesis
  proof (cases "rc = RC_NAMEERR")
    case False
    with b(1) have "resolve_failed en (wire nm @ x) rc c_soa edns udp rp = Some (Cleanup rc, ?rp)" by (simp add: resolve_failed_def)
    moreover have "failed_msg en f qs R rc edns ?rp" using i R False unfolding failed_msg_def by auto
    ultimately show ?thesis by blast
  next
    case True
    define res where "res = (if c_soa \<noteq> cundef then name_error_soa en (wire nm @ x) c_soa udp ?rp else Some (True, ?rp))"
    have eq: "resolve_failed en (wire nm @ x) rc c_soa edns udp rp = do {
        (ok, rp) \<leftarrow> res;
        if \<not> ok then Some (Err_ans rc, rp)
        else do { (ok, rp) \<leftarrow> (if edns then add_edns en rc rp else Some (True, rp)); Some (if ok then Cleanup rc else Err_ans rc, rp) } }"
      by (simp only: resolve_failed_def b(1) Option.bind.bind_lunit Let_def res_def) (simp only: True simp_thms if_True)
    have "added S_AUTHORITY ?f qs R g ?rp (list_all rr_ok) res"
      using name_error_soa_step [OF en i wf l] added_refl [OF i] by (simp add: res_def)
    then show ?thesis
    proof (cases rule: addedE)
      case (fail rp1)
      with eq show ?thesis by simp
    next
      case (succ rp1 g1 R1 rs)
      have R1: "R1 S_ADDITIONAL = []" "R1 S_ANSWER = R S_ANSWER" "list_all rr_ok (R1 S_AUTHORITY)" using succ(4,5) R by (simp_all add: grown_by_def)
      have m: "an_mem (rp_ans rp) = [] \<longrightarrow> an_mem (rp_ans rp1) = []" using succ(3) by (simp add: rp_le_def)
      show ?thesis
      proof (cases edns)
        case False
        with eq succ(1) have "resolve_failed en (wire nm @ x) rc c_soa edns udp rp = Some (Cleanup rc, rp1)" by simp
        moreover have "failed_msg en f qs R rc edns rp1" using succ(2) R1 False True unfolding failed_msg_def by auto
        ultimately show ?thesis by blast
      next
        case ed: True
        from add_edns_step [OF succ(2), of en rc] obtain ok rp2 where
          2: "add_edns en rc rp1 = Some (ok, rp2)" "an_mem (rp_ans rp1) = [] \<longrightarrow> ok"
            "ok \<longrightarrow> rp_inv ?f qs (R1(S_ADDITIONAL := R1 S_ADDITIONAL @ [edns_rr en rc])) g1 rp2" by blast
        have s: "resolve_failed en (wire nm @ x) rc c_soa edns udp rp = Some (if ok then Cleanup rc else Err_ans rc, rp2)"
          using eq succ(1) ed 2(1) by simp
        have "failed_msg en f qs R rc edns rp2" if ok
        proof -
          have i2: "rp_inv ?f qs (R1(S_ADDITIONAL := R1 S_ADDITIONAL @ [edns_rr en rc])) g1 rp2" using 2(3) that by simp
          show ?thesis unfolding failed_msg_def
            by (rule exI [of _ g1], rule exI [of _ "R1(S_ADDITIONAL := R1 S_ADDITIONAL @ [edns_rr en rc])"]) (use i2 R1 ed True in simp)
        qed
        with s 2(2) m show ?thesis by (cases ok) auto
      qed
    qed
  qed
qed

subsection \<open>The list of authority records\<close>

text \<open>A step that changes the lists and the cache, not the message.\<close>

definition listed :: "byte list \<Rightarrow> question list \<Rightarrow> (sect \<Rightarrow> msg_rr list) \<Rightarrow> ghost list \<Rightarrow> reply \<Rightarrow> (bool \<times> reply) option \<Rightarrow> bool" where
  "listed f qs R g rp res \<longleftrightarrow> (\<exists>ok rp'. res = Some (ok, rp') \<and> (an_mem (rp_ans rp) = [] \<longrightarrow> ok) \<and>
     rp_inv f qs R g rp' \<and> rp_le g rp g rp')"

lemma listed_refl: "rp_inv f qs R g rp \<Longrightarrow> listed f qs R g rp (Some (True, rp))"
  by (auto simp: listed_def)

lemma listed_after: "listed f qs R g rp' res \<Longrightarrow> rp_le g rp g rp' \<Longrightarrow> listed f qs R g rp res"
  unfolding listed_def using rp_le_trans by (auto simp: rp_le_def)

lemma add_ar_loop_step:
  assumes "rp_inv f qs R g rp" "wf_name nm" "ce_qname ce = wire nm" "tp = T_NS \<or> tp = T_SOA" "\<And>b. b \<in> set bs \<Longrightarrow> data_ok tp b"
  shows "listed f qs R g rp (add_ar_loop en tp ce rs bs rp)"
  using assms(1,5)
proof (induction bs arbitrary: rp)
  case Nil
  then show ?case by (simp add: listed_refl)
next
  case (Cons b bs)
  let ?ttl = "word_of_int (ans_ttl rs (en_queryts en)) :: u32"
  have "ar_ok g (an_sz (rp_ans rp)) \<lparr>re_tp = tp, re_tsz = length b, re_ttl = ?ttl, re_tnm = b @ (if tp = T_NS \<or> tp = T_SOA then wire nm else [])\<rparr>"
    using assms(2,4) Cons.prems(2) [of b] unfolding ar_ok_def by (intro disjI2) auto
  from add_ar_step [OF Cons.prems(1) assms(2) this] obtain ok rp1 where
    1: "add_ar tp (length b) b (wire nm) ?ttl rp = Some (ok, rp1)" "rp_inv f qs R g rp1" "rp_le g rp g rp1" "an_mem (rp_ans rp) = [] \<longrightarrow> ok" by blast
  have step: "add_ar_loop en tp ce rs (b # bs) rp = (if \<not> ok then Some (False, rp1) else add_ar_loop en tp ce rs bs rp1)"
    using 1(1) by (simp add: assms(3) del: wire_simps)
  show ?case
  proof (cases ok)
    case False
    with 1 step show ?thesis unfolding listed_def by (intro exI [of _ False] exI [of _ rp1]) simp
  next
    case True
    have "listed f qs R g rp1 (add_ar_loop en tp ce rs bs rp1)" by (rule Cons.IH [OF 1(2)]) (use Cons.prems(2) in simp)
    from listed_after [OF this 1(3)] step True show ?thesis by simp
  qed
qed

lemma wants_soa_total:
  assumes "cent_wf ce"
  shows "\<exists>b. wants_soa ce tp = Some b"
  using have_rr_of [OF assms] by (auto simp: wants_soa_def have_any_def)

lemma not_negative_data:
  assumes "entry_ok ce" "not_negative (set_of ce tp) = Some rs \<or> set_of ce tp = Some rs" "b \<in> set (rs_rrs rs)"
  shows "data_ok tp b"
  using assms cent_data_okD [OF entry_okD(4) [OF assms(1)], of tp rs b] by (auto simp: not_negative_def split: option.splits if_splits)

text \<open>What \<^verbatim>\<open>authority_above\<close> leaves: an entry with the RR set, if there is one.\<close>

definition holds_set :: "int \<Rightarrow> dns_cent option \<Rightarrow> rr_set option \<Rightarrow> bool" where
  "holds_set tp held rrset \<longleftrightarrow> (\<forall>ce. held = Some ce \<longrightarrow> entry_ok ce) \<and>
     (\<forall>rs. rrset = Some rs \<longrightarrow> held \<noteq> None \<and> (\<forall>b \<in> set (rs_rrs rs). data_ok tp b))"

definition held_step :: "byte list \<Rightarrow> question list \<Rightarrow> (sect \<Rightarrow> msg_rr list) \<Rightarrow> ghost list \<Rightarrow> int \<Rightarrow> reply \<Rightarrow>
    (dns_cent option \<times> rr_set option \<times> reply) option \<Rightarrow> bool" where
  "held_step f qs R g tp rp res \<longleftrightarrow> (\<exists>held rrset c. res = Some (held, rrset, rp\<lparr>rp_cache := c\<rparr>) \<and> holds_set tp held rrset \<and>
     rp_inv f qs R g (rp\<lparr>rp_cache := c\<rparr>))"

lemma held_look:
  assumes en: "env_ok en" and inv: "rp_inv f qs R g rp" and wf: "wf_name nm" and F: "F = (\<lambda>x. x) \<or> F = not_negative"
  shows "held_step f qs R g tp rp (do {
     (cached, rp) \<leftarrow> look en (wire nm @ x) rp;
     rrset \<leftarrow> (case cached of None \<Rightarrow> Some None | Some ce \<Rightarrow> do { rs \<leftarrow> getrrset ce tp; Some (F rs) });
     Some (cached, rrset, rp) })"
proof -
  from look_step [OF en inv wf, of x] obtain q c where
    l: "look en (wire nm @ x) rp = Some (q, rp\<lparr>rp_cache := c\<rparr>)" "rp_inv f qs R g (rp\<lparr>rp_cache := c\<rparr>)" "\<forall>e. q = Some e \<longrightarrow> entry_ok e" by blast
  show ?thesis
  proof (cases q)
    case None
    with l show ?thesis unfolding held_step_def by (intro exI [of _ None] exI [of _ c]) (simp add: holds_set_def)
  next
    case (Some e)
    with l(3) have e: "entry_ok e" by simp
    have "holds_set tp (Some e) (F (set_of e tp))"
      using F e not_negative_data [OF e, of tp] unfolding holds_set_def by auto
    with l Some getrrset_of [OF entry_okD(2) [OF e], of tp] show ?thesis
      unfolding held_step_def by (intro exI [of _ "Some e"] exI [of _ "F (set_of e tp)"] exI [of _ c]) simp
  qed
qed

lemma authority_above_step:
  assumes en: "env_ok en" and inv: "rp_inv f qs R g rp" and e: "entry_ok prev" and tp: "tp = T_NS \<or> tp = T_SOA"
  shows "held_step f qs R g tp rp (authority_above en tp prev rp)"
proof -
  from entry_okD(5) [OF e] obtain pn where pn: "wf_name pn" "ce_qname prev = wire pn" by blast
  let ?k = "if tp = T_NS then ce_c_ns prev else ce_c_soa prev"
  have "\<exists>k. (if ?k \<noteq> cundef \<and> ?k < length pn then skipsegs (wire pn) (length pn - ?k) else Some (wire pn)) = Some (wire (drop k pn))"
    using name_segs(2) [OF pn(1), of "[]"] by (cases "?k \<noteq> cundef \<and> ?k < length pn") (auto intro: exI [of _ 0])
  then obtain k where k: "(if ?k \<noteq> cundef \<and> ?k < length pn then skipsegs (wire pn) (length pn - ?k) else Some (wire pn)) = Some (wire (drop k pn))" ..
  from held_look [OF en inv wf_drop [OF pn(1), of k], where x = "[]" and F = not_negative and tp = tp, unfolded append_Nil2]
  obtain held rrset c where h: "do {
     (cached, rp) \<leftarrow> look en (wire (drop k pn)) rp;
     rrset \<leftarrow> (case cached of None \<Rightarrow> Some None | Some ce \<Rightarrow> do { rs \<leftarrow> getrrset ce tp; Some (not_negative rs) });
     Some (cached, rrset, rp) } = Some (held, rrset, rp\<lparr>rp_cache := c\<rparr>)" "holds_set tp held rrset" "rp_inv f qs R g (rp\<lparr>rp_cache := c\<rparr>)"
    unfolding held_step_def by blast
  let ?rp = "rp\<lparr>rp_cache := c\<rparr>"
  define res where "res = (if rrset = None \<and> fset (ce_flags prev) DF_LOCAL
        then do {
          nm \<leftarrow> getlocalowner (wire pn) tp (rp_cache ?rp);
          (case nm of
             None \<Rightarrow> Some (held, rrset, ?rp)
           | Some nm \<Rightarrow> do {
               rp \<leftarrow> (case held of None \<Rightarrow> Some ?rp | Some ce \<Rightarrow> release ce ?rp);
               (cached, rp) \<leftarrow> look en nm rp;
               rrset \<leftarrow> (case cached of None \<Rightarrow> Some None | Some ce \<Rightarrow> getrrset ce tp);
               Some (cached, rrset, rp) }) }
        else Some (held, rrset, ?rp))"
  have eq: "authority_above en tp prev rp = do { (cached, rrset, rp) \<leftarrow> res; rp \<leftarrow> release prev rp; Some (cached, rrset, rp) }"
  proof -
    obtain q rp1 where l: "look en (wire (drop k pn)) rp = Some (q, rp1)" using h(1) by (cases "look en (wire (drop k pn)) rp") auto
    have r: "(case q of None \<Rightarrow> Some None | Some ce \<Rightarrow> do { rs \<leftarrow> getrrset ce tp; Some (not_negative rs) }) = Some rrset" "q = held" "rp1 = ?rp"
      using h(1) by (cases "case q of None \<Rightarrow> Some None | Some ce \<Rightarrow> do { rs \<leftarrow> getrrset ce tp; Some (not_negative rs) }"; simp add: l)+
    show ?thesis
      unfolding authority_above_def pn(2) name_segs(1) [OF pn(1), of "[]", unfolded append_Nil2] Option.bind.bind_lunit Let_def k l prod.case
        r(2,3) r(1) [unfolded r(2)] res_def ..
  qed
  have keep: "held_step f qs R g tp rp (Some (held, rrset, ?rp))" unfolding held_step_def using h(2,3) by blast
  have "held_step f qs R g tp rp res"
  proof (cases "rrset = None \<and> fset (ce_flags prev) DF_LOCAL")
    case False
    with keep show ?thesis by (simp only: res_def if_False)
  next
    case True
    have ci: "cinv (rp_cache ?rp)" using h(3) by (simp add: rp_inv_def store_ok_def)
    from getlocalowner_step [OF ci pn(1), of tp "[]", unfolded append_Nil2] tp obtain r where
      r: "getlocalowner (wire pn) tp (rp_cache ?rp) = Some r" "\<forall>n. r = Some n \<longrightarrow> (\<exists>k. n = wire (drop k pn))" by auto
    show ?thesis
    proof (cases r)
      case None
      with True r(1) keep show ?thesis by (simp only: res_def simp_thms if_True Option.bind.bind_lunit option.case)
    next
      case (Some nm)
      with r(2) obtain j where j: "nm = wire (drop j pn)" by blast
      have rel: "(case held of None \<Rightarrow> Some ?rp | Some ce \<Rightarrow> release ce ?rp) = Some ?rp"
        using h(2) by (auto simp: holds_set_def release_entry split: option.splits)
      have bi: "m \<bind> (\<lambda>rs. Some rs) = m" for m :: "rr_set option option" by (cases m) auto
      have "res = do {
         (cached, rp) \<leftarrow> look en (wire (drop j pn)) ?rp;
         rrset \<leftarrow> (case cached of None \<Rightarrow> Some None | Some ce \<Rightarrow> do { rs \<leftarrow> getrrset ce tp; Some rs });
         Some (cached, rrset, rp) }"
        unfolding res_def r(1) Some Option.bind.bind_lunit option.case rel j bi using True by simp
      with held_look [OF en h(3) wf_drop [OF pn(1), of j], where x = "[]" and F = "\<lambda>x. x" and tp = tp, unfolded append_Nil2]
      have "held_step f qs R g tp ?rp res" by simp
      then show ?thesis unfolding held_step_def by auto
    qed
  qed
  moreover have "res \<bind> (\<lambda>(cached, rrset, rp). release prev rp \<bind> (\<lambda>rp. Some (cached, rrset, rp))) = res"
    by (cases res) (auto simp: release_entry [OF e])
  ultimately show ?thesis unfolding eq by simp
qed

lemma authority_list_step:
  assumes en: "env_ok en" and inv: "rp_inv f qs R g rp" and e: "entry_ok ce"
  shows "listed f qs R g rp (authority_list en qtype ce rp)"
proof -
  note ed = entry_okD [OF e]
  from wants_soa_total [OF ed(2), of qtype] obtain b where b: "wants_soa ce qtype = Some b" ..
  define tp where "tp = (if b then T_SOA else T_NS)"
  have tp: "tp = T_NS \<or> tp = T_SOA" by (simp add: tp_def)
  define res where "res = (if not_negative (set_of ce tp) = None then authority_above en tp ce rp else Some (Some ce, not_negative (set_of ce tp), rp))"
  have "held_step f qs R g tp rp res"
  proof (cases "not_negative (set_of ce tp)")
    case None
    with authority_above_step [OF en inv e tp] show ?thesis by (simp add: res_def)
  next
    case (Some rs)
    then have "holds_set tp (Some ce) (Some rs)" using e not_negative_data [OF e, of tp rs] by (auto simp: holds_set_def)
    with Some inv show ?thesis unfolding held_step_def res_def
      by (intro exI [of _ "Some ce"] exI [of _ "Some rs"] exI [of _ "rp_cache rp"]) simp
  qed
  then obtain held rrset c where h: "res = Some (held, rrset, rp\<lparr>rp_cache := c\<rparr>)" "holds_set tp held rrset" "rp_inv f qs R g (rp\<lparr>rp_cache := c\<rparr>)"
    unfolding held_step_def by blast
  let ?rp = "rp\<lparr>rp_cache := c\<rparr>"
  have le: "rp_le g rp g ?rp" by (simp add: rp_le_def)
  define out where "out = (case rrset of None \<Rightarrow> Some (True, ?rp) | Some rs \<Rightarrow> do { ce \<leftarrow> held; add_ar_loop en tp ce rs (rs_rrs rs) ?rp })"
  have "listed f qs R g rp out"
  proof (cases rrset)
    case None
    with listed_after [OF listed_refl [OF h(3)] le] show ?thesis by (simp add: out_def)
  next
    case (Some rs)
    with h(2) obtain ce' where c': "held = Some ce'" "entry_ok ce'" "\<And>b. b \<in> set (rs_rrs rs) \<Longrightarrow> data_ok tp b" by (auto simp: holds_set_def)
    from entry_okD(5) [OF c'(2)] obtain n where "wf_name n" "ce_qname ce' = wire n" by blast
    from listed_after [OF add_ar_loop_step [OF h(3) this tp c'(3)] le] Some c'(1) show ?thesis by (simp add: out_def)
  qed
  moreover have "authority_list en qtype ce rp = do { (ok, rp) \<leftarrow> out; rp \<leftarrow> (case held of None \<Rightarrow> Some rp | Some ce \<Rightarrow> release ce rp); Some (ok, rp) }"
    using b h(1) getrrset_of [OF ed(2), of tp] unfolding authority_list_def res_def out_def tp_def [symmetric]
    by (simp only: Option.bind.bind_lunit Let_def tp_def [symmetric] prod.case)
  moreover have "out \<bind> (\<lambda>(ok, rp). (case held of None \<Rightarrow> Some rp | Some ce \<Rightarrow> release ce rp) \<bind> (\<lambda>rp. Some (ok, rp))) = out"
    using h(2) by (cases out; cases held) (auto simp: holds_set_def release_entry)
  ultimately show ?thesis by simp
qed

end
