(* ===== verification/Answer_Reply.thy ===== *)
theory Answer_Reply
  imports Answer_Resolve
begin

unbundle bit_operations_syntax

section \<open>The whole answer\<close>

text \<open>
  The specification of the answer section (\<open>chain\<close>) and of a reply, and that \<^verbatim>\<open>compose_answer\<close> meets it.
\<close>

subsection \<open>The answer to a question\<close>

text \<open>
  The records that answer a question: the RR sets of the entry the resolver has for the name and,
  where the code follows a CNAME record, those for its target. \<open>n\<close> bounds the number of entries.
\<close>

definition follows :: "bool \<Rightarrow> int \<Rightarrow> dns_cent \<Rightarrow> label list \<Rightarrow> bool" where
  "follows rdbit qtype ce l \<longleftrightarrow> rdbit \<and> qtype \<noteq> T_CNAME \<and> qtype \<noteq> QT_ALL \<and>
     \<not> (T_MIN \<le> qtype \<and> qtype \<le> T_MAX \<and> has_type ce qtype) \<and> cname_of ce l"

definition resolved :: "env \<Rightarrow> label list \<Rightarrow> int \<Rightarrow> dns_cent \<Rightarrow> bool" where
  "resolved en nm qtype ce \<longleftrightarrow> entry_ok ce \<and> (\<exists>x c c'. en_resolve en (wire nm @ x) qtype c = (Inr ce, c'))"

inductive chain :: "env \<Rightarrow> bool \<Rightarrow> int \<Rightarrow> nat \<Rightarrow> label list \<Rightarrow> msg_rr list \<Rightarrow> bool" for en rdbit qtype where
  chain_stop: "chain en rdbit qtype 0 nm []"
| chain_last: "resolved en nm qtype ce \<Longrightarrow> sets_in_answer en nm (answer_types ce qtype) ce rs \<Longrightarrow>
    \<forall>l. \<not> follows rdbit qtype ce l \<Longrightarrow> chain en rdbit qtype (Suc n) nm rs"
| chain_cname: "resolved en nm qtype ce \<Longrightarrow> sets_in_answer en nm (answer_types ce qtype) ce rs \<Longrightarrow>
    follows rdbit qtype ce l \<Longrightarrow> chain en rdbit qtype n l rs' \<Longrightarrow> chain en rdbit qtype (Suc n) nm (rs @ rs')"

lemma sets_rr_ok:
  assumes "wf_name nm" "sets_in_answer en nm tps ce rs"
  shows "list_all rr_ok rs"
  using assms(2)
proof (induction tps arbitrary: rs)
  case (Cons tp tps)
  then obtain rs1 rs2 where r: "rs = rs1 @ rs2" "set_in_answer en nm tp ce rs1" "sets_in_answer en nm tps ce rs2" by auto
  have "rr_ok r" if "r \<in> set rs1" for r
    using that r(2) rr_ok_of [OF assms(1)] unfolding set_in_answer_def set_rrs_def
    by (auto simp: list_all2_conv_all_nth in_set_conv_nth split: option.splits)
  with Cons.IH [OF r(3)] r(1) show ?case by (auto simp: list_all_iff)
qed simp

text \<open>Only the answer section has been filled.\<close>

definition only_answers :: "(sect \<Rightarrow> msg_rr list) \<Rightarrow> bool" where
  "only_answers R \<longleftrightarrow> R S_AUTHORITY = [] \<and> R S_ADDITIONAL = [] \<and> list_all rr_ok (R S_ANSWER)"

lemma only_answers_grown: "only_answers R \<Longrightarrow> grown_by S_ANSWER R rs R' \<Longrightarrow> list_all rr_ok rs \<Longrightarrow> only_answers R'"
  by (simp add: only_answers_def grown_by_def)

lemma only_answers_last: "only_answers R \<Longrightarrow> last_sect s R"
  by (simp add: only_answers_def last_sect_def)

definition answered :: "env \<Rightarrow> byte list \<Rightarrow> question list \<Rightarrow> (sect \<Rightarrow> msg_rr list) \<Rightarrow> ghost list \<Rightarrow> bool \<Rightarrow> reply \<Rightarrow> (msg_rr list \<Rightarrow> bool) \<Rightarrow>
    (flow \<times> bool \<times> reply) option \<Rightarrow> bool" where
  "answered en f qs R g edns rp P res \<longleftrightarrow> (\<exists>fl aa rp'. res = Some (fl, aa, rp') \<and> (case fl of
       Go_on \<Rightarrow> \<exists>g' R' rs. rp_inv f qs R' g' rp' \<and> rp_le g rp g' rp' \<and> grown_by S_ANSWER R rs R' \<and> list_all rr_ok rs \<and> P rs
     | Cleanup rc \<Rightarrow> rc \<noteq> RC_OK \<and> (\<exists>R'. only_answers R' \<and> failed_msg en f qs R' rc edns rp')
     | Err_ans rc \<Rightarrow> an_mem (rp_ans rp) \<noteq> []))"

lemma answeredI_go:
  assumes "res = Some (Go_on, aa, rp')" "rp_inv f qs R' g' rp'" "rp_le g rp g' rp'" "grown_by S_ANSWER R rs R'" "list_all rr_ok rs" "P rs"
  shows "answered en f qs R g edns rp P res"
  unfolding answered_def assms(1) using assms(2-6) by (intro exI [of _ Go_on] exI [of _ aa] exI [of _ rp']) auto

lemma answeredI_err: "res = Some (Err_ans rc, aa, rp') \<Longrightarrow> an_mem (rp_ans rp) \<noteq> [] \<Longrightarrow> answered en f qs R g edns rp P res"
  unfolding answered_def by auto

lemma answeredI_cleanup:
  "res = Some (Cleanup rc, aa, rp') \<Longrightarrow> rc \<noteq> RC_OK \<Longrightarrow> only_answers R' \<Longrightarrow> failed_msg en f qs R' rc edns rp' \<Longrightarrow> answered en f qs R g edns rp P res"
  unfolding answered_def by auto

lemma answeredE:
  assumes "answered en f qs R g edns rp P res"
  obtains (go) aa rp' g' R' rs where "res = Some (Go_on, aa, rp')" "rp_inv f qs R' g' rp'" "rp_le g rp g' rp'" "grown_by S_ANSWER R rs R'"
      "list_all rr_ok rs" "P rs"
  | (cleanup) rc aa rp' R' where "res = Some (Cleanup rc, aa, rp')" "rc \<noteq> RC_OK" "only_answers R'" "failed_msg en f qs R' rc edns rp'"
  | (err) rc aa rp' where "res = Some (Err_ans rc, aa, rp')" "an_mem (rp_ans rp) \<noteq> []"
proof -
  from assms obtain fl aa rp' where r: "res = Some (fl, aa, rp')" "(case fl of
       Go_on \<Rightarrow> \<exists>g' R' rs. rp_inv f qs R' g' rp' \<and> rp_le g rp g' rp' \<and> grown_by S_ANSWER R rs R' \<and> list_all rr_ok rs \<and> P rs
     | Cleanup rc \<Rightarrow> rc \<noteq> RC_OK \<and> (\<exists>R'. only_answers R' \<and> failed_msg en f qs R' rc edns rp')
     | Err_ans rc \<Rightarrow> an_mem (rp_ans rp) \<noteq> [])" unfolding answered_def by blast
  show thesis
  proof (cases fl)
    case Go_on
    with r(2) have "\<exists>g' R' rs. rp_inv f qs R' g' rp' \<and> rp_le g rp g' rp' \<and> grown_by S_ANSWER R rs R' \<and> list_all rr_ok rs \<and> P rs" by simp
    then show thesis using go r(1) unfolding Go_on by blast
  next
    case (Cleanup rc)
    with r(2) have "rc \<noteq> RC_OK" "\<exists>R'. only_answers R' \<and> failed_msg en f qs R' rc edns rp'" by simp_all
    then show thesis using cleanup r(1) unfolding Cleanup by blast
  next
    case (Err_ans rc)
    with r err show thesis by simp
  qed
qed

text \<open>The work goes on from a later reply.\<close>

lemma answered_after:
  assumes "answered en f qs R' g' edns rp' Q res" "rp_le g rp g' rp'" "grown_by S_ANSWER R rs R'" "list_all rr_ok rs"
    "\<And>rs'. Q rs' \<Longrightarrow> P (rs @ rs')"
  shows "answered en f qs R g edns rp P res"
  using assms(1)
proof (cases rule: answeredE)
  case (go aa rp2 g2 R2 rs2)
  have "list_all rr_ok (rs @ rs2)" using assms(4) go(5) by simp
  from answeredI_go [where P = P, OF go(1,2) rp_le_trans [OF assms(2) go(3)] grown_by_trans [OF assms(3) go(4)] this assms(5) [OF go(6)]]
  show ?thesis .
next
  case cleanup
  then show ?thesis by (rule answeredI_cleanup)
next
  case err
  then show ?thesis using assms(2) by (intro answeredI_err) (auto simp: rp_le_def)
qed

lemma resolve_cases:
  assumes en: "env_ok en" and wf: "wf_name nm" and s: "store_ok c"
  obtains (failed) rc c_soa c' where "en_resolve en (wire nm @ x) tp c = (Inl (rc, c_soa), c')" "store_ok c'" "rc \<noteq> RC_OK"
  | (found) ce c' where "en_resolve en (wire nm @ x) tp c = (Inr ce, c')" "store_ok c'" "resolved en nm tp ce" "entry_ok ce"
proof -
  have k: "case en_resolve en (wire nm @ x) tp c of (Inl p, c') \<Rightarrow> fst p \<noteq> RC_OK \<and> store_ok c' | (Inr ce, c') \<Rightarrow> entry_ok ce \<and> store_ok c'"
    by (rule en [unfolded env_ok_def, THEN conjunct2, THEN spec, THEN spec, THEN spec, THEN spec, THEN mp, THEN mp, OF wf s])
  obtain r c' where r: "en_resolve en (wire nm @ x) tp c = (r, c')" by (cases "en_resolve en (wire nm @ x) tp c")
  show thesis
  proof (cases r)
    case (Inl p)
    obtain rc c_soa where p: "p = (rc, c_soa)" by (cases p)
    have "store_ok c'" "rc \<noteq> RC_OK" using k unfolding r Inl p by simp_all
    with r show thesis unfolding Inl p by (intro failed)
  next
    case (Inr ce)
    have ok: "entry_ok ce" "store_ok c'" using k unfolding r Inr by simp_all
    then have "resolved en nm tp ce" using r unfolding Inr resolved_def by blast
    then show thesis using r ok unfolding Inr by (intro found)
  qed
qed

lemma answered_cache: "answered en f qs R g edns (rp\<lparr>rp_cache := c\<rparr>) P res = answered en f qs R g edns rp P res"
proof -
  have 1: "an_mem (rp_ans (rp\<lparr>rp_cache := c\<rparr>)) = an_mem (rp_ans rp)" "rp_le g (rp\<lparr>rp_cache := c\<rparr>) g' rp' = rp_le g rp g' rp'" for g' rp'
    by (simp_all add: rp_le_def)
  show ?thesis unfolding answered_def 1 ..
qed

lemma rp_inv_cache: "rp_inv f qs R g rp \<Longrightarrow> store_ok c \<Longrightarrow> rp_inv f qs R g (rp\<lparr>rp_cache := c\<rparr>)"
  by (simp add: rp_inv_def)

text \<open>What is left to do in a round after the records were added.\<close>

definition round_end :: "env \<Rightarrow> int \<Rightarrow> bool \<Rightarrow> (byte list \<Rightarrow> reply \<Rightarrow> (flow \<times> bool \<times> reply) option) \<Rightarrow> byte list \<Rightarrow> dns_cent \<Rightarrow> bool \<Rightarrow>
    reply \<Rightarrow> (flow \<times> bool \<times> reply) option" where
  "round_end en qtype rdbit again qname cached aa rp = do {
            h \<leftarrow> have_type cached qtype;
            (follow, qname) \<leftarrow> (if rdbit \<and> qtype \<noteq> T_CNAME \<and> qtype \<noteq> QT_ALL \<and> \<not> h
                then follow_cname_chain cached qname else Some (False, qname));
            if follow
            then do { rp \<leftarrow> release cached rp; again qname rp }
            else do {
              (ok, rp) \<leftarrow> authority_list en qtype cached rp;
              Some (if ok then Go_on else Err_ans RC_OK, aa, rp) } }"

lemma answer_question_round:
  "answer_question en qtype rdbit edns udp (Suc n) qname aa rp =
     (case en_resolve en qname qtype (rp_cache rp) of
        (Inl (rc, c_soa), c) \<Rightarrow> do {
          (fl, rp) \<leftarrow> resolve_failed en qname rc c_soa edns udp (rp\<lparr>rp_cache := c\<rparr>);
          Some (fl, aa, rp) }
      | (Inr cached, c) \<Rightarrow> do {
          let aa = (aa \<and> fset (ce_flags cached) DF_LOCAL);
          (ok, rp) \<leftarrow> add_to_response en qname qtype cached udp (rp\<lparr>rp_cache := c\<rparr>);
          if \<not> ok then do { rp \<leftarrow> release cached rp; Some (Err_ans RC_OK, aa, rp) }
          else round_end en qtype rdbit (\<lambda>qname rp. answer_question en qtype rdbit edns udp n qname aa rp) qname cached aa rp })"
  unfolding round_end_def answer_question.simps Let_def ..

lemma round_end_step:
  assumes en: "env_ok en" and inv: "rp_inv f qs R g rp" and e: "entry_ok ce" and wf: "wf_name nm" and x: "length (wire nm @ x) = DNSNAMEBUFSIZE"
    and again: "\<And>l y. follows rdbit qtype ce l \<Longrightarrow> wf_name l \<Longrightarrow> length (wire l @ y) = DNSNAMEBUFSIZE \<Longrightarrow>
      answered en f qs R g edns rp (Q l) (again (wire l @ y) rp)"
    and P: "\<forall>l. \<not> follows rdbit qtype ce l \<Longrightarrow> P []" "\<And>l rs. follows rdbit qtype ce l \<Longrightarrow> Q l rs \<Longrightarrow> P rs"
  shows "answered en f qs R g edns rp P (round_end en qtype rdbit again (wire nm @ x) ce aa rp)"
proof -
  note ed = entry_okD [OF e]
  let ?c = "rdbit \<and> qtype \<noteq> T_CNAME \<and> qtype \<noteq> QT_ALL \<and> \<not> (T_MIN \<le> qtype \<and> qtype \<le> T_MAX \<and> has_type ce qtype)"
  have "\<exists>fl buf. (if ?c then follow_cname_chain ce (wire nm @ x) else Some (False, wire nm @ x)) = Some (fl, buf) \<and> length buf = DNSNAMEBUFSIZE \<and>
      (if fl then \<exists>l y. follows rdbit qtype ce l \<and> buf = wire l @ y else \<forall>l. \<not> follows rdbit qtype ce l)"
  proof (cases ?c)
    case True
    from follow_cname_chain_step [OF e x] obtain fl buf where "follow_cname_chain ce (wire nm @ x) = Some (fl, buf)" "length buf = DNSNAMEBUFSIZE"
      "if fl then \<exists>l y. cname_of ce l \<and> buf = wire l @ y else \<forall>l. \<not> cname_of ce l" by blast
    moreover have "follows rdbit qtype ce l \<longleftrightarrow> cname_of ce l" for l using True unfolding follows_def by blast
    ultimately show ?thesis using True by (intro exI [of _ fl] exI [of _ buf]) (cases fl; simp)
  next
    case False
    then have "\<not> follows rdbit qtype ce l" for l unfolding follows_def by blast
    with False x show ?thesis by (intro exI [of _ False] exI [of _ "wire nm @ x"]) auto
  qed
  then obtain fl buf where fl: "(if ?c then follow_cname_chain ce (wire nm @ x) else Some (False, wire nm @ x)) = Some (fl, buf)"
    "length buf = DNSNAMEBUFSIZE" "if fl then \<exists>l y. follows rdbit qtype ce l \<and> buf = wire l @ y else \<forall>l. \<not> follows rdbit qtype ce l" by blast
  have eq: "round_end en qtype rdbit again (wire nm @ x) ce aa rp =
      (if fl then again buf rp else do { (ok, rp) \<leftarrow> authority_list en qtype ce rp; Some (if ok then Go_on else Err_ans RC_OK, aa, rp) })"
    unfolding round_end_def have_type_of [OF ed(2)] Option.bind.bind_lunit fl(1) prod.case release_entry [OF e] ..
  show ?thesis
  proof (cases fl)
    case True
    with fl(3) obtain l y where l: "follows rdbit qtype ce l" "buf = wire l @ y" by auto
    have "wf_name l" using l(1) by (simp add: follows_def cname_of_def)
    from again [OF l(1) this] fl(2) l(2) have a: "answered en f qs R g edns rp (Q l) (again buf rp)" by simp
    show ?thesis unfolding eq using True
      by (simp add: answered_after [OF a rp_le_refl, of R "[]"] P(2) [OF l(1)])
  next
    case False
    with fl(3) have n: "\<forall>l. \<not> follows rdbit qtype ce l" by simp
    from authority_list_step [OF en inv e, of qtype] obtain ok rp' where
      a: "authority_list en qtype ce rp = Some (ok, rp')" "an_mem (rp_ans rp) = [] \<longrightarrow> ok" "rp_inv f qs R g rp'" "rp_le g rp g rp'"
      unfolding listed_def by blast
    have eq': "round_end en qtype rdbit again (wire nm @ x) ce aa rp = Some (if ok then Go_on else Err_ans RC_OK, aa, rp')"
      unfolding eq using False a(1) by simp
    show ?thesis
    proof (cases ok)
      case True
      show ?thesis by (rule answeredI_go [where rs = "[]" and R' = R]) (use eq' True a P(1) [OF n] in simp_all)
    next
      case f: False
      show ?thesis by (rule answeredI_err) (use eq' f a in auto)
    qed
  qed
qed

lemma answer_question_step:
  assumes en: "env_ok en" and tp: "answerable qtype"
    and "rp_inv f qs R g rp" "wf_name nm" "length (wire nm @ x) = DNSNAMEBUFSIZE" "only_answers R"
  shows "answered en f qs R g edns rp (chain en rdbit qtype n nm) (answer_question en qtype rdbit edns udp n (wire nm @ x) aa rp)"
  using assms(3-6)
proof (induction n arbitrary: nm x aa R g rp)
  case 0
  show ?case by (rule answeredI_go [where rs = "[]" and R' = R and rp' = rp and g' = g and aa = aa]) (use 0 in \<open>simp_all add: chain_stop\<close>)
next
  case (Suc n)
  have s: "store_ok (rp_cache rp)" using Suc.prems(1) by (simp add: rp_inv_def)
  show ?case
  proof (rule resolve_cases [OF en Suc.prems(2) s, of x qtype])
    fix rc c_soa c' assume r: "en_resolve en (wire nm @ x) qtype (rp_cache rp) = (Inl (rc, c_soa), c')" "store_ok c'" "rc \<noteq> RC_OK"
    let ?rp = "rp\<lparr>rp_cache := c'\<rparr>"
    have R: "R S_ADDITIONAL = []" "list_all rr_ok (R S_AUTHORITY)" using Suc.prems(4) by (simp_all add: only_answers_def)
    from resolve_failed_step [OF en rp_inv_cache [OF Suc.prems(1) r(2)] Suc.prems(2) R, of x rc c_soa edns udp] obtain fl rp' where
      f: "resolve_failed en (wire nm @ x) rc c_soa edns udp ?rp = Some (fl, rp')"
        "fl = Cleanup rc \<and> failed_msg en f qs R rc edns rp' \<or> fl = Err_ans rc \<and> an_mem (rp_ans ?rp) \<noteq> []" by blast
    have eq: "answer_question en qtype rdbit edns udp (Suc n) (wire nm @ x) aa rp = Some (fl, aa, rp')"
      using r(1) f(1) by (simp add: answer_question_round del: answer_question.simps)
    from f(2) show ?thesis
    proof (elim disjE conjE)
      assume "fl = Cleanup rc" "failed_msg en f qs R rc edns rp'"
      with eq Suc.prems(4) r(3) show ?thesis by (auto intro: answeredI_cleanup)
    next
      assume "fl = Err_ans rc" "an_mem (rp_ans ?rp) \<noteq> []"
      with eq show ?thesis by (auto intro: answeredI_err)
    qed
  next
    fix ce c' assume r: "en_resolve en (wire nm @ x) qtype (rp_cache rp) = (Inr ce, c')" "store_ok c'" "resolved en nm qtype ce" "entry_ok ce"
    let ?rp = "rp\<lparr>rp_cache := c'\<rparr>" and ?aa = "aa \<and> fset (ce_flags ce) DF_LOCAL"
    note ed = entry_okD [OF r(4)]
    have inv: "rp_inv f qs R g ?rp" by (rule rp_inv_cache [OF Suc.prems(1) r(2)])
    have a: "added S_ANSWER f qs R g ?rp (sets_in_answer en nm (answer_types ce qtype) ce) (add_to_response en (wire nm @ x) qtype ce udp ?rp)"
      unfolding add_to_response_eq [OF ed(2) tp]
      by (rule add_rrsets_step [OF inv Suc.prems(2) ed(2,4) only_answers_last [OF Suc.prems(4)]])
    have eq: "answer_question en qtype rdbit edns udp (Suc n) (wire nm @ x) aa rp = do {
          (ok, rp) \<leftarrow> add_to_response en (wire nm @ x) qtype ce udp ?rp;
          if \<not> ok then do { rp \<leftarrow> release ce rp; Some (Err_ans RC_OK, ?aa, rp) }
          else round_end en qtype rdbit (\<lambda>qname rp. answer_question en qtype rdbit edns udp n qname ?aa rp) (wire nm @ x) ce ?aa rp }"
      using r(1) by (simp add: answer_question_round Let_def del: answer_question.simps)
    from a show ?thesis
    proof (cases rule: addedE)
      case (fail rp1)
      with eq release_entry [OF r(4)] show ?thesis by (intro answeredI_err) auto
    next
      case (succ rp1 g1 R1 rs)
      have rs: "list_all rr_ok rs" by (rule sets_rr_ok [OF Suc.prems(2) succ(5)])
      have o1: "only_answers R1" by (rule only_answers_grown [OF Suc.prems(4) succ(4) rs])
      let ?again = "\<lambda>qname rp. answer_question en qtype rdbit edns udp n qname ?aa rp"
      have "answered en f qs R1 g1 edns rp1 (\<lambda>rs'. chain en rdbit qtype (Suc n) nm (rs @ rs'))
          (round_end en qtype rdbit ?again (wire nm @ x) ce ?aa rp1)"
      proof (rule round_end_step [OF en succ(2) r(4) Suc.prems(2,3)])
        show "answered en f qs R1 g1 edns rp1 (chain en rdbit qtype n l) (?again (wire l @ y) rp1)"
          if "wf_name l" "length (wire l @ y) = DNSNAMEBUFSIZE" for l y
          by (rule Suc.IH [OF succ(2) that o1])
        show "chain en rdbit qtype (Suc n) nm (rs @ [])" if "\<forall>l. \<not> follows rdbit qtype ce l"
          using chain_last [OF r(3) succ(5) that] by simp
        show "chain en rdbit qtype (Suc n) nm (rs @ rs')" if "follows rdbit qtype ce l" "chain en rdbit qtype n l rs'" for l rs'
          by (rule chain_cname [OF r(3) succ(5) that])
      qed
      from answered_after [where P = "chain en rdbit qtype (Suc n) nm", OF this succ(3,4) rs] eq succ(1) show ?thesis by (simp add: answered_cache)
    qed
  qed
qed

subsection \<open>The whole answer\<close>

definition chains :: "env \<Rightarrow> bool \<Rightarrow> question list \<Rightarrow> msg_rr list \<Rightarrow> bool" where
  "chains en rdbit qs rs \<longleftrightarrow> (\<exists>rss. rs = concat rss \<and>
     list_all2 (\<lambda>q. chain en rdbit (uint (q_type q)) (MAX_HOPS + 1) (q_name q)) qs rss)"

lemma chains_Nil: "chains en rdbit [] []"
  by (simp add: chains_def)

lemma chains_Cons:
  assumes "chain en rdbit (uint (q_type q)) (MAX_HOPS + 1) (q_name q) rs" "chains en rdbit qs rs'"
  shows "chains en rdbit (q # qs) (rs @ rs')"
proof -
  from assms(2) obtain rss where "rs' = concat rss" "list_all2 (\<lambda>q. chain en rdbit (uint (q_type q)) (MAX_HOPS + 1) (q_name q)) qs rss"
    unfolding chains_def by blast
  with assms(1) show ?thesis unfolding chains_def by (intro exI [of _ "rs # rss"]) simp
qed

lemma supported_answerable: "\<not> unsupported qe \<Longrightarrow> answerable (uint (qe_qtype qe))"
  by (auto simp: unsupported_def answerable_def not_cached_type_def)

lemma answer_questions_step:
  assumes en: "env_ok en" and "rp_inv f qs R g rp" "only_answers R" "list_all2 asked ql qs'" "\<And>qe. qe \<in> set ql \<Longrightarrow> \<not> unsupported qe"
  shows "answered en f qs R g edns rp (chains en rdbit qs') (answer_questions en rdbit edns udp ql aa rp)"
  using assms(2-5)
proof (induction ql arbitrary: qs' aa R g rp)
  case Nil
  then show ?case by (intro answeredI_go [where rs = "[]" and R' = R and rp' = rp and g' = g and aa = aa]) (simp_all add: chains_Nil)
next
  case (Cons qe ql)
  from Cons.prems(3) obtain q qs'' where q: "qs' = q # qs''" "asked qe q" "list_all2 asked ql qs''"
    by (auto simp: list_all2_Cons1)
  then obtain y where qe: "wf_name (q_name q)" "qe_query qe = wire (q_name q) @ y" "q_type q = qe_qtype qe" by (auto simp: asked_def)
  from name_buffer_step [OF qe(1), of y] obtain x where
    x: "name_buffer (wire (q_name q) @ y) = Some (wire (q_name q) @ x)" "length (wire (q_name q) @ x) = DNSNAMEBUFSIZE" by blast
  let ?res = "answer_question en (uint (qe_qtype qe)) rdbit edns udp (MAX_HOPS + 1) (wire (q_name q) @ x) aa rp"
  have eq: "answer_questions en rdbit edns udp (qe # ql) aa rp = do { (fl, aa, rp) \<leftarrow> ?res;
     (case fl of Go_on \<Rightarrow> answer_questions en rdbit edns udp ql aa rp | _ \<Rightarrow> Some (fl, aa, rp)) }"
    using x(1) qe(2) by (simp del: answer_question.simps)
  have tp: "answerable (uint (qe_qtype qe))" using Cons.prems(4) [of qe] supported_answerable by simp
  from answer_question_step [OF en tp Cons.prems(1) qe(1) x(2) Cons.prems(2), of edns rdbit "MAX_HOPS + 1" udp aa] show ?case
  proof (cases rule: answeredE)
    case (go aa1 rp1 g1 R1 rs)
    have "answered en f qs R1 g1 edns rp1 (chains en rdbit qs'') (answer_questions en rdbit edns udp ql aa1 rp1)"
      by (rule Cons.IH [OF go(2) only_answers_grown [OF Cons.prems(2) go(4,5)] q(3)]) (use Cons.prems(4) in simp)
    moreover have "chains en rdbit qs' (rs @ rs')" if "chains en rdbit qs'' rs'" for rs'
      unfolding q(1) by (rule chains_Cons) (use go(6) qe(3) that in simp_all)
    ultimately have "answered en f qs R g edns rp (chains en rdbit qs') (answer_questions en rdbit edns udp ql aa1 rp1)"
      by (intro answered_after [where P = "chains en rdbit qs'", OF _ go(3-5)])
    then show ?thesis using eq go(1) by simp
  next
    case (cleanup rc aa1 rp1 R')
    then show ?thesis using eq by (intro answeredI_cleanup [OF _ cleanup(2-4)]) simp
  next
    case (err rc aa1 rp1)
    then show ?thesis using eq by (intro answeredI_err [OF _ err(2)]) simp
  qed
qed

text \<open>The message \<open>m\<close> and what it says.\<close>

definition message_with :: "dns_hdr \<Rightarrow> nat \<Rightarrow> bool \<Rightarrow> question list \<Rightarrow> (sect \<Rightarrow> msg_rr list) \<Rightarrow> byte list \<Rightarrow> bool" where
  "message_with hdr rc aa qs R m \<longleftrightarrow> body_at m qs (all_rrs R) \<and>
     take sizeof_dns_hdr m = write_hdr ((answer_hdr hdr)\<lparr>dh_rcode := rc mod 16, dh_aa := aa, dh_qdcount := of_nat (length qs),
       dh_ancount := of_nat (length (R S_ANSWER)), dh_nscount := of_nat (length (R S_AUTHORITY)), dh_arcount := of_nat (length (R S_ADDITIONAL))\<rparr>)"

definition complete_reply :: "env \<Rightarrow> dns_hdr \<Rightarrow> bool \<Rightarrow> nat option \<Rightarrow> question list \<Rightarrow> (sect \<Rightarrow> msg_rr list) \<Rightarrow> nat \<Rightarrow> bool" where
  "complete_reply en hdr edns udp qs R sz \<longleftrightarrow> chains en (dh_rd hdr) qs (R S_ANSWER) \<and> list_all rr_ok (R S_ANSWER) \<and> list_all rr_ok (R S_AUTHORITY) \<and>
     (R S_ADDITIONAL = [] \<and> beyond udp (sz + sizeof_opt_pseudo_rr) \<or>
      (\<exists>rs. R S_ADDITIONAL = (if edns then edns_rr en RC_OK # rs else rs) \<and> list_all rr_ok rs) \<and> \<not> beyond udp sz)"

definition failed_reply :: "env \<Rightarrow> nat \<Rightarrow> bool \<Rightarrow> (sect \<Rightarrow> msg_rr list) \<Rightarrow> bool" where
  "failed_reply en rc edns R \<longleftrightarrow> list_all rr_ok (R S_ANSWER) \<and> list_all rr_ok (R S_AUTHORITY) \<and>
     R S_ADDITIONAL = (if edns \<and> rc = RC_NAMEERR then [edns_rr en rc] else []) \<and> (rc \<noteq> RC_NAMEERR \<longrightarrow> R S_AUTHORITY = [])"

text \<open>The message \<open>a\<close> is a good reply to the questions \<open>qs\<close>, the cache is well formed.\<close>

definition composed :: "env \<Rightarrow> dns_hdr \<Rightarrow> bool \<Rightarrow> nat option \<Rightarrow> question list \<Rightarrow> nat \<Rightarrow> cache \<Rightarrow> answer \<Rightarrow> bool" where
  "composed en hdr edns udp qs rc c a \<longleftrightarrow> store_ok c \<and> (\<exists>aa R. message_with hdr rc aa qs R (take (an_sz a) (an_buf a)) \<and>
     (if rc = RC_OK then complete_reply en hdr edns udp qs R (an_sz a) else \<not> aa \<and> failed_reply en rc edns R))"

lemma content_message:
  assumes "content (answer_flags hdr rc aa) qs R g a"
  shows "message_with hdr rc aa qs R (take (an_sz a) (an_buf a))"
proof -
  have c: "sizeof_dns_hdr \<le> an_sz a" "take sizeof_dns_hdr (an_buf a) = answer_flags hdr rc aa @ counts qs R"
    and b: "body_at (take (an_sz a) (an_buf a)) qs (all_rrs R)" using assms by (auto simp: content_def)
  have "take sizeof_dns_hdr (take (an_sz a) (an_buf a)) = take sizeof_dns_hdr (an_buf a)" using c(1) by (simp add: min_absorb1)
  with b c(2) show ?thesis
    unfolding message_with_def by (simp add: answer_flags_def write_hdr_def answer_hdr_def counts_def u16_bytes_def)
qed

lemma composedI:
  assumes "store_ok c" "content (answer_flags hdr rc aa) qs R g a"
    "if rc = RC_OK then complete_reply en hdr edns udp qs R (an_sz a) else \<not> aa \<and> failed_reply en rc edns R"
  shows "composed en hdr edns udp qs rc c a"
  unfolding composed_def using assms(1,3) content_message [OF assms(2)] by blast

lemma compose_finish:
  fixes rnd :: "nat list" and edns :: bool
  assumes en: "env_ok en" and c: "content (answer_flags hdr RC_OK False) qs (\<lambda>_. []) g a" and s: "store_ok c"
    and ql: "list_all2 asked ql qs" and sup: "\<And>qe. qe \<in> set ql \<Longrightarrow> \<not> unsupported qe"
  defines "rp \<equiv> \<lparr>rp_ans = a, rp_sva = [], rp_ar = [], rp_cache = c, rp_rnd = rnd\<rparr>"
  shows "\<exists>res rc c'. do {
            (fl, aa, rp) \<leftarrow> answer_questions en (dh_rd hdr) edns udp ql True rp;
            (case fl of
               Cleanup rc \<Rightarrow> Some (Some (rp_ans rp), rc, rp_cache rp)
             | Err_ans rc \<Rightarrow> Some (None, rc, rp_cache rp)
             | Go_on \<Rightarrow> do {
                 (ok, rp) \<leftarrow> add_sections en edns udp rp;
                 if \<not> ok then Some (None, RC_OK, rp_cache rp)
                 else do {
                   a \<leftarrow> (if aa then set_aa (rp_ans rp) else Some (rp_ans rp));
                   Some (Some a, RC_OK, rp_cache rp) } }) } = Some (res, rc, c') \<and> (an_mem a = [] \<longrightarrow> res \<noteq> None) \<and>
     (\<forall>a. res = Some a \<longrightarrow> composed en hdr edns udp qs rc c' a)"
    (is "\<exists>res rc c'. ?comp = Some (res, rc, c') \<and> _")
proof -
  let ?f = "answer_flags hdr RC_OK False"
  have inv: "rp_inv ?f qs (\<lambda>_. []) g rp" using c s by (simp add: rp_inv_def rp_def)
  have o: "only_answers (\<lambda>_. [])" by (simp add: only_answers_def)
  have "answered en ?f qs (\<lambda>_. []) g edns rp (chains en (dh_rd hdr) qs) (answer_questions en (dh_rd hdr) edns udp ql True rp)"
    by (rule answer_questions_step [OF en inv o ql sup])
  then show ?thesis
  proof (cases rule: answeredE)
    case (go aa rp1 g1 R1 rs)
    have ch: "R1 S_ANSWER = rs" "R1 S_ADDITIONAL = []" "list_all rr_ok (R1 S_AUTHORITY)" using go(4) by (simp_all add: grown_by_def)
    from add_sections_step [OF en go(2) ch(2,3), of edns udp] obtain ok rp2 where
      2: "add_sections en edns udp rp1 = Some (ok, rp2)" "an_mem (rp_ans rp1) = [] \<longrightarrow> ok"
        "ok \<longrightarrow> (\<exists>g' R'. rp_inv ?f qs R' g' rp2 \<and> closing en edns udp R1 R' (an_sz (rp_ans rp2)))" by blast
    have m: "an_mem a = [] \<longrightarrow> ok" using 2(2) go(3) by (simp add: rp_le_def rp_def)
    show ?thesis
    proof (cases ok)
      case False
      then have "?comp = Some (None, RC_OK, rp_cache rp2)" using go(1) 2(1) by simp
      with m False show ?thesis by blast
    next
      case True
      with 2(3) obtain g2 R2 where r: "rp_inv ?f qs R2 g2 rp2" "closing en edns udp R1 R2 (an_sz (rp_ans rp2))" by blast
      have c2: "content ?f qs R2 g2 (rp_ans rp2)" "store_ok (rp_cache rp2)" using r(1) by (simp_all add: rp_inv_def)
      have "\<exists>a'. (if aa then set_aa (rp_ans rp2) else Some (rp_ans rp2)) = Some a' \<and> content (answer_flags hdr RC_OK aa) qs R2 g2 a' \<and>
          an_sz a' = an_sz (rp_ans rp2)"
        using set_aa_step [OF c2(1)] c2(1) by (cases aa) auto
      then obtain a' where a': "(if aa then set_aa (rp_ans rp2) else Some (rp_ans rp2)) = Some a'"
        "content (answer_flags hdr RC_OK aa) qs R2 g2 a'" "an_sz a' = an_sz (rp_ans rp2)" by blast
      have "?comp = Some (Some a', RC_OK, rp_cache rp2)" using go(1) 2(1) True a'(1) by simp
      moreover have "complete_reply en hdr edns udp qs R2 (an_sz a')"
        using r(2) go(5,6) ch(1) a'(3) by (auto simp: complete_reply_def closing_def)
      with a'(2) c2(2) have "composed en hdr edns udp qs RC_OK (rp_cache rp2) a'" by (intro composedI) simp_all
      ultimately show ?thesis by blast
    qed
  next
    case (cleanup rc aa rp1 R1)
    from cleanup(4) obtain g2 R2 where r: "rp_inv (flags_rcode rc ?f) qs R2 g2 rp1" "R2 S_ANSWER = R1 S_ANSWER" "list_all rr_ok (R2 S_AUTHORITY)"
      "R2 S_ADDITIONAL = (if edns \<and> rc = RC_NAMEERR then [edns_rr en rc] else [])" "rc \<noteq> RC_NAMEERR \<longrightarrow> R2 S_AUTHORITY = R1 S_AUTHORITY"
      unfolding failed_msg_def by blast
    have "content (answer_flags hdr rc False) qs R2 g2 (rp_ans rp1)" "store_ok (rp_cache rp1)" using r(1) by (simp_all add: rp_inv_def)
    moreover have "failed_reply en rc edns R2" using r(2-5) cleanup(3) by (simp add: failed_reply_def only_answers_def)
    ultimately have "composed en hdr edns udp qs rc (rp_cache rp1) (rp_ans rp1)" using cleanup(2) by (intro composedI) simp_all
    moreover have "?comp = Some (Some (rp_ans rp1), rc, rp_cache rp1)" using cleanup(1) by simp
    ultimately show ?thesis by blast
  next
    case (err rc aa rp1)
    then have "?comp = Some (None, rc, rp_cache rp1)" by simp
    with err(2) show ?thesis by (auto simp: rp_def)
  qed
qed

lemma compose_answer_ok:
  assumes en: "env_ok en" and s: "store_ok c" and ql: "list_all2 asked ql qs"
  shows "\<exists>res rc c'. compose_answer en ql hdr edns udp mem junk rnd c = Some (res, rc, c') \<and> (mem = [] \<longrightarrow> res \<noteq> None) \<and>
     (\<forall>a. res = Some a \<longrightarrow> composed en hdr edns udp qs rc c' a)"
proof (cases "new_answer hdr mem junk")
  case None
  then have "mem \<noteq> []" by (auto simp: new_answer_def)
  with None show ?thesis by (simp add: compose_answer_def)
next
  case (Some a)
  note n = new_answer_step [OF Some]
  have e: "all_rrs (\<lambda>_. []) = []" by (simp add: all_rrs_def)
  from add_questions_step [OF n(1) e ql] obtain ok a1 where
    1: "add_questions ql a = Some (ok, a1)" "an_mem a = [] \<longrightarrow> ok \<and> an_mem a1 = []"
      "ok \<longrightarrow> (\<exists>g'. content (answer_flags hdr RC_OK False) qs (\<lambda>_. []) g' a1)" unfolding append_Nil by blast
  have m: "mem = [] \<longrightarrow> ok \<and> an_mem a1 = []" using n(2) 1(2) by blast
  show ?thesis
  proof (cases ok)
    case False
    with Some 1(1) m show ?thesis by (simp add: compose_answer_def)
  next
    case True
    with 1(3) obtain g where c: "content (answer_flags hdr RC_OK False) qs (\<lambda>_. []) g a1" by blast
    show ?thesis
    proof (cases "\<exists>qe \<in> set ql. unsupported qe")
      case u: True
      from set_rcode_step [OF c, of RC_NOTSUPP] obtain b where b: "set_rcode RC_NOTSUPP a1 = Some (a1\<lparr>an_buf := b\<rparr>)"
        "content (answer_flags hdr RC_NOTSUPP False) qs (\<lambda>_. []) g (a1\<lparr>an_buf := b\<rparr>)" by auto
      have "compose_answer en ql hdr edns udp mem junk rnd c = Some (Some (a1\<lparr>an_buf := b\<rparr>), RC_NOTSUPP, c)"
        using Some 1(1) True u b(1) by (simp add: compose_answer_def)
      moreover have "failed_reply en RC_NOTSUPP edns (\<lambda>_. [])" "RC_NOTSUPP \<noteq> RC_OK" by (simp_all add: failed_reply_def more_rc_defs)
      then have "composed en hdr edns udp qs RC_NOTSUPP c (a1\<lparr>an_buf := b\<rparr>)" using b(2) s by (intro composedI) simp_all
      ultimately show ?thesis by blast
    next
      case sup: False
      then have "\<And>qe. qe \<in> set ql \<Longrightarrow> \<not> unsupported qe" by blast
      from compose_finish [OF en c s ql this, of edns udp rnd] Some 1(1) True sup m show ?thesis
        by (simp add: compose_answer_def del: answer_questions.simps) blast
    qed
  qed
qed

end
