(* ===== verification/Answer_Query.thy ===== *)
theory Answer_Query
  imports Answer_Reply
begin

unbundle bit_operations_syntax

section \<open>Decoding queries and replying (dns_answer.c)\<close>

text \<open>
  \<^verbatim>\<open>decode_query\<close>, \<^verbatim>\<open>decode_query_additional\<close>, \<^verbatim>\<open>mk_error_reply\<close> and \<^verbatim>\<open>process_query\<close>. The message
  received is the byte list \<open>data\<close>, all of \<^verbatim>\<open>rlen\<close> bytes; \<open>junk\<close> is the content of memory not yet
  written, \<open>mem\<close> are the outcomes of the allocations.
\<close>

subsection \<open>Definitions\<close>

definition UDP_BUFSIZE :: nat where "UDP_BUFSIZE = 512"

record edns_info =
  ei_udpsize :: u16
  ei_rcode :: u16
  ei_version :: u16
  ei_do_flg :: byte

definition no_edns :: edns_info where
  "no_edns = \<lparr>ei_udpsize = 0, ei_rcode = 0, ei_version = 0, ei_do_flg = 0\<rparr>"

text \<open>The loop over \<open>n\<close> questions; \<open>q\<close> is the list so far. \<^verbatim>\<open>llist_grow\<close> frees it when there is no memory.\<close>

fun decode_query_loop ::
  "nat \<Rightarrow> byte list \<Rightarrow> (nat \<Rightarrow> byte) \<Rightarrow> nat \<Rightarrow> nat \<Rightarrow> bool list \<Rightarrow> dns_queryel list \<Rightarrow>
   (nat \<times> nat \<times> nat \<times> bool list \<times> dns_queryel list) option" where
  "decode_query_loop 0 data junk ptr sz mem q = Some (RC_OK, ptr, sz, mem, q)"
| "decode_query_loop (Suc n) data junk ptr sz mem q = do {
     (res, ptr, sz, qbuf, qlen) \<leftarrow> decompress_name data ptr sz (map junk [0..<DNSNAMEBUFSIZE]);
     if res = RC_TRUNC then Some (res, ptr, sz, mem, q)
     else if res \<noteq> RC_OK then Some (res, ptr, sz, mem, [])
     else if sz < 4 then Some (RC_TRUNC, ptr, sz, mem, q)
     else if mem \<noteq> [] \<and> \<not> hd mem then Some (RC_SERVFAIL, ptr, sz, tl mem, [])
     else do {
       (qtype, _) \<leftarrow> getint16 (drop ptr data);
       (qclass, _) \<leftarrow> getint16 (drop (ptr + 2) data);
       qlen \<leftarrow> qlen;
       pdnsd_assert (qlen \<le> length qbuf);
       decode_query_loop n data junk (ptr + 4) (sz - 4) (tl mem)
         (q @ [\<lparr>qe_qtype = qtype, qe_qclass = qclass, qe_query = take qlen qbuf\<rparr>]) } }"

definition decode_query ::
  "byte list \<Rightarrow> (nat \<Rightarrow> byte) \<Rightarrow> bool list \<Rightarrow> (nat \<times> nat \<times> nat \<times> bool list \<times> dns_queryel list) option" where
  "decode_query data junk mem = do {
     (qdcount, _) \<leftarrow> getint16 (drop 4 data);
     decode_query_loop (unat qdcount) data junk sizeof_dns_hdr (length data - sizeof_dns_hdr) mem [] }"

text \<open>The result is the return code, \<^verbatim>\<open>*numopt\<close> and what \<^verbatim>\<open>ep\<close> points to.\<close>

fun decode_query_additional ::
  "byte list \<Rightarrow> (nat \<Rightarrow> byte) \<Rightarrow> nat \<Rightarrow> nat \<Rightarrow> nat \<Rightarrow> nat \<Rightarrow> edns_info \<Rightarrow> (nat \<times> nat \<times> edns_info) option" where
  "decode_query_additional data junk ptr sz 0 numopt ep = Some (RC_OK, numopt, ep)"
| "decode_query_additional data junk ptr sz (Suc n) numopt ep = do {
     (res, ptr, sz, _, _) \<leftarrow> decompress_name data ptr sz (map junk [0..<DNSNAMEBUFSIZE]);
     if res \<noteq> RC_OK then Some (res, numopt, ep)
     else if sz < sizeof_rr_hdr then Some (RC_TRUNC, numopt, ep)
     else do {
       let sz = sz - sizeof_rr_hdr;
       (type, _) \<leftarrow> getint16 (drop ptr data);
       (class, _) \<leftarrow> getint16 (drop (ptr + 2) data);
       let ttlp = ptr + 4;
       (rdlen, _) \<leftarrow> getint16 (drop (ptr + 8) data);
       let ptr = ptr + 10;
       if sz < unat rdlen then Some (RC_TRUNC, numopt, ep)
       else do {
         (numopt, ep) \<leftarrow> (if type = word_of_int T_OPT
            then if numopt = 0
              then do {
                t0 \<leftarrow> rd data ttlp;
                t1 \<leftarrow> rd data (ttlp + 1);
                t2 \<leftarrow> rd data (ttlp + 2);
                f1 \<leftarrow> rd data 3;
                Some (1, \<lparr>ei_udpsize = class, ei_rcode = push_bit 4 (ucast t0) OR ucast (take_bit 4 f1 :: byte),
                  ei_version = ucast t1, ei_do_flg = drop_bit 7 t2 AND 1\<rparr>) }
              else Some (numopt + 1, ep)
            else Some (numopt, ep));
         decode_query_additional data junk (ptr + unat rdlen) (sz - unat rdlen) n numopt ep } } }"

definition mk_error_reply :: "u16 \<Rightarrow> nat \<Rightarrow> nat \<Rightarrow> dns_hdr" where
  "mk_error_reply ident opcode rescode =
     \<lparr>dh_id = ident, dh_rd = False, dh_tc = False, dh_aa = False, dh_opcode = opcode mod 16, dh_qr = True,
      dh_rcode = rescode mod 16, dh_cd = False, dh_ad = False, dh_z = False, dh_ra = True,
      dh_qdcount = 0, dh_ancount = 0, dh_nscount = 0, dh_arcount = 0\<rparr>"

text \<open>
  The first part of \<^verbatim>\<open>process_query\<close>: discard the message, refuse it with an error code, or go on with
  the questions. The second component of the result is \<^verbatim>\<open>ednsinfop\<close>.
\<close>

datatype verdict = Discard | Refuse nat | Accept dns_hdr "dns_queryel list" "bool list"

definition check_additional ::
  "byte list \<Rightarrow> (nat \<Rightarrow> byte) \<Rightarrow> dns_hdr \<Rightarrow> nat \<Rightarrow> nat \<Rightarrow> nat \<Rightarrow> (nat option \<times> edns_info option) option" where
  "check_additional data junk hdr res ptr sz =
     (if dh_arcount hdr = 0 then Some (None, None)
      else if res = RC_TRUNC then Some (Some RC_FORMAT, None)
      else do {
        (res, numoptrr, ednsinfo) \<leftarrow> decode_query_additional data junk ptr sz (unat (dh_arcount hdr)) 0 no_edns;
        Some (if \<not> (res = RC_OK \<or> res = RC_TRUNC \<and> dh_tc hdr) then (Some RC_FORMAT, None)
          else if numoptrr \<noteq> 0
          then if ei_version ednsinfo \<noteq> 0 then (Some RC_BADVERS, None)
            else if ei_rcode ednsinfo \<noteq> 0 then (Some RC_FORMAT, None)
            else (None, Some ednsinfo)
          else (None, None)) })"

definition check_query :: "byte list \<Rightarrow> (nat \<Rightarrow> byte) \<Rightarrow> bool list \<Rightarrow> (verdict \<times> edns_info option) option" where
  "check_query data junk mem =
     (if length data < 2 then Some (Discard, None)
      else if length data < sizeof_dns_hdr then Some (Refuse RC_FORMAT, None)
      else do {
        hdr \<leftarrow> read_hdr data;
        if dh_qr hdr then Some (Discard, None)
        else if dh_opcode hdr \<noteq> 0 then Some (Refuse RC_NOTSUPP, None)
        else if dh_z hdr then Some (Refuse RC_FORMAT, None)
        else if dh_rcode hdr \<noteq> RC_OK then Some (Discard, None)
        else if dh_ancount hdr \<noteq> 0 then Some (Refuse RC_FORMAT, None)
        else if dh_nscount hdr \<noteq> 0 then Some (Refuse RC_FORMAT, None)
        else do {
          (res, ptr, sz, mem, ql) \<leftarrow> decode_query data junk mem;
          if res \<noteq> RC_OK \<and> res \<noteq> RC_TRUNC then Some (Refuse res, None)
          else if res = RC_TRUNC \<and> (\<not> dh_tc hdr \<or> ql = []) then Some (Refuse RC_FORMAT, None)
          else do {
            (err, ep) \<leftarrow> check_additional data junk hdr res ptr sz;
            Some (case err of Some rc \<Rightarrow> Refuse rc | None \<Rightarrow> if ql = [] then Refuse RC_FORMAT else Accept hdr ql mem, ep) } } })"

text \<open>The limit on the size of the answer over UDP after the query was read.\<close>

definition udp_limit :: "env \<Rightarrow> edns_info option \<Rightarrow> nat option \<Rightarrow> nat option" where
  "udp_limit en ep udp =
     (case (ep, udp) of
        (Some e, Some _) \<Rightarrow>
          if unat (ei_udpsize e) > UDP_BUFSIZE
          then Some (if en_udpbufsize en > unat (ei_udpsize e) then unat (ei_udpsize e) else en_udpbufsize en)
          else udp
      | _ \<Rightarrow> udp)"

text \<open>The reply to a query that is refused; \<open>ok\<close> is the outcome of the allocation.\<close>

definition error_reply :: "env \<Rightarrow> byte list \<Rightarrow> (nat \<Rightarrow> byte) \<Rightarrow> bool \<Rightarrow> nat \<Rightarrow> answer option option" where
  "error_reply en data junk ok res =
     (if \<not> ok then Some None
      else do {
        (ident, _) \<leftarrow> getint16 data;
        opcode \<leftarrow> (if length data \<ge> 3 then do { b \<leftarrow> rd data 2; Some (unat (take_bit 4 (drop_bit 3 b))) } else Some 0);
        let ext = (res div 16 \<noteq> 0);
        let allocsz = dnsmsghdroffset + sizeof_dns_hdr + (if ext then sizeof_opt_pseudo_rr else 0);
        let a = \<lparr>an_buf = write_hdr (mk_error_reply ident opcode res) @ map junk [sizeof_dns_hdr..<allocsz - dnsmsghdroffset],
                 an_sz = sizeof_dns_hdr, an_allocsz = allocsz, an_cb = [], an_mem = [], an_junk = junk\<rparr>;
        if ext
        then do { (_, a) \<leftarrow> add_opt_pseudo_rr (of_nat (en_udpbufsize en)) (of_nat res) 0 0 a; Some (Some a) }
        else Some (Some a) })"

text \<open>
  The result is the reply (or none), the code stored through \<^verbatim>\<open>rcodep\<close> (if any), the new \<^verbatim>\<open>*udp\<close> and the cache.
\<close>

definition process_query ::
  "env \<Rightarrow> byte list \<Rightarrow> nat option \<Rightarrow> bool list \<Rightarrow> bool \<Rightarrow> (nat \<Rightarrow> byte) \<Rightarrow> nat list \<Rightarrow> cache \<Rightarrow>
   (answer option \<times> nat option \<times> nat option \<times> cache) option" where
  "process_query en data udp mem ok junk rnd c = do {
     (v, ep) \<leftarrow> check_query data junk mem;
     let udp = udp_limit en ep udp;
     (case v of
        Discard \<Rightarrow> Some (None, None, udp, c)
      | Refuse res \<Rightarrow> do { a \<leftarrow> error_reply en data junk ok res; Some (a, Some res, udp, c) }
      | Accept hdr ql mem \<Rightarrow> do {
          (ans, rc, c) \<leftarrow> compose_answer en ql hdr (ep \<noteq> None) udp mem junk rnd c;
          (case ans of
             Some a \<Rightarrow> Some (Some a, Some rc, udp, c)
           | None \<Rightarrow> do { a \<leftarrow> error_reply en data junk ok RC_SERVFAIL; Some (a, Some RC_SERVFAIL, udp, c) }) }) }"

subsection \<open>Decoding never leaves the message\<close>

lemma getint16_at:
  assumes "p + 2 \<le> length data"
  obtains s where "getint16 (drop p data) = Some (s, drop (p + 2) data)" "take 2 (drop p data) = u16_bytes s"
proof -
  have "2 \<le> length (drop p data)" using assms by simp
  from getint16_eq [OF this] obtain s where "getint16 (drop p data) = Some (s, drop 2 (drop p data))" "take 2 (drop p data) = u16_bytes s" .
  then show thesis by (intro that [of s]) (simp_all add: add.commute)
qed

text \<open>Reading a name at the current position.\<close>

lemma read_name:
  assumes "ptr + sz = length data"
  obtains (bad) rc t where "decompress_name data ptr sz (map junk [0..<DNSNAMEBUFSIZE]) = Some (rc, ptr, sz, t, None)" "rc = RC_FORMAT \<or> rc = RC_TRUNC"
      "\<not> (\<exists>n ls. has_name data ptr sz n ls)"
  | (good) n ls t where "decompress_name data ptr sz (map junk [0..<DNSNAMEBUFSIZE]) = Some (RC_OK, ptr + n, sz - n, t, Some (length (wire ls)))"
      "take (length (wire ls)) t = wire ls" "length (wire ls) \<le> length t" "has_name data ptr sz n ls" "wf_name ls" "n \<le> sz" "ptr + n + (sz - n) = length data"
proof -
  have l: "length (map junk [0..<DNSNAMEBUFSIZE]) = DNSNAMEBUFSIZE" by simp
  show thesis
  proof (cases "\<exists>n ls. has_name data ptr sz n ls")
    case True
    then obtain n ls where h: "has_name data ptr sz n ls" by blast
    from decompress_name_complete [OF h l] obtain t where
      t: "decompress_name data ptr sz (map junk [0..<DNSNAMEBUFSIZE]) = Some (RC_OK, ptr + n, sz - n, t, Some (length (wire ls)))"
        "take (length (wire ls)) t = wire ls" by blast
    have "length (wire ls) \<le> length t" using arg_cong [OF t(2), of length] by simp
    moreover have w: "wf_name ls" "n \<le> sz" using h by (auto simp: has_name_def)
    moreover have "ptr + n + (sz - n) = length data" using assms w(2) by arith
    ultimately show thesis using good t h by blast
  next
    case False
    with decompress_name_sound [OF l, of data ptr sz] show thesis using bad by auto
  qed
qed

definition element_ok :: "dns_queryel \<Rightarrow> bool" where
  "element_ok qe \<longleftrightarrow> (\<exists>ls. wf_name ls \<and> qe_query qe = wire ls)"

lemma element_asked:
  assumes "list_all element_ok ql"
  shows "\<exists>qs. list_all2 asked ql qs \<and> length qs = length ql"
  using assms
proof (induction ql)
  case (Cons qe ql)
  then obtain qs ls where q: "list_all2 asked ql qs" "length qs = length ql" "wf_name ls" "qe_query qe = wire ls" by (auto simp: element_ok_def)
  have "asked qe \<lparr>q_name = ls, q_type = qe_qtype qe, q_class = qe_qclass qe\<rparr>"
    unfolding asked_def using q(3,4) by (intro conjI exI [of _ "[]"]) simp_all
  with q(1,2) show ?case by (intro exI [of _ "\<lparr>q_name = ls, q_type = qe_qtype qe, q_class = qe_qclass qe\<rparr> # qs"]) simp
qed simp

definition decoded :: "nat \<Rightarrow> byte list \<Rightarrow> bool list \<Rightarrow> dns_queryel list \<Rightarrow> (nat \<times> nat \<times> nat \<times> bool list \<times> dns_queryel list) option \<Rightarrow> bool" where
  "decoded n data mem q res \<longleftrightarrow> (\<exists>rc ptr sz mem' q'. res = Some (rc, ptr, sz, mem', q') \<and> ptr + sz = length data \<and>
     rc \<in> {RC_OK, RC_TRUNC, RC_FORMAT, RC_SERVFAIL} \<and> list_all element_ok q' \<and> length q' \<le> length q + n \<and>
     (rc = RC_OK \<longrightarrow> length q' = length q + n) \<and> (rc = RC_FORMAT \<or> rc = RC_SERVFAIL \<longrightarrow> q' = []) \<and> (mem = [] \<longrightarrow> mem' = [] \<and> rc \<noteq> RC_SERVFAIL))"

lemma decode_query_loop_ok:
  assumes "ptr + sz = length data" "list_all element_ok q"
  shows "decoded n data mem q (decode_query_loop n data junk ptr sz mem q)"
  using assms
proof (induction n arbitrary: ptr sz mem q)
  case 0
  then show ?case by (simp add: decoded_def more_rc_defs)
next
  case (Suc n)
  show ?case
  proof (rule read_name [OF Suc.prems(1), of junk])
    fix rc t assume "decompress_name data ptr sz (map junk [0..<DNSNAMEBUFSIZE]) = Some (rc, ptr, sz, t, None)" "rc = RC_FORMAT \<or> rc = RC_TRUNC"
    with Suc.prems show ?thesis by (auto simp: decoded_def more_rc_defs)
  next
    fix k ls t assume d: "decompress_name data ptr sz (map junk [0..<DNSNAMEBUFSIZE]) = Some (RC_OK, ptr + k, sz - k, t, Some (length (wire ls)))"
      "take (length (wire ls)) t = wire ls" "length (wire ls) \<le> length t" "wf_name ls" "k \<le> sz" "ptr + k + (sz - k) = length data"
    note eq = decode_query_loop.simps(2) [of n data junk ptr sz mem q, unfolded d(1) Option.bind.bind_lunit prod.case]
    show ?thesis
    proof (cases "sz - k < 4 \<or> mem \<noteq> [] \<and> \<not> hd mem")
      case True
      with eq d(6) Suc.prems(2) show ?thesis by (auto simp: decoded_def more_rc_defs)
    next
      case False
      have p: "ptr + k + 2 \<le> length data" "ptr + k + 2 + 2 \<le> length data" using d(6) False by simp_all
      obtain s1 where s1: "getint16 (drop (ptr + k) data) = Some (s1, drop (ptr + k + 2) data)" using getint16_at [OF p(1)] .
      obtain s2 where s2: "getint16 (drop (ptr + k + 2) data) = Some (s2, drop (ptr + k + 2 + 2) data)" using getint16_at [OF p(2)] .
      let ?q = "q @ [\<lparr>qe_qtype = s1, qe_qclass = s2, qe_query = wire ls\<rparr>]"
      have e: "decode_query_loop (Suc n) data junk ptr sz mem q = decode_query_loop n data junk (ptr + k + 4) (sz - k - 4) (tl mem) ?q"
        using eq False s1 s2 d(2,3) by (auto simp: rc_defs)
      have "4 \<le> sz - k" using False by auto
      with d(6) have "ptr + k + 4 + (sz - k - 4) = length data" by arith
      moreover have "element_ok \<lparr>qe_qtype = s1, qe_qclass = s2, qe_query = wire ls\<rparr>" using d(4) by (auto simp: element_ok_def)
      then have "list_all element_ok ?q" using Suc.prems(2) by simp
      ultimately have "decoded n data (tl mem) ?q (decode_query_loop n data junk (ptr + k + 4) (sz - k - 4) (tl mem) ?q)" by (rule Suc.IH)
      then show ?thesis unfolding e decoded_def by (elim exE conjE) auto
    qed
  qed
qed

lemma decode_query_ok:
  assumes "sizeof_dns_hdr \<le> length data"
  shows "\<exists>qd r. getint16 (drop 4 data) = Some (qd, r) \<and> decoded (unat qd) data mem [] (decode_query data junk mem)"
proof -
  have "4 + 2 \<le> length data" using assms by (simp add: sizeof_dns_hdr_def)
  from getint16_at [OF this] obtain qd where "getint16 (drop 4 data) = Some (qd, drop (4 + 2) data)" .
  with decode_query_loop_ok [of sizeof_dns_hdr "length data - sizeof_dns_hdr" data "[]"] assms show ?thesis
    by (simp add: decode_query_def)
qed

lemma decode_query_additional_ok:
  assumes "ptr + sz = length data" "sizeof_dns_hdr \<le> length data"
  shows "\<exists>r. decode_query_additional data junk ptr sz n numopt ep = Some r"
  using assms(1)
proof (induction n arbitrary: ptr sz numopt ep)
  case (Suc n)
  show ?case
  proof (rule read_name [OF Suc.prems, of junk])
    fix rc t assume "decompress_name data ptr sz (map junk [0..<DNSNAMEBUFSIZE]) = Some (rc, ptr, sz, t, None)" "rc = RC_FORMAT \<or> rc = RC_TRUNC"
    then show ?thesis by (auto simp: rc_defs)
  next
    fix k ls t assume d: "decompress_name data ptr sz (map junk [0..<DNSNAMEBUFSIZE]) = Some (RC_OK, ptr + k, sz - k, t, Some (length (wire ls)))"
      "k \<le> sz" "ptr + k + (sz - k) = length data"
    show ?thesis
    proof (cases "sz - k < sizeof_rr_hdr")
      case True
      with d(1) show ?thesis by (simp add: rc_defs)
    next
      case False
      then have p: "ptr + k + 2 \<le> length data" "ptr + k + 2 + 2 \<le> length data" "ptr + k + 8 + 2 \<le> length data" "ptr + k + 10 \<le> length data"
        using d(3) by (simp_all add: sizeof_rr_hdr_def)
      obtain s1 where s1: "getint16 (drop (ptr + k) data) = Some (s1, drop (ptr + k + 2) data)" using getint16_at [OF p(1)] .
      obtain s2 where s2: "getint16 (drop (ptr + k + 2) data) = Some (s2, drop (ptr + k + 2 + 2) data)" using getint16_at [OF p(2)] .
      obtain s3 where s3: "getint16 (drop (ptr + k + 8) data) = Some (s3, drop (ptr + k + 8 + 2) data)" using getint16_at [OF p(3)] .
      let ?sz = "sz - k - sizeof_rr_hdr"
      show ?thesis
      proof (cases "?sz < unat s3")
        case True
        with False d(1) s1 s2 s3 show ?thesis by (simp add: rc_defs Let_def)
      next
        case ge: False
        have "ptr + k + 10 + unat s3 + (?sz - unat s3) = length data" using d(3) False ge by (simp add: sizeof_rr_hdr_def)
        note ih = Suc.IH [OF this]
        have r: "\<exists>v. rd data i = Some v" if "i < length data" for i using that by (simp add: rd_def)
        obtain t0 t1 t2 f1 where b: "rd data (ptr + k + 4) = Some t0" "rd data (ptr + k + 4 + 1) = Some t1" "rd data (ptr + k + 4 + 2) = Some t2"
          "rd data 3 = Some f1" using r [of "ptr + k + 4"] r [of "ptr + k + 4 + 1"] r [of "ptr + k + 4 + 2"] r [of 3] p(4) assms(2)
          by (auto simp: sizeof_dns_hdr_def)
        show ?thesis using False d(1) s1 s2 s3 ge b ih
          by (cases "s1 = word_of_int T_OPT"; cases "numopt = 0") (simp_all add: rc_defs Let_def)
      qed
    qed
  qed
qed simp

subsection \<open>Decoding the questions of a message\<close>

definition same_question :: "dns_queryel \<Rightarrow> question \<Rightarrow> bool" where
  "same_question qe q \<longleftrightarrow> (\<exists>ls. wf_name ls \<and> qe_query qe = wire ls \<and> name_eq ls (q_name q)) \<and> qe_qtype qe = q_type q \<and> qe_qclass qe = q_class q"

lemma q_at_read:
  assumes "q_at data ptr q n" "wf_name (q_name q)"
  shows "\<exists>k ls. n = k + 4 \<and> has_name data ptr (length data - ptr) k ls \<and> name_eq ls (q_name q) \<and> ptr + n \<le> length data \<and>
    (\<exists>r1 r2. getint16 (drop (ptr + k) data) = Some (q_type q, r1) \<and> getint16 (drop (ptr + k + 2) data) = Some (q_class q, r2))"
proof -
  from assms(1) obtain k where k: "n = k + 4" "ptr + n \<le> length data" "reads_at k (Suc (length (q_name q))) data ptr (q_name q)"
    "take 4 (drop (ptr + k) data) = u16_bytes (q_type q) @ u16_bytes (q_class q)" unfolding q_at_def by blast
  from reads_at_has_name [OF k(3) assms(2)] obtain ls where ls: "has_name data ptr (length data - ptr) k ls" "name_eq ls (q_name q)" by blast
  have "drop (ptr + k) data = (u16_bytes (q_type q) @ u16_bytes (q_class q)) @ drop 4 (drop (ptr + k) data)"
    using k(4) append_take_drop_id [of 4 "drop (ptr + k) data"] by simp
  then have d: "drop (ptr + k) data = u16_bytes (q_type q) @ (u16_bytes (q_class q) @ drop 4 (drop (ptr + k) data))" by simp
  have "drop (ptr + k + 2) data = drop 2 (drop (ptr + k) data)" by (simp add: add.commute)
  also have "\<dots> = u16_bytes (q_class q) @ drop 4 (drop (ptr + k) data)" by (subst d) simp
  finally have "getint16 (drop (ptr + k + 2) data) = Some (q_class q, drop 4 (drop (ptr + k) data))" by simp
  moreover have "getint16 (drop (ptr + k) data) = Some (q_type q, u16_bytes (q_class q) @ drop 4 (drop (ptr + k) data))"
    by (subst d) simp
  ultimately show ?thesis using k(1,2) ls by blast
qed

lemma decode_query_loop_reads:
  assumes "seq_at q_at data ptr qs n" "ptr + sz = length data" "\<And>q. q \<in> set qs \<Longrightarrow> wf_name (q_name q)"
  shows "\<exists>ql. decode_query_loop (length qs) data junk ptr sz [] acc = Some (RC_OK, ptr + n, sz - n, [], acc @ ql) \<and> list_all2 same_question ql qs"
  using assms
proof (induction qs arbitrary: ptr sz n acc)
  case Nil
  then show ?case by simp
next
  case (Cons q qs)
  from Cons.prems(1) obtain m where m: "m \<le> n" "q_at data ptr q m" "seq_at q_at data (ptr + m) qs (n - m)" by auto
  from q_at_read [OF m(2) Cons.prems(3)] obtain k ls r1 r2 where r: "m = k + 4" "has_name data ptr (length data - ptr) k ls" "name_eq ls (q_name q)"
    "ptr + m \<le> length data" "getint16 (drop (ptr + k) data) = Some (q_type q, r1)" "getint16 (drop (ptr + k + 2) data) = Some (q_class q, r2)" by auto
  have sz: "sz = length data - ptr" using Cons.prems(2) by simp
  have l: "length (map junk [0..<DNSNAMEBUFSIZE]) = DNSNAMEBUFSIZE" by simp
  from decompress_name_complete [OF r(2) l] obtain t where
    t: "decompress_name data ptr sz (map junk [0..<DNSNAMEBUFSIZE]) = Some (RC_OK, ptr + k, sz - k, t, Some (length (wire ls)))"
      "take (length (wire ls)) t = wire ls" unfolding sz by blast
  have lt: "length (wire ls) \<le> length t" using arg_cong [OF t(2), of length] by simp
  let ?qe = "\<lparr>qe_qtype = q_type q, qe_qclass = q_class q, qe_query = wire ls\<rparr>"
  have s4: "\<not> sz - k < 4" using r(1,4) sz by simp
  have e: "decode_query_loop (length (q # qs)) data junk ptr sz [] acc = decode_query_loop (length qs) data junk (ptr + m) (sz - m) [] (acc @ [?qe])"
    using t lt s4 r(1,5,6) by (simp add: rc_defs add.assoc)
  have "ptr + m + (sz - m) = length data" using r(4) sz by simp
  from Cons.IH [OF m(3) this, of "acc @ [?qe]"] Cons.prems(3) obtain ql where
    ql: "decode_query_loop (length qs) data junk (ptr + m) (sz - m) [] (acc @ [?qe]) =
      Some (RC_OK, ptr + m + (n - m), sz - m - (n - m), [], (acc @ [?qe]) @ ql)" "list_all2 same_question ql qs" by auto
  have "same_question ?qe q" using r(2,3) by (auto simp: same_question_def has_name_def)
  with ql m(1) show ?case unfolding e by (intro exI [of _ "?qe # ql"]) simp
qed

subsection \<open>Error replies\<close>

definition query_id :: "byte list \<Rightarrow> u16" where
  "query_id data = (case getint16 data of Some (i, _) \<Rightarrow> i | None \<Rightarrow> 0)"

definition query_opcode :: "byte list \<Rightarrow> nat" where
  "query_opcode data = (if length data \<ge> 3 then unat (take_bit 4 (drop_bit 3 (data ! 2))) else 0)"

text \<open>The bytes of an error reply; a code above 15 needs an OPT record.\<close>

definition error_message :: "env \<Rightarrow> byte list \<Rightarrow> nat \<Rightarrow> byte list" where
  "error_message en data res = (let h = mk_error_reply (query_id data) (query_opcode data) res in
     if res < 16 then write_hdr h
     else write_hdr (h\<lparr>dh_arcount := 1\<rparr>) @ opt_bytes (of_nat (en_udpbufsize en)) (of_nat res) 0 0)"

lemma getint16_ex: "p + 2 \<le> length data \<Longrightarrow> \<exists>s. getint16 (drop p data) = Some (s, drop (p + 2) data)"
  by (erule getint16_at) blast

lemma getint16_start: "2 \<le> length data \<Longrightarrow> \<exists>s. getint16 data = Some (s, drop 2 data)"
  using getint16_ex [of 0 data] by (simp add: numeral_2_eq_2)

lemma error_reply_step:
  assumes "2 \<le> length data"
  shows "\<exists>r. error_reply en data junk ok res = Some r \<and> (if ok then \<exists>a. r = Some a \<and> take (an_sz a) (an_buf a) = error_message en data res else r = None)"
proof (cases ok)
  case False
  then show ?thesis by (simp add: error_reply_def)
next
  case True
  from getint16_start [OF assms] obtain ident where i: "getint16 data = Some (ident, drop 2 data)" ..
  have id: "query_id data = ident" by (simp add: query_id_def i)
  have op: "(if length data \<ge> 3 then do { b \<leftarrow> rd data 2; Some (unat (take_bit 4 (drop_bit 3 b))) } else Some 0) = Some (query_opcode data)"
    by (simp add: query_opcode_def rd_def)
  let ?h = "mk_error_reply ident (query_opcode data) res"
  have lw: "length (write_hdr h) = sizeof_dns_hdr" for h by (simp add: write_hdr_def sizeof_dns_hdr_def)
  show ?thesis
  proof (cases "res < 16")
    case le: True
    then have "error_reply en data junk ok res = Some (Some \<lparr>an_buf = write_hdr ?h, an_sz = sizeof_dns_hdr, an_allocsz = dnsmsghdroffset + sizeof_dns_hdr,
        an_cb = [], an_mem = [], an_junk = junk\<rparr>)"
      using True i op by (simp add: error_reply_def)
    with True le id lw [of ?h] show ?thesis by (simp add: error_message_def)
  next
    case gt: False
    let ?a = "\<lparr>an_buf = write_hdr ?h @ map junk [sizeof_dns_hdr..<sizeof_dns_hdr + sizeof_opt_pseudo_rr],
       an_sz = sizeof_dns_hdr, an_allocsz = dnsmsghdroffset + sizeof_dns_hdr + sizeof_opt_pseudo_rr, an_cb = [], an_mem = [], an_junk = junk\<rparr>"
    let ?f = "take 4 (write_hdr ?h)"
    have w: "write_hdr ?h = ?f @ counts [] (\<lambda>_. [])" by (simp add: mk_error_reply_def write_hdr_def counts_def u16_bytes_def)
    have lf: "length ?f = 4" by (simp add: write_hdr_def)
    have "body_at m [] (all_rrs (\<lambda>_. []))" if "agree {sizeof_dns_hdr..} m (take (an_sz ?a) (an_buf ?a))" for m
      using that lw [of ?h] by (simp add: agree_def body_at_def all_rrs_def)
    moreover have "built {sizeof_dns_hdr..} [] ?a" using lw [of ?h] by (simp add: built_def cb_of_def)
    ultimately have c: "content ?f [] (\<lambda>_. []) [] ?a" using lw [of ?h] w lf unfolding content_def by simp
    let ?R = "(\<lambda>_. [])(S_ADDITIONAL := [opt_rr (of_nat (en_udpbufsize en)) (of_nat res) 0 0])"
    let ?o = "opt_rr (of_nat (en_udpbufsize en)) (of_nat res) 0 0" and ?ob = "opt_bytes (of_nat (en_udpbufsize en)) (of_nat res) 0 0"
    let ?R' = "(\<lambda>_. [])(S_ADDITIONAL := [] @ [?o])"
    from add_opt_step [OF c, of "of_nat (en_udpbufsize en)" "of_nat res" 0 0] obtain k a' where
      k: "add_opt_pseudo_rr (of_nat (en_udpbufsize en)) (of_nat res) 0 0 ?a = Some (k, a')" "an_mem ?a = [] \<longrightarrow> k \<and> an_mem a' = []"
        "k \<longrightarrow> content ?f [] ?R' [] a' \<and> an_sz a' = an_sz ?a + 11 \<and>
          (\<exists>x. an_buf a' = (?f @ counts [] ?R') @ drop sizeof_dns_hdr (take (an_sz ?a) (an_buf ?a)) @ ?ob @ x)" by blast
    have kt: k using k(2) by simp
    with k(3) obtain x where x: "an_sz a' = an_sz ?a + 11"
      "an_buf a' = (?f @ counts [] ?R') @ drop sizeof_dns_hdr (take (an_sz ?a) (an_buf ?a)) @ ?ob @ x" by blast
    have dr: "drop sizeof_dns_hdr (take (an_sz ?a) (an_buf ?a)) = []" using lw [of ?h] by simp
    have a: "add_opt_pseudo_rr (of_nat (en_udpbufsize en)) (of_nat res) 0 0 ?a = Some (True, a')" "an_sz a' = sizeof_dns_hdr + 11"
        "an_buf a' = (?f @ counts [] ?R) @ ?ob @ x"
      using k(1) kt x dr by simp_all
    have d16: "res div 16 \<noteq> 0" using gt by auto
    have al: "dnsmsghdroffset + sizeof_dns_hdr + sizeof_opt_pseudo_rr - dnsmsghdroffset = sizeof_dns_hdr + sizeof_opt_pseudo_rr" by simp
    have e: "error_reply en data junk ok res = Some (Some a')"
      unfolding error_reply_def i Option.bind.bind_lunit prod.case op Let_def using True d16 a(1)
      by (simp only: al if_True simp_thms if_False) simp
    have "?f @ counts [] ?R = write_hdr (?h\<lparr>dh_arcount := 1\<rparr>)" by (simp add: mk_error_reply_def write_hdr_def counts_def u16_bytes_def)
    with a(3) have b: "an_buf a' = write_hdr (?h\<lparr>dh_arcount := 1\<rparr>) @ ?ob @ x" by (simp only:)
    have "take (an_sz a') (an_buf a') = write_hdr (?h\<lparr>dh_arcount := 1\<rparr>) @ ?ob"
      unfolding b a(2) using lw [of "?h\<lparr>dh_arcount := 1\<rparr>"] by simp
    then have "take (an_sz a') (an_buf a') = error_message en data res"
      using gt id by (simp add: error_message_def Let_def)
    with e True show ?thesis by simp
  qed
qed

text \<open>The messages that get no answer at all.\<close>

definition discarded :: "byte list \<Rightarrow> bool" where
  "discarded data \<longleftrightarrow> length data < 2 \<or> length data \<ge> sizeof_dns_hdr \<and> (\<exists>hdr. read_hdr data = Some hdr \<and>
     (dh_qr hdr \<or> dh_opcode hdr = 0 \<and> \<not> dh_z hdr \<and> dh_rcode hdr \<noteq> RC_OK))"

lemma read_hdr_total:
  assumes "sizeof_dns_hdr \<le> length data"
  shows "\<exists>hdr. read_hdr data = Some hdr"
proof -
  have l: "12 \<le> length data" using assms by (simp add: sizeof_dns_hdr_def)
  then have "2 \<le> length data" by simp
  from getint16_start [OF this] obtain a where a: "getint16 data = Some (a, drop 2 data)" ..
  have r: "rd (drop 2 data) 0 = Some (data ! 2)" "rd (drop 2 data) 1 = Some (data ! 3)" using l by (simp_all add: rd_def)
  have g: "\<exists>s. getint16 (drop p data) = Some (s, drop (p + 2) data)" if "p + 2 \<le> 12" for p
    using that l by (intro getint16_ex) simp
  from g [of 4, simplified] g [of 6, simplified] g [of 8, simplified] g [of 10, simplified] obtain q1 q2 q3 q4 where
    "getint16 (drop 4 data) = Some (q1, drop 6 data)" "getint16 (drop 6 data) = Some (q2, drop 8 data)"
    "getint16 (drop 8 data) = Some (q3, drop 10 data)" "getint16 (drop 10 data) = Some (q4, drop 12 data)" by blast
  with a r show ?thesis by (simp add: read_hdr_def)
qed

definition verdict_ok :: "byte list \<Rightarrow> bool list \<Rightarrow> verdict \<Rightarrow> bool" where
  "verdict_ok data mem v \<longleftrightarrow> (v = Discard \<longleftrightarrow> discarded data) \<and> (case v of
       Refuse rc \<Rightarrow> rc \<in> {RC_FORMAT, RC_SERVFAIL, RC_NOTSUPP, RC_BADVERS}
     | Accept hdr ql mem' \<Rightarrow> read_hdr data = Some hdr \<and> ql \<noteq> [] \<and> list_all element_ok ql \<and> (mem = [] \<longrightarrow> mem' = [])
     | Discard \<Rightarrow> True)"

lemma check_additional_ok:
  assumes "ptr + sz = length data" "sizeof_dns_hdr \<le> length data"
  shows "\<exists>err ep. check_additional data junk hdr res ptr sz = Some (err, ep) \<and> (\<forall>rc. err = Some rc \<longrightarrow> rc = RC_FORMAT \<or> rc = RC_BADVERS)"
proof -
  from decode_query_additional_ok [OF assms, of junk "unat (dh_arcount hdr)" 0 no_edns] obtain r n e where
    "decode_query_additional data junk ptr sz (unat (dh_arcount hdr)) 0 no_edns = Some (r, n, e)" by auto
  then show ?thesis by (auto simp: check_additional_def)
qed

lemma check_query_ok: "\<exists>v ep. check_query data junk mem = Some (v, ep) \<and> verdict_ok data mem v"
proof (cases "sizeof_dns_hdr \<le> length data")
  case False
  then show ?thesis by (auto simp: check_query_def verdict_ok_def discarded_def)
next
  case True
  then have l: "\<not> length data < 2" by (simp add: sizeof_dns_hdr_def)
  from read_hdr_total [OF True] obtain hdr where h: "read_hdr data = Some hdr" ..
  have d: "discarded data \<longleftrightarrow> dh_qr hdr \<or> dh_opcode hdr = 0 \<and> \<not> dh_z hdr \<and> dh_rcode hdr \<noteq> RC_OK"
    using l True h by (simp add: discarded_def)
  show ?thesis
  proof (cases "dh_qr hdr \<or> dh_opcode hdr \<noteq> 0 \<or> dh_z hdr \<or> dh_rcode hdr \<noteq> RC_OK \<or> dh_ancount hdr \<noteq> 0 \<or> dh_nscount hdr \<noteq> 0")
    case True
    then show ?thesis using l h d \<open>sizeof_dns_hdr \<le> length data\<close> by (auto simp: check_query_def verdict_ok_def)
  next
    case False
    from decode_query_ok [OF True, of mem junk] obtain n res ptr sz mem' ql where
      q: "decode_query data junk mem = Some (res, ptr, sz, mem', ql)" "ptr + sz = length data" "res \<in> {RC_OK, RC_TRUNC, RC_FORMAT, RC_SERVFAIL}"
        "list_all element_ok ql" "mem = [] \<longrightarrow> mem' = [] \<and> res \<noteq> RC_SERVFAIL" unfolding decoded_def by blast
    from check_additional_ok [OF q(2) True, of junk hdr res] obtain err ep where
      a: "check_additional data junk hdr res ptr sz = Some (err, ep)" "\<forall>rc. err = Some rc \<longrightarrow> rc = RC_FORMAT \<or> rc = RC_BADVERS" by blast
    have eq: "check_query data junk mem = (if res \<noteq> RC_OK \<and> res \<noteq> RC_TRUNC then Some (Refuse res, None)
          else if res = RC_TRUNC \<and> (\<not> dh_tc hdr \<or> ql = []) then Some (Refuse RC_FORMAT, None)
          else Some (case err of Some rc \<Rightarrow> Refuse rc | None \<Rightarrow> if ql = [] then Refuse RC_FORMAT else Accept hdr ql mem', ep))"
      using l True h False q(1) a(1) by (simp add: check_query_def) (auto simp: rc_defs)
    have nd: "\<not> discarded data" using d False by simp
    have 1: "verdict_ok data mem (Refuse rc)" if "rc \<in> {RC_FORMAT, RC_SERVFAIL, RC_NOTSUPP, RC_BADVERS}" for rc
      using that nd by (simp add: verdict_ok_def)
    have 2: "verdict_ok data mem (Accept hdr ql mem')" if "ql \<noteq> []" using that nd h q(4,5) by (simp add: verdict_ok_def)
    have 3: "verdict_ok data mem (case err of Some rc \<Rightarrow> Refuse rc | None \<Rightarrow> if ql = [] then Refuse RC_FORMAT else Accept hdr ql mem')"
      using a(2) 1 2 by (cases err) auto
    have 4: "verdict_ok data mem (Refuse res)" if "res \<noteq> RC_OK \<and> res \<noteq> RC_TRUNC" using q(3) that by (intro 1) auto
    show ?thesis using 1 3 4 unfolding eq by simp
  qed
qed

end
