(* ===== verification/Answer_Results.thy ===== *)
theory Answer_Results
  imports Answer_Query
begin

unbundle bit_operations_syntax

section \<open>Results on answering queries\<close>

text \<open>
  The properties of the functions of dns_answer.c, from \<^verbatim>\<open>add_rr\<close> to \<^verbatim>\<open>process_query\<close>, with instances.
\<close>

subsection \<open>What a query is answered with\<close>

text \<open>
  C38: for every byte string with a full header \<^verbatim>\<open>decode_query\<close> ends without an access outside the
  message; every element it puts on the list is a well-formed name in transport format with its
  type and class, there are at most as many as the header announces and exactly as many if it
  reports success, and no list is left behind with an error other than truncation.
\<close>

theorem decode_query_well_formed:
  assumes "sizeof_dns_hdr \<le> length data"
  shows "\<exists>qd r rc ptr sz mem' ql. getint16 (drop 4 data) = Some (qd, r) \<and> decode_query data junk mem = Some (rc, ptr, sz, mem', ql) \<and>
    ptr + sz = length data \<and> rc \<in> {RC_OK, RC_TRUNC, RC_FORMAT, RC_SERVFAIL} \<and>
    list_all element_ok ql \<and> length ql \<le> unat qd \<and> (rc = RC_OK \<longrightarrow> length ql = unat qd) \<and>
    (rc = RC_FORMAT \<or> rc = RC_SERVFAIL \<longrightarrow> ql = [])"
  using decode_query_ok [OF assms, of mem junk] unfolding decoded_def by fastforce

theorem decode_query_well_formed_witness:
  "\<exists>qd r rc ptr sz mem' ql. getint16 (drop 4 (write_hdr example_hdr)) = Some (qd, r) \<and>
    decode_query (write_hdr example_hdr) (\<lambda>_. 0) [] = Some (rc, ptr, sz, mem', ql) \<and>
    ptr + sz = length (write_hdr example_hdr) \<and> rc \<in> {RC_OK, RC_TRUNC, RC_FORMAT, RC_SERVFAIL} \<and>
    list_all element_ok ql \<and> length ql \<le> unat qd \<and> (rc = RC_OK \<longrightarrow> length ql = unat qd) \<and>
    (rc = RC_FORMAT \<or> rc = RC_SERVFAIL \<longrightarrow> ql = [])"
  by (rule decode_query_well_formed) (simp add: write_hdr_def sizeof_dns_hdr_def)


text \<open>An environment for examples: the resolver always finds the entry of the root with an address.\<close>

definition example_entry :: dns_cent where
  "example_entry = strip_cent one_cent"

definition example_env :: env where
  "example_env = \<lparr>en_queryts = 1000, en_now = 1000, en_rnd_recs = True, en_udpbufsize = 1024, en_others = (\<lambda>c. c),
     en_resolve = (\<lambda>nm tp c. (Inr example_entry, c))\<rparr>"

lemma one_cent_data_ok: "cent_data_ok one_cent"
  unfolding cent_data_ok_def
proof (intro allI impI)
  fix tp rs rr assume h: "set_of one_cent tp = Some rs" "rr \<in> set (rs_rrs rs)"
  have tp: "T_MIN \<le> tp" "tp \<le> T_MAX" "sets one_cent (rrlkuptab ! nat (tp - T_MIN)) = Some rs" using h(1) by (auto simp: set_of_def split: if_splits)
  then have "rrlkuptab ! nat (tp - T_MIN) = 0" "rs = one_set" by (auto simp: one_cent_sets split: if_splits)
  moreover have "nat (tp - T_MIN) = 0" if "rrlkuptab ! nat (tp - T_MIN) = 0"
  proof -
    have "distinct rrlkuptab" by (simp add: rrlkuptab_def)
    moreover have "nat (tp - T_MIN) < length rrlkuptab" "0 < length rrlkuptab" "rrlkuptab ! 0 = 0" using tp by (simp_all add: rrlkuptab_def)
    ultimately show ?thesis using that nth_eq_iff_index_eq [of rrlkuptab "nat (tp - T_MIN)" 0] by simp
  qed
  ultimately have "tp = T_A" "rs = one_set" using tp(1) by auto
  with h(2) show "data_ok tp rr" by (auto simp: data_ok_def rdata_ok_def rdata_shape_def one_set_def intro!: exI [of _ "[Lit rr]"])
qed


lemma example_entry_ok: "entry_ok example_entry"
proof -
  have w: "cent_wf one_cent" using one_cent_ok by (rule cent_okD)
  have "cent_data_ok example_entry"
    by (rule cent_data_sets [OF one_cent_data_ok])
      (auto simp: example_entry_def sets_strip [OF w] strip_def map_option_case split: option.splits)
  then show ?thesis unfolding entry_ok_def
    using strip_cent_ok [OF one_cent_ok] strip_no_lents [OF w] by (simp add: example_entry_def)
qed

lemma example_env_ok: "env_ok example_env"
  using example_entry_ok by (simp add: env_ok_def example_env_def)

lemma no_cache_store_ok: "store_ok no_cache"
  using no_cache_inv by (simp add: store_ok_def) (simp add: no_cache_def)


definition example_query :: dns_queryel where
  "example_query = \<lparr>qe_qtype = 1, qe_qclass = 1, qe_query = [0]\<rparr>"

definition example_question :: question where
  "example_question = \<lparr>q_name = [], q_type = 1, q_class = 1\<rparr>"

lemma example_asked: "list_all2 asked [example_query] [example_question]"
  by (simp add: asked_def example_query_def example_question_def)



text \<open>The errors the header alone shows.\<close>

definition header_error :: "byte list \<Rightarrow> nat option" where
  "header_error data =
     (if length data < sizeof_dns_hdr then Some RC_FORMAT
      else case read_hdr data of
        None \<Rightarrow> None
      | Some hdr \<Rightarrow>
          if dh_opcode hdr \<noteq> 0 then Some RC_NOTSUPP
          else if dh_z hdr \<or> dh_ancount hdr \<noteq> 0 \<or> dh_nscount hdr \<noteq> 0 then Some RC_FORMAT
          else None)"

text \<open>The first name of the question section is there but not well formed.\<close>

definition bad_first_name :: "byte list \<Rightarrow> bool" where
  "bad_first_name data \<longleftrightarrow> (\<exists>hdr. read_hdr data = Some hdr \<and> dh_qdcount hdr \<noteq> 0) \<and>
     \<not> (\<exists>n ls. has_name data sizeof_dns_hdr (length data - sizeof_dns_hdr) n ls)"

text \<open>The query could be read, its first OPT record asks for a version that is not supported.\<close>

definition bad_edns_version :: "byte list \<Rightarrow> (nat \<Rightarrow> byte) \<Rightarrow> bool list \<Rightarrow> bool" where
  "bad_edns_version data junk mem \<longleftrightarrow> (\<exists>hdr ptr sz mem' ql n ep. read_hdr data = Some hdr \<and> dh_arcount hdr \<noteq> 0 \<and>
     decode_query data junk mem = Some (RC_OK, ptr, sz, mem', ql) \<and>
     decode_query_additional data junk ptr sz (unat (dh_arcount hdr)) 0 no_edns = Some (RC_OK, n, ep) \<and> n \<noteq> 0 \<and> ei_version ep \<noteq> 0)"

lemma read_hdr_qdcount: "read_hdr data = Some hdr \<Longrightarrow> getint16 (drop 4 data) = Some (dh_qdcount hdr, drop 6 data)"
  by (auto simp: read_hdr_def getint16_def rd_def split: bind_split_asm if_splits)

lemma decode_bad_name:
  assumes "sizeof_dns_hdr \<le> length data" "bad_first_name data"
  shows "\<exists>rc ptr sz. (rc = RC_FORMAT \<or> rc = RC_TRUNC) \<and> decode_query data junk mem = Some (rc, ptr, sz, mem, [])"
proof -
  from assms(2) obtain hdr where h: "read_hdr data = Some hdr" "dh_qdcount hdr \<noteq> 0"
    "\<not> (\<exists>n ls. has_name data sizeof_dns_hdr (length data - sizeof_dns_hdr) n ls)" by (auto simp: bad_first_name_def)
  obtain k where k: "unat (dh_qdcount hdr) = Suc k" using h(2) by (metis not0_implies_Suc unat_eq_zero)
  have l: "sizeof_dns_hdr + (length data - sizeof_dns_hdr) = length data" using assms(1) by simp
  show ?thesis
  proof (rule read_name [OF l, of junk])
    fix rc t assume "decompress_name data sizeof_dns_hdr (length data - sizeof_dns_hdr) (map junk [0..<DNSNAMEBUFSIZE]) =
        Some (rc, sizeof_dns_hdr, length data - sizeof_dns_hdr, t, None)" "rc = RC_FORMAT \<or> rc = RC_TRUNC"
    with read_hdr_qdcount [OF h(1)] k show ?thesis by (auto simp: decode_query_def rc_defs)
  qed (use h(3) in blast)
qed

lemma check_header_error:
  assumes "\<not> discarded data" "header_error data = Some rc"
  shows "check_query data junk mem = Some (Refuse rc, None)"
  using assms by (auto simp: check_query_def header_error_def discarded_def not_less split: option.splits if_splits)

lemma check_bad_name:
  assumes "\<not> discarded data" "header_error data = None" "bad_first_name data"
  shows "check_query data junk mem = Some (Refuse RC_FORMAT, None)"
proof -
  have l: "sizeof_dns_hdr \<le> length data" "\<not> length data < 2" using assms(2) by (auto simp: header_error_def sizeof_dns_hdr_def split: if_splits)
  from read_hdr_total [OF l(1)] obtain hdr where h: "read_hdr data = Some hdr" ..
  have c: "\<not> dh_qr hdr" "dh_opcode hdr = 0" "\<not> dh_z hdr" "dh_rcode hdr = RC_OK" "dh_ancount hdr = 0" "dh_nscount hdr = 0"
    using assms(1,2) l h by (auto simp: header_error_def discarded_def split: if_splits)
  from decode_bad_name [OF l(1) assms(3), of junk mem] obtain r ptr sz where
    "r = RC_FORMAT \<or> r = RC_TRUNC" "decode_query data junk mem = Some (r, ptr, sz, mem, [])" by blast
  with l h c show ?thesis by (auto simp: check_query_def rc_defs)
qed

lemma check_bad_version:
  assumes "\<not> discarded data" "header_error data = None" "bad_edns_version data junk mem"
  shows "check_query data junk mem = Some (Refuse RC_BADVERS, None)"
proof -
  have l: "sizeof_dns_hdr \<le> length data" "\<not> length data < 2" using assms(2) by (auto simp: header_error_def sizeof_dns_hdr_def split: if_splits)
  from assms(3) obtain hdr ptr sz mem' ql n ep where h: "read_hdr data = Some hdr" "dh_arcount hdr \<noteq> 0"
    "decode_query data junk mem = Some (RC_OK, ptr, sz, mem', ql)"
    "decode_query_additional data junk ptr sz (unat (dh_arcount hdr)) 0 no_edns = Some (RC_OK, n, ep)" "n \<noteq> 0" "ei_version ep \<noteq> 0"
    unfolding bad_edns_version_def by blast
  have c: "\<not> dh_qr hdr" "dh_opcode hdr = 0" "\<not> dh_z hdr" "dh_rcode hdr = RC_OK" "dh_ancount hdr = 0" "dh_nscount hdr = 0"
    using assms(1,2) l h(1) by (auto simp: header_error_def discarded_def split: if_splits)
  have "check_additional data junk hdr RC_OK ptr sz = Some (Some RC_BADVERS, None)"
    using h by (simp add: check_additional_def rc_defs)
  with l h(1,3) c show ?thesis by (simp add: check_query_def rc_defs)
qed

lemma refused_reply:
  assumes "check_query data junk mem = Some (Refuse rc, None)" "\<not> discarded data"
  shows "\<exists>a. process_query en data udp mem True junk rnd c = Some (Some a, Some rc, udp, c) \<and> take (an_sz a) (an_buf a) = error_message en data rc"
proof -
  have "2 \<le> length data" using assms(2) by (auto simp: discarded_def)
  from error_reply_step [OF this, of en junk True rc] obtain a where
    "error_reply en data junk True rc = Some (Some a)" "take (an_sz a) (an_buf a) = error_message en data rc" by auto
  with assms(1) show ?thesis by (simp add: process_query_def udp_limit_def)
qed


text \<open>A query with an OPT record of version 1.\<close>

definition version_query :: "byte list" where
  "version_query = [0xab, 0xcd, 1, 0, 0, 1, 0, 0, 0, 0, 0, 1, 0, 0, 1, 0, 1] @ [0, 0, 41, 4, 0, 0, 1, 0, 0, 0, 0]"

lemma version_query_root:
  assumes "rd version_query p = Some 0" "0 < sz"
  shows "\<exists>t. decompress_name version_query p sz (map (\<lambda>_. 0) [0..<DNSNAMEBUFSIZE]) = Some (RC_OK, p + 1, sz - 1, t, Some 1) \<and> take 1 t = [0] \<and> 1 \<le> length t"
proof -
  have "name_at version_query p 1 0 []" by (rule name_end [OF assms(1)])
  then have "has_name version_query p sz 1 []" using assms(2) by (auto simp: has_name_def)
  from decompress_name_complete [OF this, of "map (\<lambda>_. 0) [0..<DNSNAMEBUFSIZE]"] obtain t where
    t: "decompress_name version_query p sz (map (\<lambda>_. 0) [0..<DNSNAMEBUFSIZE]) = Some (RC_OK, p + 1, sz - 1, t, Some (length (wire [])))"
      "take (length (wire [])) t = wire []" by auto
  have w: "wire [] = [0]" by (simp add: wire_def)
  from t(2) have "take 1 t = [0]" by (simp add: w)
  moreover from this have "1 \<le> length t" by (cases t) auto
  ultimately show ?thesis using t(1) by (auto simp: w)
qed

lemma version_query_decodes:
  "\<exists>ql. decode_query version_query (\<lambda>_. 0) [] = Some (RC_OK, 17, 11, [], ql)"
  "\<exists>ep. decode_query_additional version_query (\<lambda>_. 0) 17 11 1 0 no_edns = Some (RC_OK, 1, ep) \<and> ei_version ep = 1"
proof -
  have l: "length version_query = 28" by (simp add: version_query_def)
  have r: "rd version_query 12 = Some 0" "rd version_query 17 = Some 0" by (simp_all add: version_query_def rd_def)
  have g: "getint16 (drop 4 version_query) = Some (1, drop 6 version_query)" "getint16 (drop 13 version_query) = Some (1, drop 15 version_query)"
    "getint16 (drop 15 version_query) = Some (1, drop 17 version_query)" "getint16 (drop 18 version_query) = Some (41, drop 20 version_query)"
    "getint16 (drop 20 version_query) = Some (0x400, drop 22 version_query)" "getint16 (drop 26 version_query) = Some (0, drop 28 version_query)"
    "rd version_query 22 = Some 0" "rd version_query 23 = Some 1" "rd version_query 24 = Some 0" "rd version_query 3 = Some 0"
    by (simp_all add: version_query_def getint16_def rd_def)
  from version_query_root [OF r(1), of 16] obtain t where
    t: "decompress_name version_query 12 16 (map (\<lambda>_. 0) [0..<DNSNAMEBUFSIZE]) = Some (RC_OK, 13, 15, t, Some 1)" "1 \<le> length t" by auto
  have "decode_query_loop (Suc 0) version_query (\<lambda>_. 0) 12 16 [] [] = Some (RC_OK, 17, 11, [], [\<lparr>qe_qtype = 1, qe_qclass = 1, qe_query = take 1 t\<rparr>])"
    unfolding decode_query_loop.simps(2) t(1) using g t(2) by (simp add: rc_defs)
  then show "\<exists>ql. decode_query version_query (\<lambda>_. 0) [] = Some (RC_OK, 17, 11, [], ql)"
    using g(1) l by (simp add: decode_query_def sizeof_dns_hdr_def)
  from version_query_root [OF r(2), of 11] obtain t' where
    t': "decompress_name version_query 17 11 (map (\<lambda>_. 0) [0..<DNSNAMEBUFSIZE]) = Some (RC_OK, 18, 10, t', Some 1)" by auto
  have "decode_query_additional version_query (\<lambda>_. 0) 17 11 (Suc 0) 0 no_edns =
      Some (RC_OK, 1, \<lparr>ei_udpsize = 0x400, ei_rcode = push_bit 4 (ucast (0 :: byte)) OR ucast (take_bit 4 0 :: byte), ei_version = ucast (1 :: byte), ei_do_flg = drop_bit 7 0 AND 1\<rparr>)"
    unfolding decode_query_additional.simps(2) t' using g by (simp add: rc_defs sizeof_rr_hdr_def)
  then show "\<exists>ep. decode_query_additional version_query (\<lambda>_. 0) 17 11 1 0 no_edns = Some (RC_OK, 1, ep) \<and> ei_version ep = 1"
    by simp
qed


subsection \<open>Reading back what was written\<close>

text \<open>
  C39: a message that holds the questions \<open>qs\<close> and states their number in its header is decoded as
  these questions (names up to case); nothing is left out or added, and the position behind them is
  the start of the next section. This includes the messages \<^verbatim>\<open>compose_answer\<close> makes, whose names are compressed.
\<close>

theorem decode_query_reads:
  assumes "body_at m qs rs" "sizeof_dns_hdr \<le> length m" "getint16 (drop 4 m) = Some (of_nat (length qs), r)" "length qs < 65536"
    and "\<And>q. q \<in> set qs \<Longrightarrow> wf_name (q_name q)"
  shows "\<exists>ql n. decode_query m junk [] = Some (RC_OK, sizeof_dns_hdr + n, length m - sizeof_dns_hdr - n, [], ql) \<and>
    list_all2 same_question ql qs \<and> seq_at q_at m sizeof_dns_hdr qs n"
proof -
  from assms(1) obtain n where n: "seq_at q_at m sizeof_dns_hdr qs n" unfolding body_at_def by blast
  have "unat (of_nat (length qs) :: u16) = length qs" using assms(4) by (simp add: unat_of_nat take_bit_nat_eq_self_iff)
  with decode_query_loop_reads [OF n _ assms(5), of "length m - sizeof_dns_hdr" junk "[]"] assms(2,3) n show ?thesis
    by (auto simp: decode_query_def)
qed

lemma version_query_body: "body_at version_query [example_question] [opt_rr 0x400 0 1 0]"
proof -
  let ?m = "take 17 version_query"
  have m: "?m = [0xab, 0xcd, 1, 0, 0, 1, 0, 0, 0, 0, 0, 1, 0, 0, 1, 0, 1]" by (simp add: version_query_def)
  have "name_at ?m 12 1 0 []" by (rule name_end) (simp add: m rd_def)
  then have "reads_at 1 (Suc 0) ?m 12 []" unfolding reads_at_def by blast
  then have q: "q_at ?m 12 example_question 5"
    unfolding q_at_def by (intro exI [of _ 1]) (simp add: example_question_def m u16_bytes_def)
  have "seq_at q_at ?m 12 [example_question] 5" using q by auto
  moreover have "length ?m = 17" by (simp add: m)
  ultimately have "body_at ?m [example_question] []"
    unfolding body_at_def sizeof_dns_hdr_def by (intro exI [of _ 5] exI [of _ 0]) simp
  moreover have "rr_at (?m @ opt_bytes 0x400 0 1 0) (length ?m) (opt_rr 0x400 0 1 0) (length (opt_bytes 0x400 0 1 0))"
    using opt_bytes_at [OF refl, of ?m] by simp
  ultimately have "body_at (?m @ opt_bytes 0x400 0 1 0) [example_question] ([] @ [opt_rr 0x400 0 1 0])" by (rule body_snoc)
  moreover have "?m @ opt_bytes 0x400 0 1 0 = version_query" by (simp add: version_query_def opt_bytes_def u16_bytes_def)
  ultimately show ?thesis by simp
qed

theorem decode_query_reads_witness:
  "\<exists>ql n. decode_query version_query (\<lambda>_. 0) [] = Some (RC_OK, sizeof_dns_hdr + n, length version_query - sizeof_dns_hdr - n, [], ql) \<and>
    list_all2 same_question ql [example_question] \<and> seq_at q_at version_query sizeof_dns_hdr [example_question] n"
  by (rule decode_query_reads [OF version_query_body, of "drop 6 version_query"])
    (simp_all add: version_query_def sizeof_dns_hdr_def getint16_def rd_def example_question_def)

text \<open>An empty reply.\<close>

definition example_answer :: answer where
  "example_answer = the (new_answer example_hdr [] (\<lambda>_. 0))"

lemma example_content: "content (answer_flags example_hdr RC_OK False) [] (\<lambda>_. []) [] example_answer" "an_mem example_answer = []"
  using new_answer_step [of example_hdr "[]" "\<lambda>_. 0" example_answer] by (simp_all add: example_answer_def new_answer_def)

text \<open>
  C4: \<^verbatim>\<open>add_rr\<close> for data that is well formed for its type never touches memory outside the message,
  passes all its assertions and, unless memory is short, adds one record: the message can be parsed as
  before with the record behind the others, its name and the names in its data read back (up to case) and never take
  more space than in full, and only the counter of its section changes in the header. Only an additional
  record that does not fit in the UDP limit is left out, and then nothing else changes.
\<close>

theorem add_rr_correct:
  fixes ttl :: u32
  assumes c: "content f qs R g a" and mem: "an_mem a = []" and wf: "wf_name nm" and ok: "rdata_ok type data ps" and dl: "length data < 65536"
    and s: "last_sect s R" and lim: "s = S_ADDITIONAL \<and> udp \<noteq> None \<longrightarrow> (nm = [] \<or> known g nm \<or> an_sz a > 0x3fff) \<and> (\<forall>ls. Nm ls \<notin> set ps)"
  defines "r \<equiv> rr_of nm type ttl ps"
  shows "\<exists>a'. add_rr (wire nm @ x) type ttl (length data) (data @ y) s udp a = Some (True, a') \<and>
    (let m = take (an_sz a') (an_buf a'); n = length (wire nm) + 10 + length data in
      body_at m qs (all_rrs R @ [r]) \<and> take sizeof_dns_hdr m = f @ counts qs (R(s := R s @ [r])) \<and>
        an_sz a' \<le> an_sz a + n \<and> (s = S_ADDITIONAL \<longrightarrow> \<not> beyond udp (an_sz a')) \<or>
      s = S_ADDITIONAL \<and> beyond udp (an_sz a + n) \<and> an_sz a' = an_sz a \<and> body_at m qs (all_rrs R) \<and> take sizeof_dns_hdr m = f @ counts qs R)"
proof -
  from add_rr_step [OF c wf ok dl s lim, of x ttl y] mem obtain a' where
    a: "add_rr (wire nm @ x) type ttl (length data) (data @ y) s udp a = Some (True, a')"
      "rr_outcome f qs R g a s udp r (length (wire nm) + 10 + length data) a'" unfolding r_def by auto
  have parse: "body_at (take (an_sz a') (an_buf a')) qs (all_rrs R') \<and> take sizeof_dns_hdr (take (an_sz a') (an_buf a')) = f @ counts qs R'"
    if "content f qs R' g' a'" for R' g'
  proof -
    have "sizeof_dns_hdr \<le> an_sz a'" "take sizeof_dns_hdr (an_buf a') = f @ counts qs R'" using that by (auto simp: content_def)
    then have "take sizeof_dns_hdr (take (an_sz a') (an_buf a')) = f @ counts qs R'" by (simp add: min_absorb1)
    then show ?thesis using that by (simp add: content_def)
  qed
  from a(2) show ?thesis unfolding rr_outcome_def
  proof (elim exE conjE disjE)
    fix g' assume h: "content f qs R g' a'" "an_sz a' = an_sz a" "s = S_ADDITIONAL" "beyond udp (an_sz a + (length (wire nm) + 10 + length data))"
    with parse [OF h(1)] a(1) show ?thesis by (intro exI [of _ a']) (simp add: Let_def)
  next
    fix g' assume h: "content f qs (R(s := R s @ [r])) g' a'" "an_sz a' \<le> an_sz a + (length (wire nm) + 10 + length data)"
      "s = S_ADDITIONAL \<longrightarrow> \<not> beyond udp (an_sz a')"
    with parse [OF h(1)] a(1) all_rrs_add [OF s] show ?thesis by (intro exI [of _ a']) (simp add: Let_def)
  qed
qed

theorem add_rr_correct_witness:
  "\<exists>a'. add_rr (wire [[97]] @ []) T_MX 60 5 ([0, 10] @ wire [[97]] @ []) S_ANSWER (Some 512) example_answer = Some (True, a') \<and>
    body_at (take (an_sz a') (an_buf a')) [] [rr_of [[97]] T_MX 60 [Lit [0, 10], Nm [[97]]]]"
proof -
  have wf: "wf_name [[97]]" by (simp add: wf_name_def wf_label_def DNSNAMEBUFSIZE_def length_wire)
  have ok: "rdata_ok T_MX ([0, 10] @ wire [[97]]) [Lit [0, 10], Nm [[97]]]" using wf by (simp add: rdata_ok_def rdata_shape_def)
  have l: "length ([0, 10] @ wire [[97 :: byte]]) = 5" by (simp add: length_wire)
  have ls: "last_sect S_ANSWER (\<lambda>_. [])" by (simp add: last_sect_def)
  have dl: "length ([0, 10] @ wire [[97 :: byte]]) < 65536" unfolding l by simp
  from add_rr_correct [OF example_content wf ok dl ls, of "Some 512" "[]" 60 "[]", unfolded l]
  show ?thesis by (auto simp: Let_def all_rrs_def)
qed

text \<open>
  C40: \<^verbatim>\<open>remove_opt_pseudo_rr\<close> undoes \<^verbatim>\<open>add_opt_pseudo_rr\<close>: it finds the OPT record at the end of the
  message and leaves the size, the counters and all bytes as they were.
\<close>

theorem opt_round_trip:
  assumes c: "content f qs R g a" and mem: "an_mem a = []" and n: "length (R S_ADDITIONAL) < 65535"
  shows "\<exists>a' b. add_opt_pseudo_rr u r v z a = Some (True, a') \<and> an_sz a' = an_sz a + sizeof_opt_pseudo_rr \<and>
    remove_opt_pseudo_rr (an_buf a') (an_sz a') = Some (an_sz a, b) \<and> take (an_sz a) b = take (an_sz a) (an_buf a)"
proof -
  let ?R = "R(S_ADDITIONAL := R S_ADDITIONAL @ [opt_rr u r v z])" and ?old = "drop sizeof_dns_hdr (take (an_sz a) (an_buf a))"
  from add_opt_step [OF c, of u r v z] mem obtain a' x where
    a: "add_opt_pseudo_rr u r v z a = Some (True, a')" "an_sz a' = an_sz a + 11" "an_buf a' = (f @ counts qs ?R) @ ?old @ opt_bytes u r v z @ x"
    by auto
  have h: "sizeof_dns_hdr \<le> an_sz a" "an_sz a \<le> length (an_buf a)" "take sizeof_dns_hdr (an_buf a) = f @ counts qs R" "length f = 4"
    using c by (auto simp: content_def built_def)
  let ?p = "f @ u16_bytes (of_nat (length qs)) @ u16_bytes (of_nat (length (R S_ANSWER))) @ u16_bytes (of_nat (length (R S_AUTHORITY)))"
  let ?k = "of_nat (length (R S_ADDITIONAL)) :: u16"
  have lp: "length ?p = 10" using h(4) by simp
  have lo: "length ?old = an_sz a - sizeof_dns_hdr" using h(2) by simp
  have b: "an_buf a' = ?p @ u16_bytes (?k + 1) @ ?old @ opt_bytes u r v z @ x" using a(3) by (simp add: counts_def add.commute)
  have d10: "drop 10 (an_buf a') = u16_bytes (?k + 1) @ ?old @ opt_bytes u r v z @ x" unfolding b using lp by simp
  then have 1: "getint16 (drop 10 (an_buf a')) = Some (?k + 1, ?old @ opt_bytes u r v z @ x)" by simp
  have "unat (of_nat (length (R S_ADDITIONAL) + 1) :: u16) = length (R S_ADDITIONAL) + 1"
    unfolding unat_of_nat using n by (simp add: take_bit_nat_eq_self_iff)
  then have "unat (?k + 1) = length (R S_ADDITIONAL) + 1" by (simp add: add.commute)
  then have kp: "?k + 1 > 0" by (simp add: word_less_nat_alt)
  have ds: "drop (an_sz a) (an_buf a') = opt_bytes u r v z @ x"
  proof -
    have "an_sz a = length (?p @ u16_bytes (?k + 1) @ ?old)" using lp lo h(1) by (simp add: sizeof_dns_hdr_def)
    then show ?thesis unfolding b by (metis append.assoc append_eq_conv_conj)
  qed
  have le: "an_sz a + 11 \<le> length (an_buf a')" using arg_cong [OF ds, of length] by (simp add: opt_bytes_def)
  have o: "opt_bytes u r v z = [0] @ u16_bytes 41 @ u16_bytes u @ [ucast (drop_bit 4 r), ucast v] @ u16_bytes z @ u16_bytes 0" by (simp add: opt_bytes_def)
  have 2: "rd (an_buf a') (an_sz a) = Some 0" using arg_cong [OF ds, of "\<lambda>l. l ! 0"] le by (simp add: rd_def o)
  have "drop (an_sz a + 1) (an_buf a') = drop 1 (opt_bytes u r v z @ x)" by (simp add: ds [symmetric] add.commute)
  then have 3: "getint16 (drop (an_sz a + 1) (an_buf a')) = Some (41, u16_bytes u @ [ucast (drop_bit 4 r), ucast v] @ u16_bytes z @ u16_bytes 0 @ x)"
    by (simp add: o)
  let ?b = "take 10 (an_buf a') @ u16_bytes ?k @ drop 12 (an_buf a')"
  have 4: "putint16 ?k (an_buf a') 10 = Some (?b, 12)" using le h(1) by (subst putint16_bytes) (simp_all add: sizeof_dns_hdr_def)
  have rem: "remove_opt_pseudo_rr (an_buf a') (an_sz a') = Some (an_sz a, ?b)"
    unfolding remove_opt_pseudo_rr_def 1 using kp a(2) h(1) 2 3 4 by (simp add: sizeof_opt_pseudo_rr_def sizeof_rr_hdr_def)
  have "take (an_sz a) ?b = take (an_sz a) (an_buf a)"
  proof -
    have "?b = ?p @ u16_bytes ?k @ ?old @ opt_bytes u r v z @ x" unfolding b using lp by simp
    also have "\<dots> = (f @ counts qs R) @ ?old @ opt_bytes u r v z @ x" by (simp add: counts_def)
    also have "\<dots> = take sizeof_dns_hdr (an_buf a) @ ?old @ opt_bytes u r v z @ x" unfolding h(3) ..
    also have "\<dots> = take (an_sz a) (an_buf a) @ opt_bytes u r v z @ x"
      using append_take_drop_id [of sizeof_dns_hdr "take (an_sz a) (an_buf a)"] h(1) by (simp add: min_absorb1)
    finally show ?thesis using h(2) by simp
  qed
  with a(1,2) rem show ?thesis by (auto simp: sizeof_opt_pseudo_rr_def sizeof_rr_hdr_def)
qed

theorem opt_round_trip_witness:
  "\<exists>a' b. add_opt_pseudo_rr 1024 16 0 0 example_answer = Some (True, a') \<and> an_sz a' = an_sz example_answer + sizeof_opt_pseudo_rr \<and>
    remove_opt_pseudo_rr (an_buf a') (an_sz a') = Some (an_sz example_answer, b) \<and> take (an_sz example_answer) b = take (an_sz example_answer) (an_buf example_answer)"
  by (rule opt_round_trip [OF example_content]) simp

end
