(* ===== verification/Spec2Isabelle.thy ===== *)
theory Spec2Isabelle
  imports Cache_Lock Text_Out Dyn_List Name_Text Compress_Roundtrip Consts Loc_Text Answer_Results
begin

text \<open>
  Verification of \<^verbatim>\<open>pdnsd\<close>, the caching DNS server in
  \<^verbatim>\<open>src/orbotservice/src/main/jni/pdnsd/src\<close>.

  \<^bold>\<open>The program.\<close> \<^verbatim>\<open>pdnsd\<close> receives DNS queries from clients over UDP and TCP
  (\<^verbatim>\<open>dns_answer.c\<close>). A query is decoded (\<^verbatim>\<open>decode_query\<close>), each question is looked up by
  \<^verbatim>\<open>dns_cached_resolve\<close> (\<^verbatim>\<open>dns_query.c\<close>) in the cache (\<^verbatim>\<open>cache.c\<close>) and otherwise asked of other
  servers, whose records are put into the cache, and the answer is composed from the cache entries
  (\<^verbatim>\<open>compose_answer\<close>). The cache is a set of entries (\<^verbatim>\<open>dns_cent_t\<close>), one for each name, found through
  a hash table (\<^verbatim>\<open>hash.c\<close>), whose RR sets are also on one list ordered by age from which the oldest are
  purged when the cache is full; a read/write lock guards it. Names are kept in the length-byte format of
  the messages (\<^verbatim>\<open>helpers.c\<close>) and are compressed and decompressed in messages (\<^verbatim>\<open>dns.c\<close>).

  \<^bold>\<open>Conventions.\<close> The build modelled is that of an LP64 target with \<^verbatim>\<open>ENABLE_IPV4\<close>, \<^verbatim>\<open>DEBUG\<close> and
  \<^verbatim>\<open>ALLOW_LOCAL_AAAA\<close>. Bytes and unsigned integers whose width matters are words; a pointer into an array
  is the bytes from there to the end of the array, or an index. An access outside an object, a failed
  assertion, the use of freed memory and signed overflow are \<^term>\<open>None\<close>, so that a theorem that a
  function gives \<^term>\<open>Some x\<close> includes its safety. Functions that change state return the new state;
  error codes and null pointers are values of the result. Messages for the log and debug output are
  left out of the definitions.

  \<^bold>\<open>Theories.\<close>
  \<^item> \<open>Prelude\<close>: types, reads and writes of arrays, the case mapping of ASCII, collections of rules.
  \<^item> \<open>Names\<close>, \<open>Name_Text\<close>: \<^verbatim>\<open>helpers.c\<close>. \<open>Names\<close> has lists of labels as the abstract view of a name
    (\<open>wire\<close> is the format), and \<^verbatim>\<open>rhnlen\<close>, \<^verbatim>\<open>rhncpy\<close>, \<^verbatim>\<open>rhnicmp\<close> and the like; \<open>Name_Text\<close> has \<^verbatim>\<open>str2rhn\<close>,
    \<^verbatim>\<open>parsestr2rhn\<close>, \<^verbatim>\<open>rhn2str\<close>, shown to accept exactly the text forms of names, to stay inside every
    buffer, and to be inverse to each other.
  \<^item> \<open>Decompress\<close>, \<open>Compress\<close>, \<open>Compress_Roundtrip\<close>: \<^verbatim>\<open>decompress_name\<close>, \<^verbatim>\<open>domain_match\<close>, \<^verbatim>\<open>compress_name\<close> of
    \<^verbatim>\<open>dns.c\<close>. The relation \<open>name_at\<close> is the meaning of RFC 1035; decompression computes it, and
    what \<^verbatim>\<open>compress_name\<close> writes is read back.
  \<^item> \<open>Dns_Wire\<close>: the integer macros and the bit fields of the header of \<^verbatim>\<open>dns.h\<close>, the display
    functions of \<^verbatim>\<open>dns.c\<close>.
  \<^item> \<open>Rr_Types\<close>, \<open>Loc_Text\<close>: the tables of \<^verbatim>\<open>rr_types.h\<close>, and \<^verbatim>\<open>loc2str\<close> of \<^verbatim>\<open>rr_types.c\<close>.
  \<^item> \<open>Consts\<close>: the dictionaries of \<^verbatim>\<open>consts.c\<close> and \<^verbatim>\<open>conf-keywords.h\<close> and the binary search over them.
  \<^item> \<open>Dyn_List\<close>: the containers of \<^verbatim>\<open>list.c\<close> and \<^verbatim>\<open>list.h\<close>; the \<^verbatim>\<open>dlist\<close>, items of different sizes in one
    block of memory, implements a sequence.
  \<^item> \<open>Text_Out\<close>: \<^verbatim>\<open>hexdump\<close>, \<^verbatim>\<open>escapestr\<close>, \<^verbatim>\<open>write_all\<close> and other helpers of \<^verbatim>\<open>helpers.c\<close>.
  \<^item> \<open>Name_Hash\<close>: \<^verbatim>\<open>hash.c\<close>. The 1024 chains ordered by the long hash implement a map from names, without
    regard to case.
  \<^item> \<open>Cache_Data\<close>, \<open>Cache_List\<close>, \<open>Cache_Cent\<close>: entries, RR sets and the list by age, with the record
    \<open>cache\<close> (heap of entries, heap of list nodes, table, sizes, outcomes of \<^verbatim>\<open>malloc\<close>), and what each
    operation does to one entry.
  \<^item> \<open>Cache_Ops\<close>, \<open>Cache_Add\<close>: the operations on the whole cache as the code has them:
    \<^verbatim>\<open>purge_cent\<close>, \<^verbatim>\<open>purge_cache\<close>, \<^verbatim>\<open>add_cache\<close>, \<^verbatim>\<open>lookup_cache\<close> and what they call.
  \<^item> \<open>Cache_Inv\<close>, \<open>Cache_Purge\<close>, \<open>Cache_Walk\<close>, \<open>Cache_Merge\<close>, \<open>Cache_Store\<close>, \<open>Cache_Lookup\<close>: the invariant
    of the cache (entries, table and list agree, the sizes are right, nothing is leaked) and that the
    operations preserve it and do what they are for.
  \<^item> \<open>Cache_Lock\<close>: the lock of \<^verbatim>\<open>cache.c\<close> with its threads as a step relation; exclusion and
    progress in every reachable state.
  \<^item> \<open>Answer_Msg\<close>, \<open>Answer_Rdata\<close>, \<open>Answer_Rr\<close>: \<^verbatim>\<open>add_rr\<close>, \<^verbatim>\<open>add_opt_pseudo_rr\<close>, \<^verbatim>\<open>remove_opt_pseudo_rr\<close> of
    \<^verbatim>\<open>dns_answer.c\<close>, on the record \<open>answer\<close> (the block of the message, its size, the compression buffer).
    \<open>content\<close> says which questions and records a message holds; adding a record adds it there.
  \<^item> \<open>Answer_Build\<close>, \<open>Answer_Compose\<close>: \<^verbatim>\<open>compose_answer\<close> and the functions that fill the sections, on the
    record \<open>reply\<close> (the message, the lists \<^verbatim>\<open>sva\<close> and \<^verbatim>\<open>ar\<close>, the cache).
  \<^item> \<open>Answer_Inv\<close>, \<open>Answer_Sections\<close>, \<open>Answer_Additional\<close>, \<open>Answer_Questions\<close>, \<open>Answer_Resolve\<close>,
    \<open>Answer_Reply\<close>: the invariant \<open>rp_inv\<close> of a reply under construction (the header counts what the
    message holds, and all that is on the lists is well formed), what each step adds, and the
    specification of the whole reply: \<open>chain\<close> is the answer to a question along CNAME records,
    \<open>complete_reply\<close> and \<open>failed_reply\<close> the two outcomes.
  \<^item> \<open>Answer_Query\<close>, \<open>Answer_Results\<close>: \<^verbatim>\<open>decode_query\<close>, \<^verbatim>\<open>decode_query_additional\<close>, \<^verbatim>\<open>mk_error_reply\<close>,
    \<^verbatim>\<open>process_query\<close>, and the results on answering, down to instances on concrete messages.

  \<^bold>\<open>Interfaces.\<close> The locale \<open>dictionary\<close> (in \<open>Consts\<close>) is what the binary search relies on; it is
  interpreted for each of the keyword tables. The locale \<open>name_index\<close> (in \<open>Name_Hash\<close>) is what the
  cache relies on in the hash table; it is interpreted with the operations of \<^verbatim>\<open>hash.c\<close>, and the refinement
  of a map by the table is its theorem.

  \<^bold>\<open>Parameters.\<close> \<open>en_resolve\<close> stands for \<^verbatim>\<open>dns_cached_resolve\<close> and \<open>en_others\<close> for what other threads do
  to the cache while a query waits; \<open>env_ok\<close> asks of them that they leave the cache well formed, return a
  well-formed entry and, when they fail, a code other than \<^verbatim>\<open>RC_OK\<close>. The outcomes of allocations are a list
  (all succeed once it is used up), and so are the values of \<^verbatim>\<open>random()\<close>; memory that was not written
  has arbitrary content; \<^verbatim>\<open>time(NULL)\<close> has one value for an operation.

  \<^bold>\<open>Bounds and termination.\<close> All definitions are total. Decompression ends because every pointer leads to a
  lower offset and at most 255 bytes of a name are written. \<^verbatim>\<open>add_cache\<close> is repeated at
  most once, because after a retry the entry it found is gone or replaced. A question is followed through at
  most \<^verbatim>\<open>MAX_HOPS\<close> + 1 = 21 entries, as in the code, and the loops over entries, buckets, list nodes and
  records run over finite structures; the iteration counts that stand for \<^verbatim>\<open>while\<close> loops over linked
  lists are the numbers of nodes, and the theorems show that the loops end before them.

  \<^bold>\<open>Not modelled.\<close>
  \<^item> Of \<^verbatim>\<open>cache.c\<close>: reading and writing the disk cache and the dumps and statistics, which are file I/O. Of
    \<^verbatim>\<open>dns.c\<close>: the hosts file (line-wise text input) and \<^verbatim>\<open>debug_dump_dns_msg\<close>. Of \<^verbatim>\<open>helpers.c\<close>: the
    random number generators and replacements of stdio functions.
  \<^item> \<^verbatim>\<open>dns_query.c\<close>, queries to other servers, a state machine around sockets and \<^verbatim>\<open>poll\<close>; answering
    needs only the contract \<open>env_ok\<close>.
  \<^item> The threads and sockets of \<^verbatim>\<open>dns_answer.c\<close> (behind \<^verbatim>\<open>process_query\<close>), \<^verbatim>\<open>servers.c\<close>, \<^verbatim>\<open>icmp.c\<close>,
    \<^verbatim>\<open>netdev.c\<close>, \<^verbatim>\<open>status.c\<close>, \<^verbatim>\<open>main.c\<close>, \<^verbatim>\<open>thread.c\<close>, \<^verbatim>\<open>error.c\<close>, \<^verbatim>\<open>pdnsd-ctl.c\<close>: calls of the operating system.
  \<^item> \<^verbatim>\<open>conf-parser.c\<close>, \<^verbatim>\<open>conff.c\<close>: the configuration file, of which only the keyword tables are modelled.
\<close>

end
